(* ===== verification/Krio_Prelude.thy ===== *)
theory Krio_Prelude
  imports Main "HOL-Library.Multiset" "HOL-Library.Word" "HOL-Library.Monad_Syntax"
begin

text \<open>
  Shared vocabulary of the development: the machine integers the crates use, the parts of the
  Rust standard library they call (\<open>Vec::swap_remove\<close>, \<open>usize::next_power_of_two\<close>), and the
  generic facts on lists, options and words that several components need.

  A computation that can panic has a result in \<open>'a option\<close>, with \<open>None\<close> for the panic, and is
  composed with the \<open>do\<close> notation of \<open>Monad_Syntax\<close>.
\<close>

type_synonym u32 = "32 word"
type_synonym u64 = "64 word"

named_theorems krio_mset "multiset conservation facts"
named_theorems krio_inv "preservation of component invariants"

section \<open>Vectors\<close>

text \<open>
  \<open>Vec::swap_remove(i)\<close> moves the last element into slot \<open>i\<close> and panics when \<open>i\<close> is out of range.
\<close>

definition swap_remove :: "nat \<Rightarrow> 'a list \<Rightarrow> 'a list option" where
  "swap_remove i xs = (if i < length xs then Some (butlast (xs[i := last xs])) else None)"

text \<open>A loop that calls \<open>swap_remove\<close> for each index of a list, in the list's order.\<close>

fun swap_remove_all :: "nat list \<Rightarrow> 'a list \<Rightarrow> 'a list option" where
  "swap_remove_all [] xs = Some xs"
| "swap_remove_all (i # is) xs = do { ys \<leftarrow> swap_remove i xs; swap_remove_all is ys }"

text \<open>Assigning through \<open>&mut xs[i]\<close> or writing \<open>xs[i] = v\<close>, which panics out of range.\<close>

definition set_nth :: "nat \<Rightarrow> 'a \<Rightarrow> 'a list \<Rightarrow> 'a list option" where
  "set_nth i v xs = (if i < length xs then Some (xs[i := v]) else None)"

definition get_nth :: "nat \<Rightarrow> 'a list \<Rightarrow> 'a option" where
  "get_nth i xs = (if i < length xs then Some (xs ! i) else None)"

lemma get_nth_Some [simp]: "get_nth i xs = Some v \<longleftrightarrow> i < length xs \<and> xs ! i = v"
  by (auto simp: get_nth_def)

lemma set_nth_Some [simp]: "set_nth i v xs = Some ys \<longleftrightarrow> i < length xs \<and> ys = xs[i := v]"
  by (auto simp: set_nth_def)

lemma swap_remove_Some: "swap_remove i xs = Some ys \<longleftrightarrow> i < length xs \<and> ys = butlast (xs[i := last xs])"
  by (auto simp: swap_remove_def)

lemma swap_remove_append:
  assumes "i < length xs"
  shows "swap_remove i (xs @ [z]) = Some (xs[i := z])"
  using assms by (simp add: swap_remove_def list_update_append)

lemma swap_remove_last [simp]: "swap_remove (length xs) (xs @ [z]) = Some xs"
  by (simp add: swap_remove_def)

lemma mset_swap_remove [krio_mset]:
  assumes "swap_remove i xs = Some ys"
  shows "add_mset (xs ! i) (mset ys) = mset xs"
proof -
  from assms have i: "i < length xs" by (simp add: swap_remove_Some)
  then obtain us z where xs: "xs = us @ [z]" by (cases xs rule: rev_cases) auto
  show ?thesis
  proof (cases "i = length us")
    case True
    with assms xs show ?thesis by simp
  next
    case False
    with i xs have "i < length us" by simp
    moreover from this have "add_mset (us ! i) (mset us - {#us ! i#}) = mset us" by simp
    ultimately show ?thesis
      using assms xs by (auto simp: swap_remove_append mset_update nth_append add_mset_commute)
  qed
qed

lemma swap_remove_prefix:
  assumes "swap_remove i xs = Some ys" and "j < i"
  shows "j < length ys" and "ys ! j = xs ! j"
  using assms by (auto simp: swap_remove_Some nth_butlast)

lemma length_swap_remove: "swap_remove i xs = Some ys \<Longrightarrow> length ys = length xs - 1"
  by (auto simp: swap_remove_Some)

text \<open>
  Removing strictly decreasing positions one by one never panics and takes away exactly the
  elements that stood at those positions: a removal only disturbs positions above the next one.
\<close>

lemma swap_remove_all_decreasing:
  assumes "sorted_wrt (>) is" and "\<forall>i\<in>set is. i < length xs"
  shows "\<exists>ys. swap_remove_all is xs = Some ys \<and> mset ys + mset (map ((!) xs) is) = mset xs"
  using assms
proof (induction "is" arbitrary: xs)
  case Nil
  then show ?case by simp
next
  case (Cons i js)
  from Cons.prems have "i < length xs" by simp
  then obtain zs where zs: "swap_remove i xs = Some zs" by (auto simp: swap_remove_def)
  have below: "\<forall>j\<in>set js. j < i" using Cons.prems by simp
  then have "\<forall>j\<in>set js. j < length zs" using swap_remove_prefix(1) [OF zs] by blast
  with Cons.IH [of zs] Cons.prems obtain ys where
    ys: "swap_remove_all js zs = Some ys" "mset ys + mset (map ((!) zs) js) = mset zs"
    by auto
  have "map ((!) zs) js = map ((!) xs) js" using below swap_remove_prefix(2) [OF zs] by simp
  with ys mset_swap_remove [OF zs] zs show ?case by auto
qed

section \<open>Options\<close>

lemma bind_Some_iff [simp]: "Option.bind m f = Some y \<longleftrightarrow> (\<exists>x. m = Some x \<and> f x = Some y)"
  by (cases m) auto

section \<open>Powers of two\<close>

text \<open>\<open>usize::next_power_of_two\<close>: the least power of two that is not below \<open>n\<close>.\<close>

fun next_power_of_two_from :: "nat \<Rightarrow> nat \<Rightarrow> nat \<Rightarrow> nat" where
  "next_power_of_two_from 0 p n = p"
| "next_power_of_two_from (Suc k) p n = (if n \<le> p then p else next_power_of_two_from k (2 * p) n)"

definition next_power_of_two :: "nat \<Rightarrow> nat" where
  "next_power_of_two n = next_power_of_two_from n 1 n"

lemma next_power_of_two_from_ge: "n \<le> p + k \<Longrightarrow> 0 < p \<Longrightarrow> n \<le> next_power_of_two_from k p n"
  by (induction k p n rule: next_power_of_two_from.induct) auto

lemma next_power_of_two_from_power: "\<exists>j. next_power_of_two_from k (2 ^ i) n = 2 ^ j"
proof (induction k arbitrary: i)
  case 0
  show ?case by auto
next
  case (Suc k)
  from Suc.IH [of "Suc i"] show ?case by auto
qed

lemma next_power_of_two_ge: "n \<le> next_power_of_two n"
  by (simp add: next_power_of_two_def next_power_of_two_from_ge)

lemma next_power_of_two_power: "\<exists>j. next_power_of_two n = 2 ^ j"
  using next_power_of_two_from_power [of n 0 n] by (simp add: next_power_of_two_def)

lemma next_power_of_two_from_least:
  "(\<forall>j. n \<le> 2 ^ j \<longrightarrow> 2 ^ i \<le> (2 ^ j :: nat)) \<Longrightarrow> n \<le> 2 ^ m \<Longrightarrow> next_power_of_two_from k (2 ^ i) n \<le> 2 ^ m"
proof (induction k arbitrary: i)
  case 0
  then show ?case by simp
next
  case (Suc k)
  show ?case
  proof (cases "n \<le> 2 ^ i")
    case True
    with Suc.prems show ?thesis by simp
  next
    case False
    have "\<forall>j. n \<le> 2 ^ j \<longrightarrow> 2 ^ Suc i \<le> (2 ^ j :: nat)"
    proof (intro allI impI)
      fix j assume "n \<le> 2 ^ j"
      with False have "(2::nat) ^ i < 2 ^ j" by linarith
      then have "Suc i \<le> j" by simp
      then show "2 ^ Suc i \<le> (2 ^ j :: nat)" by (intro power_increasing) auto
    qed
    with Suc.IH [of "Suc i"] Suc.prems(2) False show ?thesis by simp
  qed
qed

lemma next_power_of_two_least: "n \<le> 2 ^ m \<Longrightarrow> next_power_of_two n \<le> 2 ^ m"
  using next_power_of_two_from_least [of n 0 m n] by (simp add: next_power_of_two_def)

section \<open>Wrapping indices\<close>

text \<open>
  An index that counts through an integer range and is stored in a word: its signed difference to
  a nearby index is exact, its low bits are the residue, and two nearby indices with the same
  word are equal.
\<close>

unbundle bit_operations_syntax

lemma sint_of_int_small:
  assumes "- (2 ^ (LENGTH('w) - 1)) \<le> k" and "k < 2 ^ (LENGTH('w) - 1)"
  shows "sint (of_int k :: 'w::len word) = k"
  using assms by (simp add: sint_sbintrunc' signed_take_bit_int_eq_self)

lemma unat_of_int_and_mask:
  assumes "c \<le> LENGTH('w)"
  shows "unat (of_int i AND mask c :: 'w::len word) = nat (i mod 2 ^ c)"
proof -
  have "uint (of_int i AND mask c :: 'w word) = take_bit c i"
    using assms by (simp only: and_mask_wi uint_word_of_int_eq take_bit_take_bit) (simp add: min_def)
  then show ?thesis by (metis nat_uint_eq take_bit_eq_mod)
qed

lemma mod_window_inj:
  fixes i j m :: int
  assumes "i mod m = j mod m" and "\<bar>i - j\<bar> < m"
  shows "i = j"
proof (rule ccontr)
  assume "i \<noteq> j"
  from assms(1) have "m dvd i - j" by (simp add: mod_eq_dvd_iff)
  with \<open>i \<noteq> j\<close> have "\<bar>m\<bar> \<le> \<bar>i - j\<bar>" by (intro dvd_imp_le_int) auto
  with assms(2) show False by simp
qed

lemma of_int_word_window_inj:
  assumes "(of_int i :: 'w::len word) = of_int j" and "\<bar>i - j\<bar> < 2 ^ LENGTH('w)"
  shows "i = j"
proof -
  from assms(1) have "i mod 2 ^ LENGTH('w) = j mod 2 ^ LENGTH('w)"
    by (simp add: word_of_int_eq_iff take_bit_eq_mod)
  then show ?thesis using assms(2) by (rule mod_window_inj)
qed

lemma int_le_power: "n \<le> 2 ^ c \<Longrightarrow> int n \<le> 2 ^ c"
  by (metis of_nat_le_iff of_nat_numeral of_nat_power)
lemma int_less_power: "n < 2 ^ c \<Longrightarrow> int n < 2 ^ c"
  by (metis of_nat_less_iff of_nat_numeral of_nat_power)

section \<open>Families indexed by an initial segment\<close>

lemma sum_fun_upd:
  fixes g :: "'a \<Rightarrow> nat" and i n :: nat
  assumes "i < n"
  shows "(\<Sum>j<n. g ((f(i := v)) j)) + g (f i) = (\<Sum>j<n. g (f j)) + g v"
proof -
  have "(\<Sum>j<n. g ((f(i := v)) j)) = (\<Sum>j\<in>{..<n} - {i}. g (f j)) + g v"
    using assms by (subst sum.remove [of _ i]) (auto intro: sum.cong)
  moreover have "(\<Sum>j<n. g (f j)) = (\<Sum>j\<in>{..<n} - {i}. g (f j)) + g (f i)"
    using assms by (subst sum.remove [of _ i]) auto
  ultimately show ?thesis by simp
qed

lemma indicators_full:
  fixes i j n :: nat
  assumes "n - 1 \<le> (\<Sum>j<n. if P j then 1 else 0 :: nat)" and "i < n" and "\<not> P i" and "j < n" and "j \<noteq> i"
  shows "P j"
proof (rule ccontr)
  assume "\<not> P j"
  have "(\<Sum>j<n. if P j then 1 else 0 :: nat) = card {j. j < n \<and> P j}"
    by (simp add: sum.If_cases Int_def)
  also have "\<dots> \<le> card ({..<n} - {i, j})"
    using assms(3) \<open>\<not> P j\<close> by (intro card_mono) auto
  also have "\<dots> = n - 2"
    using assms by (subst card_Diff_subset) auto
  finally show False using assms by linarith
qed

lemma ex_upd: "P (f i) = P v \<Longrightarrow> (\<exists>j<n. P ((f(i := v)) j)) = (\<exists>j<n. P (f j))"
  for i n :: nat
  by (metis fun_upd_apply)

lemma sum_list_update:
  fixes f :: "'a \<Rightarrow> 'b multiset"
  assumes "i < length xs"
  shows "(\<Sum>x\<leftarrow>xs[i := y]. f x) + f (xs ! i) = (\<Sum>x\<leftarrow>xs. f x) + f y"
  using assms
proof (induction xs arbitrary: i)
  case (Cons x xs)
  then show ?case by (cases i) (auto simp: ac_simps)
qed simp

end
