(* ===== verification/Krio_Core.thy ===== *)
theory Krio_Core
  imports Krio_Prelude
begin

text \<open>
  Vocabulary of \<open>crates/krio-core/src/lib.rs\<close>: why a task stopped running, the marker categories
  of the transforms, and task identities. A task is a value of a type \<open>'t\<close> together with its
  \<open>Task::step\<close>, a function that advances the task in a world \<open>'w\<close> of host state and either
  panics (\<open>None\<close>) or returns the suspension, the advanced task and the new world.
\<close>

datatype marker =
  RegionBegin | RegionEnd | CoroutineBegin | CoroutineEnd | MYield | GuardedRecv | ProducingSend

datatype suspension = Completed | Yielded | Pending

fun is_done :: "suspension \<Rightarrow> bool" where
  "is_done Completed = True"
| "is_done _ = False"

lemma is_done_iff [simp]: "is_done s \<longleftrightarrow> s = Completed"
  by (cases s) auto

type_synonym ('t, 'w) task_step = "'t \<Rightarrow> 'w \<Rightarrow> (suspension \<times> 't \<times> 'w) option"

datatype task_id = TaskId (task_num: u64)

definition task_none :: task_id where
  "task_none = TaskId 0"

definition is_task :: "task_id \<Rightarrow> bool" where
  "is_task t \<longleftrightarrow> task_num t \<noteq> 0"

lemma is_task_iff: "is_task t \<longleftrightarrow> t \<noteq> task_none"
  by (cases t) (simp add: is_task_def task_none_def)

text \<open>
  Tasks that complete within a number of steps given by a rank that every step decreases: a live task can be
  stepped, and it stays live, at a lower rank, unless the step completes it.
\<close>

definition completes_within :: "('t, 'w) task_step \<Rightarrow> ('t \<Rightarrow> bool) \<Rightarrow> ('t \<Rightarrow> nat) \<Rightarrow> bool" where
  "completes_within step live rank \<longleftrightarrow> (\<forall>t w. live t \<longrightarrow>
     (\<exists>s t' w'. step t w = Some (s, t', w') \<and> (s \<noteq> Completed \<longrightarrow> live t' \<and> rank t' < rank t)))"

lemma completes_withinD:
  assumes "completes_within step live rank" and "live t" and "step t w = Some (s, t', w')" and "s \<noteq> Completed"
  shows "live t'" and "rank t' < rank t"
proof -
  from assms(1,2) have "\<exists>s t' w'. step t w = Some (s, t', w') \<and> (s \<noteq> Completed \<longrightarrow> live t' \<and> rank t' < rank t)"
    unfolding completes_within_def by blast
  with assms(3,4) show "live t'" and "rank t' < rank t" by auto
qed

lemma completes_within_returns: "completes_within step live rank \<Longrightarrow> live t \<Longrightarrow> step t w \<noteq> None"
  unfolding completes_within_def by fastforce

text \<open>
  The contract of \<open>Task::step\<close> for tasks that share a world. A task is held by its identity (the scheduler of
  krio-runtime boxes its tasks), its state is part of the world. A live task can be stepped; the step ends it or
  lowers its rank, and leaves alone the tasks that are apart from it. Stepping a task after \<open>Completed\<close> is a
  programming error, on which the implementations panic; a scheduler relies on the contract to avoid it.
\<close>

locale shared_tasks =
  fixes step :: "('t, 'w) task_step" and live ended :: "'t \<Rightarrow> 'w \<Rightarrow> bool" and rank :: "'t \<Rightarrow> 'w \<Rightarrow> nat" and apart :: "'t \<Rightarrow> 't \<Rightarrow> bool"
  assumes step_live: "live t w \<Longrightarrow> \<exists>s w'. step t w = Some (s, t, w') \<and>
      (if s = Completed then ended t w' else live t w' \<and> rank t w' < rank t w)"
    and step_apart: "live t w \<Longrightarrow> step t w = Some (s, t', w') \<Longrightarrow> apart t u \<Longrightarrow>
      (live u w \<longrightarrow> live u w' \<and> rank u w' = rank u w) \<and> (ended u w \<longrightarrow> ended u w')"

end
