(* ===== verification/Krio_Runtime.thy ===== *)
theory Krio_Runtime
  imports Krio_Core
begin

text \<open>
  \<open>crates/krio-runtime/src/lib.rs\<close>: the round-robin scheduler, and the vocabulary of parallel
  scheduling (agents, roles, budgets, drive outcomes).

  A scheduler owns a vector of tasks. One \<open>tick\<close> steps every task in vector order, collects the
  indices of the completed ones, and removes those with \<open>swap_remove\<close> from the back.
\<close>

section \<open>The round-robin scheduler\<close>

record 't round_robin =
  rr_tasks :: "'t list"

definition rr_new :: "'t round_robin" where
  "rr_new = \<lparr>rr_tasks = []\<rparr>"

definition rr_with_capacity :: "nat \<Rightarrow> 't round_robin" where
  "rr_with_capacity cap = \<lparr>rr_tasks = []\<rparr>"

definition rr_default :: "'t round_robin" where
  "rr_default = rr_new"

definition rr_spawn :: "'t \<Rightarrow> 't round_robin \<Rightarrow> 't round_robin" where
  "rr_spawn t s = s\<lparr>rr_tasks := rr_tasks s @ [t]\<rparr>"

definition rr_task_count :: "'t round_robin \<Rightarrow> nat" where
  "rr_task_count s = length (rr_tasks s)"

text \<open>The stepping loop: \<open>for (i, task) in tasks.iter_mut().enumerate()\<close>.\<close>

fun rr_step_from :: "('t, 'w) task_step \<Rightarrow> nat \<Rightarrow> 't list \<Rightarrow> 'w \<Rightarrow> ('t list \<times> nat list \<times> 'w) option" where
  "rr_step_from step i [] w = Some ([], [], w)"
| "rr_step_from step i (t # ts) w = do {
     (s, t', w1) \<leftarrow> step t w;
     (ts', rm, w2) \<leftarrow> rr_step_from step (Suc i) ts w1;
     Some (t' # ts', if s = Completed then i # rm else rm, w2) }"

definition rr_tick :: "('t, 'w) task_step \<Rightarrow> 't round_robin \<Rightarrow> 'w \<Rightarrow> (bool \<times> 't round_robin \<times> 'w) option" where
  "rr_tick step s w =
     (if rr_tasks s = [] then Some (False, s, w)
      else do {
        (ts, rm, w') \<leftarrow> rr_step_from step 0 (rr_tasks s) w;
        ts' \<leftarrow> swap_remove_all (rev rm) ts;
        Some (ts' \<noteq> [], s\<lparr>rr_tasks := ts'\<rparr>, w') })"

text \<open>
  \<open>while self.tick() {}\<close>. The outer \<open>None\<close> is a loop that does not end, the inner one a panic.
\<close>

partial_function (option) rr_run_to_completion ::
  "('t, 'w) task_step \<Rightarrow> 't round_robin \<Rightarrow> 'w \<Rightarrow> ('t round_robin \<times> 'w) option option" where
  "rr_run_to_completion step s w =
     (case rr_tick step s w of
        None \<Rightarrow> Some None
      | Some (alive, s', w') \<Rightarrow>
          if alive then rr_run_to_completion step s' w' else Some (Some (s', w')))"

section \<open>What a tick does\<close>

text \<open>
  The reference: every task stepped once, left to right, each in the world its predecessor left.
\<close>

fun step_each :: "('t, 'w) task_step \<Rightarrow> 't list \<Rightarrow> 'w \<Rightarrow> ((suspension \<times> 't) list \<times> 'w) option" where
  "step_each step [] w = Some ([], w)"
| "step_each step (t # ts) w = do {
     (s, t', w1) \<leftarrow> step t w;
     (rs, w2) \<leftarrow> step_each step ts w1;
     Some ((s, t') # rs, w2) }"

definition survivors :: "(suspension \<times> 't) list \<Rightarrow> 't list" where
  "survivors rs = map snd (filter (\<lambda>r. fst r \<noteq> Completed) rs)"

definition completed_at :: "nat \<Rightarrow> (suspension \<times> 't) list \<Rightarrow> nat list" where
  "completed_at k rs = map ((+) k) (filter (\<lambda>i. fst (rs ! i) = Completed) [0..<length rs])"

lemma completed_at_Nil [simp]: "completed_at k [] = []"
  by (simp add: completed_at_def)

lemma completed_at_Cons [simp]:
  "completed_at k (r # rs) = (if fst r = Completed then k # completed_at (Suc k) rs else completed_at (Suc k) rs)"
proof -
  have "filter (\<lambda>i. fst ((r # rs) ! i) = Completed) [0..<length (r # rs)] =
      (if fst r = Completed then [0] else []) @ map Suc (filter (\<lambda>i. fst (rs ! i) = Completed) [0..<length rs])"
    by (simp add: upt_conv_Cons map_Suc_upt [symmetric] filter_map comp_def del: upt_Suc)
  then show ?thesis by (simp add: completed_at_def comp_def del: upt_Suc)
qed

lemma rr_step_from_eq:
  "rr_step_from step k ts w = map_option (\<lambda>(rs, w'). (map snd rs, completed_at k rs, w')) (step_each step ts w)"
proof (induction ts arbitrary: k w)
  case Nil
  then show ?case by simp
next
  case (Cons t ts)
  show ?case
  proof (cases "step t w")
    case None
    then show ?thesis by simp
  next
    case (Some r)
    then obtain s t' w1 where "step t w = Some (s, t', w1)" by (cases r) auto
    then show ?thesis
      using Cons.IH [of "Suc k" w1] by (cases "step_each step ts w1") auto
  qed
qed

lemma length_step_each: "step_each step ts w = Some (rs, w') \<Longrightarrow> length rs = length ts"
  by (induction ts arbitrary: w rs w') auto

lemma completed_at_increasing: "sorted_wrt (<) (completed_at k rs)"
  unfolding completed_at_def
  by (simp add: sorted_wrt_map sorted_wrt_filter del: upt_Suc)

lemma completed_at_bound: "i \<in> set (completed_at k rs) \<Longrightarrow> k \<le> i \<and> i < k + length rs"
  by (auto simp: completed_at_def)

lemma mset_completed_survivors:
  "mset (map ((!) (map snd rs)) (completed_at 0 rs)) + mset (survivors rs) = mset (map snd rs)"
proof -
  let ?P = "\<lambda>r. fst r = Completed"
  have eq: "map ((!) (map snd rs)) (completed_at 0 rs) = map snd (filter ?P rs)"
  proof -
    have "map ((!) (map snd rs)) (completed_at 0 rs)
        = map (\<lambda>i. snd (rs ! i)) (filter (\<lambda>i. ?P (rs ! i)) [0..<length rs])"
      by (auto simp: completed_at_def)
    also have "\<dots> = map snd (filter ?P (map ((!) rs) [0..<length rs]))"
      by (simp add: filter_map comp_def)
    finally show ?thesis by (simp add: map_nth)
  qed
  have "mset rs = mset (filter ?P rs) + mset (filter (\<lambda>r. \<not> ?P r) rs)"
    by simp
  then have "mset (map snd rs) = mset (map snd (filter ?P rs)) + mset (map snd (filter (\<lambda>r. \<not> ?P r) rs))"
    by (metis image_mset_union mset_map)
  with eq show ?thesis by (simp add: survivors_def)
qed

lemma swap_remove_completed:
  "\<exists>ys. swap_remove_all (rev (completed_at 0 rs)) (map snd rs) = Some ys \<and> mset ys = mset (survivors rs)"
proof -
  have "sorted_wrt (>) (rev (completed_at 0 rs))"
    using completed_at_increasing [of 0 rs] by (simp add: sorted_wrt_rev)
  moreover have "\<forall>i\<in>set (rev (completed_at 0 rs)). i < length (map snd rs)"
    using completed_at_bound [of _ 0 rs] by auto
  ultimately obtain ys where ys: "swap_remove_all (rev (completed_at 0 rs)) (map snd rs) = Some ys"
    "mset ys + mset (map ((!) (map snd rs)) (rev (completed_at 0 rs))) = mset (map snd rs)"
    using swap_remove_all_decreasing by blast
  have "mset (map ((!) (map snd rs)) (rev (completed_at 0 rs))) = mset (map ((!) (map snd rs)) (completed_at 0 rs))"
    by (simp add: rev_map [symmetric])
  with ys mset_completed_survivors [of rs] show ?thesis
    by (metis add.commute add_right_cancel)
qed

text \<open>A tick in terms of the reference: it panics exactly when a step does.\<close>

lemma rr_tick_step_each:
  "case step_each step (rr_tasks s) w of
     None \<Rightarrow> rr_tick step s w = None
   | Some (rs, w') \<Rightarrow>
       (\<exists>s'. rr_tick step s w = Some (survivors rs \<noteq> [], s', w') \<and> mset (rr_tasks s') = mset (survivors rs))"
proof (cases "step_each step (rr_tasks s) w")
  case None
  then have "rr_tasks s \<noteq> []" by auto
  with None show ?thesis by (simp add: rr_tick_def rr_step_from_eq)
next
  case (Some r)
  then obtain rs w' where r: "step_each step (rr_tasks s) w = Some (rs, w')" by (cases r) auto
  obtain ys where ys: "swap_remove_all (rev (completed_at 0 rs)) (map snd rs) = Some ys"
    "mset ys = mset (survivors rs)"
    using swap_remove_completed by blast
  from ys(2) have "ys \<noteq> [] \<longleftrightarrow> survivors rs \<noteq> []" by (metis mset_zero_iff)
  with r ys show ?thesis
    by (cases "rr_tasks s = []") (auto simp: rr_tick_def rr_step_from_eq survivors_def)
qed

lemma rr_tick_SomeE:
  assumes "rr_tick step s w = Some (alive, s', w')"
  obtains rs where "step_each step (rr_tasks s) w = Some (rs, w')"
    and "mset (rr_tasks s') = mset (survivors rs)" and "alive \<longleftrightarrow> rr_tasks s' \<noteq> []"
proof -
  from assms rr_tick_step_each [of step s w] obtain rs where
    "step_each step (rr_tasks s) w = Some (rs, w')" "alive = (survivors rs \<noteq> [])"
    "mset (rr_tasks s') = mset (survivors rs)"
    by (auto split: option.splits prod.splits)
  with that show thesis by (metis mset_zero_iff)
qed

text \<open>
  If the driving loop returns, the scheduler is empty: no live task is left behind.
\<close>

lemma rr_run_returns_empty:
  assumes "rr_run_to_completion step s w = Some (Some (s', w'))"
  shows "rr_tasks s' = []"
proof -
  have "case r of None \<Rightarrow> True | Some (s', w') \<Rightarrow> rr_tasks s' = []"
    if "rr_run_to_completion step s w = Some r" for r
  proof (rule rr_run_to_completion.raw_induct
      [where P = "\<lambda>step s w r. case r of None \<Rightarrow> True | Some (s', w') \<Rightarrow> rr_tasks s' = []", OF _ that])
    fix run :: "('a, 'b) task_step \<Rightarrow> 'a round_robin \<Rightarrow> 'b \<Rightarrow> ('a round_robin \<times> 'b) option option"
      and step s w r
    assume IH: "\<And>step s w r. run step s w = Some r \<Longrightarrow>
        case r of None \<Rightarrow> True | Some (s', w') \<Rightarrow> rr_tasks s' = []"
      and eq: "(case rr_tick step s w of None \<Rightarrow> Some None
        | Some (alive, s', w') \<Rightarrow> if alive then run step s' w' else Some (Some (s', w'))) = Some r"
    show "case r of None \<Rightarrow> True | Some (s', w') \<Rightarrow> rr_tasks s' = []"
      using eq by (auto split: option.splits if_splits elim!: rr_tick_SomeE dest!: IH)
  qed
  from this [OF assms] show ?thesis by simp
qed

section \<open>Driving live tasks\<close>

text \<open>The measure of the driving loop: a task counts one more than its rank.\<close>

definition rank_sum :: "('t \<Rightarrow> nat) \<Rightarrow> 't list \<Rightarrow> nat" where
  "rank_sum rank ts = sum_list (map (\<lambda>t. Suc (rank t)) ts)"

lemma rank_sum_mset: "mset ts = mset us \<Longrightarrow> rank_sum rank ts = rank_sum rank us"
  unfolding rank_sum_def by (metis mset_map sum_mset_sum_list)

lemma rank_sum_cong: "(\<And>t. t \<in> set ts \<Longrightarrow> r t = r' t) \<Longrightarrow> rank_sum r ts = rank_sum r' ts"
  unfolding rank_sum_def by (intro arg_cong [where f = sum_list] map_cong) simp_all

context shared_tasks
begin

definition all_apart :: "'t list \<Rightarrow> bool" where
  "all_apart ts \<longleftrightarrow> distinct ts \<and> (\<forall>t\<in>set ts. \<forall>u\<in>set ts. t \<noteq> u \<longrightarrow> apart t u)"

text \<open>
  A round of steps: every task keeps its identity and completes or goes down in rank, and what is apart from all
  of them is as before.
\<close>

lemma step_each_shared:
  assumes "all_apart ts" and "\<forall>t\<in>set ts. live t w"
  shows "\<exists>rs w'. step_each step ts w = Some (rs, w') \<and> map snd rs = ts \<and>
    (\<forall>(s, t)\<in>set rs. if s = Completed then ended t w' else live t w' \<and> rank t w' < rank t w) \<and>
    (\<forall>u. (\<forall>t\<in>set ts. apart t u) \<longrightarrow> (live u w \<longrightarrow> live u w' \<and> rank u w' = rank u w) \<and> (ended u w \<longrightarrow> ended u w'))"
  using assms
proof (induction ts arbitrary: w)
  case Nil
  then show ?case by simp
next
  case (Cons t ts)
  then have t: "live t w" "all_apart ts" "t \<notin> set ts" "\<forall>u\<in>set ts. apart t u \<and> apart u t" by (auto simp: all_apart_def)
  from step_live [OF t(1)] obtain s w1 where s: "step t w = Some (s, t, w1)"
    "if s = Completed then ended t w1 else live t w1 \<and> rank t w1 < rank t w" by blast
  note first = step_apart [OF t(1) s(1)]
  have "\<forall>u\<in>set ts. live u w1" using first t(4) Cons.prems(2) by auto
  from Cons.IH [OF t(2) this] obtain rs w2 where rs: "step_each step ts w1 = Some (rs, w2)" "map snd rs = ts"
    "\<forall>(s, t)\<in>set rs. if s = Completed then ended t w2 else live t w2 \<and> rank t w2 < rank t w1"
    "\<forall>u. (\<forall>t\<in>set ts. apart t u) \<longrightarrow> (live u w1 \<longrightarrow> live u w2 \<and> rank u w2 = rank u w1) \<and> (ended u w1 \<longrightarrow> ended u w2)" by blast
  have same: "rank u w1 = rank u w" if "u \<in> set ts" for u using first [of u] t(4) Cons.prems(2) that by simp
  have "if s' = Completed then ended u w2 else live u w2 \<and> rank u w2 < rank u w" if "(s', u) \<in> set ((s, t) # rs)" for s' u
  proof (cases "(s', u) \<in> set rs")
    case True
    then have "u \<in> set ts" using rs(2) by force
    with True rs(3) same show ?thesis by fastforce
  next
    case False
    with that have "s' = s" "u = t" by auto
    moreover have "(live t w1 \<longrightarrow> live t w2 \<and> rank t w2 = rank t w1) \<and> (ended t w1 \<longrightarrow> ended t w2)"
      using rs(4) t(4) by blast
    ultimately show ?thesis using s(2) by (auto split: if_splits)
  qed
  moreover have "(live u w \<longrightarrow> live u w2 \<and> rank u w2 = rank u w) \<and> (ended u w \<longrightarrow> ended u w2)" if "\<forall>v\<in>set (t # ts). apart v u" for u
    using first [of u] rs(4) that by auto
  ultimately have "\<forall>(s', u)\<in>set ((s, t) # rs). if s' = Completed then ended u w2 else live u w2 \<and> rank u w2 < rank u w"
    and "\<forall>u. (\<forall>v\<in>set (t # ts). apart v u) \<longrightarrow> (live u w \<longrightarrow> live u w2 \<and> rank u w2 = rank u w) \<and> (ended u w \<longrightarrow> ended u w2)"
    by blast+
  moreover have "step_each step (t # ts) w = Some ((s, t) # rs, w2)" "map snd ((s, t) # rs) = t # ts" using s(1) rs(1,2) by simp_all
  ultimately show ?case by (intro exI [of _ "(s, t) # rs"] exI [of _ w2] conjI)
qed

lemma survivors_rank:
  assumes "\<forall>(s, t)\<in>set rs. s \<noteq> Completed \<longrightarrow> r' t < r t"
  shows "rank_sum r' (survivors rs) + length rs \<le> rank_sum r (map snd rs)"
  using assms by (induction rs) (auto simp: survivors_def rank_sum_def)

text \<open>
  Tasks that are apart from each other and complete within finitely many steps are all driven to completion, on the
  world they share.
\<close>

lemma rr_run_terminates:
  assumes "all_apart (rr_tasks s)" and "\<forall>t\<in>set (rr_tasks s). live t w"
  shows "\<exists>s' w'. rr_run_to_completion step s w = Some (Some (s', w')) \<and> rr_tasks s' = [] \<and>
    (\<forall>u. u \<in> set (rr_tasks s) \<or> (\<forall>t\<in>set (rr_tasks s). apart t u) \<and> ended u w \<longrightarrow> ended u w')"
  using assms
proof (induction "rank_sum (\<lambda>t. rank t w) (rr_tasks s)" arbitrary: s w rule: less_induct)
  case less
  from step_each_shared [OF less.prems] obtain rs w1 where rs: "step_each step (rr_tasks s) w = Some (rs, w1)"
    "map snd rs = rr_tasks s"
    "\<forall>(s, t)\<in>set rs. if s = Completed then ended t w1 else live t w1 \<and> rank t w1 < rank t w"
    "\<forall>u. (\<forall>t\<in>set (rr_tasks s). apart t u) \<longrightarrow> (live u w \<longrightarrow> live u w1 \<and> rank u w1 = rank u w) \<and> (ended u w \<longrightarrow> ended u w1)" by blast
  with rr_tick_step_each [of step s w] obtain s1 where
    tick: "rr_tick step s w = Some (survivors rs \<noteq> [], s1, w1)" "mset (rr_tasks s1) = mset (survivors rs)" by auto
  have sub: "mset (survivors rs) \<subseteq># mset (rr_tasks s)"
    unfolding rs(2) [symmetric] survivors_def mset_map by (rule image_mset_subseteq_mono) simp
  have sub_set: "set (rr_tasks s1) \<subseteq> set (rr_tasks s)"
    using sub tick(2) by (metis set_mset_mono set_mset_mset)
  have "distinct (map snd rs)" using less.prems(1) rs(2) by (simp add: all_apart_def)
  then have "distinct (survivors rs)" unfolding survivors_def by (rule distinct_map_filter)
  then have "distinct (rr_tasks s1)" using mset_eq_imp_distinct_iff [OF tick(2)] by simp
  with sub_set have apart1: "all_apart (rr_tasks s1)"
    using less.prems(1) unfolding all_apart_def by blast
  have live1: "\<forall>t\<in>set (rr_tasks s1). live t w1"
  proof
    fix t assume "t \<in> set (rr_tasks s1)"
    then have "t \<in> set (survivors rs)" using tick(2) by (metis set_mset_mset)
    then obtain s' where "(s', t) \<in> set rs" "s' \<noteq> Completed" by (auto simp: survivors_def)
    with rs(3) show "live t w1" by fastforce
  qed
  have ended1: "u \<in> set (rr_tasks s1) \<or> (\<forall>t\<in>set (rr_tasks s1). apart t u) \<and> ended u w1"
    if u: "u \<in> set (rr_tasks s) \<or> (\<forall>t\<in>set (rr_tasks s). apart t u) \<and> ended u w" for u
  proof (cases "u \<in> set (rr_tasks s)")
    case True
    then obtain s' where s': "(s', u) \<in> set rs" unfolding rs(2) [symmetric] by auto
    show ?thesis
    proof (cases "u \<in> set (rr_tasks s1)")
      case out: False
      then have "u \<notin> set (survivors rs)" using tick(2) by (metis set_mset_mset)
      with s' have "s' = Completed" by (force simp: survivors_def)
      with rs(3) s' have "ended u w1" by fastforce
      moreover have "apart t u" if "t \<in> set (rr_tasks s1)" for t
        using less.prems(1) True that sub_set out by (auto simp: all_apart_def)
      ultimately show ?thesis by blast
    qed simp
  next
    case False
    with u rs(4) sub_set show ?thesis by blast
  qed
  show ?case
  proof (cases "survivors rs = []")
    case True
    with tick have "rr_tasks s1 = []" by simp
    with tick True ended1 show ?thesis by (simp add: rr_run_to_completion.simps [of step s])
  next
    case False
    then have "0 < length rs" by (cases rs) (auto simp: survivors_def)
    moreover have "rank_sum (\<lambda>t. rank t w1) (survivors rs) + length rs \<le> rank_sum (\<lambda>t. rank t w) (map snd rs)"
      by (rule survivors_rank) (use rs(3) in fastforce)
    ultimately have "rank_sum (\<lambda>t. rank t w1) (rr_tasks s1) < rank_sum (\<lambda>t. rank t w) (rr_tasks s)"
      using rank_sum_mset [OF tick(2), of "\<lambda>t. rank t w1"] unfolding rs(2) by linarith
    from less.hyps [OF this apart1 live1] obtain s' w' where
      ih: "rr_run_to_completion step s1 w1 = Some (Some (s', w'))" "rr_tasks s' = []"
        "\<forall>u. u \<in> set (rr_tasks s1) \<or> (\<forall>t\<in>set (rr_tasks s1). apart t u) \<and> ended u w1 \<longrightarrow> ended u w'" by blast
    have "rr_run_to_completion step s w = Some (Some (s', w'))"
      using tick(1) False ih(1) by (simp add: rr_run_to_completion.simps [of step s])
    with ih(2,3) ended1 show ?thesis by blast
  qed
qed

end

section \<open>Agents, roles and budgets\<close>

datatype agent_id = AgentId (agent_num: u32)

datatype agent_role = Main | Worker

text \<open>
  \<open>'f\<close> is the type of clock readings, \<open>f64\<close> in the code.
\<close>

datatype 'f budget = Unbounded | Deadline 'f

fun role_budget :: "agent_role \<Rightarrow> 'f \<Rightarrow> 'f budget" where
  "role_budget Main frame_ms = Deadline frame_ms"
| "role_budget Worker frame_ms = Unbounded"

datatype drive = Idle | Ran nat | ShuttingDown

section \<open>Properties\<close>

text \<open>
  C17: One tick of the round-robin scheduler steps every task exactly once, in vector order, and
  afterwards holds, as a multiset, exactly the tasks whose step did not complete: removing the
  completed indices from the back with \<open>swap_remove\<close> never panics, never drops a live task and
  never keeps a completed one. The returned flag says whether any task is left, and a tick
  panics exactly when one of the steps does.
\<close>

theorem rr_tick_steps_each_once:
  "case step_each step (rr_tasks s) w of
     None \<Rightarrow> rr_tick step s w = None
   | Some (rs, w') \<Rightarrow>
       (\<exists>s'. rr_tick step s w = Some (survivors rs \<noteq> [], s', w') \<and> mset (rr_tasks s') = mset (survivors rs))"
  by (rule rr_tick_step_each)

end
