(* ===== verification/Krio_Deque.thy ===== *)
theory Krio_Deque
  imports Krio_Core
begin

text \<open>
  \<open>crates/krio-parallel/src/deque.rs\<close>: the bounded Chase-Lev deque, its operations run to
  completion by one caller. The index type is a word of any width \<open>'w\<close>: \<open>isize\<close> is 32 bits on
  wasm32 and 64 bits natively, and the indices count through the whole width and wrap.

  A slot is \<open>Some v\<close> when it holds the bits of a value and \<open>None\<close> when it was never written;
  reading a value out leaves its bits behind, as \<open>assume_init_read\<close> does. Reading a slot that
  was never written is undefined behaviour, and indexing the boxed slice out of range panics:
  both are \<open>None\<close> of the operation.
\<close>

unbundle bit_operations_syntax

section \<open>State and operations\<close>

record ('a, 'i) deque =
  dq_top :: 'i
  dq_bottom :: 'i
  dq_mask :: 'i
  dq_buf :: "'a option list"

definition deque_with_capacity :: "nat \<Rightarrow> ('a, 'w::len word) deque" where
  "deque_with_capacity cap =
     (let cap = max (next_power_of_two cap) 2
      in \<lparr>dq_top = 0, dq_bottom = 0, dq_mask = of_nat (cap - 1), dq_buf = replicate cap None\<rparr>)"

definition deque_capacity :: "('a, 'w::len word) deque \<Rightarrow> nat" where
  "deque_capacity d = length (dq_buf d)"

text \<open>\<open>b.wrapping_sub(t).max(0) as usize\<close>, the approximate length.\<close>

definition deque_len :: "('a, 'w::len word) deque \<Rightarrow> nat" where
  "deque_len d = nat (max (sint (dq_bottom d - dq_top d)) 0)"

definition deque_is_empty :: "('a, 'w::len word) deque \<Rightarrow> bool" where
  "deque_is_empty d \<longleftrightarrow> deque_len d = 0"

text \<open>The slot of an index: \<open>(i & self.mask) as usize\<close>.\<close>

definition slot_of :: "('a, 'w::len word) deque \<Rightarrow> 'w word \<Rightarrow> nat" where
  "slot_of d i = unat (i AND dq_mask d)"

definition write_slot :: "'w word \<Rightarrow> 'a \<Rightarrow> ('a, 'w::len word) deque \<Rightarrow> ('a, 'w word) deque option" where
  "write_slot i v d = do {
     buf \<leftarrow> set_nth (slot_of d i) (Some v) (dq_buf d);
     Some (d\<lparr>dq_buf := buf\<rparr>) }"

definition read_slot :: "'w word \<Rightarrow> ('a, 'w::len word) deque \<Rightarrow> 'a option" where
  "read_slot i d = do { bits \<leftarrow> get_nth (slot_of d i) (dq_buf d); bits }"

text \<open>\<open>push\<close> hands the value back, \<open>Inl v\<close>, when the deque is full.\<close>

definition deque_push :: "'a \<Rightarrow> ('a, 'w::len word) deque \<Rightarrow> (('a + unit) \<times> ('a, 'w word) deque) option" where
  "deque_push v d =
     (let b = dq_bottom d; t = dq_top d
      in if sint (of_nat (deque_capacity d) :: 'w word) \<le> sint (b - t) then Some (Inl v, d)
         else do {
           d1 \<leftarrow> write_slot b v d;
           Some (Inr (), d1\<lparr>dq_bottom := b + 1\<rparr>) })"

definition deque_pop :: "('a, 'w::len word) deque \<Rightarrow> ('a option \<times> ('a, 'w word) deque) option" where
  "deque_pop d =
     (let b = dq_bottom d - 1; d1 = d\<lparr>dq_bottom := b\<rparr>; t = dq_top d1; n = sint (b - t)
      in if n < 0 then Some (None, d1\<lparr>dq_bottom := b + 1\<rparr>)
         else if n = 0 then
           (let won = (dq_top d1 = t);
                d2 = (if won then d1\<lparr>dq_top := t + 1\<rparr> else d1);
                d3 = d2\<lparr>dq_bottom := b + 1\<rparr>
            in if won then do { v \<leftarrow> read_slot b d3; Some (Some v, d3) } else Some (None, d3))
         else do { v \<leftarrow> read_slot b d1; Some (Some v, d1) })"

definition deque_steal :: "('a, 'w::len word) deque \<Rightarrow> ('a option \<times> ('a, 'w word) deque) option" where
  "deque_steal d =
     (let t = dq_top d; b = dq_bottom d
      in if sint (b - t) \<le> 0 then Some (None, d)
         else do {
           v \<leftarrow> read_slot t d;
           if dq_top d = t then Some (Some v, d\<lparr>dq_top := t + 1\<rparr>) else Some (None, d) })"

text \<open>
  \<open>Drop\<close>: the values dropped, in order. The loop counts the live slots first and then steps the
  index, so it does not compare indices that may have wrapped.
\<close>

fun drop_slots :: "nat \<Rightarrow> 'w word \<Rightarrow> ('a, 'w::len word) deque \<Rightarrow> 'a list option" where
  "drop_slots 0 i d = Some []"
| "drop_slots (Suc n) i d = do { v \<leftarrow> read_slot i d; vs \<leftarrow> drop_slots n (i + 1) d; Some (v # vs) }"

definition deque_drop :: "('a, 'w::len word) deque \<Rightarrow> 'a list option" where
  "deque_drop d =
     (let live = sint (dq_bottom d - dq_top d) in drop_slots (nat (max live 0)) (dq_top d) d)"

section \<open>The deque as a list\<close>

text \<open>
  The live contents, oldest first: the values in the slots of the indices from \<open>top\<close> up to
  \<open>bottom\<close>, counted by their difference.
\<close>

definition deque_list :: "('a, 'w::len word) deque \<Rightarrow> 'a list" where
  "deque_list d = map (\<lambda>k. the (dq_buf d ! slot_of d (dq_top d + of_nat k))) [0..<deque_len d]"

text \<open>
  Well-formedness. The capacity is a power of two below half the index space: a boxed slice of
  \<open>2 ^ c\<close> slots cannot be larger than \<open>isize::MAX\<close> bytes. The indices may stand anywhere.
\<close>

definition deque_wf :: "('a, 'w::len word) deque \<Rightarrow> bool" where
  "deque_wf d \<longleftrightarrow>
     (\<exists>c. 1 \<le> c \<and> Suc c < LENGTH('w) \<and> length (dq_buf d) = 2 ^ c \<and> dq_mask d = mask c) \<and>
     0 \<le> sint (dq_bottom d - dq_top d) \<and> sint (dq_bottom d - dq_top d) \<le> int (deque_capacity d) \<and>
     (\<forall>k<deque_len d. dq_buf d ! slot_of d (dq_top d + of_nat k) \<noteq> None)"

section \<open>Reading the deque through its list\<close>

definition deque_view :: "nat \<Rightarrow> int \<Rightarrow> 'a list \<Rightarrow> ('a, 'w::len word) deque \<Rightarrow> bool" where
  "deque_view c T xs d \<longleftrightarrow>
     1 \<le> c \<and> Suc c < LENGTH('w) \<and> length (dq_buf d) = 2 ^ c \<and> dq_mask d = mask c \<and>
     dq_top d = of_int T \<and> dq_bottom d = of_int (T + int (length xs)) \<and> length xs \<le> 2 ^ c \<and>
     (\<forall>k<length xs. dq_buf d ! nat ((T + int k) mod 2 ^ c) = Some (xs ! k))"

lemma cap_below_half:
  assumes "Suc c < LENGTH('w::len)"
  shows "(2::int) ^ c < 2 ^ (LENGTH('w) - 1)"
  using assms by (intro power_strict_increasing) auto

lemma slot_of_index:
  assumes "dq_mask (d :: ('a, 'w::len word) deque) = mask c" and "Suc c < LENGTH('w)"
  shows "slot_of d (of_int i) = nat (i mod 2 ^ c)"
  using assms by (simp add: slot_of_def unat_of_int_and_mask)

lemma slot_less: "nat ((i::int) mod 2 ^ c) < 2 ^ c"
  by (simp add: nat_less_iff)

lemma slot_inj: "nat ((i::int) mod 2 ^ c) = nat (j mod 2 ^ c) \<Longrightarrow> \<bar>i - j\<bar> < 2 ^ c \<Longrightarrow> i = j"
  by (rule mod_window_inj [of i "2 ^ c" j]) (auto simp: eq_nat_nat_iff)

lemma view_diff:
  assumes "deque_view c T xs (d :: ('a, 'w::len word) deque)"
  shows "sint (dq_bottom d - dq_top d) = int (length xs)"
proof -
  have "int (length xs) \<le> 2 ^ c"
    using assms by (intro int_le_power) (simp add: deque_view_def)
  moreover have "(2::int) ^ c < 2 ^ (LENGTH('w) - 1)"
    using assms by (intro cap_below_half) (simp add: deque_view_def)
  ultimately have "int (length xs) < 2 ^ (LENGTH('w) - 1)" by linarith
  moreover have "- (2 ^ (LENGTH('w) - 1)) \<le> int (length xs)" by (rule order_trans [of _ 0]) auto
  ultimately have "sint (of_int (int (length xs)) :: 'w word) = int (length xs)"
    by (intro sint_of_int_small)
  moreover have "dq_bottom d - dq_top d = of_int (int (length xs))"
    using assms by (simp add: deque_view_def)
  ultimately show ?thesis by simp
qed

lemma view_len: "deque_view c T xs d \<Longrightarrow> deque_len d = length xs"
  by (simp add: deque_len_def view_diff)

lemma view_nth:
  assumes "deque_view c T xs d" and "k < length xs"
  shows "dq_buf d ! slot_of d (dq_top d + of_nat k) = Some (xs ! k)"
proof -
  have "dq_top d + of_nat k = of_int (T + int k)" using assms(1) by (simp add: deque_view_def)
  moreover have "slot_of d (of_int (T + int k)) = nat ((T + int k) mod 2 ^ c)"
    using assms(1) by (intro slot_of_index) (auto simp: deque_view_def)
  ultimately show ?thesis using assms by (simp add: deque_view_def)
qed

lemma view_list: "deque_view c T xs d \<Longrightarrow> deque_list d = xs"
  by (auto simp: deque_list_def view_len view_nth intro: nth_equalityI)

lemma view_capacity: "deque_view c T xs d \<Longrightarrow> deque_capacity d = 2 ^ c"
  by (simp add: deque_view_def deque_capacity_def)

lemma view_wf:
  assumes "deque_view c T xs d"
  shows "deque_wf d"
proof -
  have "int (length xs) \<le> int (2 ^ c)" using assms by (simp only: of_nat_le_iff deque_view_def)
  moreover have "\<exists>c. 1 \<le> c \<and> Suc c < LENGTH('b) \<and> length (dq_buf d) = 2 ^ c \<and> dq_mask d = mask c"
    using assms by (auto simp: deque_view_def)
  ultimately show ?thesis
    using assms by (auto simp: deque_wf_def view_diff view_len view_capacity view_nth)
qed

lemma wf_view:
  assumes "deque_wf (d :: ('a, 'w::len word) deque)"
  obtains c where "deque_view c (sint (dq_top d)) (deque_list d) d" and "deque_capacity d = 2 ^ c"
proof -
  from assms obtain c where c: "1 \<le> c" "Suc c < LENGTH('w)" "length (dq_buf d) = 2 ^ c" "dq_mask d = mask c"
    by (auto simp: deque_wf_def)
  let ?n = "sint (dq_bottom d - dq_top d)"
  from assms have n: "0 \<le> ?n" "?n \<le> int (2 ^ c)" "deque_len d = nat ?n"
    by (auto simp: deque_wf_def deque_capacity_def deque_len_def c)
  have "of_int (sint (dq_top d) + ?n) = dq_bottom d" by simp
  moreover have "dq_buf d ! nat ((sint (dq_top d) + int k) mod 2 ^ c) = Some (deque_list d ! k)" if "k < nat ?n" for k
  proof -
    have "dq_top d + of_nat k = of_int (sint (dq_top d) + int k)" by simp
    then have slot: "slot_of d (dq_top d + of_nat k) = nat ((sint (dq_top d) + int k) mod 2 ^ c)"
      using c by (simp only: slot_of_index)
    have "dq_buf d ! slot_of d (dq_top d + of_nat k) \<noteq> None"
      using assms that n(3) by (simp add: deque_wf_def)
    with that n(3) slot show ?thesis by (auto simp: deque_list_def)
  qed
  moreover have "length (deque_list d) = nat ?n" by (simp add: deque_list_def n(3))
  moreover from n have "nat ?n \<le> 2 ^ c" by (simp add: nat_le_iff)
  ultimately have "deque_view c (sint (dq_top d)) (deque_list d) d"
    using c n by (simp add: deque_view_def)
  with that c show thesis by (simp add: deque_capacity_def)
qed

section \<open>Operations against the list\<close>

lemma view_push_full:
  assumes "deque_view c T xs (d :: ('a, 'w::len word) deque)" and "length xs = 2 ^ c"
  shows "deque_push v d = Some (Inl v, d)"
proof -
  have "sint (of_nat (deque_capacity d) :: 'w word) = int (length xs)"
  proof -
    have "sint (of_int (int (length xs)) :: 'w word) = int (length xs)"
    proof -
      have "dq_bottom d - dq_top d = of_int (int (length xs))" using assms(1) by (simp add: deque_view_def)
      with view_diff [OF assms(1)] show ?thesis by simp
    qed
    with assms view_capacity [OF assms(1)] show ?thesis by simp
  qed
  with view_diff [OF assms(1)] show ?thesis by (simp add: deque_push_def)
qed

lemma sint_capacity:
  assumes "deque_view c T xs (d :: ('a, 'w::len word) deque)"
  shows "sint (of_nat (deque_capacity d) :: 'w word) = 2 ^ c"
proof -
  have "(2::int) ^ c < 2 ^ (LENGTH('w) - 1)"
    using assms by (intro cap_below_half) (simp add: deque_view_def)
  moreover have "- (2 ^ (LENGTH('w) - 1)) \<le> (2::int) ^ c" by (rule order_trans [of _ 0]) auto
  ultimately have "sint (of_int (2 ^ c) :: 'w word) = 2 ^ c" by (intro sint_of_int_small)
  with view_capacity [OF assms] show ?thesis by simp
qed

lemma view_slot:
  assumes "deque_view c T xs (d :: ('a, 'w::len word) deque)"
  shows "slot_of d (of_int i) = nat (i mod 2 ^ c)"
  using assms by (intro slot_of_index) (auto simp: deque_view_def)

lemma view_push_room:
  assumes "deque_view c T xs d" and "length xs < 2 ^ c"
  shows "\<exists>d'. deque_push v d = Some (Inr (), d') \<and> deque_view c T (xs @ [v]) d'"
proof -
  let ?i = "T + int (length xs)"
  let ?d = "d\<lparr>dq_buf := (dq_buf d)[nat (?i mod 2 ^ c) := Some v], dq_bottom := dq_bottom d + 1\<rparr>"
  have "int (length xs) < 2 ^ c" using assms(2) by (rule int_less_power)
  then have "\<not> sint (of_nat (deque_capacity d) :: 'b word) \<le> sint (dq_bottom d - dq_top d)"
    using view_diff [OF assms(1)] sint_capacity [OF assms(1)] by simp
  moreover have "slot_of d (dq_bottom d) = nat (?i mod 2 ^ c)"
    using assms(1) view_slot [OF assms(1)] by (metis deque_view_def)
  ultimately have "deque_push v d = Some (Inr (), ?d)"
    using assms(1) slot_less by (simp add: deque_push_def write_slot_def deque_view_def)
  moreover have "nat (?i mod 2 ^ c) \<noteq> nat ((T + int k) mod 2 ^ c)" if "k < length xs" for k
    using slot_inj [of ?i c "T + int k"] that \<open>int (length xs) < 2 ^ c\<close> by auto
  then have "deque_view c T (xs @ [v]) ?d"
    using assms slot_less [of ?i c] by (auto simp: deque_view_def nth_append less_Suc_eq)
  ultimately show ?thesis by blast
qed

lemma view_pop:
  assumes "deque_view c T xs (d :: ('a, 'w::len word) deque)"
  shows "\<exists>d'. deque_pop d = Some (if xs = [] then None else Some (last xs), d') \<and>
    deque_view c (if length xs = 1 then T + 1 else T) (butlast xs) d'"
proof -
  let ?n = "sint (dq_bottom d - 1 - dq_top d)"
  have n: "?n = int (length xs) - 1"
  proof -
    have "dq_bottom d - 1 - dq_top d = of_int (int (length xs) - 1)"
      using assms by (simp add: deque_view_def)
    moreover have "sint (of_int (int (length xs) - 1) :: 'w word) = int (length xs) - 1"
    proof (rule sint_of_int_small)
      have "int (length xs) \<le> 2 ^ c" using assms by (intro int_le_power) (simp add: deque_view_def)
      moreover have "(2::int) ^ c < 2 ^ (LENGTH('w) - 1)"
        using assms by (intro cap_below_half) (simp add: deque_view_def)
      ultimately show "int (length xs) - 1 < 2 ^ (LENGTH('w) - 1)" by linarith
      have "(1::int) \<le> 2 ^ (LENGTH('w) - 1)" by simp
      then show "- (2 ^ (LENGTH('w) - 1)) \<le> int (length xs) - 1" by linarith
    qed
    ultimately show ?thesis by metis
  qed
  show ?thesis
  proof (cases xs rule: rev_cases)
    case Nil
    with n assms show ?thesis by (auto simp: deque_pop_def Let_def deque_view_def)
  next
    case (snoc ys v)
    let ?i = "T + int (length ys)"
    have b: "dq_bottom d - 1 = of_int ?i" using assms snoc by (simp add: deque_view_def)
    have v: "dq_buf d ! nat (?i mod 2 ^ c) = Some v"
      using assms snoc by (auto simp: deque_view_def dest: spec [of _ "length ys"])
    have read: "read_slot (dq_bottom d - 1) d' = Some v"
      if "dq_buf d' = dq_buf d" "dq_mask d' = dq_mask d" for d' :: "('a, 'w word) deque"
    proof -
      have "slot_of d' (dq_bottom d - 1) = nat (?i mod 2 ^ c)"
        unfolding b using assms that by (intro slot_of_index) (auto simp: deque_view_def)
      with v that assms slot_less show ?thesis by (simp add: read_slot_def get_nth_def deque_view_def)
    qed
    have shrink: "\<forall>k<length ys. dq_buf d ! nat ((T + int k) mod 2 ^ c) = Some (ys ! k)"
    proof (intro allI impI)
      fix k assume "k < length ys"
      with assms snoc show "dq_buf d ! nat ((T + int k) mod 2 ^ c) = Some (ys ! k)"
        by (auto simp: deque_view_def nth_append dest: spec [of _ k])
    qed
    show ?thesis
    proof (cases "ys = []")
      case True
      with n snoc assms read show ?thesis
        by (simp add: deque_pop_def Let_def deque_view_def)
    next
      case False
      with n snoc have "\<not> ?n < 0" "?n \<noteq> 0" by auto
      with read have "deque_pop d = Some (Some v, d\<lparr>dq_bottom := dq_bottom d - 1\<rparr>)"
        by (simp add: deque_pop_def Let_def)
      moreover have "deque_view c T ys (d\<lparr>dq_bottom := dq_bottom d - 1\<rparr>)"
        using assms snoc b shrink by (auto simp: deque_view_def)
      ultimately show ?thesis using False snoc by auto
    qed
  qed
qed

lemma view_steal:
  assumes "deque_view c T xs d"
  shows "\<exists>d'. deque_steal d = Some (if xs = [] then None else Some (hd xs), d') \<and>
    deque_view c (if xs = [] then T else T + 1) (tl xs) d'"
proof (cases xs)
  case Nil
  with assms view_diff [OF assms] show ?thesis by (auto simp: deque_steal_def Let_def)
next
  case (Cons v ys)
  have "read_slot (dq_top d) d = Some v"
    using view_nth [OF assms, of 0] view_slot [OF assms, of T] assms slot_less [of T c] Cons
    by (simp add: read_slot_def get_nth_def deque_view_def)
  moreover have "deque_view c (T + 1) ys (d\<lparr>dq_top := dq_top d + 1\<rparr>)"
  proof -
    have "\<forall>k<length ys. dq_buf d ! nat ((T + 1 + int k) mod 2 ^ c) = Some (ys ! k)"
    proof (intro allI impI)
      fix k assume "k < length ys"
      with assms Cons show "dq_buf d ! nat ((T + 1 + int k) mod 2 ^ c) = Some (ys ! k)"
        by (auto simp: deque_view_def add.assoc dest: spec [of _ "Suc k"])
    qed
    with assms Cons show ?thesis by (auto simp: deque_view_def add.assoc)
  qed
  ultimately show ?thesis using Cons view_diff [OF assms] by (simp add: deque_steal_def Let_def)
qed


lemma view_drop_slots:
  assumes "deque_view c T (us @ xs) d"
  shows "drop_slots (length xs) (dq_top d + of_nat (length us)) d = Some xs"
  using assms
proof (induction xs arbitrary: us)
  case Nil
  then show ?case by simp
next
  case (Cons x xs)
  have "dq_buf d ! slot_of d (dq_top d + of_nat (length us)) = Some x"
    using view_nth [OF Cons.prems, of "length us"] by simp
  moreover have "slot_of d (dq_top d + of_nat (length us)) < length (dq_buf d)"
  proof -
    have "dq_top d + of_nat (length us) = of_int (T + int (length us))"
      using Cons.prems by (simp add: deque_view_def)
    then have "slot_of d (dq_top d + of_nat (length us)) = nat ((T + int (length us)) mod 2 ^ c)"
      by (simp only: view_slot [OF Cons.prems])
    moreover have "length (dq_buf d) = 2 ^ c" using Cons.prems by (simp add: deque_view_def)
    ultimately show ?thesis by (simp only: slot_less)
  qed
  ultimately have "read_slot (dq_top d + of_nat (length us)) d = Some x"
    by (simp add: read_slot_def get_nth_def)
  moreover have "drop_slots (length xs) (dq_top d + of_nat (length (us @ [x]))) d = Some xs"
    by (rule Cons.IH) (use Cons.prems in simp)
  ultimately show ?case by (simp add: ac_simps)
qed

lemma wf_with_capacity:
  assumes "next_power_of_two cap < 2 ^ (LENGTH('w::len) - 1)" and "2 < LENGTH('w)"
  shows "deque_wf (deque_with_capacity cap :: ('a, 'w word) deque)"
    and "deque_list (deque_with_capacity cap :: ('a, 'w word) deque) = []"
    and "deque_capacity (deque_with_capacity cap :: ('a, 'w word) deque) = max (next_power_of_two cap) 2"
proof -
  let ?d = "deque_with_capacity cap :: ('a, 'w word) deque"
  obtain j where j: "next_power_of_two cap = 2 ^ j" using next_power_of_two_power by blast
  have "(2::nat) ^ j < 2 ^ (LENGTH('w) - 1)" using assms(1) j by simp
  then have "j < LENGTH('w) - 1" by (rule power_less_imp_less_exp [rotated]) simp
  define c where "c = max j 1"
  have c: "max (next_power_of_two cap) 2 = 2 ^ c" "1 \<le> c" "Suc c < LENGTH('w)"
  proof -
    show "1 \<le> c" and "Suc c < LENGTH('w)"
      using \<open>j < LENGTH('w) - 1\<close> assms(2) by (auto simp: c_def)
    show "max (next_power_of_two cap) 2 = 2 ^ c"
    proof (cases j)
      case (Suc i)
      then have "(2::nat) \<le> 2 ^ j" using one_le_power [of "2::nat" i] by simp
      with Suc show ?thesis by (simp add: j c_def max_absorb1)
    qed (simp add: j c_def)
  qed
  have "deque_view c 0 [] ?d"
  proof -
    have "(of_nat (2 ^ c - 1) :: 'w word) = mask c"
      by (simp add: mask_eq_exp_minus_1 of_nat_diff)
    with c show ?thesis by (simp add: deque_view_def deque_with_capacity_def Let_def)
  qed
  then show "deque_wf ?d" and "deque_list ?d = []" and "deque_capacity ?d = max (next_power_of_two cap) 2"
    using c by (simp_all add: view_wf view_list view_capacity)
qed

section \<open>The contract of a work deque\<close>

text \<open>
  What the scheduler relies on: a bounded double-ended queue whose owner pushes and pops at the
  back and whose thieves take from the front; a push into a full queue hands the value back.
\<close>

locale work_deque =
  fixes push :: "'a \<Rightarrow> 'd \<Rightarrow> (('a + unit) \<times> 'd) option"
    and pop :: "'d \<Rightarrow> ('a option \<times> 'd) option"
    and steal :: "'d \<Rightarrow> ('a option \<times> 'd) option"
    and items :: "'d \<Rightarrow> 'a list"
    and capacity :: "'d \<Rightarrow> nat"
    and wf :: "'d \<Rightarrow> bool"
  assumes push_room: "wf d \<Longrightarrow> length (items d) < capacity d \<Longrightarrow>
      \<exists>d'. push v d = Some (Inr (), d') \<and> wf d' \<and> items d' = items d @ [v] \<and> capacity d' = capacity d"
    and push_full: "wf d \<Longrightarrow> \<not> length (items d) < capacity d \<Longrightarrow> push v d = Some (Inl v, d)"
    and pop_back: "wf d \<Longrightarrow> \<exists>d'. pop d = Some (if items d = [] then None else Some (last (items d)), d')
      \<and> wf d' \<and> items d' = butlast (items d) \<and> capacity d' = capacity d"
    and steal_front: "wf d \<Longrightarrow> \<exists>d'. steal d = Some (if items d = [] then None else Some (hd (items d)), d')
      \<and> wf d' \<and> items d' = tl (items d) \<and> capacity d' = capacity d"
begin

text \<open>No operation loses or duplicates a value.\<close>

lemma push_mset:
  assumes "wf d"
  shows "\<exists>r d'. push v d = Some (r, d') \<and> wf d' \<and> capacity d' = capacity d \<and>
    (case r of Inl u \<Rightarrow> u = v \<and> items d' = items d | Inr _ \<Rightarrow> mset (items d') = add_mset v (mset (items d)))"
proof (cases "length (items d) < capacity d")
  case True
  with push_room [OF assms True, of v] show ?thesis by fastforce
next
  case False
  with push_full [OF assms False, of v] assms show ?thesis by simp
qed

lemma pop_mset:
  assumes "wf d" and "pop d = Some (r, d')"
  shows "wf d'" and "capacity d' = capacity d"
    and "mset (items d) = mset (items d') + (case r of None \<Rightarrow> {#} | Some v \<Rightarrow> {#v#})"
    and "r = None \<longleftrightarrow> items d = []"
proof -
  from pop_back [OF assms(1)] assms(2)
  have r: "r = (if items d = [] then None else Some (last (items d)))" "wf d'"
    "items d' = butlast (items d)" "capacity d' = capacity d" by auto
  then show "wf d'" and "capacity d' = capacity d" and "r = None \<longleftrightarrow> items d = []" by auto
  show "mset (items d) = mset (items d') + (case r of None \<Rightarrow> {#} | Some v \<Rightarrow> {#v#})"
    using r by (cases "items d" rule: rev_cases) auto
qed

lemma steal_mset:
  assumes "wf d" and "steal d = Some (r, d')"
  shows "wf d'" and "capacity d' = capacity d"
    and "mset (items d) = mset (items d') + (case r of None \<Rightarrow> {#} | Some v \<Rightarrow> {#v#})"
    and "r = None \<longleftrightarrow> items d = []"
proof -
  from steal_front [OF assms(1)] assms(2)
  have r: "r = (if items d = [] then None else Some (hd (items d)))" "wf d'"
    "items d' = tl (items d)" "capacity d' = capacity d" by auto
  then show "wf d'" and "capacity d' = capacity d" and "r = None \<longleftrightarrow> items d = []" by auto
  show "mset (items d) = mset (items d') + (case r of None \<Rightarrow> {#} | Some v \<Rightarrow> {#v#})"
    using r by (cases "items d") auto
qed

lemma pop_total: "wf d \<Longrightarrow> \<exists>r d'. pop d = Some (r, d')"
  using pop_back by blast

lemma steal_total: "wf d \<Longrightarrow> \<exists>r d'. steal d = Some (r, d')"
  using steal_front by blast

end

interpretation dq: work_deque deque_push deque_pop deque_steal deque_list deque_capacity deque_wf
proof (unfold_locales, goal_cases)
  case (1 d v)
  then obtain c where c: "deque_view c (sint (dq_top d)) (deque_list d) d" "deque_capacity d = 2 ^ c"
    by (elim wf_view)
  with 1 view_push_room [OF c(1), of v] show ?case
    by (auto dest: view_wf view_list view_capacity)
next
  case (2 d v)
  then obtain c where c: "deque_view c (sint (dq_top d)) (deque_list d) d" "deque_capacity d = 2 ^ c"
    by (elim wf_view)
  with 2 have "length (deque_list d) = 2 ^ c" by (simp add: deque_view_def)
  with c(1) show ?case by (rule view_push_full)
next
  case (3 d)
  then obtain c where c: "deque_view c (sint (dq_top d)) (deque_list d) d" "deque_capacity d = 2 ^ c"
    by (elim wf_view)
  with view_pop [OF c(1)] show ?case by (auto dest: view_wf view_list view_capacity)
next
  case (4 d)
  then obtain c where c: "deque_view c (sint (dq_top d)) (deque_list d) d" "deque_capacity d = 2 ^ c"
    by (elim wf_view)
  with view_steal [OF c(1)] show ?case by (auto dest: view_wf view_list view_capacity)
qed

lemma wf_drop:
  assumes "deque_wf d"
  shows "deque_drop d = Some (deque_list d)"
proof -
  from assms obtain c where c: "deque_view c (sint (dq_top d)) (deque_list d) d" by (elim wf_view)
  have "drop_slots (length (deque_list d)) (dq_top d) d = Some (deque_list d)"
    using view_drop_slots [of c _ "[]" "deque_list d" d] c by simp
  with view_diff [OF c] show ?thesis by (simp add: deque_drop_def)
qed

lemma wf_len: "deque_wf d \<Longrightarrow> deque_len d = length (deque_list d)"
  by (elim wf_view) (simp add: view_len)

section \<open>Properties\<close>

text \<open>
  C7: A well-formed deque refines a bounded list whose capacity is \<open>deque_capacity\<close>, at any
  position of its wrapping indices: \<open>push\<close> appends when there is room and otherwise hands the
  value back and changes nothing, \<open>pop\<close> takes the last value, \<open>steal\<close> the first, each answers
  \<open>None\<close> exactly on an empty deque, none reads an unwritten slot or panics, and each leaves a
  well-formed deque of the same capacity.
\<close>

theorem deque_refines_list:
  assumes "deque_wf d"
  shows "(if length (deque_list d) < deque_capacity d
      then \<exists>d'. deque_push v d = Some (Inr (), d') \<and> deque_wf d' \<and> deque_list d' = deque_list d @ [v]
        \<and> deque_capacity d' = deque_capacity d
      else deque_push v d = Some (Inl v, d)) \<and>
    (\<exists>d'. deque_pop d = Some (if deque_list d = [] then None else Some (last (deque_list d)), d')
      \<and> deque_wf d' \<and> deque_list d' = butlast (deque_list d) \<and> deque_capacity d' = deque_capacity d) \<and>
    (\<exists>d'. deque_steal d = Some (if deque_list d = [] then None else Some (hd (deque_list d)), d')
      \<and> deque_wf d' \<and> deque_list d' = tl (deque_list d) \<and> deque_capacity d' = deque_capacity d)"
  using dq.push_room [OF assms, of v] dq.push_full [OF assms, of v] dq.pop_back [OF assms]
    dq.steal_front [OF assms] by auto

text \<open>A deque whose indices stand at the wrap: \<open>top\<close> is the last index and \<open>bottom\<close> is 1.\<close>

definition wrapped_deque :: "(nat, 8 word) deque" where
  "wrapped_deque = \<lparr>dq_top = - 1, dq_bottom = 1, dq_mask = 3, dq_buf = [Some 7, None, None, Some 5]\<rparr>"

lemma wrapped_deque_wf: "deque_wf wrapped_deque"
proof -
  have "mask 2 = (3 :: 8 word)" by (simp add: mask_eq_exp_minus_1)
  then have "\<exists>c. 1 \<le> c \<and> Suc c < LENGTH(8) \<and> length (dq_buf wrapped_deque) = 2 ^ c \<and> dq_mask wrapped_deque = mask c"
    by (intro exI [of _ 2]) (simp add: wrapped_deque_def)
  moreover have "deque_len wrapped_deque = 2"
    by (simp add: deque_len_def wrapped_deque_def)
  moreover have "dq_buf wrapped_deque ! slot_of wrapped_deque (dq_top wrapped_deque + of_nat k) \<noteq> None" if "k < 2" for k
  proof -
    from that have "k = 0 \<or> k = 1" by auto
    then show ?thesis by (auto simp: slot_of_def wrapped_deque_def)
  qed
  ultimately show ?thesis
    by (simp add: deque_wf_def deque_capacity_def) (simp add: wrapped_deque_def)
qed

theorem deque_refines_list_witness:
  "length (deque_list wrapped_deque) = 2 \<and>
   (\<exists>d'. deque_push 9 wrapped_deque = Some (Inr (), d') \<and> deque_list d' = deque_list wrapped_deque @ [9])"
proof -
  have "length (deque_list wrapped_deque) = 2" "deque_capacity wrapped_deque = 4"
    by (simp_all add: deque_list_def deque_len_def deque_capacity_def wrapped_deque_def)
  then show ?thesis
    using deque_refines_list [OF wrapped_deque_wf, of 9] by auto
qed

text \<open>
  Dropping a well-formed deque drops exactly its live values, each once and oldest first,
  and reads no other slot: the loop counts by the difference of the indices, so it is right also
  when they have wrapped.
\<close>

theorem deque_drop_exact:
  assumes "deque_wf d"
  shows "deque_drop d = Some (deque_list d) \<and> deque_len d = length (deque_list d)"
  using assms by (simp add: wf_drop wf_len)

theorem deque_drop_exact_witness: "deque_drop wrapped_deque = Some [5, 7]"
proof -
  have "deque_list wrapped_deque = [5, 7]"
    by (simp add: deque_list_def deque_len_def slot_of_def wrapped_deque_def upt_rec)
  with deque_drop_exact [OF wrapped_deque_wf] show ?thesis by simp
qed

text \<open>
  \<open>with_capacity\<close> builds an empty well-formed deque whose capacity is the request rounded up
  to a power of two and at least 2, for every request whose rounding the address space can hold.
\<close>

theorem deque_with_capacity_ok:
  assumes "next_power_of_two cap < 2 ^ (LENGTH('w::len) - 1)" and "2 < LENGTH('w)"
  shows "let d = deque_with_capacity cap :: ('a, 'w word) deque
    in deque_wf d \<and> deque_list d = [] \<and> cap \<le> deque_capacity d \<and> 2 \<le> deque_capacity d \<and>
      (\<forall>m. cap \<le> 2 ^ m \<and> 1 \<le> m \<longrightarrow> deque_capacity d \<le> 2 ^ m)"
  using wf_with_capacity [OF assms, where 'a = 'a] next_power_of_two_ge [of cap] next_power_of_two_least [of cap]
  by (auto simp: Let_def intro: order_trans [OF _ power_increasing [of 1]])

theorem deque_with_capacity_ok_witness:
  "deque_capacity (deque_with_capacity 5 :: (nat, 32 word) deque) \<ge> 5"
proof -
  have "next_power_of_two 5 = 8" by code_simp
  then have "next_power_of_two 5 < 2 ^ (LENGTH(32) - 1)" by simp
  then show ?thesis
    using deque_with_capacity_ok [of 5, where 'w = 32 and 'a = nat] by (simp add: Let_def)
qed

end
