(* ===== verification/Krio_Lock.thy ===== *)
theory Krio_Lock
  imports Krio_Prelude
begin

text \<open>
  The spin lock of \<open>crates/krio-parallel/src/injector.rs\<close> and \<open>parked.rs\<close>: \<open>lock\<close> spins on a
  compare-exchange of the flag, the critical section touches the guarded object, \<open>unlock\<close> stores
  \<open>false\<close>. Any number of agents call operations on one object; \<open>exec\<close> is the critical section.
  The log of finished critical sections is history, no step reads it.
\<close>

section \<open>Agents and steps\<close>

datatype ('op, 'r) lock_pc = LIdle | LSpin 'op | LInside 'op | LUnlock 'r

record ('o, 'op, 'r) lock_sys =
  lk_locked :: bool
  lk_object :: 'o
  lk_pc :: "nat \<Rightarrow> ('op, 'r) lock_pc"
  lk_log :: "('op \<times> 'r) list"

definition lock_start :: "'o \<Rightarrow> ('o, 'op, 'r) lock_sys" where
  "lock_start x = \<lparr>lk_locked = False, lk_object = x, lk_pc = (\<lambda>_. LIdle), lk_log = []\<rparr>"

text \<open>
  \<open>compare_exchange_weak\<close> may fail although the flag is free, so \<open>lock_spins\<close> has no side
  condition.
\<close>

inductive lock_step :: "('op \<Rightarrow> 'o \<Rightarrow> 'r \<times> 'o) \<Rightarrow> ('o, 'op, 'r) lock_sys \<Rightarrow> ('o, 'op, 'r) lock_sys \<Rightarrow> bool"
  for exec where
  lock_calls: "lk_pc s i = LIdle \<Longrightarrow> lock_step exec s (s\<lparr>lk_pc := (lk_pc s)(i := LSpin oper)\<rparr>)"
| lock_spins: "lk_pc s i = LSpin oper \<Longrightarrow> lock_step exec s s"
| lock_acquires: "lk_pc s i = LSpin oper \<Longrightarrow> \<not> lk_locked s \<Longrightarrow>
    lock_step exec s (s\<lparr>lk_locked := True, lk_pc := (lk_pc s)(i := LInside oper)\<rparr>)"
| lock_works: "lk_pc s i = LInside oper \<Longrightarrow> exec oper (lk_object s) = (r, x) \<Longrightarrow>
    lock_step exec s (s\<lparr>lk_object := x, lk_pc := (lk_pc s)(i := LUnlock r), lk_log := lk_log s @ [(oper, r)]\<rparr>)"
| lock_releases: "lk_pc s i = LUnlock r \<Longrightarrow>
    lock_step exec s (s\<lparr>lk_locked := False, lk_pc := (lk_pc s)(i := LIdle)\<rparr>)"

inductive lock_reach :: "('op \<Rightarrow> 'o \<Rightarrow> 'r \<times> 'o) \<Rightarrow> 'o \<Rightarrow> ('o, 'op, 'r) lock_sys \<Rightarrow> bool" for exec x where
  lock_reach_start: "lock_reach exec x (lock_start x)"
| lock_reach_step: "lock_reach exec x s \<Longrightarrow> lock_step exec s s' \<Longrightarrow> lock_reach exec x s'"

text \<open>The operations run one after the other by one caller, with the results they return.\<close>

fun run_ops :: "('op \<Rightarrow> 'o \<Rightarrow> 'r \<times> 'o) \<Rightarrow> 'op list \<Rightarrow> 'o \<Rightarrow> 'r list \<times> 'o" where
  "run_ops exec [] x = ([], x)"
| "run_ops exec (p # ps) x = (let (r, y) = exec p x; (rs, z) = run_ops exec ps y in (r # rs, z))"

lemma run_ops_append:
  "run_ops exec (ps @ qs) x =
     (let (rs, y) = run_ops exec ps x; (ts, z) = run_ops exec qs y in (rs @ ts, z))"
  by (induction ps arbitrary: x) (auto split: prod.splits)

lemma run_ops_snoc:
  "run_ops exec ps x = (rs, y) \<Longrightarrow> exec p y = (r, z) \<Longrightarrow> run_ops exec (ps @ [p]) x = (rs @ [r], z)"
  by (simp add: run_ops_append)

lemma run_ops_length: "run_ops exec ps x = (rs, y) \<Longrightarrow> length rs = length ps"
  by (induction ps arbitrary: x rs) (auto split: prod.splits)

section \<open>Mutual exclusion and linearization\<close>

fun inside :: "('op, 'r) lock_pc \<Rightarrow> bool" where
  "inside (LInside oper) = True"
| "inside (LUnlock r) = True"
| "inside _ = False"

definition lock_inv :: "('op \<Rightarrow> 'o \<Rightarrow> 'r \<times> 'o) \<Rightarrow> 'o \<Rightarrow> ('o, 'op, 'r) lock_sys \<Rightarrow> bool" where
  "lock_inv exec x s \<longleftrightarrow>
     (\<forall>i. inside (lk_pc s i) \<longrightarrow> lk_locked s) \<and>
     (\<forall>i j. inside (lk_pc s i) \<and> inside (lk_pc s j) \<longrightarrow> i = j) \<and>
     (\<forall>i r. lk_pc s i = LUnlock r \<longrightarrow> lk_log s \<noteq> [] \<and> snd (last (lk_log s)) = r) \<and>
     run_ops exec (map fst (lk_log s)) x = (map snd (lk_log s), lk_object s)"

lemma lock_step_inv [krio_inv]:
  assumes "lock_step exec s s'" and "lock_inv exec x s"
  shows "lock_inv exec x s'"
  using assms
proof (induction rule: lock_step.induct)
  case (lock_works s i oper r y)
  then have "run_ops exec (map fst (lk_log s) @ [oper]) x = (map snd (lk_log s) @ [r], y)"
    by (auto simp: lock_inv_def intro: run_ops_snoc)
  moreover have "inside (lk_pc s i)" using lock_works by simp
  with lock_works have "lk_locked s" and "\<And>j. inside (lk_pc s j) \<Longrightarrow> j = i"
    unfolding lock_inv_def by blast+
  ultimately show ?case by (auto simp: lock_inv_def split: if_splits)
next
  case (lock_releases s i r)
  then have "inside (lk_pc s i)" by simp
  with lock_releases have "\<And>j. inside (lk_pc s j) \<Longrightarrow> j = i"
    unfolding lock_inv_def by blast
  with lock_releases show ?case by (auto simp: lock_inv_def split: if_splits)
qed (auto simp: lock_inv_def split: if_splits)

lemma lock_reach_inv: "lock_reach exec x s \<Longrightarrow> lock_inv exec x s"
proof (induction rule: lock_reach.induct)
  case lock_reach_start
  show ?case by (simp add: lock_inv_def lock_start_def)
next
  case (lock_reach_step s s')
  then show ?case by (auto intro: lock_step_inv)
qed

lemma lock_linearizes:
  "lock_reach exec x s \<Longrightarrow> run_ops exec (map fst (lk_log s)) x = (map snd (lk_log s), lk_object s)"
  by (auto dest: lock_reach_inv simp: lock_inv_def)

lemma lock_start_fields [simp]:
  "lk_object (lock_start x) = x" "lk_pc (lock_start x) = (\<lambda>_. LIdle)" "\<not> lk_locked (lock_start x)"
  by (simp_all add: lock_start_def)

lemma lock_reach_call:
  assumes "lock_reach exec x s" and "lk_pc s = (\<lambda>_. LIdle)" and "\<not> lk_locked s"
    and "exec oper (lk_object s) = (r, y)"
  shows "lock_reach exec x (s\<lparr>lk_object := y, lk_log := lk_log s @ [(oper, r)]\<rparr>)"
proof -
  let ?s1 = "s\<lparr>lk_pc := (lk_pc s)(0 := LSpin oper)\<rparr>"
  let ?s2 = "?s1\<lparr>lk_locked := True, lk_pc := (lk_pc ?s1)(0 := LInside oper)\<rparr>"
  let ?s3 = "?s2\<lparr>lk_object := y, lk_pc := (lk_pc ?s2)(0 := LUnlock r), lk_log := lk_log ?s2 @ [(oper, r)]\<rparr>"
  let ?s4 = "?s3\<lparr>lk_locked := False, lk_pc := (lk_pc ?s3)(0 := LIdle)\<rparr>"
  have "lock_step exec s ?s1" using assms by (intro lock_calls) simp
  moreover have "lock_step exec ?s1 ?s2" using assms by (intro lock_acquires) simp_all
  moreover have "lock_step exec ?s2 ?s3" using assms by (intro lock_works) simp_all
  moreover have "lock_step exec ?s3 ?s4" by (intro lock_releases) simp
  ultimately have "lock_reach exec x ?s4" using assms(1) by (meson lock_reach_step)
  moreover have "?s4 = s\<lparr>lk_object := y, lk_log := lk_log s @ [(oper, r)]\<rparr>"
    using assms(2,3) by (cases s) (auto simp: fun_eq_iff)
  ultimately show ?thesis by simp
qed

section \<open>The contract of a guarded object\<close>

text \<open>
  An object whose operations keep an invariant: behind the lock the invariant holds in every
  reachable state, whichever agents call and however they interleave.
\<close>

locale guarded_object =
  fixes exec :: "'op \<Rightarrow> 'o \<Rightarrow> 'r \<times> 'o" and inv :: "'op list \<Rightarrow> 'r list \<Rightarrow> 'o \<Rightarrow> bool" and start :: 'o
  assumes inv_start: "inv [] [] start"
    and inv_exec: "inv ps rs x \<Longrightarrow> exec p x = (r, y) \<Longrightarrow> inv (ps @ [p]) (rs @ [r]) y"
begin

lemma run_ops_inv: "run_ops exec ps start = (rs, x) \<Longrightarrow> inv ps rs x"
proof (induction ps arbitrary: rs x rule: rev_induct)
  case Nil
  then show ?case using inv_start by simp
next
  case (snoc p ps)
  obtain ts y where y: "run_ops exec ps start = (ts, y)" by (cases "run_ops exec ps start") auto
  obtain r z where z: "exec p y = (r, z)" by (cases "exec p y") auto
  from run_ops_snoc [OF y z] snoc.prems have "rs = ts @ [r]" "x = z" by auto
  with snoc.IH [OF y] z show ?case by (auto intro: inv_exec)
qed

lemma guarded_inv:
  "lock_reach exec start s \<Longrightarrow> inv (map fst (lk_log s)) (map snd (lk_log s)) (lk_object s)"
  by (rule run_ops_inv) (rule lock_linearizes)

lemma guarded_excludes:
  "lock_reach exec start s \<Longrightarrow> inside (lk_pc s i) \<Longrightarrow> inside (lk_pc s j) \<Longrightarrow> i = j"
  by (auto dest: lock_reach_inv simp: lock_inv_def)

lemma guarded_returns:
  "lock_reach exec start s \<Longrightarrow> lk_pc s i = LUnlock r \<Longrightarrow> lk_log s \<noteq> [] \<and> snd (last (lk_log s)) = r"
  by (auto dest: lock_reach_inv simp: lock_inv_def)

end

end
