(* ===== verification/Krio_Injector.thy ===== *)
theory Krio_Injector
  imports Krio_Lock
begin

text \<open>
  \<open>crates/krio-parallel/src/injector.rs\<close>: the cluster's overflow queue, a \<open>VecDeque\<close> behind the
  spin lock of Krio_Lock. The operations here are the critical sections.
\<close>

section \<open>Operations\<close>

record 'a injector =
  inj_queue :: "'a list"

definition injector_new :: "'a injector" where
  "injector_new = \<lparr>inj_queue = []\<rparr>"

definition injector_push :: "'a \<Rightarrow> 'a injector \<Rightarrow> 'a injector" where
  "injector_push v q = q\<lparr>inj_queue := inj_queue q @ [v]\<rparr>"

definition injector_pop :: "'a injector \<Rightarrow> 'a option \<times> 'a injector" where
  "injector_pop q = (case inj_queue q of
      [] \<Rightarrow> (None, q)
    | v # vs \<Rightarrow> (Some v, q\<lparr>inj_queue := vs\<rparr>))"

definition injector_is_empty :: "'a injector \<Rightarrow> bool" where
  "injector_is_empty q \<longleftrightarrow> inj_queue q = []"

datatype 'a injector_op = InjPush 'a | InjPop | InjIsEmpty
datatype 'a injector_res = InjPushed | InjPopped "'a option" | InjEmpty bool

fun injector_exec :: "'a injector_op \<Rightarrow> 'a injector \<Rightarrow> 'a injector_res \<times> 'a injector" where
  "injector_exec (InjPush v) q = (InjPushed, injector_push v q)"
| "injector_exec InjPop q = (let (v, q') = injector_pop q in (InjPopped v, q'))"
| "injector_exec InjIsEmpty q = (InjEmpty (injector_is_empty q), q)"

section \<open>First in, first out\<close>

fun pushes :: "'a injector_op list \<Rightarrow> 'a list" where
  "pushes [] = []"
| "pushes (InjPush v # ps) = v # pushes ps"
| "pushes (_ # ps) = pushes ps"

fun popped :: "'a injector_res list \<Rightarrow> 'a list" where
  "popped [] = []"
| "popped (InjPopped (Some v) # rs) = v # popped rs"
| "popped (_ # rs) = popped rs"

lemma pushes_append [simp]: "pushes (ps @ qs) = pushes ps @ pushes qs"
  by (induction ps rule: pushes.induct) auto

lemma popped_append [simp]: "popped (rs @ ts) = popped rs @ popped ts"
  by (induction rs rule: popped.induct) auto

text \<open>The answer of a queue into which \<open>vs\<close> was pushed and from which \<open>n\<close> values were popped.\<close>

fun fifo_answer :: "'a list \<Rightarrow> nat \<Rightarrow> 'a injector_op \<Rightarrow> 'a injector_res" where
  "fifo_answer vs n (InjPush v) = InjPushed"
| "fifo_answer vs n InjPop = InjPopped (get_nth n vs)"
| "fifo_answer vs n InjIsEmpty = InjEmpty (length vs \<le> n)"

definition fifo_answers :: "'a injector_op list \<Rightarrow> 'a injector_res list \<Rightarrow> bool" where
  "fifo_answers ps rs \<longleftrightarrow> length rs = length ps \<and>
     (\<forall>k<length ps. rs ! k = fifo_answer (pushes (take k ps)) (length (popped (take k rs))) (ps ! k))"

lemma fifo_answers_snoc:
  assumes "fifo_answers ps rs" and "r = fifo_answer (pushes ps) (length (popped rs)) p"
  shows "fifo_answers (ps @ [p]) (rs @ [r])"
  using assms by (auto simp: fifo_answers_def nth_append less_Suc_eq)

interpretation inj: guarded_object injector_exec
  "\<lambda>ps rs q. pushes ps = popped rs @ inj_queue q \<and> fifo_answers ps rs" injector_new
proof (unfold_locales, goal_cases)
  case 1
  show ?case by (simp add: injector_new_def fifo_answers_def)
next
  case (2 ps rs x p r y)
  then have "r = fifo_answer (pushes ps) (length (popped rs)) p"
    by (cases p; cases "inj_queue x") (auto simp: injector_pop_def injector_is_empty_def get_nth_def)
  then have "fifo_answers (ps @ [p]) (rs @ [r])" using 2 by (intro fifo_answers_snoc) simp_all
  moreover have "pushes (ps @ [p]) = popped (rs @ [r]) @ inj_queue y"
    using 2 by (cases p; cases "inj_queue x") (auto simp: injector_push_def injector_pop_def)
  ultimately show ?case by simp
qed

text \<open>
  C16: The injector is a first-in-first-out queue under contention. However agents interleave their calls, at most one
  is inside a critical section; every critical section answers as a queue does after the ones before it (the
  \<open>k\<close>-th successful pop the \<open>k\<close>-th value pushed, \<open>None\<close> and \<open>is_empty\<close> exactly when all pushed
  values are popped); an agent leaving returns the answer of its section; and the values popped so far followed by
  the values still queued are the values pushed.
\<close>

theorem injector_fifo_under_contention:
  assumes "lock_reach injector_exec injector_new s"
  shows "fifo_answers (map fst (lk_log s)) (map snd (lk_log s)) \<and>
    pushes (map fst (lk_log s)) = popped (map snd (lk_log s)) @ inj_queue (lk_object s) \<and>
    (\<forall>i r. lk_pc s i = LUnlock r \<longrightarrow> lk_log s \<noteq> [] \<and> snd (last (lk_log s)) = r) \<and>
    (\<forall>i j. inside (lk_pc s i) \<and> inside (lk_pc s j) \<longrightarrow> i = j)"
  using inj.guarded_inv [OF assms] inj.guarded_excludes [OF assms] inj.guarded_returns [OF assms] by blast

theorem injector_fifo_under_contention_witness:
  "\<exists>s. lock_reach injector_exec injector_new s \<and> lk_log s = [(InjPush (7::nat), InjPushed)] \<and>
     lk_locked s \<and> pushes (map fst (lk_log s)) = popped (map snd (lk_log s)) @ inj_queue (lk_object s)"
proof -
  let ?s0 = "lock_start injector_new :: (nat injector, nat injector_op, nat injector_res) lock_sys"
  let ?s1 = "?s0\<lparr>lk_pc := (lk_pc ?s0)(1 := LSpin (InjPush 7))\<rparr>"
  let ?s2 = "?s1\<lparr>lk_locked := True, lk_pc := (lk_pc ?s1)(1 := LInside (InjPush 7))\<rparr>"
  let ?s3 = "?s2\<lparr>lk_object := injector_push 7 injector_new, lk_pc := (lk_pc ?s2)(1 := LUnlock InjPushed),
    lk_log := lk_log ?s2 @ [(InjPush 7, InjPushed)]\<rparr>"
  have "lock_step injector_exec ?s0 ?s1" by (rule lock_calls) (simp add: lock_start_def)
  moreover have "lock_step injector_exec ?s1 ?s2" by (rule lock_acquires) (simp_all add: lock_start_def)
  moreover have "lock_step injector_exec ?s2 ?s3" by (rule lock_works) (simp_all add: lock_start_def)
  ultimately have r: "lock_reach injector_exec injector_new ?s3"
    by (meson lock_reach_start lock_reach_step)
  show ?thesis
    using injector_fifo_under_contention [OF r] by (intro exI [of _ ?s3] conjI r) (simp_all add: lock_start_def)
qed

end
