(* ===== verification/Krio_Parked.thy ===== *)
theory Krio_Parked
  imports Krio_Core Krio_Lock
begin

text \<open>
  \<open>crates/krio-parallel/src/parked.rs\<close>: tasks waiting for a wake, and wakes that arrived before
  their task. The two ordered collections are a map and a set over \<open>u64\<close>; the operations are the
  critical sections of the spin lock of Krio_Lock. \<open>count\<close> mirrors the size of the map for the
  lock-free \<open>len\<close>.
\<close>

section \<open>Operations\<close>

record 'a parked =
  pk_tasks :: "u64 \<rightharpoonup> 'a"
  pk_early :: "u64 set"
  pk_count :: nat

definition parked_new :: "'a parked" where
  "parked_new = \<lparr>pk_tasks = Map.empty, pk_early = {}, pk_count = 0\<rparr>"

definition parked_park :: "task_id \<Rightarrow> 'a \<Rightarrow> 'a parked \<Rightarrow> 'a option \<times> 'a parked" where
  "parked_park tid task p =
     (if task_num tid \<in> pk_early p then (Some task, p\<lparr>pk_early := pk_early p - {task_num tid}\<rparr>)
      else let tasks = (pk_tasks p)(task_num tid \<mapsto> task)
           in (None, p\<lparr>pk_tasks := tasks, pk_count := card (dom tasks)\<rparr>))"

definition parked_wake :: "task_id \<Rightarrow> 'a parked \<Rightarrow> 'a option \<times> 'a parked" where
  "parked_wake tid p =
     (let task = pk_tasks p (task_num tid); tasks = (pk_tasks p)(task_num tid := None)
      in case task of
           None \<Rightarrow> (None, p\<lparr>pk_tasks := tasks, pk_early := insert (task_num tid) (pk_early p)\<rparr>)
         | Some t \<Rightarrow> (Some t, p\<lparr>pk_tasks := tasks, pk_count := card (dom tasks)\<rparr>))"

definition parked_len :: "'a parked \<Rightarrow> nat" where
  "parked_len p = pk_count p"

definition early_wake_count :: "'a parked \<Rightarrow> nat" where
  "early_wake_count p = card (pk_early p)"

datatype 'a parked_op = PkPark task_id 'a | PkWake task_id

fun parked_op_id :: "'a parked_op \<Rightarrow> task_id" where
  "parked_op_id (PkPark tid task) = tid"
| "parked_op_id (PkWake tid) = tid"

fun parked_exec :: "'a parked_op \<Rightarrow> 'a parked \<Rightarrow> 'a option \<times> 'a parked" where
  "parked_exec (PkPark tid task) p = parked_park tid task p"
| "parked_exec (PkWake tid) p = parked_wake tid p"

section \<open>One identity at a time\<close>

text \<open>
  What the structure promises for one identity: it is free, a task waits under it, or a wake has
  arrived that no task has claimed.
\<close>

datatype 'a slot = Free | Waiting 'a | Woken

fun slot_exec :: "'a parked_op \<Rightarrow> 'a slot \<Rightarrow> 'a option \<times> 'a slot" where
  "slot_exec (PkPark tid task) Woken = (Some task, Free)"
| "slot_exec (PkPark tid task) _ = (None, Waiting task)"
| "slot_exec (PkWake tid) (Waiting task) = (Some task, Free)"
| "slot_exec (PkWake tid) _ = (None, Woken)"

definition slot_at :: "task_id \<Rightarrow> 'a parked \<Rightarrow> 'a slot" where
  "slot_at tid p = (case pk_tasks p (task_num tid) of
      Some t \<Rightarrow> Waiting t
    | None \<Rightarrow> if task_num tid \<in> pk_early p then Woken else Free)"

definition parked_ok :: "'a parked \<Rightarrow> bool" where
  "parked_ok p \<longleftrightarrow> finite (dom (pk_tasks p)) \<and> finite (pk_early p) \<and>
     dom (pk_tasks p) \<inter> pk_early p = {} \<and> pk_count p = card (dom (pk_tasks p))"

lemma parked_new_ok: "parked_ok parked_new"
  by (simp add: parked_ok_def parked_new_def)

lemma parked_exec_ok [krio_inv]: "parked_ok p \<Longrightarrow> parked_ok (snd (parked_exec oper p))"
  by (cases oper) (auto simp: parked_ok_def parked_park_def parked_wake_def Let_def domIff split: option.splits)

lemma parked_exec_slot:
  assumes "parked_ok p"
  shows "fst (parked_exec oper p) = fst (slot_exec oper (slot_at (parked_op_id oper) p)) \<and>
    slot_at (parked_op_id oper) (snd (parked_exec oper p)) = snd (slot_exec oper (slot_at (parked_op_id oper) p)) \<and>
    (\<forall>tid. tid \<noteq> parked_op_id oper \<longrightarrow> slot_at tid (snd (parked_exec oper p)) = slot_at tid p)"
proof (cases oper)
  case (PkPark tid task)
  with assms show ?thesis
    by (auto simp: parked_ok_def parked_park_def slot_at_def Let_def domIff task_id.expand split: option.splits)
next
  case (PkWake tid)
  with assms show ?thesis
    by (auto simp: parked_ok_def parked_wake_def slot_at_def Let_def domIff task_id.expand split: option.splits)
qed

section \<open>Wakes under contention\<close>

definition ops_on :: "task_id \<Rightarrow> ('a parked_op \<times> 'a option) list \<Rightarrow> ('a parked_op \<times> 'a option) list" where
  "ops_on tid log = filter (\<lambda>(p, r). parked_op_id p = tid) log"

definition parked_log_ok :: "'a parked_op list \<Rightarrow> 'a option list \<Rightarrow> 'a parked \<Rightarrow> bool" where
  "parked_log_ok ps rs p \<longleftrightarrow> length ps = length rs \<and> parked_ok p \<and>
     (\<forall>tid. run_ops slot_exec (map fst (ops_on tid (zip ps rs))) Free =
        (map snd (ops_on tid (zip ps rs)), slot_at tid p))"

interpretation pk: guarded_object parked_exec parked_log_ok parked_new
proof (unfold_locales, goal_cases)
  case 1
  show ?case
    using parked_new_ok by (simp add: parked_log_ok_def ops_on_def) (simp add: slot_at_def parked_new_def)
next
  case (2 ps rs x p r y)
  then have y: "y = snd (parked_exec p x)" "r = fst (parked_exec p x)" by auto
  from 2 have x: "parked_ok x" "length ps = length rs" by (auto simp: parked_log_ok_def)
  have "run_ops slot_exec (map fst (ops_on tid (zip (ps @ [p]) (rs @ [r])))) Free =
        (map snd (ops_on tid (zip (ps @ [p]) (rs @ [r]))), slot_at tid y)" for tid
  proof (cases "parked_op_id p = tid")
    case True
    from 2(1) have "run_ops slot_exec (map fst (ops_on tid (zip ps rs))) Free =
        (map snd (ops_on tid (zip ps rs)), slot_at tid x)" by (simp add: parked_log_ok_def)
    moreover have "slot_exec p (slot_at tid x) = (r, slot_at tid y)"
      using parked_exec_slot [OF x(1), of p] True y by (simp add: prod_eq_iff)
    ultimately show ?thesis
      using True x(2) by (simp add: ops_on_def run_ops_snoc)
  next
    case False
    with 2(1) x parked_exec_slot [OF x(1), of p] y show ?thesis
      by (auto simp: parked_log_ok_def ops_on_def)
  qed
  with x y parked_exec_ok [OF x(1), of p] show ?case by (simp add: parked_log_ok_def)
qed

text \<open>
  C14: \<open>park\<close> and \<open>wake\<close> act on the identity they name and on no other, as the three-state slot
  says: a wake hands back the task waiting there or is recorded, a park claims a recorded wake and
  hands its task straight back or leaves the task waiting; no identity is ever both waiting and
  woken, and the lock-free length is the number of waiting tasks.
\<close>

theorem parked_refines_slots:
  assumes "parked_ok p"
  shows "parked_ok (snd (parked_exec oper p)) \<and>
    parked_len (snd (parked_exec oper p)) = card (dom (pk_tasks (snd (parked_exec oper p)))) \<and>
    (\<forall>tid. slot_at tid (snd (parked_exec oper p)) =
      (if tid = parked_op_id oper then snd (slot_exec oper (slot_at tid p)) else slot_at tid p)) \<and>
    fst (parked_exec oper p) = fst (slot_exec oper (slot_at (parked_op_id oper) p))"
  using parked_exec_slot [OF assms, of oper] parked_exec_ok [OF assms, of oper]
  by (auto simp: parked_len_def parked_ok_def)

theorem parked_refines_slots_witness:
  "slot_at (TaskId 7) (snd (parked_exec (PkWake (TaskId 7)) (parked_new :: nat parked))) = Woken"
proof -
  have "slot_at (TaskId 7) (parked_new :: nat parked) = Free" by (simp add: slot_at_def parked_new_def)
  with parked_refines_slots [OF parked_new_ok, of "PkWake (TaskId 7)"]
  have "slot_at (TaskId 7) (snd (parked_exec (PkWake (TaskId 7)) (parked_new :: nat parked))) =
      snd (slot_exec (PkWake (TaskId 7)) Free)"
    by (metis parked_op_id.simps(2))
  then show ?thesis by simp
qed

text \<open>
  C13: A wake is never lost to the race with the task's own parking. Whatever else agents do with
  other identities, and whichever of the two critical sections runs first, when one park and one
  wake of an identity have run the task was handed back by exactly one of them, to be queued
  again, and neither a waiting task nor a recorded wake is left behind.
\<close>

theorem parked_wake_not_lost:
  assumes "lock_reach parked_exec parked_new s"
    and "mset (map fst (ops_on tid (lk_log s))) = {#PkPark tid task, PkWake tid#}"
  shows "(ops_on tid (lk_log s) = [(PkPark tid task, None), (PkWake tid, Some task)] \<or>
      ops_on tid (lk_log s) = [(PkWake tid, None), (PkPark tid task, Some task)]) \<and>
    slot_at tid (lk_object s) = Free"
proof -
  let ?log = "ops_on tid (lk_log s)"
  have zip: "zip (map fst (lk_log s)) (map snd (lk_log s)) = lk_log s" by (simp add: zip_map_fst_snd)
  from pk.guarded_inv [OF assms(1)] have run: "run_ops slot_exec (map fst ?log) Free = (map snd ?log, slot_at tid (lk_object s))"
    unfolding parked_log_ok_def zip by blast
  have "length (map fst ?log) = 2"
    using arg_cong [OF assms(2), of size] by simp
  then obtain a b where ab: "?log = [a, b]" by (auto simp: numeral_2_eq_2 length_Suc_conv)
  with assms(2) have "fst a = PkPark tid task \<and> fst b = PkWake tid \<or> fst a = PkWake tid \<and> fst b = PkPark tid task"
    by (auto simp: add_eq_conv_ex)
  with run ab show ?thesis by (cases a; cases b) auto
qed

definition parked_race :: "(nat parked, nat parked_op, nat option) lock_sys" where
  "parked_race = (let p1 = snd (parked_wake (TaskId 7) parked_new); p2 = snd (parked_park (TaskId 7) 99 p1) in
     \<lparr>lk_locked = False, lk_object = p2, lk_pc = (\<lambda>_. LIdle),
      lk_log = [(PkWake (TaskId 7), None), (PkPark (TaskId 7) 99, Some 99)]\<rparr>)"

lemma parked_race_reach: "lock_reach parked_exec parked_new parked_race"
proof -
  let ?w = "parked_wake (TaskId 7) (parked_new :: nat parked)"
  let ?p = "parked_park (TaskId 7) 99 (snd ?w)"
  have w: "parked_exec (PkWake (TaskId 7)) parked_new = (None, snd ?w)"
    by (simp add: parked_wake_def parked_new_def)
  have p: "parked_exec (PkPark (TaskId 7) 99) (snd ?w) = (Some 99, snd ?p)"
    by (simp add: parked_park_def parked_wake_def parked_new_def)
  have "lock_reach parked_exec parked_new
    ((lock_start parked_new)\<lparr>lk_object := snd ?w, lk_log := [(PkWake (TaskId 7), None)]\<rparr>)"
    using lock_reach_call [where exec = parked_exec and x = "parked_new :: nat parked", OF lock_reach_start _ _ _] w
    by (fastforce simp: lock_start_def)
  from lock_reach_call [OF this, of "PkPark (TaskId 7) 99"] p show ?thesis
    by (simp add: lock_start_def parked_race_def Let_def)
qed

theorem parked_wake_not_lost_witness:
  "slot_at (TaskId 7) (lk_object parked_race) = Free \<and> ops_on (TaskId 7) (lk_log parked_race) \<noteq> []"
proof -
  have "mset (map fst (ops_on (TaskId 7) (lk_log parked_race))) = {#PkPark (TaskId 7) 99, PkWake (TaskId 7)#}"
    by (simp add: parked_race_def ops_on_def Let_def)
  from parked_wake_not_lost [OF parked_race_reach this] show ?thesis by auto
qed

end
