(* ===== verification/Krio_Park.thy ===== *)
theory Krio_Park
  imports Krio_Core
begin

text \<open>
  \<open>crates/krio-parallel/src/park.rs\<close>: the values of a parking slot and the bounded spin, the
  \<open>Park\<close> backend of a target with nothing to sleep on. What the slot holds each time it is read
  is up to the other agents, so \<open>SpinPark::park\<close> takes the sequence of values it reads.
\<close>

definition RUNNING :: u32 where "RUNNING = 0"
definition PARKED :: u32 where "PARKED = 1"
definition NOTIFIED :: u32 where "NOTIFIED = 2"

lemma park_states [simp]:
  "RUNNING \<noteq> PARKED" "PARKED \<noteq> RUNNING" "RUNNING \<noteq> NOTIFIED" "NOTIFIED \<noteq> RUNNING"
  "PARKED \<noteq> NOTIFIED" "NOTIFIED \<noteq> PARKED"
  by (simp_all add: RUNNING_def PARKED_def NOTIFIED_def)

record spin_park =
  spins :: u32

definition spin_park_default :: spin_park where
  "spin_park_default = \<lparr>spins = 4096\<rparr>"

text \<open>\<open>for _ in 0..self.spins\<close>: the number of reads made before the call returns.\<close>

fun spin_reads :: "nat \<Rightarrow> (nat \<Rightarrow> u32) \<Rightarrow> u32 \<Rightarrow> nat" where
  "spin_reads 0 reads expected = 0"
| "spin_reads (Suc n) reads expected =
     (if reads 0 \<noteq> expected then 1 else Suc (spin_reads n (\<lambda>k. reads (Suc k)) expected))"

definition spin_park_park :: "spin_park \<Rightarrow> (nat \<Rightarrow> u32) \<Rightarrow> u32 \<Rightarrow> nat" where
  "spin_park_park p reads expected = spin_reads (unat (spins p)) reads expected"

lemma spin_reads_le: "spin_reads n reads expected \<le> n"
  by (induction n arbitrary: reads) auto

lemma spin_reads_early: "k < n \<Longrightarrow> reads k \<noteq> expected \<Longrightarrow> spin_reads n reads expected \<le> Suc k"
proof (induction n arbitrary: k reads)
  case 0
  then show ?case by simp
next
  case (Suc n)
  show ?case
  proof (cases k)
    case 0
    with Suc.prems show ?thesis by simp
  next
    case (Suc j)
    with Suc.IH [of j "\<lambda>k. reads (Suc k)"] Suc.prems show ?thesis by auto
  qed
qed

lemma spin_reads_waits: "j < spin_reads n reads expected - 1 \<Longrightarrow> reads j = expected"
proof (induction n arbitrary: j reads)
  case 0
  then show ?case by simp
next
  case (Suc n)
  show ?case
  proof (cases j)
    case 0
    with Suc.prems show ?thesis by (simp split: if_splits)
  next
    case (Suc i)
    with Suc.IH [of i "\<lambda>k. reads (Suc k)"] Suc.prems show ?thesis by (auto split: if_splits)
  qed
qed

lemma spin_reads_full: "spin_reads m reads expected = m \<or> reads (spin_reads m reads expected - 1) \<noteq> expected"
proof (induction m arbitrary: reads)
  case 0
  show ?case by simp
next
  case (Suc m)
  show ?case
  proof (cases "reads 0 \<noteq> expected")
    case False
    show ?thesis
    proof (cases m)
      case 0
      with False show ?thesis by simp
    next
      case (Suc l)
      with Suc.IH [of "\<lambda>k. reads (Suc k)"] False show ?thesis by auto
    qed
  qed simp
qed

text \<open>
  The bounded spin always returns, after at most \<open>spins\<close> reads of the slot; it returns at the
  first read that differs from the expected value, and it gives up early for no other reason: a
  call that made fewer reads than the bound has seen the slot change.
\<close>

theorem spin_park_bounded:
  "let n = spin_park_park p reads expected in
     n \<le> unat (spins p) \<and> (\<forall>j<n - 1. reads j = expected) \<and>
     (\<forall>k<unat (spins p). reads k = expected \<or> n \<le> Suc k) \<and>
     (n = unat (spins p) \<or> reads (n - 1) \<noteq> expected)"
  using spin_reads_le spin_reads_early spin_reads_waits spin_reads_full
  unfolding spin_park_park_def Let_def by blast

theorem spin_park_bounded_witness:
  "let p = \<lparr>spins = 8\<rparr>; reads = (\<lambda>k. if k < 5 then PARKED else NOTIFIED)
   in spin_park_park p reads PARKED = 6 \<and> spin_park_park p reads PARKED \<le> 8"
proof -
  let ?reads = "\<lambda>k. if k < 5 then PARKED else NOTIFIED"
  have "spin_park_park \<lparr>spins = 8\<rparr> ?reads PARKED = 6"
  proof -
    have "spin_reads 8 ?reads PARKED = 6" by (simp add: numeral_eq_Suc)
    then show ?thesis by (simp add: spin_park_park_def)
  qed
  moreover have "spin_park_park \<lparr>spins = 8\<rparr> ?reads PARKED \<le> unat (spins \<lparr>spins = 8\<rparr>)"
    using spin_park_bounded unfolding Let_def by blast
  ultimately show ?thesis by (simp add: Let_def)
qed

end
