(* ===== verification/Krio_Safepoint.thy ===== *)
theory Krio_Safepoint
  imports Krio_Core
begin

text \<open>
  \<open>crates/krio-parallel/src/safepoint.rs\<close> and the stop-the-world entry points of
  \<open>crates/krio-parallel/src/lib.rs\<close>: the barrier word, its operations run alone, and the same
  operations cut at their atomic accesses with agents and hosts interleaved in every order.

  A \<open>Park\<close> backend may return spuriously at any time, so a call of \<open>park\<close> is no step of its own
  here: a thread waiting for a value looks again whenever it is scheduled.
\<close>

unbundle bit_operations_syntax

section \<open>The barrier word\<close>

record safepoint =
  sp_state :: u32
  sp_stopped :: u32

definition sp_PENDING :: u32 where
  "sp_PENDING = 1"

definition sp_new :: safepoint where
  "sp_new = \<lparr>sp_state = 0, sp_stopped = 0\<rparr>"

definition pending :: "u32 \<Rightarrow> bool" where
  "pending st \<longleftrightarrow> st AND sp_PENDING = sp_PENDING"

definition sp_requested :: "safepoint \<Rightarrow> bool" where
  "sp_requested sp = pending (sp_state sp)"

definition sp_stopped_count :: "safepoint \<Rightarrow> u32" where
  "sp_stopped_count sp = sp_stopped sp"

text \<open>Run alone the exchange loop takes its first turn.\<close>

definition sp_request :: "safepoint \<Rightarrow> bool \<times> safepoint" where
  "sp_request sp = (if pending (sp_state sp) then (False, sp) else (True, sp\<lparr>sp_state := sp_state sp + 1\<rparr>))"

text \<open>
  \<open>release\<close> run alone: \<open>None\<close> when it does not return, which is when agents are still counted and
  the cluster is not stopping, for then nobody comes to take the count down.
\<close>

definition sp_release :: "bool \<Rightarrow> safepoint \<Rightarrow> safepoint option" where
  "sp_release stopping sp =
     (if \<not> pending (sp_state sp) then Some sp
      else let sp' = sp\<lparr>sp_state := sp_state sp + 1\<rparr>
           in if sp_stopped sp' = 0 \<or> stopping then Some sp' else None)"

text \<open>\<open>enter\<close> run alone waits for ever on a pending stop.\<close>

definition sp_enter :: "safepoint \<Rightarrow> safepoint option" where
  "sp_enter sp = (if \<not> pending (sp_state sp) then Some sp else None)"

section \<open>Threads\<close>

text \<open>
  Agents are the threads below \<open>sw_agents\<close>; the others are hosts. An agent is \<open>Stepping\<close> inside
  \<open>Task::step\<close> and \<open>AtPoll\<close> between two steps of \<open>drive_once\<close>, where it goes on only when no stop
  is pending. The place says where a call was made and returns to.
\<close>

datatype place = InTask | InLoop | Outside

datatype sp_pc =
    Stepping
  | AtPoll
  | Away
  | EnterLoad place
  | EnterAdd place u32
  | EnterWait place u32
  | EnterSub place
  | RequestCas place bool u32
  | Await place
  | AwaitStop place
  | Collect place
  | ReleaseLoad place
  | ReleaseCas place u32
  | Drain place
  | DrainStop place

record stop_sys =
  sw_agents :: nat
  sw_sp :: safepoint
  sw_stopping :: bool
  sw_pc :: "nat \<Rightarrow> sp_pc"

fun return_to :: "place \<Rightarrow> sp_pc" where
  "return_to InTask = Stepping"
| "return_to InLoop = AtPoll"
| "return_to Outside = Away"

text \<open>
  The next access of a thread. In \<open>RequestCas\<close> and \<open>ReleaseCas\<close> the last argument is the value the
  thread loaded; a failed exchange loads the value it saw. \<open>others\<close> of \<open>stop_the_world\<close> is
  \<open>sw_agents - 1\<close>. \<open>Collect\<close> is the call of the host's \<open>f\<close>.
\<close>

definition sp_next :: "stop_sys \<Rightarrow> sp_pc \<Rightarrow> sp_pc \<times> safepoint" where
  "sp_next s pc = (let sp = sw_sp s; st = sp_state sp in case pc of
      Stepping \<Rightarrow> (AtPoll, sp)
    | AtPoll \<Rightarrow> (if pending st then EnterLoad InLoop else Stepping, sp)
    | Away \<Rightarrow> (Away, sp)
    | EnterLoad p \<Rightarrow> (if \<not> pending st then return_to p else EnterAdd p st, sp)
    | EnterAdd p seen \<Rightarrow> (EnterWait p seen, sp\<lparr>sp_stopped := sp_stopped sp + 1\<rparr>)
    | EnterWait p seen \<Rightarrow> (if st = seen then EnterWait p seen else EnterSub p, sp)
    | EnterSub p \<Rightarrow> (return_to p, sp\<lparr>sp_stopped := sp_stopped sp - 1\<rparr>)
    | RequestCas p waits seen \<Rightarrow>
        (if pending seen then (return_to p, sp)
         else if st = seen then (if waits then Await p else return_to p, sp\<lparr>sp_state := seen + 1\<rparr>)
         else (RequestCas p waits st, sp))
    | Await p \<Rightarrow> (if of_nat (sw_agents s - 1) \<le> sp_stopped sp then Collect p else AwaitStop p, sp)
    | AwaitStop p \<Rightarrow> (if sw_stopping s then ReleaseLoad p else Await p, sp)
    | Collect p \<Rightarrow> (ReleaseLoad p, sp)
    | ReleaseLoad p \<Rightarrow> (ReleaseCas p st, sp)
    | ReleaseCas p seen \<Rightarrow>
        (if \<not> pending seen then (return_to p, sp)
         else if st = seen then (Drain p, sp\<lparr>sp_state := seen + 1\<rparr>)
         else (ReleaseCas p st, sp))
    | Drain p \<Rightarrow> (if sp_stopped sp = 0 then return_to p else DrainStop p, sp)
    | DrainStop p \<Rightarrow> (if sw_stopping s then return_to p else Drain p, sp))"

text \<open>
  Besides the next access a thread makes the calls of the API: a task polls and enters, or stops
  the world; a host outside a task asks for a stop without waiting, resumes, or shuts down. A
  call that the thread is not in a position to make leaves the state alone.
\<close>

datatype sp_act =
    Advance nat
  | PollInTask nat
  | StopTheWorld nat
  | HostRequest nat
  | HostResume nat
  | HostShutdown nat

definition goto :: "nat \<Rightarrow> sp_pc \<Rightarrow> stop_sys \<Rightarrow> stop_sys" where
  "goto i pc s = s\<lparr>sw_pc := (sw_pc s)(i := pc)\<rparr>"

fun sp_do :: "sp_act \<Rightarrow> stop_sys \<Rightarrow> stop_sys" where
  "sp_do (Advance i) s = (let (pc, sp) = sp_next s (sw_pc s i) in goto i pc (s\<lparr>sw_sp := sp\<rparr>))"
| "sp_do (PollInTask i) s =
     (if sw_pc s i = Stepping \<and> sp_requested (sw_sp s) then goto i (EnterLoad InTask) s else s)"
| "sp_do (StopTheWorld i) s =
     (if sw_pc s i = Stepping \<and> i < sw_agents s then goto i (RequestCas InTask True (sp_state (sw_sp s))) s else s)"
| "sp_do (HostRequest i) s =
     (if sw_pc s i = Away then goto i (RequestCas Outside False (sp_state (sw_sp s))) s else s)"
| "sp_do (HostResume i) s =
     (if sw_pc s i = Away then goto i (ReleaseLoad Outside) s else s)"
| "sp_do (HostShutdown i) s =
     (if sw_pc s i = Away then goto i (ReleaseLoad Outside) (s\<lparr>sw_stopping := True\<rparr>) else s)"

fun sp_dos :: "sp_act list \<Rightarrow> stop_sys \<Rightarrow> stop_sys" where
  "sp_dos [] s = s"
| "sp_dos (a # acts) s = sp_dos acts (sp_do a s)"

definition stop_start :: "nat \<Rightarrow> stop_sys" where
  "stop_start n = \<lparr>sw_agents = n, sw_sp = sp_new, sw_stopping = False,
     sw_pc = (\<lambda>i. if i < n then Stepping else Away)\<rparr>"

definition world_is_stopped :: "stop_sys \<Rightarrow> bool" where
  "world_is_stopped s \<longleftrightarrow> of_nat (sw_agents s - 1) \<le> sp_stopped_count (sw_sp s)"

text \<open>Runs in which only agents stop the world, and nobody shuts the cluster down.\<close>

fun calm :: "sp_act \<Rightarrow> bool" where
  "calm (HostRequest i) = False"
| "calm (HostResume i) = False"
| "calm (HostShutdown i) = False"
| "calm _ = True"

section \<open>Invariant of calm runs\<close>

lemma pending_Suc [simp]: "pending (st + 1) \<longleftrightarrow> \<not> pending st" "pending (1 + st) \<longleftrightarrow> \<not> pending st"
proof -
  have "pending w \<longleftrightarrow> bit w 0" for w
    by (simp add: pending_def sp_PENDING_def and_one_eq bit_0 mod2_eq_if odd_iff_mod_2_eq_one)
  then show "pending (st + 1) \<longleftrightarrow> \<not> pending st" by (simp add: bit_0)
  then show "pending (1 + st) \<longleftrightarrow> \<not> pending st" by (simp only: add.commute)
qed


fun counted :: "sp_pc \<Rightarrow> bool" where
  "counted (EnterWait p seen) = True"
| "counted (EnterSub p) = True"
| "counted _ = False"

text \<open>The thread that stopped the world, from its winning exchange to its release.\<close>

fun owns :: "sp_pc \<Rightarrow> bool" where
  "owns (Await p) = True"
| "owns (AwaitStop p) = True"
| "owns (Collect p) = True"
| "owns (ReleaseLoad p) = True"
| "owns (ReleaseCas p seen) = True"
| "owns _ = False"

fun holds_world :: "sp_pc \<Rightarrow> bool" where
  "holds_world (Collect p) = True"
| "holds_world (ReleaseLoad p) = True"
| "holds_world (ReleaseCas p seen) = True"
| "holds_world _ = False"

fun drains :: "sp_pc \<Rightarrow> bool" where
  "drains (Drain p) = True"
| "drains (DrainStop p) = True"
| "drains _ = False"

fun waits_for :: "u32 \<Rightarrow> sp_pc \<Rightarrow> bool" where
  "waits_for st (EnterWait p seen) = (seen = st)"
| "waits_for st _ = False"

text \<open>An agent that was counted in a round that is over and has not taken itself off the count.\<close>

definition leftover :: "u32 \<Rightarrow> sp_pc \<Rightarrow> bool" where
  "leftover st pc \<longleftrightarrow> counted pc \<and> \<not> waits_for st pc"

fun pc_ok :: "u32 \<Rightarrow> sp_pc \<Rightarrow> bool" where
  "pc_ok st Stepping = True"
| "pc_ok st AtPoll = True"
| "pc_ok st Away = False"
| "pc_ok st (EnterLoad p) = (p \<noteq> Outside)"
| "pc_ok st (EnterAdd p seen) = (p \<noteq> Outside \<and> seen = st \<and> pending st)"
| "pc_ok st (EnterWait p seen) = (p \<noteq> Outside \<and> (if pending st then seen = st \<or> seen = st - 2 else seen = st - 1))"
| "pc_ok st (EnterSub p) = (p \<noteq> Outside)"
| "pc_ok st (RequestCas p w seen) = (p \<noteq> Outside \<and> w)"
| "pc_ok st (Await p) = (p \<noteq> Outside)"
| "pc_ok st (AwaitStop p) = (p \<noteq> Outside)"
| "pc_ok st (Collect p) = (p \<noteq> Outside)"
| "pc_ok st (ReleaseLoad p) = (p \<noteq> Outside)"
| "pc_ok st (ReleaseCas p seen) = (p \<noteq> Outside \<and> seen = st)"
| "pc_ok st (Drain p) = (p \<noteq> Outside)"
| "pc_ok st (DrainStop p) = (p \<noteq> Outside)"

definition calm_inv :: "stop_sys \<Rightarrow> bool" where
  "calm_inv s \<longleftrightarrow> (let n = sw_agents s; st = sp_state (sw_sp s); pc = sw_pc s in
     \<not> sw_stopping s \<and> n < 2 ^ 32 \<and>
     (\<forall>i\<ge>n. pc i = Away) \<and> (\<forall>i<n. pc_ok st (pc i)) \<and>
     unat (sp_stopped (sw_sp s)) = (\<Sum>i<n. if counted (pc i) then 1 else 0) \<and>
     (pending st \<longleftrightarrow> (\<exists>i<n. owns (pc i))) \<and>
     (\<forall>i<n. \<forall>j<n. owns (pc i) \<and> owns (pc j) \<longrightarrow> i = j) \<and>
     (\<forall>i<n. holds_world (pc i) \<longrightarrow> (\<forall>j<n. j \<noteq> i \<longrightarrow> waits_for st (pc j))) \<and>
     ((\<exists>i<n. leftover st (pc i)) \<longrightarrow> (\<exists>j<n. drains (pc j))))"

text \<open>A move that changes neither the word nor the count, and keeps the thread's part in them.\<close>

lemma calm_inv_goto:
  assumes "calm_inv s" and "i < sw_agents s" and "pc_ok (sp_state (sw_sp s)) pc"
    and "counted pc = counted (sw_pc s i)" and "owns pc = owns (sw_pc s i)"
    and "holds_world pc \<longrightarrow> (\<forall>j < sw_agents s. j \<noteq> i \<longrightarrow> waits_for (sp_state (sw_sp s)) (sw_pc s j))"
    and "waits_for (sp_state (sw_sp s)) (sw_pc s i) \<longrightarrow> waits_for (sp_state (sw_sp s)) pc"
    and "drains (sw_pc s i) \<longrightarrow> drains pc \<or> (\<forall>j < sw_agents s. \<not> counted (sw_pc s j))"
  shows "calm_inv (goto i pc s)"
proof -
  let ?n = "sw_agents s" and ?st = "sp_state (sw_sp s)" and ?f = "sw_pc s"
  have "(\<Sum>j<?n. if counted ((?f(i := pc)) j) then 1 else 0) = (\<Sum>j<?n. if counted (?f j) then 1 else 0 :: nat)"
    using sum_fun_upd [OF assms(2), of "\<lambda>pc. if counted pc then 1 else 0" ?f pc] assms(4) by simp
  moreover have "(\<exists>j<?n. owns ((?f(i := pc)) j)) = (\<exists>j<?n. owns (?f j))"
    using assms(2,5) by auto
  moreover have "leftover ?st pc \<longrightarrow> leftover ?st (?f i)"
    using assms(4,7) by (auto simp: leftover_def)
  then have "(\<exists>j<?n. leftover ?st ((?f(i := pc)) j)) \<longrightarrow> (\<exists>j<?n. leftover ?st (?f j))"
    using assms(2) by (auto split: if_splits)
  moreover have "(\<exists>j<?n. leftover ?st ((?f(i := pc)) j)) \<longrightarrow> (\<exists>j<?n. drains ((?f(i := pc)) j))"
  proof
    assume l: "\<exists>j<?n. leftover ?st ((?f(i := pc)) j)"
    with calculation(3) have "\<exists>j<?n. leftover ?st (?f j)" by blast
    with assms(1) obtain j where j: "j < ?n" "drains (?f j)" by (auto simp: calm_inv_def Let_def)
    from \<open>\<exists>j<?n. leftover ?st (?f j)\<close> have "\<not> (\<forall>j<?n. \<not> counted (?f j))" by (auto simp: leftover_def)
    with assms(2,8) j show "\<exists>j<?n. drains ((?f(i := pc)) j)" by (cases "j = i") auto
  qed
  ultimately show ?thesis
    using assms unfolding calm_inv_def goto_def Let_def by (simp split: if_splits) metis
qed


lemma goto_same: "sw_pc s i = pc \<Longrightarrow> goto i pc s = s"
  by (cases s) (auto simp: goto_def)

lemma calm_waiter:
  assumes "calm_inv s" and "i < sw_agents s" and "holds_world (sw_pc s i)" and "j < sw_agents s" and "j \<noteq> i"
  shows "\<exists>p. sw_pc s j = EnterWait p (sp_state (sw_sp s))"
proof -
  from assms have "waits_for (sp_state (sw_sp s)) (sw_pc s j)" by (auto simp: calm_inv_def Let_def)
  then show ?thesis by (cases "sw_pc s j") auto
qed

lemma calm_add:
  assumes "calm_inv s" and "i < sw_agents s" and "sw_pc s i = EnterAdd p seen"
  shows "calm_inv (goto i (EnterWait p seen) (s\<lparr>sw_sp := (sw_sp s)\<lparr>sp_stopped := sp_stopped (sw_sp s) + 1\<rparr>\<rparr>))"
proof -
  let ?n = "sw_agents s" and ?st = "sp_state (sw_sp s)" and ?f = "sw_pc s" and ?c = "sp_stopped (sw_sp s)"
  let ?sum = "\<lambda>f. \<Sum>j < ?n. if counted (f j) then 1 else 0 :: nat"
  have pc: "seen = ?st" "p \<noteq> Outside" "pending ?st"
    using assms by (auto simp: calm_inv_def Let_def)
  have sum: "?sum (?f(i := EnterWait p seen)) = Suc (?sum ?f)"
    using sum_fun_upd [OF assms(2), of "\<lambda>pc. if counted pc then 1 else 0" ?f "EnterWait p seen"] assms(3) by simp
  moreover have "?sum (?f(i := EnterWait p seen)) \<le> ?n" by (rule order_trans [OF sum_mono [of _ _ "\<lambda>_. 1"]]) auto
  moreover have "unat ?c = ?sum ?f" "?n < 2 ^ 32" using assms(1) by (auto simp: calm_inv_def Let_def)
  ultimately have "unat ?c + 1 < 2 ^ 32" by linarith
  then have "unat (?c + 1) = Suc (unat ?c)" by (simp add: unat_word_ariths)
  with sum \<open>unat ?c = ?sum ?f\<close> have "unat (?c + 1) = ?sum (?f(i := EnterWait p seen))" by simp
  moreover have "(\<exists>j < ?n. owns ((?f(i := EnterWait p seen)) j)) = (\<exists>j < ?n. owns (?f j))"
    using assms(3) by (intro ex_upd) simp
  moreover have "\<not> holds_world (?f j)" if "j < ?n" for j
    using calm_waiter [OF assms(1) that _ assms(2)] assms(3) by (cases "j = i") auto
  moreover have "(\<exists>j < ?n. leftover ?st ((?f(i := EnterWait p seen)) j)) \<longrightarrow> (\<exists>j < ?n. leftover ?st (?f j))"
    using pc by (auto simp: leftover_def split: if_splits)
  moreover have "(\<exists>j < ?n. drains (?f j)) \<longrightarrow> (\<exists>j < ?n. drains ((?f(i := EnterWait p seen)) j))"
    using assms(3) by (subst ex_upd) auto
  ultimately show ?thesis
    using assms pc unfolding calm_inv_def goto_def Let_def by (simp split: if_splits)
qed


lemma calm_sub:
  assumes "calm_inv s" and "i < sw_agents s" and "sw_pc s i = EnterSub p"
  shows "calm_inv (goto i (return_to p) (s\<lparr>sw_sp := (sw_sp s)\<lparr>sp_stopped := sp_stopped (sw_sp s) - 1\<rparr>\<rparr>))"
proof -
  let ?n = "sw_agents s" and ?st = "sp_state (sw_sp s)" and ?f = "sw_pc s" and ?c = "sp_stopped (sw_sp s)"
  let ?sum = "\<lambda>f. \<Sum>j < ?n. if counted (f j) then 1 else 0 :: nat"
  have "pc_ok ?st (EnterSub p)" using assms by (auto simp: calm_inv_def Let_def)
  then have pc: "return_to p \<in> {Stepping, AtPoll}" by (cases p) auto
  then have new: "pc_ok ?st (return_to p)" "\<not> counted (return_to p)" "\<not> owns (return_to p)"
    "\<not> drains (return_to p)" "\<not> holds_world (return_to p)" by auto
  have sum: "Suc (?sum (?f(i := return_to p))) = ?sum ?f"
    using sum_fun_upd [OF assms(2), of "\<lambda>pc. if counted pc then 1 else 0" ?f "return_to p"] assms(3) new by simp
  moreover have c: "unat ?c = ?sum ?f" using assms(1) by (auto simp: calm_inv_def Let_def)
  ultimately have "?c \<noteq> 0" by (metis nat.distinct(1) unat_0)
  then have "unat (?c - 1) = unat ?c - 1" by (rule unat_minus_one)
  with sum c have "unat (?c - 1) = ?sum (?f(i := return_to p))" by simp
  moreover have "(\<exists>j < ?n. owns ((?f(i := return_to p)) j)) = (\<exists>j < ?n. owns (?f j))"
    using assms(3) new by (intro ex_upd) simp
  moreover have "\<not> holds_world (?f j)" if "j < ?n" for j
    using calm_waiter [OF assms(1) that _ assms(2)] assms(3) by (cases "j = i") auto
  moreover have "(\<exists>j < ?n. leftover ?st ((?f(i := return_to p)) j)) \<longrightarrow> (\<exists>j < ?n. leftover ?st (?f j))"
    using new by (auto simp: leftover_def split: if_splits)
  moreover have "(\<exists>j < ?n. drains (?f j)) \<longrightarrow> (\<exists>j < ?n. drains ((?f(i := return_to p)) j))"
    using assms(3) new by (subst ex_upd) auto
  ultimately show ?thesis
    using assms new unfolding calm_inv_def goto_def Let_def by (simp split: if_splits)
qed

lemma calm_request:
  assumes "calm_inv s" and "i < sw_agents s" and "sw_pc s i = RequestCas p w seen"
    and "seen = sp_state (sw_sp s)" and "\<not> pending seen"
  shows "calm_inv (goto i (Await p) (s\<lparr>sw_sp := (sw_sp s)\<lparr>sp_state := seen + 1\<rparr>\<rparr>))"
proof -
  let ?n = "sw_agents s" and ?st = "sp_state (sw_sp s)" and ?f = "sw_pc s"
  have none: "\<not> owns (?f j)" if "j < ?n" for j
    using assms that by (auto simp: calm_inv_def Let_def)
  then have "\<not> holds_world (?f j)" if "j < ?n" for j
    using that by (metis holds_world.elims(2) owns.simps(3-5))
  moreover have ok: "pc_ok (seen + 1) (?f j)" if "j < ?n" for j
  proof -
    have "pc_ok ?st (?f j)" using assms(1) that by (auto simp: calm_inv_def Let_def)
    with none [OF that] assms(4,5) show ?thesis by (cases "?f j") (auto simp: algebra_simps)
  qed
  moreover have "p \<noteq> Outside" using ok [OF assms(2)] assms(3) by simp
  moreover have "(\<Sum>j < ?n. if counted ((?f(i := Await p)) j) then 1 else 0) = (\<Sum>j < ?n. if counted (?f j) then 1 else 0 :: nat)"
    using sum_fun_upd [OF assms(2), of "\<lambda>pc. if counted pc then 1 else 0" ?f "Await p"] assms(3) by simp
  moreover have "leftover (seen + 1) (?f j) \<longrightarrow> leftover seen (?f j)" if "j < ?n" for j
  proof -
    have "pc_ok ?st (?f j)" using assms(1) that by (auto simp: calm_inv_def Let_def)
    with assms(4,5) show ?thesis by (cases "?f j") (auto simp: leftover_def)
  qed
  then have "(\<exists>j < ?n. leftover (seen + 1) ((?f(i := Await p)) j)) \<longrightarrow> (\<exists>j < ?n. leftover seen (?f j))"
    by (auto simp: leftover_def split: if_splits)
  moreover have "(\<exists>j < ?n. drains ((?f(i := Await p)) j)) = (\<exists>j < ?n. drains (?f j))"
    using assms(3) by (intro ex_upd) simp
  moreover have "\<exists>j < ?n. owns ((?f(i := Await p)) j)" using assms(2) by (intro exI [of _ i]) simp
  ultimately show ?thesis
    using assms none unfolding calm_inv_def goto_def Let_def by simp
qed

lemma calm_arrived:
  assumes "calm_inv s" and "i < sw_agents s" and "sw_pc s i = Await p"
    and "of_nat (sw_agents s - 1) \<le> sp_stopped (sw_sp s)"
  shows "calm_inv (goto i (Collect p) s)"
proof (rule calm_inv_goto [OF assms(1,2)])
  let ?n = "sw_agents s" and ?st = "sp_state (sw_sp s)" and ?f = "sw_pc s"
  show "holds_world (Collect p) \<longrightarrow> (\<forall>j < ?n. j \<noteq> i \<longrightarrow> waits_for ?st (?f j))"
  proof (intro impI allI)
    fix j assume j: "j < ?n" "j \<noteq> i"
    have "?n < 2 ^ 32" using assms(1) by (auto simp: calm_inv_def Let_def)
    then have "unat (of_nat (?n - 1) :: u32) = ?n - 1" by (simp add: unat_of_nat take_bit_nat_eq_self)
    moreover have "unat (sp_stopped (sw_sp s)) = (\<Sum>j < ?n. if counted (?f j) then 1 else 0)"
      using assms(1) by (auto simp: calm_inv_def Let_def)
    ultimately have full: "?n - 1 \<le> (\<Sum>j < ?n. if counted (?f j) then 1 else 0)"
      using assms(4) by (simp add: word_le_nat_alt)
    have others: "counted (?f k)" if "k < ?n" "k \<noteq> i" for k
      using full assms(2,3) that by (intro indicators_full [of ?n "\<lambda>j. counted (?f j)" i k]) simp_all
    then have "\<not> drains (?f k)" if "k < ?n" for k
      using assms(3) that by (cases "k = i") (auto elim!: counted.elims(2) dest!: others)
    then have "\<not> (\<exists>j < ?n. leftover ?st (?f j))"
      using assms(1) by (auto simp: calm_inv_def Let_def)
    with others j show "waits_for ?st (?f j)" by (auto simp: leftover_def)
  qed
  show "pc_ok ?st (Collect p)" using assms by (auto simp: calm_inv_def Let_def dest: spec [of _ i])
qed (use assms(3) in auto)

lemma calm_release:
  assumes "calm_inv s" and "i < sw_agents s" and "sw_pc s i = ReleaseCas p seen"
  shows "seen = sp_state (sw_sp s) \<and> pending seen \<and>
    calm_inv (goto i (Drain p) (s\<lparr>sw_sp := (sw_sp s)\<lparr>sp_state := seen + 1\<rparr>\<rparr>))"
proof -
  let ?n = "sw_agents s" and ?st = "sp_state (sw_sp s)" and ?f = "sw_pc s"
  have pci: "pc_ok ?st (?f i)" using assms(1,2) by (auto simp: calm_inv_def Let_def)
  with assms(3) have seen: "seen = ?st" "p \<noteq> Outside" by auto
  have "\<exists>j < ?n. owns (?f j)" using assms(2,3) by (intro exI [of _ i]) simp
  with assms(1) seen have pend: "pending seen" by (simp add: calm_inv_def Let_def)
  have others: "\<exists>q. ?f j = EnterWait q seen \<and> q \<noteq> Outside" if "j < ?n" "j \<noteq> i" for j
  proof -
    have "\<exists>q. ?f j = EnterWait q seen"
      using calm_waiter [OF assms(1,2) _ that] assms(3) seen by simp
    moreover have "pc_ok ?st (?f j)" using assms(1) that by (auto simp: calm_inv_def Let_def)
    ultimately show ?thesis by auto
  qed
  have "pc_ok (seen + 1) ((?f(i := Drain p)) j)" if "j < ?n" for j
    using others [OF that] seen pend by auto
  moreover have "\<not> owns ((?f(i := Drain p)) j)" "\<not> holds_world ((?f(i := Drain p)) j)" if "j < ?n" for j
    using others [OF that] by auto
  moreover have "(\<Sum>j < ?n. if counted ((?f(i := Drain p)) j) then 1 else 0) = (\<Sum>j < ?n. if counted (?f j) then 1 else 0 :: nat)"
    using sum_fun_upd [OF assms(2), of "\<lambda>pc. if counted pc then 1 else 0" ?f "Drain p"] assms(3) by simp
  moreover have "\<exists>j < ?n. drains ((?f(i := Drain p)) j)" using assms(2) by (intro exI [of _ i]) simp
  ultimately have "calm_inv (goto i (Drain p) (s\<lparr>sw_sp := (sw_sp s)\<lparr>sp_state := seen + 1\<rparr>\<rparr>))"
    using assms pend unfolding calm_inv_def goto_def Let_def by simp
  with seen pend show ?thesis by simp
qed


lemma calm_step [krio_inv]:
  assumes "calm_inv s" and "calm a"
  shows "calm_inv (sp_do a s)"
proof -
  let ?n = "sw_agents s" and ?st = "sp_state (sw_sp s)" and ?f = "sw_pc s"
  have off: "?f i = Away" if "\<not> i < ?n" for i using assms(1) that by (auto simp: calm_inv_def Let_def)
  have ok: "pc_ok ?st (?f i)" if "i < ?n" for i using assms(1) that by (auto simp: calm_inv_def Let_def)
  have run: "\<not> sw_stopping s" using assms(1) by (auto simp: calm_inv_def Let_def)
  note move = calm_inv_goto [OF assms(1)]
  show ?thesis
  proof (cases a)
    case (Advance i)
    show ?thesis
    proof (cases "i < ?n")
      case False
      with off Advance show ?thesis using assms(1) by (simp add: sp_next_def Let_def goto_same)
    next
      case True
      note ok = ok [OF True] and move = move [OF True]
      show ?thesis
      proof (cases "?f i")
        case Away
        with ok show ?thesis by simp
      next
        case (EnterLoad p)
        with ok have "return_to p \<in> {Stepping, AtPoll}" by (cases p) auto
        with EnterLoad ok Advance show ?thesis by (auto simp: sp_next_def Let_def intro!: move)
      next
        case (EnterAdd p seen)
        with Advance calm_add [OF assms(1) True] show ?thesis by (simp add: sp_next_def Let_def)
      next
        case (EnterWait p seen)
        with ok Advance assms(1) show ?thesis
          by (auto simp: sp_next_def Let_def goto_same intro!: move)
      next
        case (EnterSub p)
        with Advance calm_sub [OF assms(1) True] show ?thesis by (simp add: sp_next_def Let_def)
      next
        case (RequestCas p w seen)
        with ok have "return_to p \<in> {Stepping, AtPoll}" "w" by (cases p, auto)
        with RequestCas ok Advance calm_request [OF assms(1) True RequestCas] show ?thesis
          by (auto simp: sp_next_def Let_def intro!: move)
      next
        case (Await p)
        with ok Advance calm_arrived [OF assms(1) True Await] show ?thesis
          by (auto simp: sp_next_def Let_def intro!: move)
      next
        case (ReleaseCas p seen)
        from calm_release [OF assms(1) True ReleaseCas] have "pending ?st" "seen = ?st"
          "calm_inv (goto i (Drain p) (s\<lparr>sw_sp := (sw_sp s)\<lparr>sp_state := ?st + 1\<rparr>\<rparr>))" by auto
        with Advance ReleaseCas show ?thesis by (simp add: sp_next_def Let_def)
      next
        case (Collect p)
        have "\<forall>j < ?n. j \<noteq> i \<longrightarrow> waits_for ?st (?f j)"
          using assms(1) True Collect by (auto simp: calm_inv_def Let_def)
        with Collect ok Advance show ?thesis by (auto simp: sp_next_def Let_def intro!: move)
      next
        case (ReleaseLoad p)
        have "\<forall>j < ?n. j \<noteq> i \<longrightarrow> waits_for ?st (?f j)"
          using assms(1) True ReleaseLoad by (auto simp: calm_inv_def Let_def)
        with ReleaseLoad ok Advance show ?thesis by (auto simp: sp_next_def Let_def intro!: move)
      next
        case (Drain p)
        with ok have ret: "return_to p \<in> {Stepping, AtPoll}" by (cases p) auto
        show ?thesis
        proof (cases "sp_stopped (sw_sp s) = 0")
          case True
          have "(\<Sum>j < ?n. if counted (?f j) then 1 else 0 :: nat) = 0"
            using assms(1) True by (simp add: calm_inv_def Let_def)
          then have "\<forall>j < ?n. \<not> counted (?f j)" by (auto split: if_splits)
          with True Drain ret Advance show ?thesis by (auto simp: sp_next_def Let_def intro!: move)
        next
          case False
          with Drain ok Advance show ?thesis by (auto simp: sp_next_def Let_def intro!: move)
        qed
      qed (use ok Advance run in \<open>auto simp: sp_next_def Let_def intro!: move\<close>)
    qed
  next
    case (PollInTask i)
    with assms(1) off [of i] show ?thesis
      by (cases "i < ?n") (auto intro!: move)
  next
    case (StopTheWorld i)
    with assms(1) show ?thesis by (auto intro!: move)
  qed (use assms(2) in auto)
qed

lemma calm_start:
  assumes "0 < n" and "n < 2 ^ 32"
  shows "calm_inv (stop_start n)"
  using assms
  by (auto simp: calm_inv_def Let_def stop_start_def sp_new_def leftover_def pending_def sp_PENDING_def)

lemma calm_run: "calm_inv s \<Longrightarrow> \<forall>a\<in>set acts. calm a \<Longrightarrow> calm_inv (sp_dos acts s)"
  by (induction acts arbitrary: s) (auto intro: calm_step)

lemma agents_fixed [simp]: "sw_agents (sp_do a s) = sw_agents s"
  by (cases a) (auto simp: goto_def split: prod.splits)

lemma agents_fixed_run [simp]: "sw_agents (sp_dos acts s) = sw_agents s"
  by (induction acts arbitrary: s) auto


section \<open>Properties\<close>

text \<open>
  C4: The stop-the-world guarantee. For any number of agents, any of which may call
  \<open>stop_the_world\<close> at any time and any number of times, in every interleaving without a shutdown
  and without the hosts' split request and resume: while one agent runs the collection \<open>f\<close>, every
  other agent is waiting at the barrier for this very round, so none is inside \<open>Task::step\<close> or on
  its way into it, and no second agent holds or awaits the world.
\<close>

theorem stop_the_world_excludes_steps:
  assumes "0 < n" and "n < 2 ^ 32" and "\<forall>a\<in>set acts. calm a"
    and "s = sp_dos acts (stop_start n)" and "i < n" and "sw_pc s i = Collect p"
  shows "(\<forall>j<n. j \<noteq> i \<longrightarrow> (\<exists>q. sw_pc s j = EnterWait q (sp_state (sw_sp s)))) \<and>
    (\<forall>j. owns (sw_pc s j) \<longrightarrow> j = i)"
proof -
  have inv: "calm_inv s" using calm_run [OF calm_start [OF assms(1,2)] assms(3)] assms(4) by simp
  have n: "sw_agents s = n" using assms(4) by (simp add: stop_start_def)
  have "\<exists>q. sw_pc s j = EnterWait q (sp_state (sw_sp s))" if "j < n" "j \<noteq> i" for j
    using calm_waiter [OF inv, of i j] assms(5,6) n that by simp
  moreover have "j = i" if "owns (sw_pc s j)" for j
  proof -
    have "j < n" using inv n that by (fastforce simp: calm_inv_def Let_def not_less [symmetric])
    with inv n that assms(5,6) show ?thesis by (simp add: calm_inv_def Let_def)
  qed
  ultimately show ?thesis by blast
qed

definition collecting_run :: "sp_act list" where
  "collecting_run = StopTheWorld 0 # Advance 0 # replicate 4 (Advance 1) @ [Advance 0]"

theorem stop_the_world_excludes_steps_witness:
  "sw_pc (sp_dos collecting_run (stop_start 2)) 0 = Collect InTask \<and>
   (\<exists>q. sw_pc (sp_dos collecting_run (stop_start 2)) 1 = EnterWait q 1)"
proof -
  have pc: "sw_pc (sp_dos collecting_run (stop_start 2)) 0 = Collect InTask"
    "sp_state (sw_sp (sp_dos collecting_run (stop_start 2))) = 1"
    by (simp_all add: collecting_run_def stop_start_def goto_def sp_next_def sp_new_def pending_def
        sp_PENDING_def numeral_eq_Suc)
  have "\<forall>a\<in>set collecting_run. calm a" by (simp add: collecting_run_def)
  from stop_the_world_excludes_steps [OF _ _ this refl _ pc(1)] pc show ?thesis by simp
qed


text \<open>
  The barrier word run alone. A request succeeds exactly when no stop is pending and makes one
  pending, so a second is refused; a release with nobody counted ends the stop and leaves a word
  different from the one agents wait on; a release without a stop changes nothing, a late
  \<open>enter\<close> returns at once without being counted, and \<open>new\<close> has no stop.
\<close>

theorem safepoint_rounds:
  "\<not> sp_requested sp_new \<and>
   (if sp_requested sp
    then sp_request sp = (False, sp) \<and> sp_enter sp = None \<and>
      (\<forall>sp'. sp_release stopping sp = Some sp' \<longrightarrow> \<not> sp_requested sp' \<and> sp_state sp' \<noteq> sp_state sp \<and>
        sp_stopped sp' = sp_stopped sp \<and> (sp_stopped sp = 0 \<or> stopping))
    else (\<exists>sp'. sp_request sp = (True, sp') \<and> sp_requested sp' \<and> sp_stopped sp' = sp_stopped sp \<and>
        fst (sp_request sp') = False) \<and>
      sp_release stopping sp = Some sp \<and> sp_enter sp = Some sp)"
  by (auto simp: sp_requested_def sp_new_def sp_request_def sp_release_def sp_enter_def Let_def
      pending_def [of 0] sp_PENDING_def split: if_splits)

theorem safepoint_rounds_witness:
  "sp_release False \<lparr>sp_state = 1, sp_stopped = 0\<rparr> = Some \<lparr>sp_state = 2, sp_stopped = 0\<rparr> \<and>
   \<not> sp_requested \<lparr>sp_state = 2, sp_stopped = 0\<rparr>"
proof -
  have *: "sp_requested \<lparr>sp_state = 1, sp_stopped = 0\<rparr>"
    "sp_release False \<lparr>sp_state = 1, sp_stopped = 0\<rparr> = Some \<lparr>sp_state = 2, sp_stopped = 0\<rparr>"
    by (simp_all add: sp_requested_def sp_release_def pending_def sp_PENDING_def)
  with safepoint_rounds [of "\<lparr>sp_state = 1, sp_stopped = 0\<rparr>" False] show ?thesis by auto
qed

lemmas stop_evals = stop_start_def goto_def sp_next_def sp_new_def sp_requested_def pending_def
  sp_PENDING_def numeral_eq_Suc

text \<open>A host's shutdown, up to its exchange, and then some accesses of one agent.\<close>

definition shutdown_then :: "nat \<Rightarrow> nat \<Rightarrow> nat \<Rightarrow> sp_act list" where
  "shutdown_then h j k = [HostShutdown h, Advance h, Advance h] @ replicate k (Advance j)"

lemma shutdown_frees_waiter:
  assumes "sw_pc s h = Away" and "sw_pc s j = EnterWait q (sp_state (sw_sp s))" and "pending (sp_state (sw_sp s))"
    and "sw_pc s i = Collect p" and "j \<noteq> i" and "q \<noteq> Outside"
  shows "\<exists>k. sw_pc (sp_dos (shutdown_then h j k) s) i = Collect p \<and> sw_pc (sp_dos (shutdown_then h j k) s) j = Stepping \<and>
    sw_stopping (sp_dos (shutdown_then h j k) s)"
proof -
  have h: "h \<noteq> i" "h \<noteq> j" using assms(1,2,4) by auto
  show ?thesis
  proof (cases q)
    case InTask
    with assms h show ?thesis
      by (intro exI [of _ 2]) (simp add: shutdown_then_def goto_def sp_next_def Let_def numeral_eq_Suc)
  next
    case InLoop
    with assms h show ?thesis
      by (intro exI [of _ 3]) (simp add: shutdown_then_def goto_def sp_next_def Let_def numeral_eq_Suc)
  next
    case Outside
    with assms(6) show ?thesis by simp
  qed
qed

text \<open>
  C22: A shutdown breaks the guarantee, whenever it comes during a collection. \<open>shutdown\<close> releases whatever stop
  is pending, also one whose collection is running, and \<open>drive_once\<close> leaves the barrier and takes its next job
  without looking at \<open>stopping\<close> first: from every state that agents reach by themselves with one of them in its
  \<open>f\<close>, every other agent can be back inside \<open>Task::step\<close> a few steps after any host begins a shutdown, while
  \<open>f\<close> still runs.
\<close>

theorem shutdown_releases_a_running_collection:
  assumes "0 < n" and "n < 2 ^ 32" and "\<forall>a\<in>set acts. calm a" and "s = sp_dos acts (stop_start n)"
    and "i < n" and "sw_pc s i = Collect p" and "n \<le> h" and "j < n" and "j \<noteq> i"
  shows "\<exists>k. sw_pc (sp_dos (shutdown_then h j k) s) i = Collect p \<and> sw_pc (sp_dos (shutdown_then h j k) s) j = Stepping \<and>
    sw_stopping (sp_dos (shutdown_then h j k) s)"
proof -
  have inv: "calm_inv s" using calm_run [OF calm_start [OF assms(1,2)] assms(3)] assms(4) by simp
  have n: "sw_agents s = n" using assms(4) by (simp add: stop_start_def)
  have away: "sw_pc s h = Away" using inv n assms(7) by (simp add: calm_inv_def Let_def)
  obtain q where q: "sw_pc s j = EnterWait q (sp_state (sw_sp s))"
    using calm_waiter [OF inv, of i j] assms(5,6,8,9) n by auto
  have "owns (sw_pc s i)" using assms(6) by simp
  then have pend: "pending (sp_state (sw_sp s))" using inv n assms(5) unfolding calm_inv_def Let_def by blast
  have "pc_ok (sp_state (sw_sp s)) (sw_pc s j)" using inv n assms(8) by (simp add: calm_inv_def Let_def)
  then have "q \<noteq> Outside" using q by simp
  from shutdown_frees_waiter [OF away q pend assms(6,9) this] show ?thesis .
qed

theorem shutdown_releases_a_running_collection_witness:
  "\<exists>k. sw_pc (sp_dos (shutdown_then 2 1 k) (sp_dos collecting_run (stop_start 2))) 0 = Collect InTask \<and>
     sw_pc (sp_dos (shutdown_then 2 1 k) (sp_dos collecting_run (stop_start 2))) 1 = Stepping"
proof -
  have pc: "sw_pc (sp_dos collecting_run (stop_start 2)) 0 = Collect InTask" by code_simp
  have "\<forall>a\<in>set collecting_run. calm a" by (simp add: collecting_run_def)
  from shutdown_releases_a_running_collection [OF _ _ this refl _ pc, of 2 1] show ?thesis by auto
qed

definition stale_run :: "sp_act list" where
  "stale_run = [HostRequest 2, Advance 2, PollInTask 1, Advance 1, HostResume 2, Advance 2, Advance 2, Advance 2,
     StopTheWorld 0, Advance 0, Advance 1, Advance 0, Advance 1, Advance 1]"

text \<open>
  An arrival for a round that is over is counted into the next one. An agent that polled
  inside its task, as \<open>enter_safepoint\<close> asks, and was delayed between its look at the word and its
  announcement is counted by a later \<open>stop_the_world\<close>; it then sees that its own round is over and
  goes back to its task while \<open>f\<close> runs.
\<close>

theorem stale_arrival_is_counted:
  "let s = sp_dos stale_run (stop_start 2)
   in sw_pc s 0 = Collect InTask \<and> sw_pc s 1 = Stepping \<and> \<not> sw_stopping s \<and> sw_pc s 2 = Away"
  by (simp add: stale_run_def stop_evals Let_def)

definition hang_run :: "sp_act list" where
  "hang_run = StopTheWorld 0 # Advance 0 # replicate 4 (Advance 1) @ replicate 4 (Advance 2) @ replicate 4 (Advance 0)
     @ replicate 3 (Advance 1) @ [StopTheWorld 1, Advance 1] @ replicate 5 (Advance 2)"

definition hung :: "stop_sys \<Rightarrow> bool" where
  "hung s \<longleftrightarrow> sw_agents s = 3 \<and> sw_sp s = \<lparr>sp_state = 3, sp_stopped = 1\<rparr> \<and> \<not> sw_stopping s \<and>
     sw_pc s 0 \<in> {Drain InTask, DrainStop InTask} \<and> sw_pc s 1 \<in> {Await InTask, AwaitStop InTask} \<and>
     sw_pc s 2 = EnterWait InLoop 3 \<and> (\<forall>i\<ge>3. sw_pc s i = Away)"

lemma hung_step:
  assumes "hung s" and "calm a"
  shows "hung (sp_do a s)"
proof (cases a)
  case (Advance i)
  have two: "\<not> (2::u32) \<le> 1" by (simp add: word_le_nat_alt)
  consider "i = 0" | "i = 1" | "i = 2" | "3 \<le> i" by linarith
  then show ?thesis
    using assms Advance two by cases (auto simp: hung_def sp_next_def goto_def Let_def)
next
  case (PollInTask i)
  then have "sw_pc s i \<noteq> Stepping" using assms(1) by (cases "3 \<le> i") (auto simp: hung_def not_le numeral_eq_Suc less_Suc_eq)
  with PollInTask assms show ?thesis by simp
next
  case (StopTheWorld i)
  then have "sw_pc s i \<noteq> Stepping" using assms(1) by (cases "3 \<le> i") (auto simp: hung_def not_le numeral_eq_Suc less_Suc_eq)
  with StopTheWorld assms show ?thesis by simp
qed (use assms(2) in auto)

lemma hung_run: "hung s \<Longrightarrow> \<forall>a\<in>set acts. calm a \<Longrightarrow> hung (sp_dos acts s)"
  by (induction acts arbitrary: s) (auto intro: hung_step)

text \<open>
  C24: Two agents that stop the world in turn can hang each other. The first drains the barrier
  until it reads a count of zero; if a second agent, released by that very stop, asks for the next
  one in between, the third is counted again before the first has looked. From then on, whatever
  the threads do, the first stays in its drain, waiting for the third to leave, the third waits
  for the second to release, and the second waits for the first to arrive: neither
  \<open>stop_the_world\<close> returns, though every agent polls.
\<close>

theorem two_stops_hang:
  "(\<forall>a\<in>set hang_run. calm a) \<and>
   (\<forall>acts. (\<forall>a\<in>set acts. calm a) \<longrightarrow>
      (let s = sp_dos acts (sp_dos hang_run (stop_start 3))
       in sw_pc s 0 \<in> {Drain InTask, DrainStop InTask} \<and> sw_pc s 1 \<in> {Await InTask, AwaitStop InTask} \<and>
          sw_pc s 2 = EnterWait InLoop 3))"
proof -
  let ?s = "sp_dos hang_run (stop_start 3)"
  have calm: "\<forall>a\<in>set hang_run. calm a" by code_simp
  have "calm_inv (stop_start 3)" by (rule calm_start) simp_all
  with calm have "calm_inv ?s" by (intro calm_run)
  then have "\<forall>i\<ge>3. sw_pc ?s i = Away" by (simp add: calm_inv_def Let_def stop_start_def)
  moreover have "sw_sp ?s = \<lparr>sp_state = 3, sp_stopped = 1\<rparr>" by code_simp
  moreover have "sw_pc ?s 0 = Drain InTask" "sw_pc ?s 1 = Await InTask" "sw_pc ?s 2 = EnterWait InLoop 3"
    by code_simp+
  moreover have "\<not> sw_stopping ?s" by code_simp
  ultimately have "hung ?s" by (simp add: hung_def stop_start_def)
  then have "hung (sp_dos acts ?s)" if "\<forall>a\<in>set acts. calm a" for acts
    using that by (rule hung_run)
  then have "let s = sp_dos acts ?s in sw_pc s 0 \<in> {Drain InTask, DrainStop InTask} \<and>
      sw_pc s 1 \<in> {Await InTask, AwaitStop InTask} \<and> sw_pc s 2 = EnterWait InLoop 3"
    if "\<forall>a\<in>set acts. calm a" for acts
    using that by (simp add: hung_def Let_def)
  with calm show ?thesis by blast
qed

theorem two_stops_hang_witness:
  "sw_pc (sp_dos [Advance 0, Advance 1, Advance 2] (sp_dos hang_run (stop_start 3))) 2 = EnterWait InLoop 3"
proof -
  have "\<forall>a\<in>set [Advance 0, Advance 1, Advance 2]. calm a" by simp
  with two_stops_hang show ?thesis unfolding Let_def by blast
qed

end
