(* ===== verification/Krio_Cluster.thy ===== *)
theory Krio_Cluster
  imports Krio_Runtime Krio_Deque Krio_Injector Krio_Parked Krio_Park Krio_Safepoint
begin

text \<open>
  \<open>crates/krio-parallel/src/lib.rs\<close> and \<open>observer.rs\<close>: a cluster of agents sharing one pool of
  work. Its state is the record \<open>cluster\<close>; the operations here run to completion one after the
  other, which is what the deque, the injector and the parked map promise of each single call.

  \<open>None\<close> is a panic (an assertion, an index out of range, an arithmetic overflow of \<open>usize\<close>).
  The index type of the deques, a word of width \<open>'w\<close>, is also the width of \<open>usize\<close>. Notifications
  of the \<open>Park\<close> backend and calls of the observer are recorded in the order they are made.
\<close>

section \<open>State\<close>

record 't job =
  job_id :: task_id
  job_task :: 't

record ('t, 'i) agent =
  ag_deque :: "('t job, 'i) deque"
  ag_park :: u32

datatype observed =
    OnStepBegin task_id agent_id
  | OnStepEnd task_id agent_id
  | OnMigrate task_id agent_id agent_id

record ('t, 'i, 'f) cluster =
  cl_agents :: "('t, 'i) agent list"
  cl_injector :: "'t job injector"
  cl_parked :: "'t job parked"
  cl_safepoint :: safepoint
  cl_stopping :: bool
  cl_rotor :: u32
  cl_next_id :: u64
  cl_observer :: bool
  cl_frame_ms :: 'f
  cl_unparked :: "nat list"
  cl_observed :: "observed list"

section \<open>Construction\<close>

definition DEFAULT_DEQUE_CAPACITY :: nat where
  "DEFAULT_DEQUE_CAPACITY = 256"

definition DEFAULT_FRAME_MS :: "'f::numeral" where
  "DEFAULT_FRAME_MS = 8"

definition cluster_with_capacity :: "u32 \<Rightarrow> nat \<Rightarrow> ('t, 'w::len word, 'f::numeral) cluster option" where
  "cluster_with_capacity agent_count capacity =
     (if 0 < agent_count
      then Some \<lparr>cl_agents = replicate (unat agent_count) \<lparr>ag_deque = deque_with_capacity capacity, ag_park = RUNNING\<rparr>,
        cl_injector = injector_new, cl_parked = parked_new, cl_safepoint = sp_new, cl_stopping = False,
        cl_rotor = 0, cl_next_id = 1, cl_observer = False, cl_frame_ms = DEFAULT_FRAME_MS,
        cl_unparked = [], cl_observed = []\<rparr>
      else None)"

definition cluster_new :: "u32 \<Rightarrow> ('t, 'w::len word, 'f::numeral) cluster option" where
  "cluster_new agent_count = cluster_with_capacity agent_count DEFAULT_DEQUE_CAPACITY"

definition set_observer :: "('t, 'i, 'f) cluster \<Rightarrow> ('t, 'i, 'f) cluster" where
  "set_observer cl = cl\<lparr>cl_observer := True\<rparr>"

definition set_frame_ms :: "'f \<Rightarrow> ('t, 'i, 'f) cluster \<Rightarrow> ('t, 'i, 'f) cluster" where
  "set_frame_ms ms cl = cl\<lparr>cl_frame_ms := ms\<rparr>"

definition agent_count :: "('t, 'i, 'f) cluster \<Rightarrow> nat" where
  "agent_count cl = length (cl_agents cl)"

definition observe :: "observed list \<Rightarrow> ('t, 'i, 'f) cluster \<Rightarrow> ('t, 'i, 'f) cluster" where
  "observe es cl = (if cl_observer cl then cl\<lparr>cl_observed := cl_observed cl @ es\<rparr> else cl)"

section \<open>Submitting work\<close>

definition mint_id :: "('t, 'i, 'f) cluster \<Rightarrow> task_id \<times> ('t, 'i, 'f) cluster" where
  "mint_id cl = (TaskId (cl_next_id cl), cl\<lparr>cl_next_id := cl_next_id cl + 1\<rparr>)"

text \<open>\<open>notify_one\<close>: the first agent found parked is marked notified and unparked.\<close>

fun notify_from :: "nat \<Rightarrow> ('t, 'i) agent list \<Rightarrow> (nat \<times> ('t, 'i) agent list) option" where
  "notify_from k [] = None"
| "notify_from k (a # as) =
     (if ag_park a = PARKED then Some (k, a\<lparr>ag_park := NOTIFIED\<rparr> # as)
      else do { (i, bs) \<leftarrow> notify_from (Suc k) as; Some (i, a # bs) })"

definition notify_one :: "('t, 'i, 'f) cluster \<Rightarrow> ('t, 'i, 'f) cluster" where
  "notify_one cl = (case notify_from 0 (cl_agents cl) of
      None \<Rightarrow> cl
    | Some (i, as) \<Rightarrow> cl\<lparr>cl_agents := as, cl_unparked := cl_unparked cl @ [i]\<rparr>)"

definition set_deque :: "nat \<Rightarrow> ('t job, 'i) deque \<Rightarrow> ('t, 'i, 'f) cluster \<Rightarrow> ('t, 'i, 'f) cluster" where
  "set_deque i d cl = cl\<lparr>cl_agents := (cl_agents cl)[i := (cl_agents cl ! i)\<lparr>ag_deque := d\<rparr>]\<rparr>"

definition inject :: "'t job \<Rightarrow> ('t, 'i, 'f) cluster \<Rightarrow> ('t, 'i, 'f) cluster" where
  "inject job cl = cl\<lparr>cl_injector := injector_push job (cl_injector cl)\<rparr>"

definition deposit :: "agent_id \<Rightarrow> 't job \<Rightarrow> ('t, 'w::len word, 'f) cluster \<Rightarrow> ('t, 'w word, 'f) cluster option" where
  "deposit agent job cl =
     (let i = unat (agent_num agent) in
      if i < length (cl_agents cl)
      then do {
        (r, d) \<leftarrow> deque_push job (ag_deque (cl_agents cl ! i));
        let cl = set_deque i d cl in
        case r of Inr _ \<Rightarrow> Some cl | Inl job \<Rightarrow> Some (inject job cl) }
      else None)"

definition spawn_on :: "agent_id \<Rightarrow> 't \<Rightarrow> ('t, 'w::len word, 'f) cluster \<Rightarrow> (task_id \<times> ('t, 'w word, 'f) cluster) option" where
  "spawn_on agent task cl =
     (let (tid, cl) = mint_id cl in do {
        cl \<leftarrow> deposit agent \<lparr>job_id = tid, job_task = task\<rparr> cl;
        Some (tid, notify_one cl) })"

definition spawn :: "'t \<Rightarrow> ('t, 'i, 'f) cluster \<Rightarrow> ('t, 'i, 'f) cluster" where
  "spawn task cl =
     (let (tid, cl) = mint_id cl in notify_one (inject \<lparr>job_id = tid, job_task = task\<rparr> cl))"

definition has_work :: "('t, 'w::len word, 'f) cluster \<Rightarrow> bool" where
  "has_work cl = (if \<not> injector_is_empty (cl_injector cl) then True
     else list_ex (\<lambda>a. \<not> deque_is_empty (ag_deque a)) (cl_agents cl))"

section \<open>Finding work\<close>

text \<open>
  The victims tried from turn \<open>k\<close> on, \<open>m\<close> turns: \<open>v = (start + k) % n\<close>, skipping the agent itself.
\<close>

fun steal_from :: "nat \<Rightarrow> nat \<Rightarrow> nat \<Rightarrow> nat \<Rightarrow> ('t, 'w::len word, 'f) cluster \<Rightarrow>
    (('t job \<times> agent_id option) option \<times> ('t, 'w word, 'f) cluster) option" where
  "steal_from 0 k start i cl = Some (None, cl)"
| "steal_from (Suc m) k start i cl =
     (if start + k < 2 ^ LENGTH('w)
      then let v = (start + k) mod length (cl_agents cl) in
        if v = i then steal_from m (Suc k) start i cl
        else do {
          (r, d) \<leftarrow> deque_steal (ag_deque (cl_agents cl ! v));
          let cl = set_deque v d cl in
          case r of
            Some job \<Rightarrow> Some (Some (job, Some (AgentId (of_nat v))), cl)
          | None \<Rightarrow> steal_from m (Suc k) start i cl }
      else None)"

definition next_job :: "agent_id \<Rightarrow> ('t, 'w::len word, 'f) cluster \<Rightarrow>
    (('t job \<times> agent_id option) option \<times> ('t, 'w word, 'f) cluster) option" where
  "next_job agent cl =
     (let i = unat (agent_num agent) in
      if i < length (cl_agents cl)
      then do {
        (r, d) \<leftarrow> deque_pop (ag_deque (cl_agents cl ! i));
        let cl = set_deque i d cl in
        case r of
          Some job \<Rightarrow> Some (Some (job, None), cl)
        | None \<Rightarrow>
            (let (r, q) = injector_pop (cl_injector cl); cl = cl\<lparr>cl_injector := q\<rparr> in
             case r of
               Some job \<Rightarrow> Some (Some (job, None), cl)
             | None \<Rightarrow>
                 (let n = length (cl_agents cl) in
                  if 1 < n
                  then let start = unat (cl_rotor cl)
                       in steal_from n 0 start i (cl\<lparr>cl_rotor := cl_rotor cl + 1\<rparr>)
                  else Some (None, cl))) }
      else None)"

definition wake :: "task_id \<Rightarrow> ('t, 'i, 'f) cluster \<Rightarrow> bool \<times> ('t, 'i, 'f) cluster" where
  "wake tid cl =
     (let (r, p) = parked_wake tid (cl_parked cl); cl = cl\<lparr>cl_parked := p\<rparr> in
      case r of
        Some job \<Rightarrow> (True, notify_one (inject job cl))
      | None \<Rightarrow> (False, cl))"

definition cl_parked_count :: "('t, 'i, 'f) cluster \<Rightarrow> nat" where
  "cl_parked_count cl = parked_len (cl_parked cl)"

text \<open>
  \<open>shutdown\<close>. The release does not wait for the barrier to empty: \<open>stopping\<close> is set.
\<close>

definition shutdown :: "('t, 'i, 'f) cluster \<Rightarrow> ('t, 'i, 'f) cluster option" where
  "shutdown cl = do {
     let cl = cl\<lparr>cl_stopping := True\<rparr>;
     sp \<leftarrow> sp_release (cl_stopping cl) (cl_safepoint cl);
     Some (cl\<lparr>cl_safepoint := sp, cl_agents := map (\<lambda>a. a\<lparr>ag_park := NOTIFIED\<rparr>) (cl_agents cl),
       cl_unparked := cl_unparked cl @ [0..<length (cl_agents cl)]\<rparr>) }"

section \<open>A pass\<close>

text \<open>What becomes of a job whose step returned.\<close>

definition settle :: "agent_id \<Rightarrow> suspension \<Rightarrow> 't job \<Rightarrow> ('t, 'w::len word, 'f) cluster \<Rightarrow> ('t, 'w word, 'f) cluster option" where
  "settle agent susp job cl = (case susp of
      Completed \<Rightarrow> Some cl
    | Pending \<Rightarrow>
        (let (r, p) = parked_park (job_id job) job (cl_parked cl); cl = cl\<lparr>cl_parked := p\<rparr> in
         case r of Some job \<Rightarrow> deposit agent job cl | None \<Rightarrow> Some cl)
    | Yielded \<Rightarrow> do {
        cl \<leftarrow> deposit agent job cl;
        a \<leftarrow> get_nth (unat (agent_num agent)) (cl_agents cl);
        Some (if 1 < deque_len (ag_deque a) then notify_one cl else cl) })"

datatype turn = Dry | GoOn | Leave | Halt

text \<open>
  One turn of the loop of \<open>drive_once\<close>. A task's step acts on the cluster and on the world around
  it: it may call the cluster's interface, and whatever other agents do in the meantime happens in
  there too. \<open>now\<close> reads the clock. \<open>barrier\<close> is the loop over \<open>enter\<close>: the cluster and the world
  when it comes to its end, \<open>None\<close> when it does not.
\<close>

definition drive_turn ::
  "('t, ('t, 'w::len word, 'f::ord) cluster \<times> 'v) task_step \<Rightarrow> ('v \<Rightarrow> 'f \<times> 'v) \<Rightarrow>
   (('t, 'w word, 'f) cluster \<times> 'v \<Rightarrow> (('t, 'w word, 'f) cluster \<times> 'v) option) \<Rightarrow>
   agent_id \<Rightarrow> agent_role \<Rightarrow> 'f option \<Rightarrow> ('t, 'w word, 'f) cluster \<times> 'v \<Rightarrow>
   (turn \<times> ('t, 'w word, 'f) cluster \<times> 'v) option" where
  "drive_turn step now barrier agent role deadline = (\<lambda>(cl, w). do {
     (next, cl) \<leftarrow> next_job agent cl;
     case next of
       None \<Rightarrow> Some (Dry, cl, w)
     | Some (job, from) \<Rightarrow> do {
         let cl = observe ((case from of Some v \<Rightarrow> [OnMigrate (job_id job) v agent] | None \<Rightarrow> [])
                           @ [OnStepBegin (job_id job) agent]) cl;
         (susp, task, cl, w) \<leftarrow> step (job_task job) (cl, w);
         let cl = observe [OnStepEnd (job_id job) agent] cl;
         cl \<leftarrow> settle agent susp (job\<lparr>job_task := task\<rparr>) cl;
         if cl_stopping cl then Some (Halt, cl, w)
         else if sp_requested (cl_safepoint cl) \<and> role \<noteq> Worker then Some (Leave, cl, w)
         else do {
           (cl, w) \<leftarrow> (if sp_requested (cl_safepoint cl) then barrier (cl, w) else Some (cl, w));
           case deadline of
             None \<Rightarrow> Some (GoOn, cl, w)
           | Some d \<Rightarrow> (let (t, w) = now w in Some (if d \<le> t then Leave else GoOn, cl, w)) } } })"

partial_function (option) drive_loop ::
  "('t, ('t, 'w::len word, 'f::ord) cluster \<times> 'v) task_step \<Rightarrow> ('v \<Rightarrow> 'f \<times> 'v) \<Rightarrow>
   (('t, 'w word, 'f) cluster \<times> 'v \<Rightarrow> (('t, 'w word, 'f) cluster \<times> 'v) option) \<Rightarrow>
   agent_id \<Rightarrow> agent_role \<Rightarrow> 'f option \<Rightarrow> nat \<Rightarrow> ('t, 'w word, 'f) cluster \<times> 'v \<Rightarrow>
   (drive \<times> ('t, 'w word, 'f) cluster \<times> 'v) option" where
  "drive_loop step now barrier agent role deadline done_steps s =
     (case drive_turn step now barrier agent role deadline s of
        None \<Rightarrow> None
      | Some (turn, s') \<Rightarrow>
          (if turn = Dry then Some (if done_steps = 0 then Idle else Ran done_steps, s')
           else if turn = Halt then Some (ShuttingDown, s')
           else if turn = Leave then Some (Ran (Suc done_steps), s')
           else drive_loop step now barrier agent role deadline (Suc done_steps) s'))"

text \<open>
  \<open>drive_once\<close>. It returns nothing when a task panics, and when it runs for ever.
\<close>

definition drive_once ::
  "('t, ('t, 'w::len word, 'f::{ord,plus}) cluster \<times> 'v) task_step \<Rightarrow> ('v \<Rightarrow> 'f \<times> 'v) \<Rightarrow>
   (('t, 'w word, 'f) cluster \<times> 'v \<Rightarrow> (('t, 'w word, 'f) cluster \<times> 'v) option) \<Rightarrow>
   agent_id \<Rightarrow> agent_role \<Rightarrow> ('t, 'w word, 'f) cluster \<times> 'v \<Rightarrow> (drive \<times> ('t, 'w word, 'f) cluster \<times> 'v) option" where
  "drive_once step now barrier agent role = (\<lambda>(cl, w).
     if cl_stopping cl then Some (ShuttingDown, cl, w)
     else case role_budget role (cl_frame_ms cl) of
       Deadline ms \<Rightarrow> (let (t, w) = now w in drive_loop step now barrier agent role (Some (t + ms)) 0 (cl, w))
     | Unbounded \<Rightarrow> drive_loop step now barrier agent role None 0 (cl, w))"

section \<open>The jobs of a cluster\<close>

definition parked_jobs :: "'a parked \<Rightarrow> 'a multiset" where
  "parked_jobs p = {# the (pk_tasks p k). k \<in># mset_set (dom (pk_tasks p)) #}"

lemma image_mset_dom_upd:
  assumes "finite (dom m)" and "m k = None"
  shows "{# the ((m(k \<mapsto> x)) j). j \<in># mset_set (dom (m(k \<mapsto> x))) #} =
    add_mset x {# the (m j). j \<in># mset_set (dom m) #}"
proof -
  have "k \<notin> dom m" using assms(2) by auto
  then have "{# the ((m(k \<mapsto> x)) j). j \<in># mset_set (dom m) #} = {# the (m j). j \<in># mset_set (dom m) #}"
    using assms(1) by (intro image_mset_cong) auto
  with assms(1) \<open>k \<notin> dom m\<close> show ?thesis by (simp del: fun_upd_apply) simp
qed

lemma parked_jobs_park:
  assumes "parked_ok p" and "pk_tasks p (task_num tid) = None" and "parked_park tid x p = (r, p')"
  shows "add_mset x (parked_jobs p) = parked_jobs p' + (case r of None \<Rightarrow> {#} | Some y \<Rightarrow> {#y#}) \<and>
    (r = None \<or> r = Some x)"
  using assms image_mset_dom_upd [of "pk_tasks p" "task_num tid" x]
  by (auto simp: parked_park_def parked_jobs_def parked_ok_def Let_def split: if_splits)

lemma parked_jobs_wake:
  assumes "parked_ok p" and "parked_wake tid p = (r, p')"
  shows "parked_jobs p = parked_jobs p' + (case r of None \<Rightarrow> {#} | Some y \<Rightarrow> {#y#})"
proof (cases "pk_tasks p (task_num tid)")
  case None
  then have "(pk_tasks p)(task_num tid := None) = pk_tasks p" by auto
  with None assms(2) show ?thesis by (auto simp: parked_wake_def parked_jobs_def Let_def)
next
  case (Some x)
  let ?m = "(pk_tasks p)(task_num tid := None)"
  have "?m(task_num tid \<mapsto> x) = pk_tasks p" using Some by auto
  moreover have "finite (dom ?m)" using assms(1) by (auto simp: parked_ok_def)
  ultimately have "parked_jobs p = add_mset x {# the (?m j). j \<in># mset_set (dom ?m) #}"
    using image_mset_dom_upd [of ?m "task_num tid" x] by (simp add: parked_jobs_def)
  moreover from Some assms(2) have "r = Some x" "pk_tasks p' = ?m"
    by (simp_all add: parked_wake_def Let_def split: prod.splits) auto
  ultimately show ?thesis by (simp add: parked_jobs_def)
qed

definition agent_jobs :: "('t, 'w::len word) agent \<Rightarrow> 't job multiset" where
  "agent_jobs a = mset (deque_list (ag_deque a))"

definition runnable :: "('t, 'w::len word, 'f) cluster \<Rightarrow> 't job multiset" where
  "runnable cl = (\<Sum>a\<leftarrow>cl_agents cl. agent_jobs a) + mset (inj_queue (cl_injector cl))"

definition all_jobs :: "('t, 'w::len word, 'f) cluster \<Rightarrow> 't job multiset" where
  "all_jobs cl = runnable cl + parked_jobs (cl_parked cl)"

definition cluster_ok :: "('t, 'w::len word, 'f) cluster \<Rightarrow> bool" where
  "cluster_ok cl \<longleftrightarrow> cl_agents cl \<noteq> [] \<and> length (cl_agents cl) < 2 ^ 32 \<and>
     (\<forall>a\<in>set (cl_agents cl). deque_wf (ag_deque a)) \<and> parked_ok (cl_parked cl) \<and>
     (\<forall>k job. pk_tasks (cl_parked cl) k = Some job \<longrightarrow> task_num (job_id job) = k)"

lemma cluster_ok_deque: "cluster_ok cl \<Longrightarrow> i < length (cl_agents cl) \<Longrightarrow> deque_wf (ag_deque (cl_agents cl ! i))"
  by (auto simp: cluster_ok_def)

lemma set_deque_simps [simp]:
  "cl_injector (set_deque i d cl) = cl_injector cl" "cl_parked (set_deque i d cl) = cl_parked cl"
  "cl_safepoint (set_deque i d cl) = cl_safepoint cl" "cl_stopping (set_deque i d cl) = cl_stopping cl"
  "cl_next_id (set_deque i d cl) = cl_next_id cl" "cl_rotor (set_deque i d cl) = cl_rotor cl"
  "length (cl_agents (set_deque i d cl)) = length (cl_agents cl)"
  "j \<noteq> i \<Longrightarrow> cl_agents (set_deque i d cl) ! j = cl_agents cl ! j"
  "i < length (cl_agents cl) \<Longrightarrow> ag_deque (cl_agents (set_deque i d cl) ! i) = d"
  by (simp_all add: set_deque_def)

lemma set_deque_ok: "cluster_ok cl \<Longrightarrow> deque_wf d \<Longrightarrow> cluster_ok (set_deque i d cl)"
  by (cases "i < length (cl_agents cl)") (auto simp: cluster_ok_def set_deque_def dest: set_update_subset_insert [THEN subsetD])

lemma runnable_set_deque:
  assumes "i < length (cl_agents cl)"
  shows "runnable (set_deque i d cl) + mset (deque_list (ag_deque (cl_agents cl ! i))) = runnable cl + mset (deque_list d)"
  using sum_list_update [OF assms, where f = agent_jobs and y = "(cl_agents cl ! i)\<lparr>ag_deque := d\<rparr>"]
  by (simp add: runnable_def set_deque_def agent_jobs_def ac_simps)

lemma inject_simps [simp]:
  "cl_agents (inject job cl) = cl_agents cl" "cl_parked (inject job cl) = cl_parked cl"
  "cl_safepoint (inject job cl) = cl_safepoint cl" "cl_stopping (inject job cl) = cl_stopping cl"
  "cl_next_id (inject job cl) = cl_next_id cl" "cl_rotor (inject job cl) = cl_rotor cl"
  "cl_frame_ms (inject job cl) = cl_frame_ms cl"
  by (simp_all add: inject_def)

lemma inject_ok [simp]:
  "cluster_ok (inject job cl) = cluster_ok cl" "runnable (inject job cl) = add_mset job (runnable cl)"
  by (simp_all add: inject_def cluster_ok_def runnable_def injector_push_def)

lemma deposit_ok:
  assumes "cluster_ok cl" and "unat (agent_num agent) < length (cl_agents cl)"
  shows "\<exists>cl'. deposit agent job cl = Some cl' \<and> cluster_ok cl' \<and> runnable cl' = add_mset job (runnable cl) \<and>
    cl_parked cl' = cl_parked cl \<and> cl_next_id cl' = cl_next_id cl \<and> cl_stopping cl' = cl_stopping cl \<and>
    cl_safepoint cl' = cl_safepoint cl \<and> cl_rotor cl' = cl_rotor cl \<and>
    length (cl_agents cl') = length (cl_agents cl)"
proof -
  let ?i = "unat (agent_num agent)" and ?d = "ag_deque (cl_agents cl ! unat (agent_num agent))"
  from dq.push_mset [OF cluster_ok_deque [OF assms], of job] obtain r d where
    push: "deque_push job ?d = Some (r, d)" "deque_wf d"
      "case r of Inl u \<Rightarrow> u = job \<and> deque_list d = deque_list ?d
        | Inr _ \<Rightarrow> mset (deque_list d) = add_mset job (mset (deque_list ?d))" by blast
  have ok: "cluster_ok (set_deque ?i d cl)" using assms(1) push(2) by (rule set_deque_ok)
  show ?thesis
  proof (cases r)
    case (Inl u)
    with push runnable_set_deque [OF assms(2), of d] ok assms(2) show ?thesis
      by (simp add: deposit_def Let_def)
  next
    case (Inr u)
    with push runnable_set_deque [OF assms(2), of d] ok assms(2) show ?thesis
      by (simp add: deposit_def Let_def)
  qed
qed

section \<open>Notification\<close>

lemma notify_from_Some:
  "notify_from k as = Some (i, bs) \<Longrightarrow>
    \<exists>us a vs. as = us @ a # vs \<and> i = k + length us \<and> (\<forall>u\<in>set us. ag_park u \<noteq> PARKED) \<and> ag_park a = PARKED \<and>
      bs = us @ a\<lparr>ag_park := NOTIFIED\<rparr> # vs"
proof (induction k as arbitrary: bs rule: notify_from.induct)
  case (2 k a as)
  show ?case
  proof (cases "ag_park a = PARKED")
    case True
    with 2(2) show ?thesis by (intro exI [of _ "[]"]) auto
  next
    case False
    with 2(2) obtain cs where cs: "notify_from (Suc k) as = Some (i, cs)" "bs = a # cs" by auto
    from 2(1) [OF False cs(1)] obtain us b vs where "as = us @ b # vs" "i = Suc k + length us"
      "\<forall>u\<in>set us. ag_park u \<noteq> PARKED" "ag_park b = PARKED" "cs = us @ b\<lparr>ag_park := NOTIFIED\<rparr> # vs" by blast
    with False cs(2) show ?thesis by (intro exI [of _ "a # us"]) auto
  qed
qed simp

lemma notify_from_None: "notify_from k as = None \<longleftrightarrow> (\<forall>a\<in>set as. ag_park a \<noteq> PARKED)"
proof (induction as arbitrary: k)
  case (Cons a as)
  from Cons.IH [of "Suc k"] show ?case by (cases "notify_from (Suc k) as") auto
qed simp

lemma notify_one_simps [simp]:
  "cl_injector (notify_one cl) = cl_injector cl" "cl_parked (notify_one cl) = cl_parked cl"
  "cl_safepoint (notify_one cl) = cl_safepoint cl" "cl_stopping (notify_one cl) = cl_stopping cl"
  "cl_next_id (notify_one cl) = cl_next_id cl" "cl_rotor (notify_one cl) = cl_rotor cl"
  "cl_frame_ms (notify_one cl) = cl_frame_ms cl"
  by (auto simp: notify_one_def split: option.splits)

lemma notify_one_deques: "map ag_deque (cl_agents (notify_one cl)) = map ag_deque (cl_agents cl)"
  by (auto simp: notify_one_def split: option.splits dest!: notify_from_Some)

lemma notify_one_length [simp]: "length (cl_agents (notify_one cl)) = length (cl_agents cl)"
  using arg_cong [OF notify_one_deques, of length] by simp

lemma runnable_deques:
  "map ag_deque (cl_agents cl') = map ag_deque (cl_agents cl) \<Longrightarrow> cl_injector cl' = cl_injector cl \<Longrightarrow>
   runnable cl' = runnable cl"
proof -
  assume d: "map ag_deque (cl_agents cl') = map ag_deque (cl_agents cl)" and "cl_injector cl' = cl_injector cl"
  have "map agent_jobs as = map (\<lambda>d. mset (deque_list d)) (map ag_deque as)" for as :: "('a, 'b word) agent list"
    by (simp add: agent_jobs_def)
  with d have "map agent_jobs (cl_agents cl') = map agent_jobs (cl_agents cl)" by metis
  with \<open>cl_injector cl' = cl_injector cl\<close> show ?thesis by (simp add: runnable_def)
qed

lemma notify_one_ok [simp]: "runnable (notify_one cl) = runnable cl" "cluster_ok (notify_one cl) = cluster_ok cl"
proof -
  show "runnable (notify_one cl) = runnable cl" by (rule runnable_deques) (simp_all add: notify_one_deques)
  have "set (map ag_deque (cl_agents (notify_one cl))) = set (map ag_deque (cl_agents cl))"
    by (simp only: notify_one_deques)
  then have "(\<forall>a\<in>set (cl_agents (notify_one cl)). deque_wf (ag_deque a)) = (\<forall>a\<in>set (cl_agents cl). deque_wf (ag_deque a))"
    by (simp add: set_eq_iff image_iff) metis
  moreover have "cl_agents (notify_one cl) = [] \<longleftrightarrow> cl_agents cl = []"
    using notify_one_length [of cl] by (metis length_0_conv)
  ultimately show "cluster_ok (notify_one cl) = cluster_ok cl" by (simp add: cluster_ok_def)
qed


section \<open>Finding work\<close>

lemma pop_at:
  assumes "cluster_ok cl" and "i < length (cl_agents cl)"
  shows "\<exists>d. deque_pop (ag_deque (cl_agents cl ! i)) =
      Some (if deque_list (ag_deque (cl_agents cl ! i)) = [] then None else Some (last (deque_list (ag_deque (cl_agents cl ! i)))), d) \<and>
    cluster_ok (set_deque i d cl) \<and> deque_list d = butlast (deque_list (ag_deque (cl_agents cl ! i)))"
proof -
  from dq.pop_back [OF cluster_ok_deque [OF assms]] set_deque_ok [OF assms(1)] show ?thesis by blast
qed

lemma steal_at:
  assumes "cluster_ok cl" and "i < length (cl_agents cl)"
  shows "\<exists>d. deque_steal (ag_deque (cl_agents cl ! i)) =
      Some (if deque_list (ag_deque (cl_agents cl ! i)) = [] then None else Some (hd (deque_list (ag_deque (cl_agents cl ! i)))), d) \<and>
    cluster_ok (set_deque i d cl) \<and> deque_list d = tl (deque_list (ag_deque (cl_agents cl ! i)))"
proof -
  from dq.steal_front [OF cluster_ok_deque [OF assms]] set_deque_ok [OF assms(1)] show ?thesis by blast
qed

abbreviation queue_of :: "nat \<Rightarrow> ('t, 'w::len word, 'f) cluster \<Rightarrow> 't job list" where
  "queue_of i cl \<equiv> deque_list (ag_deque (cl_agents cl ! i))"

text \<open>The fields that taking work off a queue leaves alone.\<close>

definition same_rest :: "('t, 'i, 'f) cluster \<Rightarrow> ('t, 'i, 'f) cluster \<Rightarrow> bool" where
  "same_rest cl' cl \<longleftrightarrow> cl_parked cl' = cl_parked cl \<and> cl_safepoint cl' = cl_safepoint cl \<and>
     cl_stopping cl' = cl_stopping cl \<and> cl_next_id cl' = cl_next_id cl \<and>
     length (cl_agents cl') = length (cl_agents cl)"

lemma same_rest_refl [simp]: "same_rest cl cl"
  by (simp add: same_rest_def)

lemma same_rest_trans: "same_rest cl2 cl1 \<Longrightarrow> same_rest cl1 cl \<Longrightarrow> same_rest cl2 cl"
  by (simp add: same_rest_def)

lemma same_rest_set_deque [simp]: "same_rest (set_deque i d cl) cl"
  by (simp add: same_rest_def)

lemma steal_from_spec:
  fixes cl :: "('t, 'w::len word, 'f) cluster"
  assumes "cluster_ok cl" and "start + k + m \<le> 2 ^ LENGTH('w)"
  shows "\<exists>r cl'. steal_from m k start i cl = Some (r, cl') \<and> cluster_ok cl' \<and> same_rest cl' cl \<and>
    cl_injector cl' = cl_injector cl \<and>
    (case r of
      None \<Rightarrow> runnable cl' = runnable cl \<and> (\<forall>j. k \<le> j \<and> j < k + m \<longrightarrow>
        (start + j) mod length (cl_agents cl) = i \<or> queue_of ((start + j) mod length (cl_agents cl)) cl = [])
    | Some (job, from) \<Rightarrow> runnable cl = add_mset job (runnable cl') \<and>
        (\<exists>v<length (cl_agents cl). v \<noteq> i \<and> from = Some (AgentId (of_nat v)) \<and> queue_of v cl \<noteq> [] \<and> job = hd (queue_of v cl)))"
  using assms
proof (induction m arbitrary: k cl)
  case 0
  then show ?case by simp
next
  case (Suc m)
  let ?n = "length (cl_agents cl)"
  let ?v = "(start + k) mod ?n"
  have pos: "0 < ?n" using Suc.prems(1) by (simp add: cluster_ok_def)
  then have v: "?v < ?n" by simp
  have bound: "start + k < 2 ^ LENGTH('w)" "start + Suc k + m \<le> 2 ^ LENGTH('w)" using Suc.prems(2) by auto
  have split: "k \<le> j \<and> j < k + Suc m \<longleftrightarrow> j = k \<or> Suc k \<le> j \<and> j < Suc k + m" for j by auto
  show ?case
  proof (cases "?v = i")
    case True
    with bound have "steal_from (Suc m) k start i cl = steal_from m (Suc k) start i cl" by (simp add: Let_def)
    with Suc.IH [OF Suc.prems(1) bound(2)] True show ?thesis
      unfolding split by (fastforce split: option.splits)
  next
    case False
    from steal_at [OF Suc.prems(1) v] obtain d where
      d: "deque_steal (ag_deque (cl_agents cl ! ?v)) = Some (if queue_of ?v cl = [] then None else Some (hd (queue_of ?v cl)), d)"
        "cluster_ok (set_deque ?v d cl)" "deque_list d = tl (queue_of ?v cl)" by blast
    let ?cl = "set_deque ?v d cl"
    show ?thesis
    proof (cases "queue_of ?v cl = []")
      case True
      have step: "steal_from (Suc m) k start i cl = steal_from m (Suc k) start i ?cl"
        using bound False d(1) True by (simp add: Let_def)
      have q: "queue_of w ?cl = queue_of w cl" if "w < ?n" for w
        using d(3) True v by (cases "w = ?v") simp_all
      have run: "runnable ?cl = runnable cl" using runnable_set_deque [OF v, of d] d(3) True by simp
      have len: "length (cl_agents ?cl) = ?n" by simp
      from Suc.IH [OF d(2) bound(2)] obtain r cl' where ih: "steal_from m (Suc k) start i ?cl = Some (r, cl')"
        "cluster_ok cl'" "same_rest cl' ?cl" "cl_injector cl' = cl_injector ?cl"
        "case r of
          None \<Rightarrow> runnable cl' = runnable ?cl \<and> (\<forall>j. Suc k \<le> j \<and> j < Suc k + m \<longrightarrow>
            (start + j) mod ?n = i \<or> queue_of ((start + j) mod ?n) ?cl = [])
        | Some (job, from) \<Rightarrow> runnable ?cl = add_mset job (runnable cl') \<and>
            (\<exists>v<?n. v \<noteq> i \<and> from = Some (AgentId (of_nat v)) \<and> queue_of v ?cl \<noteq> [] \<and> job = hd (queue_of v ?cl))"
        unfolding len by blast
      show ?thesis
      proof (intro exI conjI)
        show "steal_from (Suc m) k start i cl = Some (r, cl')" using step ih(1) by simp
        show "same_rest cl' cl" using ih(3) same_rest_set_deque by (rule same_rest_trans)
        show "case r of
            None \<Rightarrow> runnable cl' = runnable cl \<and> (\<forall>j. k \<le> j \<and> j < k + Suc m \<longrightarrow>
              (start + j) mod ?n = i \<or> queue_of ((start + j) mod ?n) cl = [])
          | Some (job, from) \<Rightarrow> runnable cl = add_mset job (runnable cl') \<and>
              (\<exists>v<?n. v \<noteq> i \<and> from = Some (AgentId (of_nat v)) \<and> queue_of v cl \<noteq> [] \<and> job = hd (queue_of v cl))"
        proof (cases r)
          case None
          with ih(5) run have "runnable cl' = runnable cl" by simp
          moreover have "(start + j) mod ?n = i \<or> queue_of ((start + j) mod ?n) cl = []"
            if "k \<le> j \<and> j < k + Suc m" for j
          proof (cases "j = k")
            case True
            with \<open>queue_of ?v cl = []\<close> show ?thesis by simp
          next
            case False
            with that None ih(5) have "(start + j) mod ?n = i \<or> queue_of ((start + j) mod ?n) ?cl = []" by simp
            moreover have "(start + j) mod ?n < ?n" using pos by simp
            ultimately show ?thesis using q by metis
          qed
          ultimately show ?thesis using None by simp
        next
          case (Some p)
          then obtain job f where r: "r = Some (job, f)" by (cases p) auto
          with ih(5) obtain w where w: "w < ?n" "w \<noteq> i" "f = Some (AgentId (of_nat w))"
            "queue_of w ?cl \<noteq> []" "job = hd (queue_of w ?cl)" "runnable ?cl = add_mset job (runnable cl')" by auto
          with q [OF w(1)] run r show ?thesis by auto
        qed
      qed (use ih in auto)
    next
      case nonempty: False
      have "steal_from (Suc m) k start i cl = Some (Some (hd (queue_of ?v cl), Some (AgentId (of_nat ?v))), ?cl)"
        using bound False d(1) nonempty by (simp add: Let_def)
      moreover have "runnable cl = add_mset (hd (queue_of ?v cl)) (runnable ?cl)"
      proof -
        have "mset (queue_of ?v cl) = add_mset (hd (queue_of ?v cl)) (mset (deque_list d))"
          using nonempty d(3) by (cases "queue_of ?v cl") auto
        with runnable_set_deque [OF v, of d] show ?thesis by simp
      qed
      ultimately show ?thesis using d(2) nonempty v False by auto
    qed
  qed
qed

lemma turns_cover:
  fixes n :: nat
  assumes "v < n"
  shows "\<exists>j<n. (start + j) mod n = v"
proof (cases "start mod n \<le> v")
  case True
  have "(start + (v - start mod n)) mod n = (start mod n + (v - start mod n)) mod n" by (simp add: mod_add_left_eq)
  with True assms show ?thesis by (intro exI [of _ "v - start mod n"]) auto
next
  case False
  have "start mod n < n" using assms by simp
  then have "start mod n + (n - start mod n + v) = n + v" by linarith
  then have "(start mod n + (n - start mod n + v)) mod n = v" using assms by simp
  then have "(start + (n - start mod n + v)) mod n = v" by (simp add: mod_add_left_eq)
  with False assms show ?thesis
    using mod_less_divisor [of n start] by (intro exI [of _ "n - start mod n + v"]) linarith
qed


lemma injector_pop_cases:
  "injector_pop q = (if inj_queue q = [] then (None, q) else (Some (hd (inj_queue q)), q\<lparr>inj_queue := tl (inj_queue q)\<rparr>))"
  by (cases "inj_queue q") (simp_all add: injector_pop_def)

lemma runnable_empty:
  "runnable cl = {#} \<longleftrightarrow> (\<forall>i<length (cl_agents cl). queue_of i cl = []) \<and> inj_queue (cl_injector cl) = []"
proof -
  have "(\<Sum>a\<leftarrow>as. agent_jobs a) = {#} \<longleftrightarrow> (\<forall>a\<in>set as. deque_list (ag_deque a) = [])"
    for as :: "('a, 'b word) agent list"
    by (induction as) (auto simp: agent_jobs_def)
  then show ?thesis by (simp add: runnable_def all_set_conv_all_nth)
qed

text \<open>
  The order in which an agent looks for work: its own newest job, the injector's oldest, the
  oldest job of some other agent.
\<close>

definition next_choice :: "nat \<Rightarrow> ('t, 'w::len word, 'f) cluster \<Rightarrow> 't job \<Rightarrow> agent_id option \<Rightarrow> bool" where
  "next_choice i cl job from \<longleftrightarrow>
     (if queue_of i cl \<noteq> [] then job = last (queue_of i cl) \<and> from = None
      else if inj_queue (cl_injector cl) \<noteq> [] then job = hd (inj_queue (cl_injector cl)) \<and> from = None
      else \<exists>v<length (cl_agents cl). v \<noteq> i \<and> from = Some (AgentId (of_nat v)) \<and> queue_of v cl \<noteq> [] \<and>
        job = hd (queue_of v cl))"

lemma next_job_spec:
  fixes cl :: "('t, 'w::len word, 'f) cluster"
  assumes "cluster_ok cl" and "unat (agent_num agent) < length (cl_agents cl)"
    and "unat (cl_rotor cl) + length (cl_agents cl) \<le> 2 ^ LENGTH('w)"
  shows "\<exists>r cl'. next_job agent cl = Some (r, cl') \<and> cluster_ok cl' \<and> same_rest cl' cl \<and>
    (case r of
      None \<Rightarrow> runnable cl = {#} \<and> runnable cl' = {#}
    | Some (job, from) \<Rightarrow> runnable cl = add_mset job (runnable cl') \<and> next_choice (unat (agent_num agent)) cl job from)"
proof -
  let ?i = "unat (agent_num agent)" and ?n = "length (cl_agents cl)"
  from pop_at [OF assms(1,2)] obtain d where
    d: "deque_pop (ag_deque (cl_agents cl ! ?i)) = Some (if queue_of ?i cl = [] then None else Some (last (queue_of ?i cl)), d)"
      "cluster_ok (set_deque ?i d cl)" "deque_list d = butlast (queue_of ?i cl)" by blast
  let ?cl = "set_deque ?i d cl"
  show ?thesis
  proof (cases "queue_of ?i cl = []")
    case False
    then have "next_job agent cl = Some (Some (last (queue_of ?i cl), None), ?cl)"
      using assms(2) d(1) by (simp add: next_job_def Let_def)
    moreover have "runnable cl = add_mset (last (queue_of ?i cl)) (runnable ?cl)"
    proof -
      have "mset (queue_of ?i cl) = add_mset (last (queue_of ?i cl)) (mset (deque_list d))"
        using False d(3) by (cases "queue_of ?i cl" rule: rev_cases) auto
      with runnable_set_deque [OF assms(2), of d] show ?thesis by simp
    qed
    ultimately show ?thesis using False d(2) by (auto simp: next_choice_def)
  next
    case own: True
    have q: "queue_of v ?cl = queue_of v cl" if "v < ?n" for v
      using d(3) own assms(2) by (cases "v = ?i") simp_all
    have run: "runnable ?cl = runnable cl" using runnable_set_deque [OF assms(2), of d] d(3) own by simp
    show ?thesis
    proof (cases "inj_queue (cl_injector cl) = []")
      case False
      let ?q = "(cl_injector cl)\<lparr>inj_queue := tl (inj_queue (cl_injector cl))\<rparr>"
      let ?cl' = "?cl\<lparr>cl_injector := ?q\<rparr>"
      have "next_job agent cl = Some (Some (hd (inj_queue (cl_injector cl)), None), ?cl')"
        using assms(2) d(1) own False by (simp add: next_job_def Let_def injector_pop_cases)
      moreover have "runnable ?cl = add_mset (hd (inj_queue (cl_injector cl))) (runnable ?cl')"
        using False by (cases "inj_queue (cl_injector cl)") (auto simp: runnable_def)
      moreover have "cluster_ok ?cl'" "same_rest ?cl' cl"
        using d(2) same_rest_set_deque [of ?i d cl] by (simp_all add: cluster_ok_def same_rest_def)
      ultimately show ?thesis using own False run by (auto simp: next_choice_def)
    next
      case inj: True
      show ?thesis
      proof (cases "1 < ?n")
        case False
        with assms(2) have "?n = 1" by linarith
        then have "next_job agent cl = Some (None, ?cl\<lparr>cl_injector := cl_injector cl\<rparr>)"
          using assms(2) d(1) own inj by (simp add: next_job_def Let_def injector_pop_cases)
        moreover have "?cl\<lparr>cl_injector := cl_injector cl\<rparr> = ?cl" by (cases cl) (simp add: set_deque_def)
        moreover have "runnable cl = {#}" using own inj assms(2) \<open>?n = 1\<close> by (simp add: runnable_empty)
        ultimately show ?thesis using d(2) run by auto
      next
        case True
        let ?cl1 = "?cl\<lparr>cl_injector := cl_injector cl, cl_rotor := cl_rotor cl + 1\<rparr>"
        have eq: "next_job agent cl = steal_from ?n 0 (unat (cl_rotor cl)) ?i ?cl1"
          using assms(2) d(1) own inj True by (simp add: next_job_def Let_def injector_pop_cases)
        have ok: "cluster_ok ?cl1" "same_rest ?cl1 cl" "length (cl_agents ?cl1) = ?n" "runnable ?cl1 = runnable ?cl"
          using d(2) same_rest_set_deque [of ?i d cl] by (simp_all add: cluster_ok_def same_rest_def runnable_def)
        have q1: "queue_of v ?cl1 = queue_of v cl" if "v < ?n" for v using q [OF that] by simp
        from steal_from_spec [OF ok(1), of "unat (cl_rotor cl)" 0 ?n ?i] assms(3) obtain r cl' where
          st: "steal_from ?n 0 (unat (cl_rotor cl)) ?i ?cl1 = Some (r, cl')" "cluster_ok cl'" "same_rest cl' ?cl1"
          "case r of
            None \<Rightarrow> runnable cl' = runnable ?cl1 \<and> (\<forall>j. 0 \<le> j \<and> j < 0 + ?n \<longrightarrow>
              (unat (cl_rotor cl) + j) mod ?n = ?i \<or> queue_of ((unat (cl_rotor cl) + j) mod ?n) ?cl1 = [])
          | Some (job, from) \<Rightarrow> runnable ?cl1 = add_mset job (runnable cl') \<and>
              (\<exists>v<?n. v \<noteq> ?i \<and> from = Some (AgentId (of_nat v)) \<and> queue_of v ?cl1 \<noteq> [] \<and> job = hd (queue_of v ?cl1))"
          unfolding ok(3) by auto
        have rest: "same_rest cl' cl" using st(3) ok(2) by (rule same_rest_trans)
        show ?thesis
        proof (cases r)
          case None
          have "queue_of v cl = []" if "v < ?n" for v
          proof (cases "v = ?i")
            case False
            from turns_cover [OF that] obtain j where "j < ?n" "(unat (cl_rotor cl) + j) mod ?n = v" by blast
            with st(4) None False have "queue_of v ?cl1 = []" by auto
            with q1 [OF that] show ?thesis by simp
          qed (use own in simp)
          then have "runnable cl = {#}" using inj by (simp add: runnable_empty)
          with None st eq rest ok(4) run show ?thesis by auto
        next
          case (Some p)
          then obtain job f where r: "r = Some (job, f)" by (cases p) auto
          with st(4) obtain v where v: "v < ?n" "v \<noteq> ?i" "f = Some (AgentId (of_nat v))" "queue_of v ?cl1 \<noteq> []"
            "job = hd (queue_of v ?cl1)" "runnable ?cl1 = add_mset job (runnable cl')" by auto
          then have "next_choice ?i cl job f" using own inj q1 [OF v(1)] by (auto simp: next_choice_def)
          with r st eq rest ok(4) run v(6) show ?thesis by auto
        qed
      qed
    qed
  qed
qed


section \<open>Submitting, waking and settling\<close>

lemma mint_simps [simp]:
  "runnable (snd (mint_id cl)) = runnable cl" "cluster_ok (snd (mint_id cl)) = cluster_ok cl"
  "cl_agents (snd (mint_id cl)) = cl_agents cl" "cl_parked (snd (mint_id cl)) = cl_parked cl"
  "fst (mint_id cl) = TaskId (cl_next_id cl)" "cl_next_id (snd (mint_id cl)) = cl_next_id cl + 1"
  by (simp_all add: mint_id_def runnable_def cluster_ok_def)

lemma spawn_ok:
  assumes "cluster_ok cl"
  shows "cluster_ok (spawn t cl) \<and> runnable (spawn t cl) = add_mset \<lparr>job_id = TaskId (cl_next_id cl), job_task = t\<rparr> (runnable cl) \<and>
    cl_parked (spawn t cl) = cl_parked cl \<and> cl_next_id (spawn t cl) = cl_next_id cl + 1"
  using assms by (simp add: spawn_def split_beta)

lemma spawn_simps [simp]:
  "cl_rotor (spawn t cl) = cl_rotor cl" "cl_frame_ms (spawn t cl) = cl_frame_ms cl"
  "cl_stopping (spawn t cl) = cl_stopping cl" "cl_safepoint (spawn t cl) = cl_safepoint cl"
  "length (cl_agents (spawn t cl)) = length (cl_agents cl)"
  by (simp_all add: spawn_def mint_id_def)

lemma spawn_on_ok:
  assumes "cluster_ok cl" and "unat (agent_num agent) < length (cl_agents cl)"
  shows "\<exists>cl'. spawn_on agent t cl = Some (TaskId (cl_next_id cl), cl') \<and> cluster_ok cl' \<and>
    runnable cl' = add_mset \<lparr>job_id = TaskId (cl_next_id cl), job_task = t\<rparr> (runnable cl) \<and>
    cl_parked cl' = cl_parked cl \<and> cl_next_id cl' = cl_next_id cl + 1"
  using deposit_ok [of "snd (mint_id cl)" agent "\<lparr>job_id = TaskId (cl_next_id cl), job_task = t\<rparr>"] assms
  by (auto simp: spawn_on_def split_beta)

lemma wake_ok:
  assumes "cluster_ok cl" and "wake tid cl = (b, cl')"
  shows "cluster_ok cl' \<and> all_jobs cl' = all_jobs cl \<and> (b \<longleftrightarrow> pk_tasks (cl_parked cl) (task_num tid) \<noteq> None) \<and>
    slot_at tid (cl_parked cl') = (if b then Free else Woken) \<and> (\<not> b \<longrightarrow> runnable cl' = runnable cl) \<and>
    (b \<longrightarrow> runnable cl' = add_mset (the (pk_tasks (cl_parked cl) (task_num tid))) (runnable cl))"
proof -
  obtain r p where w: "parked_wake tid (cl_parked cl) = (r, p)" by (cases "parked_wake tid (cl_parked cl)") auto
  have pk: "parked_ok (cl_parked cl)" using assms(1) by (simp add: cluster_ok_def)
  have "parked_ok p" using parked_exec_ok [OF pk, of "PkWake tid"] w by simp
  moreover have "pk_tasks p k = Some job \<Longrightarrow> pk_tasks (cl_parked cl) k = Some job" for k job
    using w by (auto simp: parked_wake_def Let_def split: option.splits if_splits)
  ultimately have ok: "cluster_ok (cl\<lparr>cl_parked := p\<rparr>)" using assms(1) by (auto simp: cluster_ok_def)
  have r: "r = pk_tasks (cl_parked cl) (task_num tid)" using w by (auto simp: parked_wake_def Let_def split: option.splits)
  have slot: "slot_at tid p = (if r = None then Woken else Free)"
    using parked_exec_slot [OF pk, of "PkWake tid"] w r by (auto simp: slot_at_def split: option.splits if_splits)
  have sum: "parked_jobs (cl_parked cl) = parked_jobs p + (case r of None \<Rightarrow> {#} | Some y \<Rightarrow> {#y#})"
    using parked_jobs_wake [OF pk w] .
  have run: "runnable (cl\<lparr>cl_parked := p\<rparr>) = runnable cl" by (simp add: runnable_def)
  show ?thesis
  proof (cases "pk_tasks (cl_parked cl) (task_num tid)")
    case None
    with r w assms(2) have "\<not> b" "cl' = cl\<lparr>cl_parked := p\<rparr>" by (simp_all add: wake_def)
    with None r ok slot sum run show ?thesis by (simp add: all_jobs_def)
  next
    case (Some job)
    with r w assms(2) have "b" "cl' = notify_one (inject job (cl\<lparr>cl_parked := p\<rparr>))" by (simp_all add: wake_def)
    with Some r ok slot sum run show ?thesis by (simp add: all_jobs_def)
  qed
qed

lemma settle_ok:
  assumes "cluster_ok cl" and "unat (agent_num agent) < length (cl_agents cl)"
    and "susp = Pending \<longrightarrow> pk_tasks (cl_parked cl) (task_num (job_id job)) = None"
  shows "\<exists>cl'. settle agent susp job cl = Some cl' \<and> cluster_ok cl' \<and>
    all_jobs cl' = all_jobs cl + (if susp = Completed then {#} else {#job#}) \<and>
    (susp \<noteq> Pending \<longrightarrow> cl_parked cl' = cl_parked cl) \<and>
    (susp = Pending \<longrightarrow> (if slot_at (job_id job) (cl_parked cl) = Woken
       then slot_at (job_id job) (cl_parked cl') = Free \<and> runnable cl' = add_mset job (runnable cl)
       else slot_at (job_id job) (cl_parked cl') = Waiting job \<and> runnable cl' = runnable cl)) \<and>
    cl_next_id cl' = cl_next_id cl \<and> cl_stopping cl' = cl_stopping cl \<and> cl_safepoint cl' = cl_safepoint cl \<and>
    length (cl_agents cl') = length (cl_agents cl)"
proof (cases susp)
  case Completed
  with assms(1) show ?thesis by (simp add: settle_def)
next
  case Yielded
  from deposit_ok [OF assms(1,2), of job] obtain cl1 where
    cl1: "deposit agent job cl = Some cl1" "cluster_ok cl1" "runnable cl1 = add_mset job (runnable cl)"
    "cl_parked cl1 = cl_parked cl" "cl_next_id cl1 = cl_next_id cl" "cl_stopping cl1 = cl_stopping cl"
    "cl_safepoint cl1 = cl_safepoint cl" "length (cl_agents cl1) = length (cl_agents cl)" by blast
  let ?cl2 = "if 1 < deque_len (ag_deque (cl_agents cl1 ! unat (agent_num agent))) then notify_one cl1 else cl1"
  have "settle agent susp job cl = Some ?cl2"
    using Yielded cl1(1,8) assms(2) by (simp add: settle_def get_nth_def)
  then show ?thesis using Yielded cl1 by (auto simp: all_jobs_def)
next
  case Pending
  obtain r p where w: "parked_park (job_id job) job (cl_parked cl) = (r, p)"
    by (cases "parked_park (job_id job) job (cl_parked cl)") auto
  have pk: "parked_ok (cl_parked cl)" using assms(1) by (simp add: cluster_ok_def)
  have "parked_ok p" using parked_exec_ok [OF pk, of "PkPark (job_id job) job"] w by simp
  moreover have "pk_tasks p k = Some x \<Longrightarrow> pk_tasks (cl_parked cl) k = Some x \<or> k = task_num (job_id job) \<and> x = job" for k x
    using w by (auto simp: parked_park_def Let_def split: if_splits)
  ultimately have ok: "cluster_ok (cl\<lparr>cl_parked := p\<rparr>)" using assms(1) by (fastforce simp: cluster_ok_def)
  have slot: "r = (if slot_at (job_id job) (cl_parked cl) = Woken then Some job else None)"
    "slot_at (job_id job) p = (if slot_at (job_id job) (cl_parked cl) = Woken then Free else Waiting job)"
    using parked_exec_slot [OF pk, of "PkPark (job_id job) job"] w
    by (auto split: if_splits slot.splits) (cases "slot_at (job_id job) (cl_parked cl)"; simp)+
  have sum: "add_mset job (parked_jobs (cl_parked cl)) = parked_jobs p + (case r of None \<Rightarrow> {#} | Some y \<Rightarrow> {#y#})"
    using parked_jobs_park [OF pk _ w] assms(3) Pending by simp
  have run: "runnable (cl\<lparr>cl_parked := p\<rparr>) = runnable cl" by (simp add: runnable_def)
  show ?thesis
  proof (cases "slot_at (job_id job) (cl_parked cl) = Woken")
    case False
    with Pending w slot sum run ok assms(2) show ?thesis
      by (auto simp: settle_def all_jobs_def)
  next
    case True
    with slot have r: "r = Some job" by simp
    from deposit_ok [OF ok, of agent job] assms(2) obtain cl1 where
      "deposit agent job (cl\<lparr>cl_parked := p\<rparr>) = Some cl1" "cluster_ok cl1" "runnable cl1 = add_mset job (runnable cl)"
      "cl_parked cl1 = p" "cl_next_id cl1 = cl_next_id cl" "cl_stopping cl1 = cl_stopping cl"
      "cl_safepoint cl1 = cl_safepoint cl" "length (cl_agents cl1) = length (cl_agents cl)"
      using run by auto
    with Pending w slot sum r True show ?thesis by (auto simp: settle_def all_jobs_def)
  qed
qed


section \<open>A pass over tasks that leave the cluster alone\<close>

text \<open>A task that acts on the world outside the cluster only, with no other agent about.\<close>

definition lift_step :: "('t, 'v) task_step \<Rightarrow> ('t, ('t, 'i, 'f) cluster \<times> 'v) task_step" where
  "lift_step step t = (\<lambda>(cl, w). do { (susp, t', w') \<leftarrow> step t w; Some (susp, t', cl, w') })"

lemma observe_simps [simp]:
  "runnable (observe es cl) = runnable cl" "all_jobs (observe es cl) = all_jobs cl"
  "cluster_ok (observe es cl) = cluster_ok cl" "cl_parked (observe es cl) = cl_parked cl"
  "cl_stopping (observe es cl) = cl_stopping cl" "cl_safepoint (observe es cl) = cl_safepoint cl"
  "cl_agents (observe es cl) = cl_agents cl"
  by (simp_all add: observe_def runnable_def all_jobs_def cluster_ok_def)

definition distinct_ids :: "('t, 'w::len word, 'f) cluster \<Rightarrow> bool" where
  "distinct_ids cl \<longleftrightarrow> (\<forall>tid. size {#job \<in># all_jobs cl. job_id job = tid#} \<le> 1)"

lemma distinct_ids_fresh:
  assumes "cluster_ok cl" and "distinct_ids cl" and "job \<in># runnable cl"
  shows "pk_tasks (cl_parked cl) (task_num (job_id job)) = None"
proof (rule ccontr)
  assume "pk_tasks (cl_parked cl) (task_num (job_id job)) \<noteq> None"
  then obtain j where j: "pk_tasks (cl_parked cl) (task_num (job_id job)) = Some j" by auto
  with assms(1) have "job_id j = job_id job" by (auto simp: cluster_ok_def task_id.expand)
  moreover have "j \<in># parked_jobs (cl_parked cl)"
  proof -
    have "task_num (job_id job) \<in># mset_set (dom (pk_tasks (cl_parked cl)))"
      using assms(1) j by (auto simp: cluster_ok_def parked_ok_def)
    then have "the (pk_tasks (cl_parked cl) (task_num (job_id job))) \<in># parked_jobs (cl_parked cl)"
      unfolding parked_jobs_def set_image_mset by (intro image_eqI [of _ _ "task_num (job_id job)"]) simp_all
    with j show ?thesis by simp
  qed
  moreover from assms(3) obtain A where A: "runnable cl = add_mset job A" by (metis multi_member_split)
  moreover from calculation obtain B where B: "parked_jobs (cl_parked cl) = add_mset j B" by (metis multi_member_split)
  ultimately have "2 \<le> size {#x \<in># all_jobs cl. job_id x = job_id job#}" by (simp add: all_jobs_def)
  moreover have "size {#x \<in># all_jobs cl. job_id x = job_id job#} \<le> 1"
    using assms(2) by (simp add: distinct_ids_def)
  ultimately show False by linarith
qed

lemma drive_turn_spec:
  fixes cl :: "('t, 'w::len word, 'f::ord) cluster"
  assumes "cluster_ok cl" and "distinct_ids cl" and "unat (agent_num agent) < length (cl_agents cl)"
    and "unat (cl_rotor cl) + length (cl_agents cl) \<le> 2 ^ LENGTH('w)"
    and "\<not> cl_stopping cl" and "\<not> sp_requested (cl_safepoint cl)"
  shows "(if runnable cl = {#}
     then \<exists>cl'. drive_turn (lift_step step) now barrier agent role deadline (cl, w) = Some (Dry, cl', w) \<and>
       cluster_ok cl' \<and> same_rest cl' cl \<and> runnable cl' = {#}
     else \<exists>job from. job \<in># runnable cl \<and> next_choice (unat (agent_num agent)) cl job from \<and>
       (case step (job_task job) w of
          None \<Rightarrow> drive_turn (lift_step step) now barrier agent role deadline (cl, w) = None
        | Some (susp, t, w') \<Rightarrow> \<exists>cl'.
            drive_turn (lift_step step) now barrier agent role deadline (cl, w) =
              Some (case deadline of None \<Rightarrow> (GoOn, cl', w')
                | Some d \<Rightarrow> (if d \<le> fst (now w') then Leave else GoOn, cl', snd (now w'))) \<and>
            cluster_ok cl' \<and> add_mset job (all_jobs cl') =
              all_jobs cl + (if susp = Completed then {#} else {#job\<lparr>job_task := t\<rparr>#}) \<and>
            (susp \<noteq> Pending \<longrightarrow> cl_parked cl' = cl_parked cl) \<and>
            runnable cl \<subseteq># add_mset job (runnable cl') \<and>
            (parked_jobs (cl_parked cl') = parked_jobs (cl_parked cl) \<or>
             susp = Pending \<and> parked_jobs (cl_parked cl') = add_mset (job\<lparr>job_task := t\<rparr>) (parked_jobs (cl_parked cl))) \<and>
            cl_stopping cl' = cl_stopping cl \<and> cl_safepoint cl' = cl_safepoint cl \<and>
            length (cl_agents cl') = length (cl_agents cl)))"
proof -
  from next_job_spec [OF assms(1,3,4)] obtain r cl1 where
    nj: "next_job agent cl = Some (r, cl1)" "cluster_ok cl1" "same_rest cl1 cl"
    "case r of
      None \<Rightarrow> runnable cl = {#} \<and> runnable cl1 = {#}
    | Some (job, from) \<Rightarrow> runnable cl = add_mset job (runnable cl1) \<and> next_choice (unat (agent_num agent)) cl job from"
    by blast
  show ?thesis
  proof (cases r)
    case None
    with nj show ?thesis by (auto simp: drive_turn_def)
  next
    case (Some p)
    then obtain job f where r: "r = Some (job, f)" by (cases p) auto
    with nj(4) have job: "runnable cl = add_mset job (runnable cl1)" "next_choice (unat (agent_num agent)) cl job f" by auto
    let ?es = "(case f of Some v \<Rightarrow> [OnMigrate (job_id job) v agent] | None \<Rightarrow> []) @ [OnStepBegin (job_id job) agent]"
    have body: "case step (job_task job) w of
          None \<Rightarrow> drive_turn (lift_step step) now barrier agent role deadline (cl, w) = None
        | Some (susp, t, w') \<Rightarrow> \<exists>cl'.
            drive_turn (lift_step step) now barrier agent role deadline (cl, w) =
              Some (case deadline of None \<Rightarrow> (GoOn, cl', w')
                | Some d \<Rightarrow> (if d \<le> fst (now w') then Leave else GoOn, cl', snd (now w'))) \<and>
            cluster_ok cl' \<and> add_mset job (all_jobs cl') =
              all_jobs cl + (if susp = Completed then {#} else {#job\<lparr>job_task := t\<rparr>#}) \<and>
            (susp \<noteq> Pending \<longrightarrow> cl_parked cl' = cl_parked cl) \<and>
            runnable cl \<subseteq># add_mset job (runnable cl') \<and>
            (parked_jobs (cl_parked cl') = parked_jobs (cl_parked cl) \<or>
             susp = Pending \<and> parked_jobs (cl_parked cl') = add_mset (job\<lparr>job_task := t\<rparr>) (parked_jobs (cl_parked cl))) \<and>
            cl_stopping cl' = cl_stopping cl \<and> cl_safepoint cl' = cl_safepoint cl \<and>
            length (cl_agents cl') = length (cl_agents cl)"
    proof (cases "step (job_task job) w")
      case None
      with nj(1) r show ?thesis by (simp add: drive_turn_def lift_step_def)
    next
      case (Some q)
      then obtain susp t w' where q: "step (job_task job) w = Some (susp, t, w')" by (cases q) auto
      let ?cl2 = "observe [OnStepEnd (job_id job) agent] (observe ?es cl1)"
      have "pk_tasks (cl_parked cl) (task_num (job_id job)) = None"
        using distinct_ids_fresh [OF assms(1,2), of job] job(1) by simp
      then have "pk_tasks (cl_parked ?cl2) (task_num (job_id (job\<lparr>job_task := t\<rparr>))) = None"
        using nj(3) by (simp add: same_rest_def)
      with settle_ok [of ?cl2 agent susp "job\<lparr>job_task := t\<rparr>"] nj(2,3) assms(3)
      obtain cl3 where cl3: "settle agent susp (job\<lparr>job_task := t\<rparr>) ?cl2 = Some cl3" "cluster_ok cl3"
        "all_jobs cl3 = all_jobs cl1 + (if susp = Completed then {#} else {#job\<lparr>job_task := t\<rparr>#})"
        "susp \<noteq> Pending \<longrightarrow> cl_parked cl3 = cl_parked cl1"
        "susp = Pending \<longrightarrow> runnable cl3 = add_mset (job\<lparr>job_task := t\<rparr>) (runnable cl1) \<or> runnable cl3 = runnable cl1"
        "cl_stopping cl3 = cl_stopping cl1" "cl_safepoint cl3 = cl_safepoint cl1"
        "length (cl_agents cl3) = length (cl_agents cl1)"
        by (auto simp: same_rest_def split: if_splits)
      have rest: "\<not> cl_stopping cl3" "\<not> sp_requested (cl_safepoint cl3)"
        using cl3 nj(3) assms(5,6) by (simp_all add: same_rest_def)
      have turn: "drive_turn (lift_step step) now barrier agent role deadline (cl, w) =
          Some (case deadline of None \<Rightarrow> (GoOn, cl3, w')
            | Some d \<Rightarrow> (if d \<le> fst (now w') then Leave else GoOn, cl3, snd (now w')))"
        using nj(1) r q cl3(1) rest
        by (cases deadline; cases "now w'") (simp_all add: drive_turn_def lift_step_def Let_def del: bind_Some_iff)
      have "add_mset job (all_jobs cl3) = all_jobs cl + (if susp = Completed then {#} else {#job\<lparr>job_task := t\<rparr>#})"
        using cl3(3) job(1) nj(3) by (simp add: all_jobs_def same_rest_def)
      moreover have "runnable cl \<subseteq># add_mset job (runnable cl3)" and "parked_jobs (cl_parked cl3) = parked_jobs (cl_parked cl) \<or>
          susp = Pending \<and> parked_jobs (cl_parked cl3) = add_mset (job\<lparr>job_task := t\<rparr>) (parked_jobs (cl_parked cl))"
      proof -
        have parked: "cl_parked cl1 = cl_parked cl" using nj(3) by (simp add: same_rest_def)
        have sum: "runnable cl3 + parked_jobs (cl_parked cl3) =
            runnable cl1 + parked_jobs (cl_parked cl) + (if susp = Completed then {#} else {#job\<lparr>job_task := t\<rparr>#})"
          using cl3(3) parked by (simp add: all_jobs_def)
        show "runnable cl \<subseteq># add_mset job (runnable cl3)"
          using cl3(4,5) sum job(1) parked by (cases susp) (auto simp: ac_simps)
        show "parked_jobs (cl_parked cl3) = parked_jobs (cl_parked cl) \<or>
            susp = Pending \<and> parked_jobs (cl_parked cl3) = add_mset (job\<lparr>job_task := t\<rparr>) (parked_jobs (cl_parked cl))"
          using cl3(4,5) sum parked by (cases susp) auto
      qed
      ultimately show ?thesis using turn q cl3 nj(3) by (auto simp: same_rest_def)
    qed
    with job show ?thesis by auto
  qed
qed


lemma distinct_ids_step:
  assumes "distinct_ids cl" and "add_mset job (all_jobs cl') = all_jobs cl + A"
    and "A = {#} \<or> (\<exists>j. A = {#j#} \<and> job_id j = job_id job)"
  shows "distinct_ids cl'"
  unfolding distinct_ids_def
proof
  fix tid
  let ?P = "\<lambda>j. job_id j = tid"
  have sum: "size (filter_mset ?P (add_mset job (all_jobs cl'))) = size (filter_mset ?P (all_jobs cl)) + size (filter_mset ?P A)"
    using assms(2) by simp
  have few: "size (filter_mset ?P (all_jobs cl)) \<le> 1" using assms(1) by (simp add: distinct_ids_def)
  show "size (filter_mset ?P (all_jobs cl')) \<le> 1"
  proof (cases "job_id job = tid")
    case True
    have "size (filter_mset ?P A) \<le> 1" using assms(3) by (elim disjE exE conjE) simp_all
    with sum few True show ?thesis by simp
  next
    case False
    then have "filter_mset ?P A = {#}" using assms(3) by (elim disjE exE conjE) simp_all
    with sum few False show ?thesis by simp
  qed
qed

lemma rotor_room:
  assumes "cluster_ok (cl :: ('t, 'w::len word, 'f) cluster)" and "33 \<le> LENGTH('w)"
  shows "unat (cl_rotor cl) + length (cl_agents cl) \<le> 2 ^ LENGTH('w)"
proof -
  have "unat (cl_rotor cl) < 2 ^ 32" using unsigned_less [of "cl_rotor cl", where 'a = nat] by simp
  moreover have "length (cl_agents cl) < 2 ^ 32" using assms(1) by (simp add: cluster_ok_def)
  moreover have "(2::nat) ^ 33 \<le> 2 ^ LENGTH('w)" using assms(2) by (intro power_increasing) auto
  ultimately show ?thesis by simp
qed

definition job_work :: "('t \<Rightarrow> nat) \<Rightarrow> 't job multiset \<Rightarrow> nat" where
  "job_work rank jobs = (\<Sum>job\<in>#jobs. Suc (rank (job_task job)))"

text \<open>One turn that finds a job whose step returns.\<close>

lemma drive_turn_steps:
  fixes cl :: "('t, 'i::len word, 'f::ord) cluster"
  assumes "cluster_ok cl" and "distinct_ids cl" and "unat (agent_num agent) < length (cl_agents cl)"
    and "33 \<le> LENGTH('i)" and "\<not> cl_stopping cl" and "\<not> sp_requested (cl_safepoint cl)"
    and "runnable cl \<noteq> {#}" and "\<forall>job\<in>#runnable cl. step (job_task job) w \<noteq> None"
  obtains job susp t w' A cl' where "job \<in># runnable cl" and "step (job_task job) w = Some (susp, t, w')"
    and "drive_turn (lift_step step) now barrier agent role deadline (cl, w) =
      Some (case deadline of None \<Rightarrow> (GoOn, cl', w')
        | Some d \<Rightarrow> (if d \<le> fst (now w') then Leave else GoOn, cl', snd (now w')))"
    and "cluster_ok cl'" and "distinct_ids cl'"
    and "A = (if susp = Completed then {#} else {#job\<lparr>job_task := t\<rparr>#})"
    and "add_mset job (all_jobs cl') = all_jobs cl + A" and "runnable cl \<subseteq># add_mset job (runnable cl')"
    and "parked_jobs (cl_parked cl') = parked_jobs (cl_parked cl) \<or>
      susp = Pending \<and> parked_jobs (cl_parked cl') = add_mset (job\<lparr>job_task := t\<rparr>) (parked_jobs (cl_parked cl))"
    and "\<not> cl_stopping cl'" and "\<not> sp_requested (cl_safepoint cl')" and "length (cl_agents cl') = length (cl_agents cl)"
proof -
  note spec = drive_turn_spec [OF assms(1-3) rotor_room [OF assms(1,4)] assms(5,6), where step = step and now = now
      and barrier = barrier and role = role and deadline = deadline and w = w]
  from spec assms(7) obtain job where job: "job \<in># runnable cl" and body: "case step (job_task job) w of
          None \<Rightarrow> drive_turn (lift_step step) now barrier agent role deadline (cl, w) = None
        | Some (susp, t, w') \<Rightarrow> \<exists>cl'.
            drive_turn (lift_step step) now barrier agent role deadline (cl, w) =
              Some (case deadline of None \<Rightarrow> (GoOn, cl', w')
                | Some d \<Rightarrow> (if d \<le> fst (now w') then Leave else GoOn, cl', snd (now w'))) \<and>
            cluster_ok cl' \<and> add_mset job (all_jobs cl') =
              all_jobs cl + (if susp = Completed then {#} else {#job\<lparr>job_task := t\<rparr>#}) \<and>
            (susp \<noteq> Pending \<longrightarrow> cl_parked cl' = cl_parked cl) \<and>
            runnable cl \<subseteq># add_mset job (runnable cl') \<and>
            (parked_jobs (cl_parked cl') = parked_jobs (cl_parked cl) \<or>
             susp = Pending \<and> parked_jobs (cl_parked cl') = add_mset (job\<lparr>job_task := t\<rparr>) (parked_jobs (cl_parked cl))) \<and>
            cl_stopping cl' = cl_stopping cl \<and> cl_safepoint cl' = cl_safepoint cl \<and>
            length (cl_agents cl') = length (cl_agents cl)"
    unfolding if_not_P [OF assms(7)] by (elim exE conjE) (rule that)
  from bspec [OF assms(8) job] obtain susp t w' where st: "step (job_task job) w = Some (susp, t, w')" by auto
  define A where "A = (if susp = Completed then {#} else {#job\<lparr>job_task := t\<rparr>#})"
  from body [unfolded st option.case prod.case, folded A_def] obtain cl' where
    cl': "drive_turn (lift_step step) now barrier agent role deadline (cl, w) =
      Some (case deadline of None \<Rightarrow> (GoOn, cl', w')
        | Some d \<Rightarrow> (if d \<le> fst (now w') then Leave else GoOn, cl', snd (now w')))"
    "cluster_ok cl'" "add_mset job (all_jobs cl') = all_jobs cl + A" "runnable cl \<subseteq># add_mset job (runnable cl')"
    "parked_jobs (cl_parked cl') = parked_jobs (cl_parked cl) \<or>
      susp = Pending \<and> parked_jobs (cl_parked cl') = add_mset (job\<lparr>job_task := t\<rparr>) (parked_jobs (cl_parked cl))"
    "cl_stopping cl' = cl_stopping cl" "cl_safepoint cl' = cl_safepoint cl" "length (cl_agents cl') = length (cl_agents cl)"
    by (elim exE conjE) (rule that)
  have "distinct_ids cl'" using assms(2) cl'(3) by (rule distinct_ids_step) (simp add: A_def)
  with that [OF job st cl'(1,2) _ A_def cl'(3,4,5) _ _ cl'(8)] cl'(6,7) assms(5,6) show thesis by simp
qed

lemma turn_keeps_live:
  assumes "\<forall>j\<in>#all_jobs cl. live (job_task j)" and "add_mset job (all_jobs cl') = all_jobs cl + A"
    and "A = (if susp = Completed then {#} else {#job\<lparr>job_task := t\<rparr>#})" and "susp \<noteq> Completed \<longrightarrow> live t"
  shows "\<forall>j\<in>#all_jobs cl'. live (job_task j)"
proof
  fix j assume "j \<in># all_jobs cl'"
  then have "j \<in># all_jobs cl + A" unfolding assms(2) [symmetric] by simp
  then show "live (job_task j)" using assms(1,3,4) by (auto split: if_splits)
qed

lemma runnable_all_jobs: "job \<in># runnable cl \<Longrightarrow> job \<in># all_jobs cl"
  by (simp add: all_jobs_def)

text \<open>The jobs of \<open>q\<close> that were not in \<open>p\<close> answered \<open>Pending\<close>.\<close>

definition only_waiting :: "('t, 'v) task_step \<Rightarrow> 't job multiset \<Rightarrow> 't job multiset \<Rightarrow> bool" where
  "only_waiting step p q \<longleftrightarrow> p \<subseteq># q \<and> (\<forall>job\<in>#q - p. \<exists>t v v'. step t v = Some (Pending, job_task job, v'))"

lemma only_waiting_refl: "only_waiting step p p"
  by (simp add: only_waiting_def)

lemma only_waiting_add:
  assumes "only_waiting step (add_mset j p) q" and "step t v = Some (Pending, job_task j, v')"
  shows "only_waiting step p q"
proof -
  from assms(1) have sub: "add_mset j p \<subseteq># q" by (simp add: only_waiting_def)
  then obtain q' where q: "q = add_mset j p + q'" by (auto simp: mset_subset_eq_exists_conv)
  show ?thesis using assms unfolding only_waiting_def q by auto
qed

lemma drive_worker_finishes:
  fixes cl :: "('t, 'i::len word, 'f::ord) cluster"
  assumes within: "completes_within step live rank"
    and "cluster_ok cl" and "distinct_ids cl" and "unat (agent_num agent) < length (cl_agents cl)"
    and "33 \<le> LENGTH('i)" and "\<not> cl_stopping cl" and "\<not> sp_requested (cl_safepoint cl)"
    and "\<forall>job\<in>#all_jobs cl. live (job_task job)"
  shows "\<exists>k cl' w'. drive_loop (lift_step step) now barrier agent role None c (cl, w) =
      Some (if c + k = 0 then Idle else Ran (c + k), cl', w') \<and>
    size (runnable cl) \<le> k \<and> runnable cl' = {#} \<and>
    only_waiting step (parked_jobs (cl_parked cl)) (parked_jobs (cl_parked cl'))"
  using assms(2-)
proof (induction "job_work rank (all_jobs cl)" arbitrary: cl c w rule: less_induct)
  case less
  show ?case
  proof (cases "runnable cl = {#}")
    case True
    with drive_turn_spec [OF less.prems(1,2,3) rotor_room [OF less.prems(1,4)] less.prems(5,6), where step = step and now = now
        and barrier = barrier and role = role and deadline = None and w = w]
    obtain cl' where "drive_turn (lift_step step) now barrier agent role None (cl, w) = Some (Dry, cl', w)"
      "same_rest cl' cl" "runnable cl' = {#}" by auto
    with True show ?thesis
      by (intro exI [of _ 0] exI [of _ cl'] exI [of _ w])
        (simp add: drive_loop.simps same_rest_def only_waiting_refl)
  next
    case False
    have returns: "\<forall>job\<in>#runnable cl. step (job_task job) w \<noteq> None"
    proof
      fix job assume "job \<in># runnable cl"
      then have "live (job_task job)" using less.prems(7) runnable_all_jobs by blast
      from completes_within_returns [OF within this] show "step (job_task job) w \<noteq> None" .
    qed
    obtain job susp t w1 A cl1 where turn: "job \<in># runnable cl" "step (job_task job) w = Some (susp, t, w1)"
      "drive_turn (lift_step step) now barrier agent role None (cl, w) = Some (GoOn, cl1, w1)"
      and ok1: "cluster_ok cl1" "distinct_ids cl1"
      and A: "A = (if susp = Completed then {#} else {#job\<lparr>job_task := t\<rparr>#})"
      and jobs: "add_mset job (all_jobs cl1) = all_jobs cl + A" "runnable cl \<subseteq># add_mset job (runnable cl1)"
      and parked: "parked_jobs (cl_parked cl1) = parked_jobs (cl_parked cl) \<or>
        susp = Pending \<and> parked_jobs (cl_parked cl1) = add_mset (job\<lparr>job_task := t\<rparr>) (parked_jobs (cl_parked cl))"
      and ok2: "\<not> cl_stopping cl1" "\<not> sp_requested (cl_safepoint cl1)" "length (cl_agents cl1) = length (cl_agents cl)"
      by (rule drive_turn_steps [where step = step and w = w and now = now and barrier = barrier and role = role
          and deadline = None, OF less.prems(1-6) False returns, unfolded option.case]) (rule that)
    note ok = ok1 ok2
    have live: "live (job_task job)" using less.prems(7) runnable_all_jobs [OF turn(1)] by blast
    note down = completes_withinD [OF within live turn(2)]
    have live': "susp \<noteq> Completed \<longrightarrow> live t" using down(1) by blast
    have "rank t < rank (job_task job)" if "susp \<noteq> Completed" using down(2) [OF that] .
    then have "job_work rank (all_jobs cl1) < job_work rank (all_jobs cl)"
      using arg_cong [OF jobs(1), of "job_work rank"] A by (auto simp: job_work_def split: if_splits)
    moreover have "\<forall>j\<in>#all_jobs cl1. live (job_task j)"
      by (rule turn_keeps_live [OF less.prems(7) jobs(1) A live'])
    ultimately obtain k cl' w' where ih:
      "drive_loop (lift_step step) now barrier agent role None (Suc c) (cl1, w1) =
        Some (if Suc c + k = 0 then Idle else Ran (Suc c + k), cl', w')"
      "size (runnable cl1) \<le> k" "runnable cl' = {#}"
      "only_waiting step (parked_jobs (cl_parked cl1)) (parked_jobs (cl_parked cl'))"
      using less.hyps [of cl1 "Suc c" w1] less.prems(3,4) ok by auto
    have "size (runnable cl) \<le> Suc k" using size_mset_mono [OF jobs(2)] ih(2) by simp
    moreover have "drive_loop (lift_step step) now barrier agent role None c (cl, w) =
        Some (if c + Suc k = 0 then Idle else Ran (c + Suc k), cl', w')"
      using turn(3) ih(1) by (simp add: drive_loop.simps [of _ _ _ _ _ _ c])
    moreover have "only_waiting step (parked_jobs (cl_parked cl)) (parked_jobs (cl_parked cl'))"
      using parked ih(4)
    proof (elim disjE conjE)
      assume *: "susp = Pending" "parked_jobs (cl_parked cl1) = add_mset (job\<lparr>job_task := t\<rparr>) (parked_jobs (cl_parked cl))"
      have "step (job_task job) w = Some (Pending, job_task (job\<lparr>job_task := t\<rparr>), w1)" using turn(2) *(1) by simp
      from only_waiting_add [OF ih(4) [unfolded *(2)] this] show ?thesis .
    qed simp
    ultimately show ?thesis using ih(3) by blast
  qed
qed

section \<open>A pass with a deadline\<close>

text \<open>What the code around a pass sees of it: the readings of the clock and the steps, in order.\<close>

datatype 'f pass_event = Read 'f | Stepped

definition log_step :: "('t, 'v) task_step \<Rightarrow> ('t, 'f pass_event list \<times> 'v) task_step" where
  "log_step step t = (\<lambda>(es, v). do { (susp, t', v') \<leftarrow> step t v; Some (susp, t', es @ [Stepped], v') })"

definition log_now :: "('v \<Rightarrow> 'f \<times> 'v) \<Rightarrow> 'f pass_event list \<times> 'v \<Rightarrow> 'f \<times> 'f pass_event list \<times> 'v" where
  "log_now now = (\<lambda>(es, v). let (t, v') = now v in (t, es @ [Read t], v'))"

definition step_reads :: "'f list \<Rightarrow> 'f pass_event list" where
  "step_reads ts = concat (map (\<lambda>t. [Stepped, Read t]) ts)"

text \<open>
  Time passes: every step of a live task returns, and a reading after it has reached \<open>d\<close> or \<open>left\<close>
  is smaller than it was.
\<close>

definition clock_runs :: "('t, 'v) task_step \<Rightarrow> ('t \<Rightarrow> bool) \<Rightarrow> ('v \<Rightarrow> 'f::ord \<times> 'v) \<Rightarrow> 'f \<Rightarrow> ('v \<Rightarrow> nat) \<Rightarrow> bool" where
  "clock_runs step live now d left \<longleftrightarrow> (\<forall>t v. live t \<longrightarrow> (\<exists>s t' v'. step t v = Some (s, t', v') \<and>
     (s \<noteq> Completed \<longrightarrow> live t') \<and> (d \<le> fst (now v') \<or> left (snd (now v')) < left v)))"

lemma clock_runsE:
  assumes "clock_runs step live now d left" and "live t" and "step t v = Some (s, t', v')"
  shows "(s \<noteq> Completed \<longrightarrow> live t') \<and> (d \<le> fst (now v') \<or> left (snd (now v')) < left v)"
proof -
  from assms(1,2) have "\<exists>s t' v'. step t v = Some (s, t', v') \<and>
     (s \<noteq> Completed \<longrightarrow> live t') \<and> (d \<le> fst (now v') \<or> left (snd (now v')) < left v)"
    unfolding clock_runs_def by blast
  with assms(3) show ?thesis by auto
qed

lemma clock_runs_returns: "clock_runs step live now d left \<Longrightarrow> live t \<Longrightarrow> step t v \<noteq> None"
  unfolding clock_runs_def by fastforce

lemma drive_main_log:
  fixes cl :: "('t, 'i::len word, 'f::ord) cluster"
  assumes "clock_runs step live now d left"
    and "cluster_ok cl" and "distinct_ids cl" and "unat (agent_num agent) < length (cl_agents cl)"
    and "33 \<le> LENGTH('i)" and "\<not> cl_stopping cl" and "\<not> sp_requested (cl_safepoint cl)"
    and "\<forall>job\<in>#all_jobs cl. live (job_task job)"
  shows "\<exists>ts cl' v'. drive_loop (lift_step (log_step step)) (log_now now) barrier agent Main (Some d) c (cl, es, v) =
      Some (if c + length ts = 0 then Idle else Ran (c + length ts), cl', es @ step_reads ts, v') \<and>
    (\<forall>t\<in>set (butlast ts). \<not> d \<le> t) \<and> (ts \<noteq> [] \<and> d \<le> last ts \<or> runnable cl' = {#}) \<and> cluster_ok cl' \<and>
    size (runnable cl) \<le> size (runnable cl') + length ts"
  using assms(2-)
proof (induction "left v" arbitrary: cl c es v rule: less_induct)
  case less
  show ?case
  proof (cases "runnable cl = {#}")
    case True
    with drive_turn_spec [OF less.prems(1,2,3) rotor_room [OF less.prems(1,4)] less.prems(5,6), where step = "log_step step"
        and now = "log_now now" and barrier = barrier and role = Main and deadline = "Some d" and w = "(es, v)"]
    obtain cl' where "drive_turn (lift_step (log_step step)) (log_now now) barrier agent Main (Some d) (cl, es, v) = Some (Dry, cl', es, v)"
      "cluster_ok cl'" "runnable cl' = {#}" by auto
    with True show ?thesis
      by (intro exI [of _ "[]"] exI [of _ cl'] exI [of _ v]) (simp add: drive_loop.simps step_reads_def)
  next
    case False
    have returns: "\<forall>job\<in>#runnable cl. log_step step (job_task job) (es, v) \<noteq> None"
    proof
      fix job assume "job \<in># runnable cl"
      then have "live (job_task job)" using less.prems(7) runnable_all_jobs by blast
      from clock_runs_returns [OF assms(1) this, of v] show "log_step step (job_task job) (es, v) \<noteq> None"
        by (auto simp: log_step_def)
    qed
    obtain job susp t w1 A cl1 where turn: "job \<in># runnable cl" "log_step step (job_task job) (es, v) = Some (susp, t, w1)"
      "drive_turn (lift_step (log_step step)) (log_now now) barrier agent Main (Some d) (cl, es, v) =
        Some (if d \<le> fst (log_now now w1) then Leave else GoOn, cl1, snd (log_now now w1))"
      and ok1: "cluster_ok cl1" "distinct_ids cl1"
      and A: "A = (if susp = Completed then {#} else {#job\<lparr>job_task := t\<rparr>#})"
      and jobs: "add_mset job (all_jobs cl1) = all_jobs cl + A" "runnable cl \<subseteq># add_mset job (runnable cl1)"
      and ok2: "\<not> cl_stopping cl1" "\<not> sp_requested (cl_safepoint cl1)" "length (cl_agents cl1) = length (cl_agents cl)"
      by (rule drive_turn_steps [where step = "log_step step" and w = "(es, v)" and now = "log_now now" and barrier = barrier
          and role = Main and deadline = "Some d", OF less.prems(1-6) False returns, unfolded option.case]) (rule that)
    note ok = ok1 ok2
    from turn(2) obtain v1 where st: "step (job_task job) v = Some (susp, t, v1)" and w1: "w1 = (es @ [Stepped], v1)"
      by (auto simp: log_step_def)
    have live: "live (job_task job)" using less.prems(7) runnable_all_jobs [OF turn(1)] by blast
    note clock = clock_runsE [OF assms(1) live st]
    obtain t1 v2 where now: "now v1 = (t1, v2)" by (cases "now v1") auto
    have size: "size (runnable cl) \<le> Suc (size (runnable cl1))" using size_mset_mono [OF jobs(2)] by simp
    show ?thesis
    proof (cases "d \<le> t1")
      case True
      with turn(3) now have "drive_turn (lift_step (log_step step)) (log_now now) barrier agent Main (Some d) (cl, es, v) =
        Some (Leave, cl1, es @ step_reads [t1], v2)" by (simp add: w1 log_now_def step_reads_def)
      with True ok(1) size show ?thesis
        by (intro exI [of _ "[t1]"] exI [of _ cl1] exI [of _ v2]) (simp add: drive_loop.simps)
    next
      case False
      with turn(3) now have go: "drive_turn (lift_step (log_step step)) (log_now now) barrier agent Main (Some d) (cl, es, v) =
        Some (GoOn, cl1, es @ step_reads [t1], v2)" by (simp add: w1 log_now_def step_reads_def)
      have "left v2 < left v" using clock False now by simp
      moreover have "\<forall>j\<in>#all_jobs cl1. live (job_task j)"
        using turn_keeps_live [OF less.prems(7) jobs(1) A] clock by blast
      ultimately obtain ts cl' v' where ih:
        "drive_loop (lift_step (log_step step)) (log_now now) barrier agent Main (Some d) (Suc c) (cl1, es @ step_reads [t1], v2) =
          Some (if Suc c + length ts = 0 then Idle else Ran (Suc c + length ts), cl', (es @ step_reads [t1]) @ step_reads ts, v')"
        "\<forall>t\<in>set (butlast ts). \<not> d \<le> t" "ts \<noteq> [] \<and> d \<le> last ts \<or> runnable cl' = {#}" "cluster_ok cl'"
        "size (runnable cl1) \<le> size (runnable cl') + length ts"
        using less.hyps [of v2 cl1 "Suc c" "es @ step_reads [t1]"] less.prems(3,4) ok by auto
      have "drive_loop (lift_step (log_step step)) (log_now now) barrier agent Main (Some d) c (cl, es, v) =
          Some (if c + length (t1 # ts) = 0 then Idle else Ran (c + length (t1 # ts)), cl', es @ step_reads (t1 # ts), v')"
        using go ih(1) by (simp add: drive_loop.simps [of _ _ _ _ _ _ c] step_reads_def)
      with False ih(2-5) size show ?thesis
        by (intro exI [of _ "t1 # ts"] exI [of _ cl'] exI [of _ v']) auto
    qed
  qed
qed


section \<open>Properties\<close>

text \<open>A small cluster the examples below use: two agents of capacity 2 on a 64-bit host.\<close>

definition pair_cluster :: "(nat, 64 word, nat) cluster" where
  "pair_cluster = the (cluster_with_capacity 2 2)"

lemma pair_deque: "deque_wf (deque_with_capacity 2 :: (nat job, 64 word) deque)"
  "deque_list (deque_with_capacity 2 :: (nat job, 64 word) deque) = []"
proof -
  have "next_power_of_two 2 = 2" by code_simp
  then have c: "next_power_of_two 2 < 2 ^ (LENGTH(64) - 1)" "2 < LENGTH(64)" by simp_all
  show "deque_wf (deque_with_capacity 2 :: (nat job, 64 word) deque)"
    "deque_list (deque_with_capacity 2 :: (nat job, 64 word) deque) = []"
    using wf_with_capacity(1,2) [OF c] by simp_all
qed

lemma pair_cluster_ok: "cluster_ok pair_cluster" "runnable pair_cluster = {#}" "length (cl_agents pair_cluster) = 2"
  "cl_next_id pair_cluster = 1" "all_jobs pair_cluster = {#}" "cl_rotor pair_cluster = 0"
  "\<not> cl_stopping pair_cluster" "\<not> sp_requested (cl_safepoint pair_cluster)" "cl_frame_ms pair_cluster = 8"
  "cl_parked pair_cluster = parked_new"
proof -
  have "unat (2::u32) = Suc (Suc 0)" by simp
  then have two: "replicate (unat (2::u32)) x = [x, x]" for x :: "(nat, 64 word) agent" by (simp only: replicate.simps)
  have "parked_ok (parked_new :: nat job parked)" by (rule parked_new_ok)
  with two show "cluster_ok pair_cluster" "runnable pair_cluster = {#}" "all_jobs pair_cluster = {#}"
    "cl_parked pair_cluster = parked_new"
    using pair_deque
    by (simp_all add: pair_cluster_def cluster_with_capacity_def cluster_ok_def runnable_def all_jobs_def
        agent_jobs_def injector_new_def parked_new_def parked_jobs_def)
qed (simp_all add: pair_cluster_def cluster_with_capacity_def sp_requested_def sp_new_def pending_def sp_PENDING_def
    DEFAULT_FRAME_MS_def)

text \<open>
  Submitting work. On a well-formed cluster \<open>spawn\<close>, and \<open>spawn_on\<close> an agent in range, add one
  job to the work that agents can find, under the identity minted for it, and leave every other
  job, the parked tasks and well-formedness alone; a full deque spills to the injector and loses
  nothing. \<open>spawn_on\<close> an agent out of range panics, before it has queued anything.
\<close>

theorem cluster_submits:
  assumes "cluster_ok cl"
  shows "cluster_ok (spawn t cl) \<and>
    runnable (spawn t cl) = add_mset \<lparr>job_id = TaskId (cl_next_id cl), job_task = t\<rparr> (runnable cl) \<and>
    cl_parked (spawn t cl) = cl_parked cl \<and> cl_next_id (spawn t cl) = cl_next_id cl + 1 \<and>
    (if unat (agent_num agent) < length (cl_agents cl)
     then \<exists>cl'. spawn_on agent t cl = Some (TaskId (cl_next_id cl), cl') \<and> cluster_ok cl' \<and>
       runnable cl' = add_mset \<lparr>job_id = TaskId (cl_next_id cl), job_task = t\<rparr> (runnable cl) \<and>
       cl_parked cl' = cl_parked cl \<and> cl_next_id cl' = cl_next_id cl + 1
     else spawn_on agent t cl = None)"
  using spawn_ok [OF assms, of t] spawn_on_ok [OF assms, of agent t]
  by (auto simp: spawn_on_def deposit_def mint_id_def Let_def)

theorem cluster_submits_witness:
  "runnable (spawn 5 pair_cluster) = {#\<lparr>job_id = TaskId 1, job_task = 5\<rparr>#}"
  using cluster_submits [OF pair_cluster_ok(1), of 5] pair_cluster_ok by simp



text \<open>
  C18: Waking. \<open>wake\<close> neither loses nor duplicates a job. It answers true exactly when a task is
  parked under the identity, and then that job is queued again and the identity is free; otherwise
  the wake is recorded, so that the next park under it hands the task straight back.
\<close>

theorem wake_requeues:
  assumes "cluster_ok cl" and "wake tid cl = (b, cl')"
  shows "cluster_ok cl' \<and> all_jobs cl' = all_jobs cl \<and> (b \<longleftrightarrow> pk_tasks (cl_parked cl) (task_num tid) \<noteq> None) \<and>
    slot_at tid (cl_parked cl') = (if b then Free else Woken) \<and> (\<not> b \<longrightarrow> runnable cl' = runnable cl) \<and>
    (b \<longrightarrow> runnable cl' = add_mset (the (pk_tasks (cl_parked cl) (task_num tid))) (runnable cl))"
  using assms by (rule wake_ok)

theorem wake_requeues_witness: "slot_at (TaskId 3) (cl_parked (snd (wake (TaskId 3) pair_cluster))) = Woken"
proof -
  have w: "wake (TaskId 3) pair_cluster = (False, snd (wake (TaskId 3) pair_cluster))"
    by (simp add: wake_def pair_cluster_ok parked_wake_def parked_new_def Let_def)
  from wake_requeues [OF pair_cluster_ok(1) w] show ?thesis by simp
qed

text \<open>
  C12: Settling a step. After a step the job is gone if it completed and is kept exactly once
  otherwise: a task that yielded is queued again; a pending one leaves the run queues and waits
  under its identity, unless a wake for it was recorded before it got there, and then it is
  queued again at once and the wake is used up.
\<close>

theorem settle_keeps_jobs:
  assumes "cluster_ok cl" and "unat (agent_num agent) < length (cl_agents cl)"
    and "susp = Pending \<longrightarrow> pk_tasks (cl_parked cl) (task_num (job_id job)) = None"
  shows "\<exists>cl'. settle agent susp job cl = Some cl' \<and> cluster_ok cl' \<and>
    all_jobs cl' = all_jobs cl + (if susp = Completed then {#} else {#job#}) \<and>
    (susp \<noteq> Pending \<longrightarrow> cl_parked cl' = cl_parked cl) \<and>
    (susp = Pending \<longrightarrow> (if slot_at (job_id job) (cl_parked cl) = Woken
       then slot_at (job_id job) (cl_parked cl') = Free \<and> runnable cl' = add_mset job (runnable cl)
       else slot_at (job_id job) (cl_parked cl') = Waiting job \<and> runnable cl' = runnable cl))"
  using settle_ok [OF assms] by blast

theorem settle_keeps_jobs_witness:
  "\<exists>cl'. settle (AgentId 0) Pending \<lparr>job_id = TaskId 1, job_task = 5\<rparr> pair_cluster = Some cl' \<and>
     all_jobs cl' = {#\<lparr>job_id = TaskId 1, job_task = 5\<rparr>#}"
proof -
  have "unat (agent_num (AgentId 0)) < length (cl_agents pair_cluster)" by (simp add: pair_cluster_ok)
  moreover have "Pending = Pending \<longrightarrow> pk_tasks (cl_parked pair_cluster) (task_num (job_id \<lparr>job_id = TaskId 1, job_task = 5::nat\<rparr>)) = None"
    by (simp add: pair_cluster_ok parked_new_def)
  ultimately have "\<exists>cl'. settle (AgentId 0) Pending \<lparr>job_id = TaskId 1, job_task = 5\<rparr> pair_cluster = Some cl' \<and>
      all_jobs cl' = all_jobs pair_cluster + (if Pending = Completed then {#} else {#\<lparr>job_id = TaskId 1, job_task = 5\<rparr>#})"
    using settle_keeps_jobs [OF pair_cluster_ok(1)] by blast
  then show ?thesis by (simp add: pair_cluster_ok)
qed

text \<open>
  Notification. \<open>notify_one\<close> marks and unparks the first agent that is parked, and only that
  one, and does nothing when none is; no queue is touched.
\<close>

theorem notify_one_wakes_first_parked:
  "(if \<forall>a\<in>set (cl_agents cl). ag_park a \<noteq> PARKED then notify_one cl = cl
    else \<exists>us a vs. cl_agents cl = us @ a # vs \<and> (\<forall>u\<in>set us. ag_park u \<noteq> PARKED) \<and> ag_park a = PARKED \<and>
      notify_one cl = cl\<lparr>cl_agents := us @ a\<lparr>ag_park := NOTIFIED\<rparr> # vs, cl_unparked := cl_unparked cl @ [length us]\<rparr>)"
proof (cases "notify_from 0 (cl_agents cl)")
  case None
  then have "\<forall>a\<in>set (cl_agents cl). ag_park a \<noteq> PARKED" using notify_from_None by blast
  with None show ?thesis by (simp add: notify_one_def)
next
  case (Some p)
  then obtain i bs where p: "notify_from 0 (cl_agents cl) = Some (i, bs)" by (cases p) auto
  then have "\<not> (\<forall>a\<in>set (cl_agents cl). ag_park a \<noteq> PARKED)"
    using notify_from_None [of 0 "cl_agents cl"] by simp
  with notify_from_Some [OF p] p show ?thesis by (auto simp: notify_one_def)
qed

theorem notify_one_wakes_first_parked_witness: "notify_one pair_cluster = pair_cluster"
proof -
  have "\<forall>a\<in>set (cl_agents pair_cluster). ag_park a \<noteq> PARKED"
    by (simp add: pair_cluster_def cluster_with_capacity_def)
  with notify_one_wakes_first_parked [of pair_cluster] show ?thesis by simp
qed


text \<open>A task that counts down and yields on the way.\<close>

definition countdown :: "(nat, 'v) task_step" where
  "countdown t v = Some (if t = 0 then Completed else Yielded, t - 1, v)"

lemma countdown_ranked: "completes_within countdown (\<lambda>_. True) (\<lambda>t. t)"
  by (simp add: completes_within_def countdown_def)

lemma spawned_pair:
  "cluster_ok (spawn 5 pair_cluster)" "runnable (spawn 5 pair_cluster) = {#\<lparr>job_id = TaskId 1, job_task = 5\<rparr>#}"
  "distinct_ids (spawn 5 pair_cluster)" "unat (agent_num (AgentId 0)) < length (cl_agents (spawn 5 pair_cluster))"
  "\<not> cl_stopping (spawn 5 pair_cluster)" "\<not> sp_requested (cl_safepoint (spawn 5 pair_cluster))"
  "cl_frame_ms (spawn 5 pair_cluster) = 8"
proof -
  show sp: "cluster_ok (spawn 5 pair_cluster)" "runnable (spawn 5 pair_cluster) = {#\<lparr>job_id = TaskId 1, job_task = 5\<rparr>#}"
    using spawn_ok [OF pair_cluster_ok(1), of 5] pair_cluster_ok by simp_all
  have "cl_parked (spawn 5 pair_cluster) = cl_parked pair_cluster"
    using spawn_ok [OF pair_cluster_ok(1), of 5] by simp
  with sp pair_cluster_ok show "distinct_ids (spawn 5 pair_cluster)"
    by (simp add: distinct_ids_def all_jobs_def parked_jobs_def parked_new_def)
qed (use pair_cluster_ok in \<open>simp_all add: spawn_def mint_id_def\<close>)


text \<open>
  C19: A main agent's pass respects its budget. On a cluster that is neither stopping nor asked to stop, with a
  \<open>usize\<close> of more than 32 bits, let the tasks leave the cluster alone, their steps return and the clock run.
  Then the pass returns. It reads the clock once before the first step and once after every step, and steps no
  task after a reading that has reached the first reading plus the frame budget: every reading but the last is
  before the deadline, and either the last one has reached it or nothing runnable is left. The answer counts the
  steps.
\<close>

theorem main_pass_respects_budget:
  fixes cl :: "('t, 'i::len word, 'f::{ord,plus}) cluster"
  assumes "clock_runs step live now (fst (now v) + cl_frame_ms cl) left"
    and "cluster_ok cl" and "distinct_ids cl" and "unat (agent_num agent) < length (cl_agents cl)"
    and "33 \<le> LENGTH('i)" and "\<not> cl_stopping cl" and "\<not> sp_requested (cl_safepoint cl)"
    and "\<forall>job\<in>#all_jobs cl. live (job_task job)"
  shows "\<exists>ts cl' v'. drive_once (lift_step (log_step step)) (log_now now) barrier agent Main (cl, [], v) =
      Some (if ts = [] then Idle else Ran (length ts), cl', Read (fst (now v)) # step_reads ts, v') \<and>
    (\<forall>t\<in>set (butlast ts). \<not> fst (now v) + cl_frame_ms cl \<le> t) \<and>
    (ts \<noteq> [] \<and> fst (now v) + cl_frame_ms cl \<le> last ts \<or> runnable cl' = {#}) \<and>
    size (runnable cl) \<le> size (runnable cl') + length ts"
proof -
  obtain t0 v0 where now: "now v = (t0, v0)" by (cases "now v") auto
  let ?d = "t0 + cl_frame_ms cl"
  have "drive_once (lift_step (log_step step)) (log_now now) barrier agent Main (cl, [], v) =
      drive_loop (lift_step (log_step step)) (log_now now) barrier agent Main (Some ?d) 0 (cl, [Read t0], v0)"
    using assms(6) now by (simp add: drive_once_def log_now_def)
  moreover have "clock_runs step live now ?d left" using assms(1) now by simp
  from drive_main_log [OF this assms(2-8), where barrier = barrier and c = 0 and es = "[Read t0]" and v = v0]
  obtain ts cl' v' where "drive_loop (lift_step (log_step step)) (log_now now) barrier agent Main (Some ?d) 0 (cl, [Read t0], v0) =
      Some (if 0 + length ts = 0 then Idle else Ran (0 + length ts), cl', [Read t0] @ step_reads ts, v')"
    "\<forall>t\<in>set (butlast ts). \<not> ?d \<le> t" "ts \<noteq> [] \<and> ?d \<le> last ts \<or> runnable cl' = {#}"
    "size (runnable cl) \<le> size (runnable cl') + length ts" by blast
  ultimately show ?thesis using now by (intro exI [of _ ts] exI [of _ cl'] exI [of _ v']) simp
qed

theorem main_pass_respects_budget_witness:
  "\<exists>ts cl' v'. drive_once (lift_step (log_step countdown)) (log_now (\<lambda>v. (v, v + 3))) Some (AgentId 0) Main (spawn 5 pair_cluster, [], 0::nat) =
      Some (Ran (length ts), cl', Read 0 # step_reads ts, v') \<and> (\<forall>t\<in>set (butlast ts). t < 8)"
proof -
  let ?cl = "spawn 5 pair_cluster"
  have clock: "clock_runs countdown (\<lambda>_. True) (\<lambda>v. (v, v + 3)) (fst (0::nat, 0 + 3::nat) + cl_frame_ms ?cl) (\<lambda>v. 8 - v)"
    using spawned_pair(7) by (auto simp: clock_runs_def countdown_def)
  have "33 \<le> LENGTH(64)" "\<forall>job\<in>#all_jobs ?cl. True" by simp_all
  then obtain ts cl' v' where ts: "drive_once (lift_step (log_step countdown)) (log_now (\<lambda>v::nat. (v, v + 3))) Some (AgentId 0) Main (?cl, [], 0::nat) =
      Some (if ts = [] then Idle else Ran (length ts), cl', Read (fst (0::nat, 0 + 3::nat)) # step_reads ts, v')"
    "\<forall>t\<in>set (butlast ts). \<not> fst (0::nat, 0 + 3::nat) + cl_frame_ms ?cl \<le> t"
    "ts \<noteq> [] \<and> fst (0::nat, 0 + 3::nat) + cl_frame_ms ?cl \<le> last ts \<or> runnable cl' = {#}"
    "size (runnable ?cl) \<le> size (runnable cl') + length ts"
    using main_pass_respects_budget [where now = "\<lambda>v. (v, v + 3)" and v = 0 and barrier = Some and cl = ?cl,
        OF clock spawned_pair(1,3,4) _ spawned_pair(5,6)] by blast
  have "ts \<noteq> []" using ts(3,4) spawned_pair(2) by auto
  with ts(1,2) spawned_pair(7) show ?thesis by (intro exI [of _ ts] exI [of _ cl'] exI [of _ v']) (simp add: not_le)
qed

fun mints :: "nat \<Rightarrow> ('t, 'i, 'f) cluster \<Rightarrow> task_id list" where
  "mints 0 cl = []"
| "mints (Suc n) cl = (let (tid, cl) = mint_id cl in tid # mints n cl)"

lemma mints_from: "cl_next_id cl = of_nat k \<Longrightarrow> mints n cl = map (\<lambda>j. TaskId (of_nat j)) [k..<k + n]"
proof (induction n arbitrary: cl k)
  case (Suc n)
  have "cl_next_id (snd (mint_id cl)) = of_nat (Suc k)" using Suc.prems by (simp add: mint_id_def)
  from Suc.IH [OF this] Suc.prems show ?case by (simp add: mint_id_def upt_rec)
qed simp

lemma unat_of_nat_u64: "i < 2 ^ 64 \<Longrightarrow> unat (of_nat i :: u64) = i"
  by (simp add: unat_of_nat)

text \<open>
  C20: The identities of the first \<open>2 ^ 64 - 1\<close> tasks of a cluster are \<open>1, 2, 3, \<dots>\<close>: all distinct,
  and none is \<open>TaskId::NONE\<close>.
\<close>

theorem minted_ids_fresh:
  fixes cl :: "('t, 'w::len word, 'f::numeral) cluster"
  assumes "cluster_with_capacity agents capacity = Some cl" and "n < 2 ^ 64"
  shows "mints n cl = map (\<lambda>j. TaskId (of_nat j)) [1..<Suc n] \<and> distinct (mints n cl) \<and> (\<forall>tid\<in>set (mints n cl). is_task tid)"
proof -
  have "cl_next_id cl = of_nat 1" using assms(1) by (auto simp: cluster_with_capacity_def split: if_splits)
  from mints_from [OF this, of n] have eq: "mints n cl = map (\<lambda>j. TaskId (of_nat j)) [1..<Suc n]" by simp
  have "inj_on (\<lambda>j. TaskId (of_nat j)) {1..<Suc n}"
  proof (rule inj_onI)
    fix i j assume i: "i \<in> {1..<Suc n}" and j: "j \<in> {1..<Suc n}" and "TaskId (of_nat i) = TaskId (of_nat j)"
    then have "unat (of_nat i :: u64) = unat (of_nat j :: u64)" by simp
    with i j assms(2) show "i = j" by (simp add: unat_of_nat_u64)
  qed
  moreover have "is_task (TaskId (of_nat j))" if "j \<in> {1..<Suc n}" for j
  proof -
    have "unat (of_nat j :: u64) = j" using that assms(2) by (intro unat_of_nat_u64) auto
    with that show ?thesis by (auto simp: is_task_def)
  qed
  moreover have "distinct (map (\<lambda>j. TaskId (of_nat j)) [1..<Suc n])"
    using calculation(1) by (simp only: distinct_map set_upt distinct_upt simp_thms)
  ultimately show ?thesis unfolding eq by auto
qed

theorem minted_ids_fresh_witness: "distinct (mints 3 pair_cluster) \<and> length (mints 3 pair_cluster) = 3"
proof -
  have c: "cluster_with_capacity 2 2 = Some pair_cluster" by (simp add: pair_cluster_def cluster_with_capacity_def)
  have "(3::nat) < 2 ^ 64" by simp
  from minted_ids_fresh [OF c this] have "mints 3 pair_cluster = map (\<lambda>j. TaskId (of_nat j)) [1..<Suc 3]"
    and d: "distinct (mints 3 pair_cluster)" by (blast, blast)
  from arg_cong [OF this(1), of length] have "length (mints 3 pair_cluster) = 3" by simp
  with d show ?thesis by blast
qed

definition last_rotor_cluster :: "(nat, 32 word, nat) cluster" where
  "last_rotor_cluster = (the (cluster_with_capacity 2 2))\<lparr>cl_rotor := - 1\<rparr>"

text \<open>
  On a target whose \<open>usize\<close> is as wide as the rotor, the victim computation \<open>start + k\<close> can
  overflow: with the rotor at \<open>u32::MAX\<close> an idle agent of a cluster of two panics while it looks
  for work, where \<open>usize\<close> is 32 bits and overflow is checked.
\<close>

theorem rotor_overflow_panics:
  "cl_injector last_rotor_cluster = injector_new \<and> cl_rotor last_rotor_cluster = - 1 \<and>
   next_job (AgentId 1) last_rotor_cluster = None"
proof -
  have "next_power_of_two 2 = 2" by code_simp
  then have c: "next_power_of_two 2 < 2 ^ (LENGTH(32) - 1)" "2 < LENGTH(32)" by simp_all
  let ?d = "deque_with_capacity 2 :: (nat job, 32 word) deque"
  have "deque_wf ?d" "deque_list ?d = []" using wf_with_capacity(1,2) [OF c] by simp_all
  with dq.pop_back [of ?d] obtain d where d: "deque_pop ?d = Some (None, d)" by auto
  have two: "replicate 2 x = [x, x]" for x :: "(nat, 32 word) agent" by (simp add: numeral_2_eq_2)
  have steal: "steal_from 2 0 4294967295 (Suc 0) cl = None" if "length (cl_agents cl) = 2" for cl :: "(nat, 32 word, nat) cluster"
  proof -
    have v: "(4294967295 + 0) mod length (cl_agents cl) = Suc 0" unfolding that by simp
    have "4294967295 + 0 < (2 ^ LENGTH(32) :: nat)" "\<not> 4294967295 + Suc 0 < (2 ^ LENGTH(32) :: nat)" by simp_all
    then have "steal_from (Suc (Suc 0)) 0 4294967295 (Suc 0) cl = None"
      by (simp only: steal_from.simps v Let_def if_True if_False simp_thms)
    then show ?thesis by (simp only: numeral_2_eq_2)
  qed
  have l: "length (cl_agents last_rotor_cluster) = 2" "ag_deque (cl_agents last_rotor_cluster ! 1) = ?d"
    "cl_injector last_rotor_cluster = injector_new" "cl_rotor last_rotor_cluster = - 1"
    by (simp_all add: last_rotor_cluster_def cluster_with_capacity_def two)
  moreover have "unat (- 1 :: u32) = 4294967295" by (simp add: unsigned_minus_1_eq_mask mask_eq_exp_minus_1)
  ultimately show ?thesis
    using d steal by (simp add: next_job_def Let_def injector_pop_cases injector_new_def)
qed

end
