(* ===== verification/Krio_Deque_Conc.thy ===== *)
theory Krio_Deque_Conc
  imports Krio_Deque
begin

text \<open>
  \<open>crates/krio-parallel/src/deque.rs\<close> under contention: \<open>push\<close>, \<open>pop\<close> and \<open>steal\<close> of
  Krio_Deque cut at their atomic accesses, one owner and any number of thieves interleaved in
  every order. A program counter holds the locals that are live at that point.

  The interleavings are sequentially consistent: the fences the code places (a \<open>SeqCst\<close> fence
  between the owner's store to \<open>bottom\<close> and its load of \<open>top\<close>, and between a thief's two loads;
  a release fence before \<open>push\<close> publishes) are what makes that the right reading, and the
  hardware's weaker reorderings are outside the model. A slot is read or written in one step.

  The fields \<open>takes\<close>, \<open>pushed\<close>, \<open>taken\<close> and the number a thief keeps beside its \<open>t\<close> are history:
  they count successful exchanges on \<open>top\<close> and record the values that went in and came out, and
  no step tests them.
\<close>

unbundle bit_operations_syntax

section \<open>State and atomic steps\<close>

datatype ('a, 'i) owner_pc =
    OIdle
  | PushTop 'i 'a
  | PushWrite 'i 'a
  | PushPublish 'i 'a
  | PopStore 'i
  | PopTop 'i
  | PopEmpty 'i
  | PopCas 'i 'i
  | PopRestore 'i bool
  | PopRead 'i

datatype ('a, 'i) thief_pc =
    TIdle
  | TBottom 'i nat
  | TRead 'i nat
  | TCas 'i nat 'a

record ('a, 'i) dsys =
  shared :: "('a, 'i) deque"
  owner :: "('a, 'i) owner_pc"
  thieves :: "nat \<Rightarrow> ('a, 'i) thief_pc"
  takes :: nat
  pushed :: "'a multiset"
  taken :: "'a multiset"

text \<open>
  The owner's next access. The first one of an operation, its load of \<open>bottom\<close>, is part of the
  call below. \<open>None\<close> is a read of an unwritten slot or an index out of range.
\<close>

fun owner_step :: "('a, 'w::len word) dsys \<Rightarrow> ('a, 'w word) dsys option" where
  "owner_step s = (let d = shared s in
     case owner s of
       OIdle \<Rightarrow> Some s
     | PushTop b v \<Rightarrow>
         (if sint (of_nat (deque_capacity d) :: 'w word) \<le> sint (b - dq_top d) then Some (s\<lparr>owner := OIdle\<rparr>)
          else Some (s\<lparr>owner := PushWrite b v\<rparr>))
     | PushWrite b v \<Rightarrow> do {
         d' \<leftarrow> write_slot b v d;
         Some (s\<lparr>shared := d', owner := PushPublish b v\<rparr>) }
     | PushPublish b v \<Rightarrow>
         Some (s\<lparr>shared := d\<lparr>dq_bottom := b + 1\<rparr>, owner := OIdle, pushed := add_mset v (pushed s)\<rparr>)
     | PopStore b \<Rightarrow> Some (s\<lparr>shared := d\<lparr>dq_bottom := b\<rparr>, owner := PopTop b\<rparr>)
     | PopTop b \<Rightarrow>
         (let n = sint (b - dq_top d) in
          Some (s\<lparr>owner := (if n < 0 then PopEmpty b else if n = 0 then PopCas b (dq_top d) else PopRead b)\<rparr>))
     | PopEmpty b \<Rightarrow> Some (s\<lparr>shared := d\<lparr>dq_bottom := b + 1\<rparr>, owner := OIdle\<rparr>)
     | PopCas b t \<Rightarrow>
         (if dq_top d = t
          then Some (s\<lparr>shared := d\<lparr>dq_top := t + 1\<rparr>, owner := PopRestore b True, takes := Suc (takes s)\<rparr>)
          else Some (s\<lparr>owner := PopRestore b False\<rparr>))
     | PopRestore b won \<Rightarrow>
         Some (s\<lparr>shared := d\<lparr>dq_bottom := b + 1\<rparr>, owner := (if won then PopRead b else OIdle)\<rparr>)
     | PopRead b \<Rightarrow> do {
         v \<leftarrow> read_slot b d;
         Some (s\<lparr>owner := OIdle, taken := add_mset v (taken s)\<rparr>) })"

fun thief_step :: "nat \<Rightarrow> ('a, 'w::len word) dsys \<Rightarrow> ('a, 'w word) dsys option" where
  "thief_step i s = (let d = shared s; pc = (\<lambda>p. (thieves s)(i := p)) in
     case thieves s i of
       TIdle \<Rightarrow> Some (s\<lparr>thieves := pc (TBottom (dq_top d) (takes s))\<rparr>)
     | TBottom t k \<Rightarrow>
         Some (s\<lparr>thieves := pc (if sint (dq_bottom d - t) \<le> 0 then TIdle else TRead t k)\<rparr>)
     | TRead t k \<Rightarrow> do {
         v \<leftarrow> read_slot t d;
         Some (s\<lparr>thieves := pc (TCas t k v)\<rparr>) }
     | TCas t k v \<Rightarrow>
         (if dq_top d = t
          then Some (s\<lparr>shared := d\<lparr>dq_top := t + 1\<rparr>, thieves := pc TIdle,
                       takes := Suc (takes s), taken := add_mset v (taken s)\<rparr>)
          else Some (s\<lparr>thieves := pc TIdle\<rparr>)))"

text \<open>
  The scheduler of an interleaving. A call by a busy owner is not a step: \<open>push\<close> and \<open>pop\<close> are
  owner only, one at a time.
\<close>

datatype 'a deque_move = CallPush 'a | CallPop | OwnerMove | ThiefMove nat

fun dmove :: "'a deque_move \<Rightarrow> ('a, 'w::len word) dsys \<Rightarrow> ('a, 'w word) dsys option" where
  "dmove (CallPush v) s =
     Some (if owner s = OIdle then s\<lparr>owner := PushTop (dq_bottom (shared s)) v\<rparr> else s)"
| "dmove CallPop s =
     Some (if owner s = OIdle then s\<lparr>owner := PopStore (dq_bottom (shared s) - 1)\<rparr> else s)"
| "dmove OwnerMove s = owner_step s"
| "dmove (ThiefMove i) s = thief_step i s"

fun dmoves :: "'a deque_move list \<Rightarrow> ('a, 'w::len word) dsys \<Rightarrow> ('a, 'w word) dsys option" where
  "dmoves [] s = Some s"
| "dmoves (m # ms) s = do { s' \<leftarrow> dmove m s; dmoves ms s' }"

definition dsys_start :: "('a, 'w::len word) deque \<Rightarrow> ('a, 'w word) dsys" where
  "dsys_start d = \<lparr>shared = d, owner = OIdle, thieves = (\<lambda>_. TIdle), takes = 0,
     pushed = {#}, taken = {#}\<rparr>"

text \<open>
  A thief that is about to exchange on \<open>top\<close> is paced when \<open>top\<close> has not gone once round the
  whole index space since the thief loaded it.
\<close>

fun paced :: "'a deque_move \<Rightarrow> ('a, 'w::len word) dsys \<Rightarrow> bool" where
  "paced (ThiefMove i) s = (case thieves s i of
      TCas t k v \<Rightarrow> takes s - k < 2 ^ LENGTH('w)
    | _ \<Rightarrow> True)"
| "paced _ s = True"

inductive reach :: "('a, 'w::len word) dsys \<Rightarrow> ('a, 'w word) dsys \<Rightarrow> bool" for s0 where
  reach_refl: "reach s0 s0"
| reach_move: "reach s0 s \<Longrightarrow> paced m s \<Longrightarrow> dmove m s = Some s' \<Longrightarrow> reach s0 s'"

section \<open>The invariant\<close>

text \<open>
  The live values \<open>xs\<close> stand in the slots from index \<open>T\<close> on; \<open>bottom\<close> is described separately,
  because a \<open>pop\<close> in progress holds it one lower.
\<close>

definition slots_hold :: "nat \<Rightarrow> int \<Rightarrow> 'a list \<Rightarrow> ('a, 'w::len word) deque \<Rightarrow> bool" where
  "slots_hold c T xs d \<longleftrightarrow>
     1 \<le> c \<and> Suc c < LENGTH('w) \<and> length (dq_buf d) = 2 ^ c \<and> dq_mask d = mask c \<and>
     dq_top d = of_int T \<and> length xs \<le> 2 ^ c \<and>
     (\<forall>k<length xs. dq_buf d ! nat ((T + int k) mod 2 ^ c) = Some (xs ! k))"

text \<open>Every index from the first one on that was ever published has its slot written.\<close>

definition slots_written :: "nat \<Rightarrow> int \<Rightarrow> int \<Rightarrow> ('a, 'w::len word) deque \<Rightarrow> bool" where
  "slots_written c T0 E d \<longleftrightarrow> (\<forall>j. T0 \<le> j \<and> j < E \<longrightarrow> dq_buf d ! nat (j mod 2 ^ c) \<noteq> None)"

text \<open>The value the owner has claimed and not read out yet.\<close>

definition held :: "('a, 'w::len word) dsys \<Rightarrow> 'a multiset" where
  "held s = (case owner s of
      PopRead b \<Rightarrow> {#the (read_slot b (shared s))#}
    | PopRestore b won \<Rightarrow> (if won then {#the (read_slot b (shared s))#} else {#})
    | _ \<Rightarrow> {#})"

text \<open>\<open>E\<close> is the index after the last live value.\<close>

fun owner_ok :: "int \<Rightarrow> int \<Rightarrow> nat \<Rightarrow> ('a, 'w::len word) deque \<Rightarrow> ('a, 'w word) owner_pc \<Rightarrow> bool" where
  "owner_ok T E c d OIdle \<longleftrightarrow> dq_bottom d = of_int E"
| "owner_ok T E c d (PushTop b v) \<longleftrightarrow> dq_bottom d = of_int E \<and> b = of_int E"
| "owner_ok T E c d (PushWrite b v) \<longleftrightarrow> dq_bottom d = of_int E \<and> b = of_int E \<and> E - T < 2 ^ c"
| "owner_ok T E c d (PushPublish b v) \<longleftrightarrow> dq_bottom d = of_int E \<and> b = of_int E \<and> E - T < 2 ^ c \<and>
     dq_buf d ! nat (E mod 2 ^ c) = Some v"
| "owner_ok T E c d (PopStore b) \<longleftrightarrow> dq_bottom d = of_int E \<and> b = of_int (E - 1)"
| "owner_ok T E c d (PopTop b) \<longleftrightarrow> dq_bottom d = of_int (E - 1) \<and> b = of_int (E - 1)"
| "owner_ok T E c d (PopEmpty b) \<longleftrightarrow> dq_bottom d = of_int (E - 1) \<and> b = of_int (E - 1) \<and> T = E"
| "owner_ok T E c d (PopCas b t) \<longleftrightarrow> dq_bottom d = of_int (E - 1) \<and> b = of_int (E - 1) \<and>
     t = of_int (E - 1) \<and> (T = E \<or> T = E - 1)"
| "owner_ok T E c d (PopRestore b won) \<longleftrightarrow> dq_bottom d = of_int (E - 1) \<and> b = of_int (E - 1) \<and> T = E \<and>
     (won \<longrightarrow> read_slot b d \<noteq> None)"
| "owner_ok T E c d (PopRead b) \<longleftrightarrow> dq_bottom d = of_int E \<and> read_slot b d \<noteq> None"

text \<open>A thief is current when no take has happened since it loaded \<open>top\<close>.\<close>

fun thief_ok :: "int \<Rightarrow> nat \<Rightarrow> 'a list \<Rightarrow> ('a, 'w::len word) thief_pc \<Rightarrow> bool" where
  "thief_ok T0 n xs TIdle \<longleftrightarrow> True"
| "thief_ok T0 n xs (TBottom t k) \<longleftrightarrow> t = of_int (T0 + int k) \<and> k \<le> n"
| "thief_ok T0 n xs (TRead t k) \<longleftrightarrow> t = of_int (T0 + int k) \<and> k \<le> n \<and> (k = n \<longrightarrow> xs \<noteq> [])"
| "thief_ok T0 n xs (TCas t k v) \<longleftrightarrow> t = of_int (T0 + int k) \<and> k \<le> n \<and> (k = n \<longrightarrow> xs \<noteq> [] \<and> v = hd xs)"

definition dsys_ok :: "nat \<Rightarrow> int \<Rightarrow> 'a multiset \<Rightarrow> 'a list \<Rightarrow> ('a, 'w::len word) dsys \<Rightarrow> bool" where
  "dsys_ok c T0 init xs s \<longleftrightarrow>
     (let T = T0 + int (takes s); E = T + int (length xs) in
      slots_hold c T xs (shared s) \<and> slots_written c T0 E (shared s) \<and>
      owner_ok T E c (shared s) (owner s) \<and> (\<forall>i. thief_ok T0 (takes s) xs (thieves s i)) \<and>
      init + pushed s = taken s + mset xs + held s)"

lemma slots_hold_diff:
  assumes "slots_hold c T xs (d :: ('a, 'w::len word) deque)" and "- 1 \<le> k" and "k \<le> int (length xs)"
  shows "sint (of_int k :: 'w word) = k"
proof (rule sint_of_int_small)
  have "int (length xs) \<le> 2 ^ c" using assms(1) by (intro int_le_power) (simp add: slots_hold_def)
  moreover have "(2::int) ^ c < 2 ^ (LENGTH('w) - 1)"
    using assms(1) by (intro cap_below_half) (simp add: slots_hold_def)
  ultimately show "k < 2 ^ (LENGTH('w) - 1)" using assms(3) by linarith
  have "(1::int) \<le> 2 ^ (LENGTH('w) - 1)" by simp
  with assms(2) show "- (2 ^ (LENGTH('w) - 1)) \<le> k" by linarith
qed

lemma slots_hold_slot:
  "slots_hold c T xs d \<Longrightarrow> slot_of d (of_int i) = nat (i mod 2 ^ c)"
  by (intro slot_of_index) (auto simp: slots_hold_def)

lemma slots_hold_capacity:
  assumes "slots_hold c T xs (d :: ('a, 'w::len word) deque)"
  shows "sint (of_nat (deque_capacity d) :: 'w word) = 2 ^ c"
proof -
  have "(2::int) ^ c < 2 ^ (LENGTH('w) - 1)"
    using assms by (intro cap_below_half) (simp add: slots_hold_def)
  moreover have "- (2 ^ (LENGTH('w) - 1)) \<le> (2::int) ^ c" by (rule order_trans [of _ 0]) auto
  ultimately have "sint (of_int (2 ^ c) :: 'w word) = 2 ^ c" by (intro sint_of_int_small)
  moreover have "deque_capacity d = 2 ^ c" using assms by (simp add: slots_hold_def deque_capacity_def)
  ultimately show ?thesis by simp
qed

lemma slots_hold_read:
  "slots_hold c T xs d \<Longrightarrow> read_slot (of_int i) d = dq_buf d ! nat (i mod 2 ^ c)"
  using slot_less [of i c] slots_hold_slot [of c T xs d i]
  by (auto simp: read_slot_def get_nth_def slots_hold_def)

lemma slots_hold_nth:
  assumes "slots_hold c T xs d" and "T \<le> j" and "j < T + int (length xs)"
  shows "dq_buf d ! nat (j mod 2 ^ c) = Some (xs ! nat (j - T))"
proof -
  have "nat (j - T) < length xs" "T + int (nat (j - T)) = j" using assms(2,3) by auto
  with assms(1) show ?thesis by (auto simp: slots_hold_def dest: spec [of _ "nat (j - T)"])
qed

lemma slots_hold_bottom [simp]:
  "slots_hold c T xs (d\<lparr>dq_bottom := b\<rparr>) = slots_hold c T xs d"
  "slots_written c T0 E (d\<lparr>dq_bottom := b\<rparr>) = slots_written c T0 E d"
  "slots_written c T0 E (d\<lparr>dq_top := b\<rparr>) = slots_written c T0 E d"
  "read_slot i (d\<lparr>dq_bottom := b\<rparr>) = read_slot i d"
  "read_slot i (d\<lparr>dq_top := b\<rparr>) = read_slot i d"
  by (simp_all add: slots_hold_def slots_written_def read_slot_def slot_of_def)

lemma slots_hold_tl:
  assumes "slots_hold c T (x # xs) d"
  shows "slots_hold c (T + 1) xs (d\<lparr>dq_top := dq_top d + 1\<rparr>)"
proof -
  have "\<forall>k<length xs. dq_buf d ! nat ((T + 1 + int k) mod 2 ^ c) = Some (xs ! k)"
  proof (intro allI impI)
    fix k assume "k < length xs"
    with assms show "dq_buf d ! nat ((T + 1 + int k) mod 2 ^ c) = Some (xs ! k)"
      by (auto simp: slots_hold_def add.assoc dest: spec [of _ "Suc k"])
  qed
  with assms show ?thesis by (simp add: slots_hold_def)
qed

lemma slots_hold_butlast: "slots_hold c T xs d \<Longrightarrow> slots_hold c T (butlast xs) d"
  by (auto simp: slots_hold_def nth_butlast)

lemma slots_hold_view:
  "slots_hold c T xs d \<Longrightarrow> dq_bottom d = of_int (T + int (length xs)) \<Longrightarrow> deque_view c T xs d"
  by (simp add: slots_hold_def deque_view_def)

lemma thief_ok_butlast:
  "thief_ok T0 n xs p \<Longrightarrow> 2 \<le> length xs \<Longrightarrow> thief_ok T0 n (butlast xs) p"
  by (cases p; cases xs) auto

lemma thief_ok_append: "thief_ok T0 n xs p \<Longrightarrow> thief_ok T0 n (xs @ [v]) p"
  by (cases p; cases xs) auto

lemma thief_ok_take: "thief_ok T0 n xs p \<Longrightarrow> thief_ok T0 (Suc n) ys p"
  by (cases p) auto

section \<open>What an interleaving does to the list\<close>

text \<open>
  The values in the deque at a point of an interleaving: from \<open>top\<close> to \<open>bottom\<close>, which a \<open>pop\<close> between
  its first store and its last holds one lower.
\<close>

definition live :: "('a, 'w::len word) dsys \<Rightarrow> 'a list" where
  "live s = (let d = shared s;
       e = (case owner s of PopTop b \<Rightarrow> dq_bottom d + 1 | PopEmpty b \<Rightarrow> dq_bottom d + 1
              | PopCas b t \<Rightarrow> dq_bottom d + 1 | PopRestore b won \<Rightarrow> dq_bottom d + 1 | _ \<Rightarrow> dq_bottom d) in
     map (\<lambda>k. the (read_slot (dq_top d + of_nat k) d)) [0..<nat (sint (e - dq_top d))])"

text \<open>The point at which an operation takes effect, and its answer.\<close>

datatype 'a deque_event = Quiet | EvPush 'a | EvFull | EvPop 'a | EvNone | EvSteal 'a

text \<open>
  The event of a step, read off the state before and after it: \<open>push\<close> takes effect when it publishes
  \<open>bottom\<close> or gives up, \<open>pop\<close> when it has compared \<open>top\<close> or raced for the last value, \<open>steal\<close> when its
  exchange succeeds. A \<open>steal\<close> that gives up (\<open>Empty\<close>, \<open>Retry\<close>) has no effect and no event.
\<close>

fun event_of :: "'a deque_move \<Rightarrow> ('a, 'w::len word) dsys \<Rightarrow> ('a, 'w word) dsys \<Rightarrow> 'a deque_event" where
  "event_of OwnerMove s s' = (case owner s of
      PushTop b v \<Rightarrow> (case owner s' of OIdle \<Rightarrow> EvFull | _ \<Rightarrow> Quiet)
    | PushPublish b v \<Rightarrow> EvPush v
    | PopTop b \<Rightarrow> (case owner s' of
          PopEmpty _ \<Rightarrow> EvNone
        | PopRead _ \<Rightarrow> EvPop (the (read_slot b (shared s')))
        | _ \<Rightarrow> Quiet)
    | PopCas b t \<Rightarrow> (case owner s' of
          PopRestore _ won \<Rightarrow> (if won then EvPop (the (read_slot b (shared s'))) else EvNone)
        | _ \<Rightarrow> Quiet)
    | _ \<Rightarrow> Quiet)"
| "event_of (ThiefMove i) s s' = (case thieves s i of
      TCas t k v \<Rightarrow> (if dq_top (shared s') = dq_top (shared s) then Quiet else EvSteal v)
    | _ \<Rightarrow> Quiet)"
| "event_of _ s s' = Quiet"

text \<open>The same event on a bounded list, with the answers a sequential deque gives; \<open>None\<close> is a wrong answer.\<close>

fun event_on :: "nat \<Rightarrow> 'a deque_event \<Rightarrow> 'a list \<Rightarrow> 'a list option" where
  "event_on cap Quiet xs = Some xs"
| "event_on cap (EvPush v) xs = (if length xs < cap then Some (xs @ [v]) else None)"
| "event_on cap EvFull xs = (if length xs = cap then Some xs else None)"
| "event_on cap (EvPop v) xs = (if xs \<noteq> [] \<and> last xs = v then Some (butlast xs) else None)"
| "event_on cap EvNone xs = (if xs = [] then Some [] else None)"
| "event_on cap (EvSteal v) xs = (if xs \<noteq> [] \<and> hd xs = v then Some (tl xs) else None)"

fun puts :: "'a deque_event \<Rightarrow> 'a multiset" where
  "puts (EvPush v) = {#v#}"
| "puts _ = {#}"

fun gets :: "'a deque_event \<Rightarrow> 'a multiset" where
  "gets (EvPop v) = {#v#}"
| "gets (EvSteal v) = {#v#}"
| "gets _ = {#}"

section \<open>The owner keeps the invariant\<close>

lemma owner_push_ok:
  fixes s :: "('a, 'w::len word) dsys"
  assumes "dsys_ok c T0 init xs s" and "owner s = OIdle \<or> (\<exists>b v. owner s = PushTop b v \<or> owner s = PushPublish b v)"
  shows "\<exists>s' xs'. owner_step s = Some s' \<and> dsys_ok c T0 init xs' s' \<and>
    event_on (2 ^ c) (event_of OwnerMove s s') xs = Some xs'"
proof -
  let ?d = "shared s" and ?T = "T0 + int (takes s)" and ?n = "int (length xs)"
  from assms(1) have hold: "slots_hold c ?T xs ?d" and written: "slots_written c T0 (?T + ?n) ?d"
    and ok: "owner_ok ?T (?T + ?n) c ?d (owner s)"
    by (auto simp: dsys_ok_def Let_def)
  from assms(2) consider "owner s = OIdle" | b v where "owner s = PushTop b v" | b v where "owner s = PushPublish b v"
    by auto
  then show ?thesis
  proof cases
    case 1
    with assms(1) show ?thesis by (intro exI [of _ s] exI [of _ xs]) simp
  next
    case 2
    have "b - dq_top ?d = of_int ?n" using ok 2 hold by (simp add: slots_hold_def)
    then have diff: "sint (b - dq_top ?d) = ?n" using slots_hold_diff [OF hold, of ?n] by simp
    let ?p = "if 2 ^ c \<le> ?n then OIdle else PushWrite b v"
    have "owner_step s = Some (s\<lparr>owner := ?p\<rparr>)"
      using 2 diff slots_hold_capacity [OF hold] by simp
    moreover have "dsys_ok c T0 init xs (s\<lparr>owner := ?p\<rparr>)"
      using assms(1) 2 by (simp add: dsys_ok_def Let_def held_def)
    moreover have "event_on (2 ^ c) (event_of OwnerMove s (s\<lparr>owner := ?p\<rparr>)) xs = Some xs"
      using 2 hold by (auto simp: slots_hold_def)
    ultimately show ?thesis by blast
  next
    case 3
    let ?s = "s\<lparr>shared := ?d\<lparr>dq_bottom := b + 1\<rparr>, owner := OIdle, pushed := add_mset v (pushed s)\<rparr>"
    from ok 3 have o: "dq_bottom ?d = of_int (?T + ?n)" "b = of_int (?T + ?n)" "?n < 2 ^ c"
      "dq_buf ?d ! nat ((?T + ?n) mod 2 ^ c) = Some v" by auto
    then have "length xs < 2 ^ c" by (metis of_nat_less_iff of_nat_numeral of_nat_power)
    with hold o(4) have "slots_hold c ?T (xs @ [v]) ?d" by (auto simp: slots_hold_def nth_append less_Suc_eq)
    moreover have "slots_written c T0 (?T + int (length (xs @ [v]))) ?d"
      unfolding slots_written_def
    proof (intro allI impI)
      fix j assume j: "T0 \<le> j \<and> j < ?T + int (length (xs @ [v]))"
      show "dq_buf ?d ! nat (j mod 2 ^ c) \<noteq> None"
      proof (cases "j = ?T + ?n")
        case True
        with o(4) show ?thesis by simp
      next
        case False
        with j written show ?thesis by (simp add: slots_written_def)
      qed
    qed
    moreover have "owner_ok ?T (?T + int (length (xs @ [v]))) c (?d\<lparr>dq_bottom := b + 1\<rparr>) OIdle"
      using o(2) by simp
    moreover have "\<forall>i. thief_ok T0 (takes s) (xs @ [v]) (thieves s i)"
      using assms(1) by (simp add: dsys_ok_def Let_def thief_ok_append)
    moreover have "init + pushed s = taken s + mset xs"
      using assms(1) 3 by (simp add: dsys_ok_def Let_def held_def)
    ultimately have "dsys_ok c T0 init (xs @ [v]) ?s"
      by (simp add: dsys_ok_def Let_def held_def)
    moreover have "owner_step s = Some ?s" using 3 by simp
    moreover have "event_on (2 ^ c) (event_of OwnerMove s ?s) xs = Some (xs @ [v])"
      using 3 \<open>length xs < 2 ^ c\<close> by simp
    ultimately show ?thesis by blast
  qed
qed

lemma owner_write_ok:
  fixes s :: "('a, 'w::len word) dsys"
  assumes "dsys_ok c T0 init xs s" and "owner s = PushWrite b v"
  shows "\<exists>s' xs'. owner_step s = Some s' \<and> dsys_ok c T0 init xs' s' \<and>
    event_on (2 ^ c) (event_of OwnerMove s s') xs = Some xs'"
proof -
  let ?d = "shared s" and ?T = "T0 + int (takes s)" and ?n = "int (length xs)"
  let ?d' = "?d\<lparr>dq_buf := (dq_buf ?d)[nat ((?T + ?n) mod 2 ^ c) := Some v]\<rparr>"
  from assms have hold: "slots_hold c ?T xs ?d" and written: "slots_written c T0 (?T + ?n) ?d"
    and o: "dq_bottom ?d = of_int (?T + ?n)" "b = of_int (?T + ?n)" "?n < 2 ^ c"
    by (auto simp: dsys_ok_def Let_def)
  have len: "length (dq_buf ?d) = 2 ^ c" using hold by (simp add: slots_hold_def)
  have w: "write_slot b v ?d = Some ?d'"
    using o(2) slots_hold_slot [OF hold, of "?T + ?n"] len slot_less [of "?T + ?n" c]
    by (simp add: write_slot_def)
  have "nat ((?T + ?n) mod 2 ^ c) \<noteq> nat ((?T + int k) mod 2 ^ c)" if "k < length xs" for k
    using slot_inj [of "?T + ?n" c "?T + int k"] that o(3) by auto
  then have "slots_hold c ?T xs ?d'" using hold by (simp add: slots_hold_def)
  moreover have "slots_written c T0 (?T + ?n) ?d'"
    using written len slot_less by (simp add: slots_written_def nth_list_update)
  moreover have "owner_ok ?T (?T + ?n) c ?d' (PushPublish b v)"
    using o len slot_less by simp
  ultimately have "dsys_ok c T0 init xs (s\<lparr>shared := ?d', owner := PushPublish b v\<rparr>)"
    using assms by (simp add: dsys_ok_def Let_def held_def)
  moreover have "owner_step s = Some (s\<lparr>shared := ?d', owner := PushPublish b v\<rparr>)"
    using w assms(2) by simp
  moreover have "event_on (2 ^ c) (event_of OwnerMove s (s\<lparr>shared := ?d', owner := PushPublish b v\<rparr>)) xs = Some xs"
    using assms(2) by simp
  ultimately show ?thesis by blast
qed

lemma owner_pop_claim_ok:
  fixes s :: "('a, 'w::len word) dsys"
  assumes "dsys_ok c T0 init xs s" and "owner s = PopTop b"
  shows "\<exists>s' xs'. owner_step s = Some s' \<and> dsys_ok c T0 init xs' s' \<and>
    event_on (2 ^ c) (event_of OwnerMove s s') xs = Some xs'"
proof -
  let ?d = "shared s" and ?T = "T0 + int (takes s)" and ?n = "int (length xs)"
  from assms have hold: "slots_hold c ?T xs ?d" and written: "slots_written c T0 (?T + ?n) ?d"
    and o: "dq_bottom ?d = of_int (?T + ?n - 1)" "b = of_int (?T + ?n - 1)"
    by (auto simp: dsys_ok_def Let_def)
  have "b - dq_top ?d = of_int (?n - 1)" using o hold by (simp add: slots_hold_def)
  then have diff: "sint (b - dq_top ?d) = ?n - 1" using slots_hold_diff [OF hold, of "?n - 1"] by simp
  consider "xs = []" | "length xs = 1" | "2 \<le> length xs" by (cases "length xs" rule: nat.exhaust) (auto simp: Suc_le_eq)
  then show ?thesis
  proof cases
    case 1
    then have "owner_step s = Some (s\<lparr>owner := PopEmpty b\<rparr>)" using assms(2) diff by simp
    moreover have "dsys_ok c T0 init xs (s\<lparr>owner := PopEmpty b\<rparr>)"
      using assms o 1 by (simp add: dsys_ok_def Let_def held_def)
    moreover have "event_on (2 ^ c) (event_of OwnerMove s (s\<lparr>owner := PopEmpty b\<rparr>)) xs = Some xs"
      using assms(2) 1 by simp
    ultimately show ?thesis by blast
  next
    case 2
    then have "owner_step s = Some (s\<lparr>owner := PopCas b (dq_top ?d)\<rparr>)" using assms(2) diff by simp
    moreover have "dsys_ok c T0 init xs (s\<lparr>owner := PopCas b (dq_top ?d)\<rparr>)"
      using assms o 2 hold by (simp add: dsys_ok_def Let_def held_def slots_hold_def)
    moreover have "event_on (2 ^ c) (event_of OwnerMove s (s\<lparr>owner := PopCas b (dq_top ?d)\<rparr>)) xs = Some xs"
      using assms(2) by simp
    ultimately show ?thesis by blast
  next
    case 3
    then obtain ys v where xs: "xs = ys @ [v]" by (cases xs rule: rev_cases) auto
    with 3 have n: "?n = int (length ys) + 1" and ys: "1 \<le> length ys" by auto
    have "owner_step s = Some (s\<lparr>owner := PopRead b\<rparr>)" using assms(2) diff 3 by auto
    moreover have v: "read_slot b ?d = Some v"
      using slots_hold_read [OF hold, of "?T + ?n - 1"] slots_hold_nth [OF hold, of "?T + ?n - 1"] o(2) xs by simp
    moreover have "slots_hold c ?T ys ?d" using slots_hold_butlast [OF hold] xs by simp
    moreover have "slots_written c T0 (?T + int (length ys)) ?d"
      using written n by (auto simp: slots_written_def)
    moreover have "\<forall>i. thief_ok T0 (takes s) ys (thieves s i)"
      using assms(1) thief_ok_butlast [of T0 _ xs] 3 xs by (fastforce simp: dsys_ok_def Let_def)
    ultimately have "owner_step s = Some (s\<lparr>owner := PopRead b\<rparr>)"
      and "dsys_ok c T0 init ys (s\<lparr>owner := PopRead b\<rparr>)"
      using assms o n xs by (auto simp: dsys_ok_def Let_def held_def)
    moreover have "event_on (2 ^ c) (event_of OwnerMove s (s\<lparr>owner := PopRead b\<rparr>)) xs = Some ys"
      using assms(2) v xs by simp
    ultimately show ?thesis by blast
  qed
qed

lemma owner_pop_race_ok:
  fixes s :: "('a, 'w::len word) dsys"
  assumes "dsys_ok c T0 init xs s" and "owner s = PopCas b t"
  shows "\<exists>s' xs'. owner_step s = Some s' \<and> dsys_ok c T0 init xs' s' \<and>
    event_on (2 ^ c) (event_of OwnerMove s s') xs = Some xs'"
proof -
  let ?d = "shared s" and ?T = "T0 + int (takes s)" and ?n = "int (length xs)"
  from assms have hold: "slots_hold c ?T xs ?d" and written: "slots_written c T0 (?T + ?n) ?d"
    and o: "dq_bottom ?d = of_int (?T + ?n - 1)" "b = of_int (?T + ?n - 1)" "t = of_int (?T + ?n - 1)"
    and few: "length xs \<le> 1"
    by (auto simp: dsys_ok_def Let_def)
  show ?thesis
  proof (cases xs)
    case Nil
    have "dq_top ?d - t = of_int 1" using o(3) hold Nil by (simp add: slots_hold_def)
    then have "dq_top ?d \<noteq> t" by (metis diff_self of_int_1 zero_neq_one)
    then have "owner_step s = Some (s\<lparr>owner := PopRestore b False\<rparr>)" using assms(2) by simp
    moreover have "dsys_ok c T0 init xs (s\<lparr>owner := PopRestore b False\<rparr>)"
      using assms o Nil by (simp add: dsys_ok_def Let_def held_def)
    moreover have "event_on (2 ^ c) (event_of OwnerMove s (s\<lparr>owner := PopRestore b False\<rparr>)) xs = Some xs"
      using assms(2) Nil by simp
    ultimately show ?thesis by blast
  next
    case (Cons v ys)
    with few have xs: "xs = [v]" by simp
    let ?s = "s\<lparr>shared := ?d\<lparr>dq_top := t + 1\<rparr>, owner := PopRestore b True, takes := Suc (takes s)\<rparr>"
    have t: "dq_top ?d = t" using o(3) hold xs by (simp add: slots_hold_def)
    then have "owner_step s = Some ?s" using assms(2) by simp
    moreover have "slots_hold c (?T + 1) [] (?d\<lparr>dq_top := t + 1\<rparr>)"
      using slots_hold_tl [of c ?T v "[]" ?d] hold xs t by simp
    moreover have "read_slot b ?d = Some v"
      using slots_hold_read [OF hold, of "?T + ?n - 1"] slots_hold_nth [OF hold, of "?T + ?n - 1"] o(2) xs by simp
    moreover from this have "event_on (2 ^ c) (event_of OwnerMove s ?s) xs = Some []"
      using assms(2) xs by simp
    ultimately have "owner_step s = Some ?s" and "dsys_ok c T0 init [] ?s"
      and "event_on (2 ^ c) (event_of OwnerMove s ?s) xs = Some []"
      using assms o xs written
      by (auto simp: dsys_ok_def Let_def held_def algebra_simps intro: thief_ok_take)
    then show ?thesis by blast
  qed
qed

lemma owner_pop_end_ok:
  fixes s :: "('a, 'w::len word) dsys"
  assumes "dsys_ok c T0 init xs s"
    and "\<exists>b w. owner s = PopStore b \<or> owner s = PopEmpty b \<or> owner s = PopRestore b w \<or> owner s = PopRead b"
  shows "\<exists>s' xs'. owner_step s = Some s' \<and> dsys_ok c T0 init xs' s' \<and>
    event_on (2 ^ c) (event_of OwnerMove s s') xs = Some xs'"
proof -
  let ?d = "shared s" and ?T = "T0 + int (takes s)" and ?n = "int (length xs)"
  from assms(1) have hold: "slots_hold c ?T xs ?d" and written: "slots_written c T0 (?T + ?n) ?d"
    and ok: "owner_ok ?T (?T + ?n) c ?d (owner s)" and sum: "init + pushed s = taken s + mset xs + held s"
    by (auto simp: dsys_ok_def Let_def)
  from assms(2) consider b where "owner s = PopStore b" | b where "owner s = PopEmpty b"
    | b w where "owner s = PopRestore b w" | b where "owner s = PopRead b" by auto
  then show ?thesis
  proof cases
    case 1
    with assms(1) show ?thesis
      by (intro exI [of _ xs] exI) (auto simp: dsys_ok_def Let_def held_def)
  next
    case 2
    with assms(1) show ?thesis
      by (intro exI [of _ xs] exI) (auto simp: dsys_ok_def Let_def held_def)
  next
    case 3
    let ?s = "s\<lparr>shared := ?d\<lparr>dq_bottom := b + 1\<rparr>, owner := (if w then PopRead b else OIdle)\<rparr>"
    have "owner_step s = Some ?s" using 3 by simp
    moreover have "dsys_ok c T0 init xs ?s"
      using assms(1) 3 by (cases w) (auto simp: dsys_ok_def Let_def held_def)
    moreover have "event_on (2 ^ c) (event_of OwnerMove s ?s) xs = Some xs" using 3 by simp
    ultimately show ?thesis by blast
  next
    case 4
    with ok obtain v where v: "read_slot b ?d = Some v" by auto
    with 4 have "owner_step s = Some (s\<lparr>owner := OIdle, taken := add_mset v (taken s)\<rparr>)" by simp
    moreover have "dsys_ok c T0 init xs (s\<lparr>owner := OIdle, taken := add_mset v (taken s)\<rparr>)"
      using assms(1) 4 v by (simp add: dsys_ok_def Let_def held_def)
    moreover have "event_on (2 ^ c) (event_of OwnerMove s (s\<lparr>owner := OIdle, taken := add_mset v (taken s)\<rparr>)) xs = Some xs"
      using 4 by simp
    ultimately show ?thesis by blast
  qed
qed

lemma owner_step_ok:
  assumes "dsys_ok c T0 init xs s"
  shows "\<exists>s' xs'. owner_step s = Some s' \<and> dsys_ok c T0 init xs' s' \<and>
    event_on (2 ^ c) (event_of OwnerMove s s') xs = Some xs'"
proof (cases "owner s")
  case (PushWrite b v)
  with assms show ?thesis by (rule owner_write_ok)
next
  case (PopTop b)
  with assms show ?thesis by (rule owner_pop_claim_ok)
next
  case (PopCas b t)
  with assms show ?thesis by (rule owner_pop_race_ok)
qed (use assms owner_push_ok owner_pop_end_ok in blast)+

section \<open>A thief keeps the invariant\<close>

lemma held_thieves [simp]: "held (s\<lparr>thieves := f\<rparr>) = held s"
  by (cases "owner s") (auto simp: held_def)

lemma dsys_ok_thieves:
  assumes "dsys_ok c T0 init xs s" and "thief_ok T0 (takes s) xs p"
  shows "dsys_ok c T0 init xs (s\<lparr>thieves := (thieves s)(i := p)\<rparr>)"
  using assms by (auto simp: dsys_ok_def Let_def)

lemma owner_bottom:
  "owner_ok T E c d p \<Longrightarrow> dq_bottom d = of_int E \<or> dq_bottom d = of_int (E - 1)"
  by (cases p) auto

lemma thief_look_ok:
  fixes s :: "('a, 'w::len word) dsys"
  assumes "dsys_ok c T0 init xs s" and "thieves s i = TBottom t k"
  shows "\<exists>s' xs'. thief_step i s = Some s' \<and> dsys_ok c T0 init xs' s' \<and>
    event_on (2 ^ c) (event_of (ThiefMove i) s s') xs = Some xs'"
proof -
  let ?d = "shared s" and ?T = "T0 + int (takes s)" and ?n = "int (length xs)"
  from assms have hold: "slots_hold c ?T xs ?d" and t: "t = of_int (T0 + int k)" "k \<le> takes s"
    and bot: "dq_bottom ?d = of_int (?T + ?n) \<or> dq_bottom ?d = of_int (?T + ?n - 1)"
    by (auto simp: dsys_ok_def Let_def dest: spec [of _ i] dest!: owner_bottom)
  have "thief_ok T0 (takes s) xs (if sint (dq_bottom ?d - t) \<le> 0 then TIdle else TRead t k)"
  proof (cases "k = takes s \<and> xs = []")
    case True
    with bot t have "dq_bottom ?d - t = of_int 0 \<or> dq_bottom ?d - t = of_int (- 1)" by auto
    then have "sint (dq_bottom ?d - t) = 0 \<or> sint (dq_bottom ?d - t) = - 1"
      using slots_hold_diff [OF hold, of 0] slots_hold_diff [OF hold, of "- 1"] by auto
    then show ?thesis by auto
  next
    case False
    with t show ?thesis by auto
  qed
  from dsys_ok_thieves [OF assms(1) this, of i] assms(2) show ?thesis by (intro exI [of _ xs] exI) (simp add: Let_def)
qed

lemma thief_read_ok:
  fixes s :: "('a, 'w::len word) dsys"
  assumes "dsys_ok c T0 init xs s" and "thieves s i = TRead t k"
  shows "\<exists>s' xs'. thief_step i s = Some s' \<and> dsys_ok c T0 init xs' s' \<and>
    event_on (2 ^ c) (event_of (ThiefMove i) s s') xs = Some xs'"
proof -
  let ?d = "shared s" and ?T = "T0 + int (takes s)" and ?n = "int (length xs)"
  from assms have hold: "slots_hold c ?T xs ?d" and written: "slots_written c T0 (?T + ?n) ?d"
    and t: "t = of_int (T0 + int k)" "k \<le> takes s" "k = takes s \<longrightarrow> xs \<noteq> []"
    by (auto simp: dsys_ok_def Let_def dest: spec [of _ i])
  have "T0 + int k < ?T + ?n" using t(2,3) by (cases "k = takes s") auto
  with written have "dq_buf ?d ! nat ((T0 + int k) mod 2 ^ c) \<noteq> None"
    by (simp only: slots_written_def) simp
  then obtain v where v: "dq_buf ?d ! nat ((T0 + int k) mod 2 ^ c) = Some v" by blast
  have "read_slot t ?d = Some v" unfolding t(1) slots_hold_read [OF hold] by (rule v)
  moreover have "k = takes s \<longrightarrow> v = hd xs"
    using slots_hold_nth [OF hold, of ?T] t(3) v by (auto simp: hd_conv_nth)
  ultimately have "thief_ok T0 (takes s) xs (TCas t k v)" and "thief_step i s = Some (s\<lparr>thieves := (thieves s)(i := TCas t k v)\<rparr>)"
    using assms(2) t by simp_all
  with dsys_ok_thieves [OF assms(1) this(1), of i] assms(2) show ?thesis by (intro exI [of _ xs] exI) simp
qed

lemma owner_ok_take:
  "owner_ok T E c d p \<Longrightarrow> T < E \<Longrightarrow> owner_ok (T + 1) E c (d\<lparr>dq_top := t\<rparr>) p"
  by (cases p) auto

lemma thief_cas_ok:
  fixes s :: "('a, 'w::len word) dsys"
  assumes "dsys_ok c T0 init xs s" and "thieves s i = TCas t k v" and "paced (ThiefMove i) s"
  shows "\<exists>s' xs'. thief_step i s = Some s' \<and> dsys_ok c T0 init xs' s' \<and>
    event_on (2 ^ c) (event_of (ThiefMove i) s s') xs = Some xs'"
proof -
  let ?d = "shared s" and ?T = "T0 + int (takes s)" and ?n = "int (length xs)"
  from assms have hold: "slots_hold c ?T xs ?d" and written: "slots_written c T0 (?T + ?n) ?d"
    and ok: "owner_ok ?T (?T + ?n) c ?d (owner s)"
    and t: "t = of_int (T0 + int k)" "k \<le> takes s" "k = takes s \<longrightarrow> xs \<noteq> [] \<and> v = hd xs"
    and lag: "takes s - k < 2 ^ LENGTH('w)"
    by (auto simp: dsys_ok_def Let_def dest: spec [of _ i])
  show ?thesis
  proof (cases "k = takes s")
    case False
    have "dq_top ?d \<noteq> t"
    proof
      assume "dq_top ?d = t"
      with hold t have "(of_int ?T :: 'w word) = of_int (T0 + int k)" by (simp add: slots_hold_def)
      moreover have "int (takes s - k) < 2 ^ LENGTH('w)" using lag by (rule int_less_power)
      then have "\<bar>?T - (T0 + int k)\<bar> < 2 ^ LENGTH('w)" using t(2) by auto
      ultimately have "?T = T0 + int k" by (rule of_int_word_window_inj)
      with False show False by simp
    qed
    then have "thief_step i s = Some (s\<lparr>thieves := (thieves s)(i := TIdle)\<rparr>)" using assms(2) by simp
    moreover have "event_of (ThiefMove i) s (s\<lparr>thieves := (thieves s)(i := TIdle)\<rparr>) = Quiet" using assms(2) by simp
    ultimately show ?thesis using dsys_ok_thieves [OF assms(1), of TIdle i]
assms(1)
      by (intro exI [of _ "s\<lparr>thieves := (thieves s)(i := TIdle)\<rparr>"] exI [of _ xs]) (simp del: thief_step.simps event_of.simps)
  next
    case True
    with t(3) obtain ys where xs: "xs = v # ys" by (cases xs) auto
    let ?s = "s\<lparr>shared := ?d\<lparr>dq_top := t + 1\<rparr>, thieves := (thieves s)(i := TIdle),
                takes := Suc (takes s), taken := add_mset v (taken s)\<rparr>"
    have top: "dq_top ?d = t" using hold t True by (simp add: slots_hold_def)
    with assms have "thief_step i s = Some ?s" by simp
    moreover have "slots_hold c (?T + 1) ys (?d\<lparr>dq_top := t + 1\<rparr>)"
      using slots_hold_tl [of c ?T v ys ?d] hold xs top by simp
    moreover have "owner_ok (?T + 1) (?T + ?n) c (?d\<lparr>dq_top := t + 1\<rparr>) (owner s)"
      by (rule owner_ok_take [OF ok]) (simp add: xs)
    moreover have "?T + 1 + int (length ys) = ?T + ?n" using xs by simp
    moreover have "event_on (2 ^ c) (event_of (ThiefMove i) s ?s) xs = Some ys"
      using assms(2) xs top by simp
    ultimately have "thief_step i s = Some ?s" and "dsys_ok c T0 init ys ?s"
      and "event_on (2 ^ c) (event_of (ThiefMove i) s ?s) xs = Some ys"
      using assms(1) written xs
      by (auto simp: dsys_ok_def Let_def held_def algebra_simps intro: thief_ok_take split: owner_pc.splits)
    then show ?thesis by blast
  qed
qed

lemma thief_step_ok:
  assumes "dsys_ok c T0 init xs s" and "paced (ThiefMove i) s"
  shows "\<exists>s' xs'. thief_step i s = Some s' \<and> dsys_ok c T0 init xs' s' \<and>
    event_on (2 ^ c) (event_of (ThiefMove i) s s') xs = Some xs'"
proof (cases "thieves s i")
  case TIdle
  moreover have "dq_top (shared s) = of_int (T0 + int (takes s))"
    using assms(1) by (simp add: dsys_ok_def Let_def slots_hold_def)
  ultimately have "thief_ok T0 (takes s) xs (TBottom (dq_top (shared s)) (takes s))" by simp
  from dsys_ok_thieves [OF assms(1) this, of i] TIdle show ?thesis by (intro exI [of _ xs] exI) (simp add: Let_def)
next
  case (TBottom t k)
  with assms(1) show ?thesis by (rule thief_look_ok)
next
  case (TRead t k)
  with assms(1) show ?thesis by (rule thief_read_ok)
next
  case (TCas t k v)
  with assms show ?thesis by (intro thief_cas_ok)
qed

lemma dmove_ok:
  assumes "dsys_ok c T0 init xs s" and "paced m s"
  shows "\<exists>s' xs'. dmove m s = Some s' \<and> dsys_ok c T0 init xs' s' \<and>
    event_on (2 ^ c) (event_of m s s') xs = Some xs'"
proof (cases m)
  case (CallPush v)
  have "dsys_ok c T0 init xs (s\<lparr>owner := PushTop (dq_bottom (shared s)) v\<rparr>)" if "owner s = OIdle"
    using assms(1) that by (simp add: dsys_ok_def Let_def held_def)
  with assms(1) CallPush show ?thesis by (cases "owner s = OIdle") (intro exI [of _ xs] exI, simp)+
next
  case CallPop
  have "dsys_ok c T0 init xs (s\<lparr>owner := PopStore (dq_bottom (shared s) - 1)\<rparr>)" if "owner s = OIdle"
    using assms(1) that by (simp add: dsys_ok_def Let_def held_def)
  with assms(1) CallPop show ?thesis by (cases "owner s = OIdle") (intro exI [of _ xs] exI, simp)+
next
  case OwnerMove
  with owner_step_ok [OF assms(1)] show ?thesis by (simp del: owner_step.simps event_of.simps)
next
  case (ThiefMove i)
  with thief_step_ok [OF assms(1)] assms(2) show ?thesis by (simp del: thief_step.simps event_of.simps)
qed

lemma dsys_start_ok:
  assumes "deque_wf d"
  obtains c where "dsys_ok c (sint (dq_top d)) (mset (deque_list d)) (deque_list d) (dsys_start d)"
proof -
  from assms obtain c where c: "deque_view c (sint (dq_top d)) (deque_list d) d" by (elim wf_view)
  have "slots_hold c (sint (dq_top d)) (deque_list d) d"
    using c by (simp add: deque_view_def slots_hold_def)
  moreover from slots_hold_nth [OF this]
  have "slots_written c (sint (dq_top d)) (sint (dq_top d) + int (length (deque_list d))) d"
    by (simp add: slots_written_def)
  moreover have "dq_bottom d = of_int (sint (dq_top d) + int (length (deque_list d)))"
    using c by (simp add: deque_view_def)
  ultimately have "dsys_ok c (sint (dq_top d)) (mset (deque_list d)) (deque_list d) (dsys_start d)"
    by (simp add: dsys_ok_def Let_def dsys_start_def held_def)
  with that show thesis .
qed

lemma reach_ok:
  assumes "reach s0 s" and "dsys_ok c T0 init xs s0"
  shows "\<exists>xs'. dsys_ok c T0 init xs' s"
  using assms(1)
proof induction
  case reach_refl
  with assms(2) show ?case by blast
next
  case (reach_move s m s')
  then show ?case using dmove_ok by fastforce
qed

lemma owner_end:
  "owner_ok T E c (shared s) (owner s) \<Longrightarrow>
    (case owner s of PopTop b \<Rightarrow> dq_bottom (shared s) + 1 | PopEmpty b \<Rightarrow> dq_bottom (shared s) + 1
       | PopCas b t \<Rightarrow> dq_bottom (shared s) + 1 | PopRestore b won \<Rightarrow> dq_bottom (shared s) + 1
       | _ \<Rightarrow> dq_bottom (shared s)) = of_int E"
  by (cases "owner s") auto

lemma live_ok:
  assumes "dsys_ok c T0 init xs (s :: ('a, 'w::len word) dsys)"
  shows "live s = xs"
proof -
  let ?d = "shared s" and ?T = "T0 + int (takes s)" and ?n = "int (length xs)"
  from assms have hold: "slots_hold c ?T xs ?d" and ok: "owner_ok ?T (?T + ?n) c ?d (owner s)"
    by (auto simp: dsys_ok_def Let_def)
  have top: "dq_top ?d = of_int ?T" using hold by (simp add: slots_hold_def)
  have diff: "of_int (?T + ?n) - dq_top ?d = of_int ?n" using top by simp
  have "sint (of_int (?T + ?n) - dq_top ?d) = ?n" unfolding diff using slots_hold_diff [OF hold, of ?n] by simp
  then have len: "live s = map (\<lambda>k. the (read_slot (dq_top ?d + of_nat k) ?d)) [0..<length xs]"
    unfolding live_def Let_def owner_end [OF ok] by simp
  have slot: "the (read_slot (dq_top ?d + of_nat k) ?d) = xs ! k" if "k < length xs" for k
  proof -
    have "dq_top ?d + of_nat k = of_int (?T + int k)" using top by simp
    with slots_hold_read [OF hold, of "?T + int k"] slots_hold_nth [OF hold, of "?T + int k"] that
    show ?thesis by simp
  qed
  show ?thesis by (rule nth_equalityI) (simp_all add: len slot)
qed

text \<open>What a step takes out is what its event says.\<close>

lemma event_gets:
  "event_on n e xs = Some ys \<Longrightarrow> mset xs + puts e = mset ys + gets e"
proof (cases e)
  case (EvPop v)
  then show "event_on n e xs = Some ys \<Longrightarrow> ?thesis" by (cases xs rule: rev_cases) (auto split: if_splits)
next
  case (EvSteal v)
  then show "event_on n e xs = Some ys \<Longrightarrow> ?thesis" by (cases xs) (auto split: if_splits)
qed (auto split: if_splits)

lemma dmove_pushed:
  "dmove m s = Some s' \<Longrightarrow> pushed s' = pushed s + puts (event_of m s s')"
  by (cases m) (auto simp: Let_def split: if_splits owner_pc.splits thief_pc.splits Option.bind_splits)

section \<open>Running alone\<close>

lemma write_slot_fields:
  "write_slot i v d = Some d' \<Longrightarrow> dq_top d' = dq_top d \<and> dq_bottom d' = dq_bottom d \<and> dq_mask d' = dq_mask d"
  by (auto simp: write_slot_def)

lemma dmoves_append: "dmoves (ms @ ns) s = do { s' \<leftarrow> dmoves ms s; dmoves ns s' }"
  by (induction ms arbitrary: s) (auto split: Option.bind_splits)

abbreviation push_alone :: "'a \<Rightarrow> 'a deque_move list" where
  "push_alone v \<equiv> CallPush v # replicate 3 OwnerMove"

abbreviation pop_alone :: "'a deque_move list" where
  "pop_alone \<equiv> CallPop # replicate 5 OwnerMove"

lemma dmoves_push_alone:
  assumes "owner s = OIdle" and "deque_push v (shared s) = Some (r, d')"
  shows "dmoves (push_alone v) s = Some (s\<lparr>shared := d',
    pushed := (case r of Inl u \<Rightarrow> pushed s | Inr _ \<Rightarrow> add_mset v (pushed s))\<rparr>)"
  using assms by (cases s) (auto simp: deque_push_def Let_def numeral_eq_Suc split: if_splits dest: write_slot_fields)

lemma dmoves_pop_alone:
  assumes "owner s = OIdle" and "deque_pop (shared s) = Some (r, d')"
  shows "\<exists>n. dmoves pop_alone s = Some (s\<lparr>shared := d', takes := n,
    taken := (case r of None \<Rightarrow> taken s | Some v \<Rightarrow> add_mset v (taken s))\<rparr>)"
  using assms by (cases s) (auto simp: deque_pop_def Let_def numeral_eq_Suc split: if_splits)

section \<open>A thief that sleeps once round the index space\<close>

lemma alone_cycle:
  assumes "owner s = OIdle" and "deque_view c T [] (shared s)"
  shows "\<exists>s'. dmoves (push_alone v @ pop_alone) s = Some s' \<and> owner s' = OIdle \<and>
    deque_view c (T + 1) [] (shared s') \<and> thieves s' = thieves s \<and>
    pushed s' = add_mset v (pushed s) \<and> taken s' = add_mset v (taken s)"
proof -
  from view_push_room [OF assms(2), of v] obtain d1 where
    d1: "deque_push v (shared s) = Some (Inr (), d1)" "deque_view c T [v] d1" by auto
  from view_pop [OF d1(2)] obtain d2 where
    d2: "deque_pop d1 = Some (Some v, d2)" "deque_view c (T + 1) [] d2" by auto
  let ?s1 = "s\<lparr>shared := d1, pushed := add_mset v (pushed s)\<rparr>"
  have "dmoves (push_alone v) s = Some ?s1"
    using dmoves_push_alone [OF assms(1) d1(1)] by simp
  moreover obtain n where "dmoves pop_alone ?s1 =
      Some (?s1\<lparr>shared := d2, takes := n, taken := add_mset v (taken s)\<rparr>)"
    using dmoves_pop_alone [of ?s1 "Some v" d2] d2(1) assms(1) by auto
  ultimately have "dmoves (push_alone v @ pop_alone) s =
      Some (?s1\<lparr>shared := d2, takes := n, taken := add_mset v (taken s)\<rparr>)"
    by (simp only: dmoves_append Option.bind.bind_lunit)
  with d2(2) assms(1) show ?thesis by auto
qed

lemma alone_cycles:
  assumes "owner s = OIdle" and "deque_view c T [] (shared s)"
  shows "\<exists>ms s'. dmoves ms s = Some s' \<and> owner s' = OIdle \<and>
    deque_view c (T + int n) [] (shared s') \<and> thieves s' = thieves s \<and>
    pushed s' = pushed s + replicate_mset n v \<and> taken s' = taken s + replicate_mset n v"
proof (induction n)
  case 0
  from assms show ?case by (intro exI [of _ "[]"] exI [of _ s]) simp
next
  case (Suc n)
  then obtain ms s1 where 1: "dmoves ms s = Some s1" "owner s1 = OIdle"
    "deque_view c (T + int n) [] (shared s1)" "thieves s1 = thieves s"
    "pushed s1 = pushed s + replicate_mset n v" "taken s1 = taken s + replicate_mset n v" by blast
  from alone_cycle [OF 1(2,3), of v] obtain s2 where
    2: "dmoves (push_alone v @ pop_alone) s1 = Some s2" "owner s2 = OIdle"
    "deque_view c (T + int n + 1) [] (shared s2)" "thieves s2 = thieves s1"
    "pushed s2 = add_mset v (pushed s1)" "taken s2 = add_mset v (taken s1)" by blast
  have "dmoves (ms @ push_alone v @ pop_alone) s = Some s2"
    using 1(1) 2(1) by (simp only: dmoves_append Option.bind.bind_lunit)
  with 1 2 show ?case by (intro exI [of _ "ms @ push_alone v @ pop_alone"] exI [of _ s2]) (simp add: ac_simps)
qed

lemma view_round:
  "deque_view c (T + 2 ^ LENGTH('w)) xs (d :: ('a, 'w::len word) deque) \<Longrightarrow> deque_view c T xs d"
proof -
  assume v: "deque_view c (T + 2 ^ LENGTH('w)) xs d"
  then have c: "c \<le> LENGTH('w)" by (simp add: deque_view_def)
  have w: "(of_int (T + 2 ^ LENGTH('w)) :: 'w word) = of_int T" by simp
  have m: "(T + 2 ^ LENGTH('w) + k) mod 2 ^ c = (T + k) mod 2 ^ c" for k
  proof -
    have "(2::int) ^ c dvd 2 ^ LENGTH('w)" using c by (rule le_imp_power_dvd)
    then obtain q where q: "(2::int) ^ LENGTH('w) = 2 ^ c * q" by (elim dvdE)
    have "(T + k + 2 ^ c * q) mod 2 ^ c = (T + k) mod 2 ^ c" by (rule mod_mult_self2)
    then show ?thesis unfolding q by (simp only: ac_simps)
  qed
  have "(of_int (T + 2 ^ LENGTH('w) + int (length xs)) :: 'w word) = of_int (T + int (length xs))" by simp
  with v show ?thesis unfolding deque_view_def m w by simp
qed

lemma sleeping_thief_duplicates:
  fixes d :: "('a, 'w::len word) deque"
  assumes "deque_wf d" and "deque_list d = []" and "a \<noteq> b"
  shows "\<exists>ms s. dmoves ms (dsys_start d) = Some s \<and> count (pushed s) a = 1 \<and> count (taken s) a = 2"
proof -
  from assms obtain c where c: "deque_view c (sint (dq_top d)) [] d" using wf_view [OF assms(1)] by metis
  define T where "T = sint (dq_top d)"
  let ?s0 = "dsys_start d"
  from view_push_room [OF c, of a] obtain d1 where
    d1: "deque_push a d = Some (Inr (), d1)" "deque_view c T [a] d1" by (auto simp: T_def)
  let ?s1 = "?s0\<lparr>shared := d1, pushed := {#a#}\<rparr>"
  have s1: "dmoves (push_alone a) ?s0 = Some ?s1"
    using dmoves_push_alone [of ?s0 a "Inr ()" d1] d1(1) by (simp add: dsys_start_def)
  from view_pop [OF d1(2)] obtain d2 where
    d2: "deque_pop d1 = Some (Some a, d2)" "deque_view c (T + 1) [] d2" by auto
  let ?tc = "TCas (of_int T) 0 a"
  let ?s2 = "?s1\<lparr>thieves := (\<lambda>_. TIdle)(0 := ?tc)\<rparr>"
  have top: "dq_top d1 = of_int T" using d1(2) by (simp add: deque_view_def)
  have "read_slot (of_int T) d1 = Some a"
  proof -
    have "slots_hold c T [a] d1" using d1(2) by (simp add: deque_view_def slots_hold_def)
    from slots_hold_read [OF this, of T] slots_hold_nth [OF this, of T] show ?thesis by simp
  qed
  then have s2: "dmoves (replicate 3 (ThiefMove 0)) ?s1 = Some ?s2"
    using view_diff [OF d1(2)] top by (simp add: numeral_eq_Suc dsys_start_def)
  obtain n where s3: "dmoves pop_alone ?s2 = Some (?s2\<lparr>shared := d2, takes := n, taken := {#a#}\<rparr>)"
    using dmoves_pop_alone [of ?s2 "Some a" d2] d2(1) by (auto simp: dsys_start_def)
  let ?s3 = "?s2\<lparr>shared := d2, takes := n, taken := {#a#}\<rparr>"
  let ?n = "2 ^ LENGTH('w) - 1 :: nat"
  have "owner ?s3 = OIdle" by (simp add: dsys_start_def)
  moreover have "deque_view c (T + 1) [] (shared ?s3)" using d2(2) by simp
  ultimately obtain ms4 s4 where s4: "dmoves ms4 ?s3 = Some s4" "owner s4 = OIdle"
    "deque_view c (T + 1 + int ?n) [] (shared s4)" "thieves s4 = thieves ?s3"
    "pushed s4 = pushed ?s3 + replicate_mset ?n b" "taken s4 = taken ?s3 + replicate_mset ?n b"
    using alone_cycles [of ?s3 c "T + 1" ?n b] by blast
  have "T + 1 + int ?n = T + 2 ^ LENGTH('w)" by (simp add: of_nat_diff)
  with s4(3) have v4: "deque_view c T [] (shared s4)" using view_round by metis
  from view_push_room [OF v4, of b] obtain d5 where
    d5: "deque_push b (shared s4) = Some (Inr (), d5)" "deque_view c T [b] d5" by auto
  let ?s5 = "s4\<lparr>shared := d5, pushed := add_mset b (pushed s4)\<rparr>"
  have s5: "dmoves (push_alone b) s4 = Some ?s5"
    using dmoves_push_alone [OF s4(2) d5(1)] by simp
  have top5: "dq_top d5 = of_int T" using d5(2) by (simp add: deque_view_def)
  have "thieves ?s5 0 = ?tc" using s4(4) by simp
  with top5 obtain s6 where s6: "dmoves [ThiefMove 0] ?s5 = Some s6"
    "pushed s6 = pushed ?s5" "taken s6 = add_mset a (taken s4)" by auto
  let ?ms = "push_alone a @ replicate 3 (ThiefMove 0) @ pop_alone @ ms4 @ push_alone b @ [ThiefMove 0]"
  have "dmoves ?ms ?s0 = Some s6"
    using s1 s2 s3 s4(1) s5 s6(1) by (simp only: dmoves_append Option.bind.bind_lunit)
  moreover have "count (pushed s6) a = 1" using s6(2) s4(5) assms(3) by simp
  moreover have "count (taken s6) a = 2" using s6(3) s4(6) assms(3) by simp
  ultimately show ?thesis by blast
qed


section \<open>Properties\<close>

text \<open>
  C1: Every interleaving of one owner and any number of thieves acts as a sequential bounded deque: from a
  well-formed deque, every paced step of every reachable state has a successor (no unwritten slot is read, no index
  is out of range), and the step is on the list of live values what its event says: a published \<open>push\<close> appends its
  value and only to a list that is not full, a refused one meets a full list, a \<open>pop\<close> takes the newest
  value or meets an empty list, an exchange of a thief that succeeds takes the oldest value, and no other step changes
  the list. The values handed out, those claimed by the owner and not read out yet included, are those of the events.
\<close>

theorem deque_conc_linearizes:
  assumes "deque_wf d" and "reach (dsys_start d) s" and "paced m s"
  shows "live (dsys_start d) = deque_list d \<and>
    (\<exists>s'. dmove m s = Some s' \<and>
      event_on (deque_capacity d) (event_of m s s') (live s) = Some (live s') \<and>
      pushed s' = pushed s + puts (event_of m s s') \<and>
      taken s' + held s' = taken s + held s + gets (event_of m s s'))"
proof -
  from assms(1) obtain c where c: "dsys_ok c (sint (dq_top d)) (mset (deque_list d)) (deque_list d) (dsys_start d)"
    by (rule dsys_start_ok)
  then have cap: "deque_capacity d = 2 ^ c" by (simp add: dsys_ok_def Let_def dsys_start_def slots_hold_def deque_capacity_def)
  from reach_ok [OF assms(2) c] obtain xs where xs: "dsys_ok c (sint (dq_top d)) (mset (deque_list d)) xs s" by blast
  from dmove_ok [OF xs assms(3)] obtain s' xs' where s': "dmove m s = Some s'"
    "dsys_ok c (sint (dq_top d)) (mset (deque_list d)) xs' s'" "event_on (2 ^ c) (event_of m s s') xs = Some xs'" by blast
  let ?e = "event_of m s s'"
  have push: "pushed s' = pushed s + puts ?e" by (rule dmove_pushed [OF s'(1)])
  have "mset (deque_list d) + pushed s = taken s + mset xs + held s"
    and "mset (deque_list d) + pushed s' = taken s' + mset xs' + held s'"
    using xs s'(2) by (simp_all add: dsys_ok_def Let_def)
  with push have "taken s + mset xs + held s + puts ?e = taken s' + mset xs' + held s'" by (metis add.assoc)
  then have "taken s + held s + (mset xs + puts ?e) = taken s' + held s' + mset xs'" by (simp only: ac_simps)
  then have "taken s' + held s' = taken s + held s + gets ?e" unfolding event_gets [OF s'(3)] by (simp add: ac_simps)
  with s' push show ?thesis using live_ok [OF c] live_ok [OF xs] live_ok [OF s'(2)] cap by auto
qed

lemma wrapped_deque_reach:
  "reach (dsys_start wrapped_deque) ((dsys_start wrapped_deque)\<lparr>thieves := (\<lambda>_. TIdle)(4 := TBottom (- 1) 0)\<rparr>)"
  by (rule reach_move [OF reach_refl, of "ThiefMove 4"]) (simp_all add: dsys_start_def wrapped_deque_def)

theorem deque_conc_linearizes_witness:
  "\<exists>s'. dmove (ThiefMove 4) ((dsys_start wrapped_deque)\<lparr>thieves := (\<lambda>_. TIdle)(4 := TBottom (- 1) 0)\<rparr>) = Some s' \<and>
    live s' = deque_list wrapped_deque"
proof -
  let ?s = "(dsys_start wrapped_deque)\<lparr>thieves := (\<lambda>_. TIdle)(4 := TBottom (- 1) 0)\<rparr>"
  have "paced (ThiefMove 4) ?s" by simp
  from deque_conc_linearizes [OF wrapped_deque_wf wrapped_deque_reach this] obtain s' where
    "live (dsys_start wrapped_deque) = deque_list wrapped_deque" "dmove (ThiefMove 4) ?s = Some s'"
    "event_on (deque_capacity wrapped_deque) (event_of (ThiefMove 4) ?s s') (live ?s) = Some (live s')" by blast
  moreover have "event_of (ThiefMove 4) ?s s' = Quiet" by simp
  moreover have "live ?s = live (dsys_start wrapped_deque)" by (simp add: live_def dsys_start_def)
  ultimately show ?thesis by simp
qed

text \<open>
  C2: Nothing is lost and nothing is handed out twice, in every interleaving: whenever the owner
  is between operations, thieves at any point of theirs, the deque is well formed and what was in
  it at the start together with what was pushed is what was taken, by the owner and by thieves,
  together with what is in it now.
\<close>

theorem deque_conc_conservation:
  assumes "deque_wf d" and "reach (dsys_start d) s" and "owner s = OIdle"
  shows "deque_wf (shared s) \<and> mset (deque_list d) + pushed s = taken s + mset (deque_list (shared s))"
proof -
  from assms(1) obtain c where "dsys_ok c (sint (dq_top d)) (mset (deque_list d)) (deque_list d) (dsys_start d)"
    by (rule dsys_start_ok)
  from reach_ok [OF assms(2) this] obtain xs where
    ok: "dsys_ok c (sint (dq_top d)) (mset (deque_list d)) xs s" by blast
  with assms(3) have "deque_view c (sint (dq_top d) + int (takes s)) xs (shared s)"
    by (intro slots_hold_view) (auto simp: dsys_ok_def Let_def)
  with ok assms(3) show ?thesis by (auto simp: dsys_ok_def Let_def held_def view_wf view_list)
qed

theorem deque_conc_conservation_witness:
  "deque_wf wrapped_deque \<and>
   (\<exists>s. reach (dsys_start wrapped_deque) s \<and> thieves s 4 \<noteq> TIdle \<and>
     mset (deque_list wrapped_deque) + pushed s = taken s + mset (deque_list (shared s)))"
proof -
  let ?s = "(dsys_start wrapped_deque)\<lparr>thieves := (\<lambda>_. TIdle)(4 := TBottom (- 1) 0)\<rparr>"
  have "owner ?s = OIdle" "thieves ?s 4 \<noteq> TIdle" by (simp_all add: dsys_start_def)
  with deque_conc_conservation [OF wrapped_deque_wf wrapped_deque_reach this(1)] wrapped_deque_wf
    wrapped_deque_reach show ?thesis by blast
qed

text \<open>
  C21: The pacing is needed. The indices wrap, so the exchange on \<open>top\<close> cannot tell a thief's
  \<open>top\<close> from the one exactly \<open>2 ^ w\<close> takes later: at every index width and capacity a thief that
  sleeps between its read and its exchange while that many values pass through the deque wins a
  slot it did not read and hands out, a second time, a value that was taken long ago.
\<close>

theorem deque_sleeping_thief:
  fixes d :: "('a, 'w::len word) deque"
  assumes "deque_wf d" and "deque_list d = []" and "a \<noteq> b"
  shows "\<exists>ms s. dmoves ms (dsys_start d) = Some s \<and> count (pushed s) a = 1 \<and> count (taken s) a = 2"
  using assms by (rule sleeping_thief_duplicates)

theorem deque_sleeping_thief_witness:
  "\<exists>ms s. dmoves ms (dsys_start (deque_with_capacity 4 :: (nat, 32 word) deque)) = Some s \<and>
     count (pushed s) 1 = 1 \<and> count (taken s) 1 = 2"
proof (rule deque_sleeping_thief [of _ _ 2])
  have "next_power_of_two 4 = 4" by code_simp
  then have c: "next_power_of_two 4 < 2 ^ (LENGTH(32) - 1)" "2 < LENGTH(32)" by simp_all
  show "deque_wf (deque_with_capacity 4 :: (nat, 32 word) deque)"
    and "deque_list (deque_with_capacity 4 :: (nat, 32 word) deque) = []"
    using wf_with_capacity(1,2) [OF c] by simp_all
qed simp

end
