(* ===== verification/Krio_Run.thy ===== *)
theory Krio_Run
  imports Krio_Cluster
begin

text \<open>
  \<open>Cluster::run\<close>, the loop of a worker, and what wakes it: \<open>notify_one\<close>, \<open>stop_the_world\<close> and
  \<open>shutdown\<close>, with every atomic access to a parking slot a step of its own and any number of agents and of
  threads that submit work. A queue is the number of jobs in it; the barrier is the flag \<open>requested\<close>, with
  an agent inside \<open>enter\<close> as long as it is set (\<open>Krio_Safepoint\<close> has its accesses). \<open>Park::park\<close> and
  \<open>unpark\<close> are \<open>memory.atomic.wait32\<close> and \<open>notify\<close>: a wait returns at once if the slot does not
  hold what is expected, and otherwise when it is notified later. There are no spurious wakes.
\<close>

section \<open>Agents, submitters and shutdown\<close>

text \<open>The queues: the injector and the agents' deques.\<close>

datatype queue = Injected | Deque nat

text \<open>
  Where an agent is. The flag of \<open>NextOwn\<close> and what follows is whether the pass has run a job;
  \<open>NextSteal b st k\<close> looks at the \<open>k\<close>-th victim from \<open>st\<close>. \<open>Pass\<close> is inside \<open>enter\<close> in the middle of a pass,
  \<open>InTask\<close> inside \<open>Task::step\<close>, and the states from \<open>StopRequest\<close> on are \<open>stop_the_world\<close> called there.
\<close>

datatype run_pc =
    Top
  | Enter
  | DriveOnce
  | NextOwn bool
  | NextInjected bool
  | NextSteal bool nat nat
  | InTask
  | Surplus
  | NotifyScan nat
  | NotifyUnpark nat
  | AfterStep
  | Pass
  | Publish
  | Consume
  | Recheck
  | ScanInjected
  | Scan nat
  | Undo
  | UndoStop
  | Sleep
  | Blocked
  | Awake
  | AwakeStop
  | Gone
  | StopRequest
  | StopWake nat
  | StopAwait
  | StopCollect
  | StopRelease

datatype submit_pc = SIdle | SScan nat | SUnpark nat

datatype shut_pc = ShIdle | ShRelease | ShStore nat | ShUnpark nat | ShDone

record run_sys =
  rs_agents :: nat
  rs_jobs :: "queue \<Rightarrow> nat"
  rs_slot :: "nat \<Rightarrow> u32"
  rs_pc :: "nat \<Rightarrow> run_pc"
  rs_submit :: "nat \<Rightarrow> submit_pc"
  rs_shut :: shut_pc
  rs_stopping :: bool
  rs_requested :: bool

definition run_start :: "nat \<Rightarrow> run_sys" where
  "run_start n = \<lparr>rs_agents = n, rs_jobs = (\<lambda>_. 0), rs_slot = (\<lambda>_. RUNNING), rs_pc = (\<lambda>_. Top), rs_submit = (\<lambda>_. SIdle),
     rs_shut = ShIdle, rs_stopping = False, rs_requested = False\<rparr>"

definition at_pc :: "nat \<Rightarrow> run_pc \<Rightarrow> run_sys \<Rightarrow> run_sys" where
  "at_pc i pc s = s\<lparr>rs_pc := (rs_pc s)(i := pc)\<rparr>"

definition set_slot :: "nat \<Rightarrow> u32 \<Rightarrow> run_sys \<Rightarrow> run_sys" where
  "set_slot i v s = s\<lparr>rs_slot := (rs_slot s)(i := v)\<rparr>"

definition add_job :: "queue \<Rightarrow> run_sys \<Rightarrow> run_sys" where
  "add_job q s = s\<lparr>rs_jobs := (rs_jobs s)(q := Suc (rs_jobs s q))\<rparr>"

definition take_job :: "queue \<Rightarrow> run_sys \<Rightarrow> run_sys" where
  "take_job q s = s\<lparr>rs_jobs := (rs_jobs s)(q := rs_jobs s q - 1)\<rparr>"

text \<open>\<open>unpark\<close>: the agent that waits on the slot, if it does.\<close>

definition unpark_agent :: "nat \<Rightarrow> run_sys \<Rightarrow> run_sys" where
  "unpark_agent k s = (if rs_pc s k = Blocked then at_pc k Awake s else s)"

text \<open>
  The possible next states of an agent; none when it waits. A task that is stepped may complete or park,
  be put back because its wake came early, yield onto the deque or, when that is full, the injector, or stop
  the world. What a task submits is a submission like any other (\<open>submit_moves\<close>). A steal may fail although the
  victim has a job.
\<close>

definition agent_moves :: "nat \<Rightarrow> run_sys \<Rightarrow> run_sys list" where
  "agent_moves i s = (let n = rs_agents s in case rs_pc s i of
      Top \<Rightarrow> [at_pc i (if rs_requested s then Enter else DriveOnce) s]
    | Enter \<Rightarrow> if rs_requested s then [] else [at_pc i Top s]
    | DriveOnce \<Rightarrow> [at_pc i (if rs_stopping s then Gone else NextOwn False) s]
    | NextOwn b \<Rightarrow> if 0 < rs_jobs s (Deque i) then [at_pc i InTask (take_job (Deque i) s)] else [at_pc i (NextInjected b) s]
    | NextInjected b \<Rightarrow> if 0 < rs_jobs s Injected then [at_pc i InTask (take_job Injected s)]
        else if 1 < n then map (\<lambda>st. at_pc i (NextSteal b st 0) s) [0..<n]
        else [at_pc i (if b then Top else Publish) s]
    | NextSteal b st k \<Rightarrow> if n \<le> k then [at_pc i (if b then Top else Publish) s]
        else (let v = (st + k) mod n in
          (if v \<noteq> i \<and> 0 < rs_jobs s (Deque v) then [at_pc i InTask (take_job (Deque v) s)] else []) @ [at_pc i (NextSteal b st (Suc k)) s])
    | InTask \<Rightarrow> [at_pc i AfterStep s, at_pc i AfterStep (add_job (Deque i) s), at_pc i AfterStep (add_job Injected s),
        at_pc i Surplus (add_job (Deque i) s), at_pc i Surplus (add_job Injected s), at_pc i StopRequest s]
    | Surplus \<Rightarrow> [at_pc i (if 1 < rs_jobs s (Deque i) then NotifyScan 0 else AfterStep) s]
    | NotifyScan k \<Rightarrow> if n \<le> k then [at_pc i AfterStep s]
        else if rs_slot s k = PARKED then [at_pc i (NotifyUnpark k) (set_slot k NOTIFIED s)]
        else [at_pc i (NotifyScan (Suc k)) s]
    | NotifyUnpark k \<Rightarrow> [at_pc i AfterStep (unpark_agent k s)]
    | AfterStep \<Rightarrow> [at_pc i (if rs_stopping s then Gone else if rs_requested s then Pass else NextOwn True) s]
    | Pass \<Rightarrow> if rs_requested s then [] else [at_pc i (NextOwn True) s]
    | Publish \<Rightarrow> if rs_slot s i = RUNNING then [at_pc i Recheck (set_slot i PARKED s)] else [at_pc i Consume s]
    | Consume \<Rightarrow> [at_pc i Top (set_slot i RUNNING s)]
    | Recheck \<Rightarrow> [at_pc i (if rs_stopping s then Undo else ScanInjected) s]
    | ScanInjected \<Rightarrow> [at_pc i (if 0 < rs_jobs s Injected then Undo else Scan 0) s]
    | Scan k \<Rightarrow> [at_pc i (if n \<le> k then Sleep else if 0 < rs_jobs s (Deque k) then Undo else Scan (Suc k)) s]
    | Undo \<Rightarrow> [at_pc i UndoStop (set_slot i RUNNING s)]
    | UndoStop \<Rightarrow> [at_pc i (if rs_stopping s then Gone else Top) s]
    | Sleep \<Rightarrow> [at_pc i (if rs_slot s i = PARKED then Blocked else Awake) s]
    | Blocked \<Rightarrow> []
    | Awake \<Rightarrow> [at_pc i AwakeStop (set_slot i RUNNING s)]
    | AwakeStop \<Rightarrow> [at_pc i (if rs_stopping s then Gone else Top) s]
    | Gone \<Rightarrow> []
    | StopRequest \<Rightarrow> if rs_requested s then [at_pc i InTask s] else [at_pc i (StopWake 0) (s\<lparr>rs_requested := True\<rparr>)]
    | StopWake k \<Rightarrow> if n \<le> k then [at_pc i StopAwait s] else [at_pc i (StopWake (Suc k)) (unpark_agent k s)]
    | StopAwait \<Rightarrow> if list_all (\<lambda>j. j = i \<or> rs_pc s j = Enter \<or> rs_pc s j = Pass) [0..<n] then [at_pc i StopCollect s]
        else if rs_stopping s then [at_pc i StopRelease s] else []
    | StopCollect \<Rightarrow> [at_pc i StopRelease s]
    | StopRelease \<Rightarrow> [at_pc i InTask (s\<lparr>rs_requested := False\<rparr>)])"

text \<open>A thread that submits a job: the push, then \<open>notify_one\<close>.\<close>

definition submit_moves :: "nat \<Rightarrow> run_sys \<Rightarrow> run_sys list" where
  "submit_moves p s = (let n = rs_agents s; to = (\<lambda>pc s. s\<lparr>rs_submit := (rs_submit s)(p := pc)\<rparr>) in case rs_submit s p of
      SIdle \<Rightarrow> map (\<lambda>q. to (SScan 0) (add_job q s)) (Injected # map Deque [0..<n])
    | SScan k \<Rightarrow> if n \<le> k then [to SIdle s]
        else if rs_slot s k = PARKED then [to (SUnpark k) (set_slot k NOTIFIED s)]
        else [to (SScan (Suc k)) s]
    | SUnpark k \<Rightarrow> [to SIdle (unpark_agent k s)])"

definition shut_moves :: "run_sys \<Rightarrow> run_sys list" where
  "shut_moves s = (let n = rs_agents s in case rs_shut s of
      ShIdle \<Rightarrow> [s\<lparr>rs_stopping := True, rs_shut := ShRelease\<rparr>]
    | ShRelease \<Rightarrow> [s\<lparr>rs_requested := False, rs_shut := ShStore 0\<rparr>]
    | ShStore k \<Rightarrow> if n \<le> k then [s\<lparr>rs_shut := ShDone\<rparr>] else [set_slot k NOTIFIED s\<lparr>rs_shut := ShUnpark k\<rparr>]
    | ShUnpark k \<Rightarrow> [unpark_agent k s\<lparr>rs_shut := ShStore (Suc k)\<rparr>]
    | ShDone \<Rightarrow> [])"

inductive run_reach :: "nat \<Rightarrow> run_sys \<Rightarrow> bool" for n where
  run_reach_start: "run_reach n (run_start n)"
| run_reach_agent: "run_reach n s \<Longrightarrow> i < n \<Longrightarrow> s' \<in> set (agent_moves i s) \<Longrightarrow> run_reach n s'"
| run_reach_submit: "run_reach n s \<Longrightarrow> s' \<in> set (submit_moves p s) \<Longrightarrow> run_reach n s'"
| run_reach_shut: "run_reach n s \<Longrightarrow> s' \<in> set (shut_moves s) \<Longrightarrow> run_reach n s'"

section \<open>The invariant\<close>

definition queues :: "nat \<Rightarrow> queue set" where
  "queues n = insert Injected (Deque ` {..<n})"

text \<open>An agent that will go to sleep without looking at a queue again.\<close>

fun past :: "queue \<Rightarrow> run_pc \<Rightarrow> bool" where
  "past q (Scan k) = (case q of Injected \<Rightarrow> True | Deque j \<Rightarrow> j < k)"
| "past q Sleep = True"
| "past q Blocked = True"
| "past q _ = False"

definition blind :: "queue \<Rightarrow> run_sys \<Rightarrow> nat \<Rightarrow> bool" where
  "blind q s i \<longleftrightarrow> rs_slot s i = PARKED \<and> past q (rs_pc s i)"

definition scanning :: "run_sys \<Rightarrow> bool" where
  "scanning s \<longleftrightarrow> (\<exists>p k. rs_submit s p = SScan k \<and> k < rs_agents s)"

definition work_seen :: "run_sys \<Rightarrow> bool" where
  "work_seen s \<longleftrightarrow> (\<forall>q\<in>queues (rs_agents s). 0 < rs_jobs s q \<longrightarrow> (\<exists>i<rs_agents s. \<not> blind q s i) \<or> scanning s)"

text \<open>Someone is about to wake the agent.\<close>

definition wake_pending :: "run_sys \<Rightarrow> nat \<Rightarrow> bool" where
  "wake_pending s i \<longleftrightarrow> (\<exists>p. rs_submit s p = SUnpark i) \<or> (\<exists>j<rs_agents s. rs_pc s j = NotifyUnpark i) \<or> rs_shut s = ShUnpark i"

definition wakes_come :: "run_sys \<Rightarrow> bool" where
  "wakes_come s \<longleftrightarrow> (\<forall>i<rs_agents s. rs_pc s i = Blocked \<and> rs_slot s i \<noteq> PARKED \<longrightarrow> wake_pending s i)"

text \<open>An agent that has looked at \<open>stopping\<close> and goes to sleep unless its slot changes.\<close>

fun committed :: "run_pc \<Rightarrow> bool" where
  "committed ScanInjected = True"
| "committed (Scan k) = True"
| "committed Sleep = True"
| "committed Blocked = True"
| "committed _ = False"

fun stored :: "shut_pc \<Rightarrow> nat \<Rightarrow> bool" where
  "stored (ShStore k) i = (i < k)"
| "stored (ShUnpark k) i = (i \<le> k)"
| "stored ShDone i = True"
| "stored _ i = False"

fun notified :: "shut_pc \<Rightarrow> nat \<Rightarrow> bool" where
  "notified (ShStore k) i = (i < k)"
| "notified (ShUnpark k) i = (i < k)"
| "notified ShDone i = True"
| "notified _ i = False"

definition shut_seen :: "run_sys \<Rightarrow> bool" where
  "shut_seen s \<longleftrightarrow> (rs_stopping s \<longleftrightarrow> rs_shut s \<noteq> ShIdle) \<and>
     (\<forall>i<rs_agents s. stored (rs_shut s) i \<and> committed (rs_pc s i) \<longrightarrow> rs_slot s i \<noteq> PARKED) \<and>
     (\<forall>i<rs_agents s. notified (rs_shut s) i \<longrightarrow> rs_pc s i \<noteq> Blocked)"

definition run_inv :: "nat \<Rightarrow> run_sys \<Rightarrow> bool" where
  "run_inv n s \<longleftrightarrow> rs_agents s = n \<and> work_seen s \<and> wakes_come s \<and> shut_seen s"

lemma run_inv_start: "run_inv n (run_start n)"
  by (simp add: run_inv_def run_start_def work_seen_def wakes_come_def shut_seen_def)

lemmas run_ops = at_pc_def set_slot_def add_job_def take_job_def unpark_agent_def

lemma run_ops_simps [simp]:
  "rs_agents (at_pc i pc s) = rs_agents s" "rs_jobs (at_pc i pc s) = rs_jobs s" "rs_slot (at_pc i pc s) = rs_slot s"
  "rs_pc (at_pc i pc s) = (rs_pc s)(i := pc)" "rs_submit (at_pc i pc s) = rs_submit s" "rs_shut (at_pc i pc s) = rs_shut s"
  "rs_stopping (at_pc i pc s) = rs_stopping s" "rs_requested (at_pc i pc s) = rs_requested s"
  "rs_agents (set_slot i v s) = rs_agents s" "rs_jobs (set_slot i v s) = rs_jobs s" "rs_slot (set_slot i v s) = (rs_slot s)(i := v)"
  "rs_pc (set_slot i v s) = rs_pc s" "rs_submit (set_slot i v s) = rs_submit s" "rs_shut (set_slot i v s) = rs_shut s"
  "rs_stopping (set_slot i v s) = rs_stopping s" "rs_requested (set_slot i v s) = rs_requested s"
  "rs_agents (add_job q s) = rs_agents s" "rs_jobs (add_job q s) = (rs_jobs s)(q := Suc (rs_jobs s q))" "rs_slot (add_job q s) = rs_slot s"
  "rs_pc (add_job q s) = rs_pc s" "rs_submit (add_job q s) = rs_submit s" "rs_shut (add_job q s) = rs_shut s"
  "rs_stopping (add_job q s) = rs_stopping s" "rs_requested (add_job q s) = rs_requested s"
  "rs_agents (take_job q s) = rs_agents s" "rs_jobs (take_job q s) = (rs_jobs s)(q := rs_jobs s q - 1)" "rs_slot (take_job q s) = rs_slot s"
  "rs_pc (take_job q s) = rs_pc s" "rs_submit (take_job q s) = rs_submit s" "rs_shut (take_job q s) = rs_shut s"
  "rs_stopping (take_job q s) = rs_stopping s" "rs_requested (take_job q s) = rs_requested s"
  "rs_agents (unpark_agent i s) = rs_agents s" "rs_jobs (unpark_agent i s) = rs_jobs s" "rs_slot (unpark_agent i s) = rs_slot s"
  "rs_pc (unpark_agent i s) = (rs_pc s)(i := if rs_pc s i = Blocked then Awake else rs_pc s i)"
  "rs_submit (unpark_agent i s) = rs_submit s" "rs_shut (unpark_agent i s) = rs_shut s"
  "rs_stopping (unpark_agent i s) = rs_stopping s" "rs_requested (unpark_agent i s) = rs_requested s"
  by (simp_all add: run_ops fun_upd_idem)

lemma wake_pending_step:
  assumes "wake_pending s j" and "rs_agents s' = rs_agents s" and "\<And>p. rs_submit s p = SUnpark j \<Longrightarrow> rs_submit s' p = SUnpark j"
    and "rs_shut s = ShUnpark j \<Longrightarrow> rs_shut s' = ShUnpark j" and "\<And>i. rs_pc s i = NotifyUnpark j \<Longrightarrow> rs_pc s' i = NotifyUnpark j"
  shows "wake_pending s' j"
  using assms unfolding wake_pending_def by metis

lemma wake_pending_mono:
  assumes "wake_pending s j" and "rs_agents s' = rs_agents s" "rs_submit s' = rs_submit s" "rs_shut s' = rs_shut s"
    and "\<And>i. rs_pc s i = NotifyUnpark j \<Longrightarrow> rs_pc s' i = NotifyUnpark j"
  shows "wake_pending s' j"
  using assms(1,2) by (rule wake_pending_step) (use assms in simp_all)

text \<open>A change that wakes agents at most, and adds no job.\<close>

lemma run_inv_wakes:
  assumes inv: "run_inv n s" and fr: "rs_agents s' = n" "rs_submit s' = rs_submit s" "rs_shut s' = rs_shut s" "rs_stopping s' = rs_stopping s"
    and jobs: "\<And>q. rs_jobs s' q \<le> rs_jobs s q"
    and pc: "\<And>j. j < n \<Longrightarrow> rs_pc s' j = rs_pc s j \<or> \<not> committed (rs_pc s' j)"
    and slot: "\<And>j. j < n \<Longrightarrow> rs_slot s' j = rs_slot s j \<or> rs_slot s' j \<noteq> PARKED \<and> (committed (rs_pc s' j) \<longrightarrow> rs_pc s' j \<noteq> Blocked \<or> wake_pending s' j)
      \<or> \<not> committed (rs_pc s' j)"
    and pend: "\<And>j. j < n \<Longrightarrow> wake_pending s j \<Longrightarrow> rs_pc s' j = Blocked \<Longrightarrow> wake_pending s' j"
  shows "run_inv n s'"
proof -
  have n: "rs_agents s = n" and w: "work_seen s" "wakes_come s" "shut_seen s" using inv by (auto simp: run_inv_def)
  have past: "past q pc \<Longrightarrow> committed pc" for q pc by (cases pc) auto
  have "\<not> blind q s j \<Longrightarrow> \<not> blind q s' j" if "j < n" for q j
    using pc [OF that] slot [OF that] past by (auto simp: blind_def)
  moreover have "scanning s' = scanning s" using fr n by (simp add: scanning_def)
  ultimately have "work_seen s'"
    using w(1) jobs unfolding work_seen_def n fr(1) by (metis less_le_trans)
  moreover have "wakes_come s'"
    using w(2) pc slot pend unfolding wakes_come_def n fr(1) by (metis committed.simps(4))
  moreover have "shut_seen s'"
    using w(3) pc slot unfolding shut_seen_def n fr by (metis committed.simps(4))
  ultimately show ?thesis using fr(1) by (simp add: run_inv_def)
qed

text \<open>An agent goes on looking, or goes to sleep.\<close>

lemma run_inv_looks:
  assumes inv: "run_inv n s" and i: "i < n" and from_pc: "committed (rs_pc s i) \<or> \<not> rs_stopping s \<and> \<not> committed (rs_pc s i)"
    and past: "\<And>q. q \<in> queues n \<Longrightarrow> 0 < rs_jobs s q \<Longrightarrow> past q pc \<Longrightarrow> past q (rs_pc s i)"
    and block: "pc = Blocked \<Longrightarrow> rs_slot s i = PARKED" and nopend: "\<And>j. rs_pc s i \<noteq> NotifyUnpark j"
  shows "run_inv n (at_pc i pc s)"
proof -
  have n: "rs_agents s = n" and w: "work_seen s" "wakes_come s" "shut_seen s" using inv by (auto simp: run_inv_def)
  have "\<exists>j<n. \<not> blind q (at_pc i pc s) j" if "q \<in> queues n" "0 < rs_jobs s q" "\<exists>j<n. \<not> blind q s j" for q
  proof -
    obtain j where "j < n" "\<not> blind q s j" using \<open>\<exists>j<n. \<not> blind q s j\<close> by blast
    then show ?thesis using past [OF that(1,2)] by (intro exI [of _ j]) (auto simp: blind_def)
  qed
  moreover have "scanning (at_pc i pc s) = scanning s" by (simp add: scanning_def)
  ultimately have "work_seen (at_pc i pc s)" using w(1) unfolding work_seen_def by (simp add: n) blast
  moreover have pend: "wake_pending (at_pc i pc s) j" if "wake_pending s j" for j
    using that by (rule wake_pending_mono) (use nopend in auto)
  have "wakes_come (at_pc i pc s)" using w(2) block pend unfolding wakes_come_def by (auto simp: n)
  moreover have "stored (rs_shut s) j" if "notified (rs_shut s) j" for j using that by (cases "rs_shut s") auto
  then have "shut_seen (at_pc i pc s)"
    using w(3) from_pc block i unfolding shut_seen_def by (auto simp: n)
  ultimately show ?thesis by (simp add: run_inv_def n)
qed

text \<open>A job comes in by way of an agent that is not asleep, or a submitter that will look for one.\<close>

lemma run_inv_adds:
  assumes inv: "run_inv n s" and i: "i < n" "\<not> committed (rs_pc s i)"
  shows "run_inv n (add_job q s)"
proof -
  have "past q' pc \<Longrightarrow> committed pc" for q' pc by (cases pc) auto
  then have "\<not> blind q' s i" for q' using i(2) by (auto simp: blind_def)
  then show ?thesis
    using inv i(1) by (auto simp: run_inv_def work_seen_def blind_def scanning_def wakes_come_def wake_pending_def shut_seen_def)
qed

lemma agent_step_plain:
  assumes inv: "run_inv n s" and i: "i < n" and pc: "\<not> committed pc" and nopend: "\<And>j. rs_pc s i = NotifyUnpark j \<Longrightarrow> rs_pc s j \<noteq> Blocked"
  shows "run_inv n (at_pc i pc s)"
proof (rule run_inv_wakes [OF inv])
  show "rs_agents (at_pc i pc s) = n" using inv by (simp add: run_inv_def)
  fix j assume j: "j < n" "wake_pending s j" "rs_pc (at_pc i pc s) j = Blocked"
  then have "rs_pc s i \<noteq> NotifyUnpark j" using nopend pc by (auto split: if_splits)
  then show "wake_pending (at_pc i pc s) j" by (intro wake_pending_mono [OF j(2)]) auto
qed (use pc in auto)

lemma run_inv_take: "run_inv n s \<Longrightarrow> run_inv n (take_job q s)"
  by (rule run_inv_wakes) (auto simp: run_inv_def wake_pending_def)

lemma run_inv_requested: "run_inv n s \<Longrightarrow> run_inv n (s\<lparr>rs_requested := b\<rparr>)"
  by (rule run_inv_wakes) (auto simp: run_inv_def wake_pending_def)

text \<open>The slot of an agent that is not asleep changes.\<close>

lemma run_inv_slot:
  assumes inv: "run_inv n s" and i: "i < n" "\<not> committed (rs_pc s i)"
  shows "run_inv n (set_slot i v s)"
  by (rule run_inv_wakes [OF inv]) (use inv i in \<open>auto simp: run_inv_def wake_pending_def\<close>)

lemma run_inv_unpark:
  assumes "run_inv n s"
  shows "run_inv n (unpark_agent k s)"
proof (rule run_inv_wakes [OF assms])
  fix j assume "wake_pending s j"
  then show "wake_pending (unpark_agent k s) j" by (rule wake_pending_mono) auto
qed (use assms in \<open>auto simp: run_inv_def\<close>)

lemma agent_keeps:
  assumes inv: "run_inv n s" and i: "i < n" and step: "s' \<in> set (agent_moves i s)"
  shows "run_inv n s'"
proof -
  have n: "rs_agents s = n" using inv by (simp add: run_inv_def)
  note plain = agent_step_plain [OF _ i]
  show ?thesis
  proof (cases "rs_pc s i")
    case Recheck
    show ?thesis
    proof (cases "rs_stopping s")
      case True
      then show ?thesis using step Recheck by (auto simp: agent_moves_def intro!: plain [OF inv])
    next
      case False
      then show ?thesis using step Recheck by (auto simp: agent_moves_def intro!: run_inv_looks [OF inv i])
    qed
  next
    case ScanInjected
    show ?thesis
    proof (cases "rs_jobs s Injected")
      case 0
      then show ?thesis using step ScanInjected
        by (auto simp: agent_moves_def queues_def intro!: run_inv_looks [OF inv i])
    next
      case (Suc m)
      then show ?thesis using step ScanInjected by (auto simp: agent_moves_def intro!: plain [OF inv])
    qed
  next
    case (Scan k)
    show ?thesis
    proof (cases "k < n \<and> 0 < rs_jobs s (Deque k)")
      case True
      then show ?thesis using step Scan by (auto simp: agent_moves_def n intro!: plain [OF inv])
    next
      case False
      then show ?thesis using step Scan
        by (auto simp: agent_moves_def n queues_def less_Suc_eq split: if_splits intro!: run_inv_looks [OF inv i])
    qed
  next
    case Sleep
    show ?thesis
    proof (cases "rs_slot s i = PARKED")
      case True
      then show ?thesis using step Sleep by (auto simp: agent_moves_def intro!: run_inv_looks [OF inv i])
    next
      case False
      then show ?thesis using step Sleep by (auto simp: agent_moves_def intro!: plain [OF inv])
    qed
  next
    case InTask
    show ?thesis using step InTask by (auto simp: agent_moves_def n intro!: plain inv run_inv_adds [OF inv i])
  next
    case (NotifyScan k)
    have "run_inv n (at_pc i (NotifyUnpark k) (set_slot k NOTIFIED s))" if "k < n"
    proof (rule run_inv_wakes [OF inv])
      fix j assume "wake_pending s j"
      then show "wake_pending (at_pc i (NotifyUnpark k) (set_slot k NOTIFIED s)) j"
        by (rule wake_pending_mono) (auto simp: NotifyScan)
    qed (use n i in \<open>auto simp: wake_pending_def NOTIFIED_def PARKED_def\<close>)
    then show ?thesis using step NotifyScan by (auto simp: agent_moves_def n intro!: plain inv split: if_splits)
  next
    case (NotifyUnpark k)
    have "run_inv n (at_pc i AfterStep (unpark_agent k s))"
      by (rule plain) (use run_inv_unpark [OF inv] NotifyUnpark in \<open>auto split: if_splits\<close>)
    then show ?thesis using step NotifyUnpark by (simp add: agent_moves_def n)
  next
    case Publish
    show ?thesis using step Publish by (auto simp: agent_moves_def n intro!: plain inv run_inv_slot [OF inv i] split: if_splits)
  qed (use step in \<open>auto simp: agent_moves_def n Let_def intro!: plain inv run_inv_slot [OF inv i] run_inv_take [OF inv]
      run_inv_requested [OF inv] run_inv_unpark [OF inv] split: if_splits\<close>)
qed

lemma submit_keeps:
  assumes inv: "run_inv n s" and agents: "0 < n" and step: "s' \<in> set (submit_moves p s)"
  shows "run_inv n s'"
proof -
  have n: "rs_agents s = n" and w: "work_seen s" "wakes_come s" "shut_seen s" using inv by (auto simp: run_inv_def)
  show ?thesis
  proof (cases "rs_submit s p")
    case SIdle
    let ?t = "\<lambda>q. add_job q s\<lparr>rs_submit := (rs_submit s)(p := SScan 0)\<rparr>"
    have "scanning (?t q)" for q using agents by (auto simp: scanning_def n)
    moreover have "wake_pending (?t q) i" if "wake_pending s i" for q i
      using that SIdle unfolding wake_pending_def by simp (metis submit_pc.distinct(3))
    ultimately have "run_inv n (?t q)" for q
      using w(2,3) by (auto simp: run_inv_def work_seen_def wakes_come_def shut_seen_def n)
    then show ?thesis using step SIdle by (auto simp: submit_moves_def n)
  next
    case (SScan k)
    let ?t = "\<lambda>pc s. s\<lparr>rs_submit := (rs_submit s)(p := pc)\<rparr>"
    have idle: "wake_pending (?t pc s) i" if "wake_pending s i" for pc i
      using that SScan unfolding wake_pending_def by simp (metis submit_pc.distinct(5))
    consider "n \<le> k" | "k < n" "rs_slot s k = PARKED" | "k < n" "rs_slot s k \<noteq> PARKED" by linarith
    then show ?thesis
    proof cases
      case 1
      have "scanning (?t SIdle s)" if "scanning s"
        using that 1 SScan unfolding scanning_def by (simp add: n) (metis leD submit_pc.inject(1))
      then have "run_inv n (?t SIdle s)"
        using w idle [of _ SIdle] by (auto simp: run_inv_def work_seen_def wakes_come_def shut_seen_def blind_def n)
      then show ?thesis using step SScan 1 by (simp add: submit_moves_def n)
    next
      case 2
      let ?u = "?t (SUnpark k) (set_slot k NOTIFIED s)"
      have "\<not> blind q ?u k" for q by (simp add: blind_def NOTIFIED_def PARKED_def)
      moreover have "wake_pending ?u i" if "wake_pending s i \<or> i = k" for i
        using that SScan unfolding wake_pending_def by simp (metis submit_pc.distinct(5))
      ultimately have "run_inv n ?u"
        using w 2(1) by (auto simp: run_inv_def work_seen_def wakes_come_def shut_seen_def n NOTIFIED_def PARKED_def split: if_splits)
      then show ?thesis using step SScan 2 by (simp add: submit_moves_def n)
    next
      case 3
      then have "\<not> blind q (?t (SScan (Suc k)) s) k" for q by (simp add: blind_def)
      then have "run_inv n (?t (SScan (Suc k)) s)"
        using w 3(1) idle [of _ "SScan (Suc k)"] by (auto simp: run_inv_def work_seen_def wakes_come_def shut_seen_def n)
      then show ?thesis using step SScan 3 by (simp add: submit_moves_def n)
    qed
  next
    case (SUnpark k)
    let ?u = "unpark_agent k s\<lparr>rs_submit := (rs_submit s)(p := SIdle)\<rparr>"
    have "scanning ?u" if "scanning s"
      using that SUnpark unfolding scanning_def by simp (metis submit_pc.distinct(5))
    moreover have "\<not> blind q ?u i" if "\<not> blind q s i" for q i using that by (auto simp: blind_def)
    moreover have "wake_pending ?u i" if "wake_pending s i" "rs_pc ?u i = Blocked" for i
      using that(1) by (rule wake_pending_step) (use that(2) SUnpark in \<open>auto split: if_splits\<close>)
    ultimately have "run_inv n ?u"
      using w by (auto simp: run_inv_def work_seen_def wakes_come_def shut_seen_def n split: if_splits) blast+
    then show ?thesis using step SUnpark by (simp add: submit_moves_def)
  qed
qed

lemma shut_keeps:
  assumes inv: "run_inv n s" and step: "s' \<in> set (shut_moves s)"
  shows "run_inv n s'"
proof -
  have n: "rs_agents s = n" and w: "work_seen s" "wakes_come s" "shut_seen s" using inv by (auto simp: run_inv_def)
  have fr: "rs_agents s' = n" "rs_jobs s' = rs_jobs s" "rs_submit s' = rs_submit s"
    using step n unfolding shut_moves_def Let_def by (cases "rs_shut s"; auto split: if_splits)+
  have "blind q s i" if "blind q s' i" for q i
    using that step unfolding blind_def shut_moves_def Let_def
    by (cases "rs_shut s") (auto simp: NOTIFIED_def PARKED_def split: if_splits)
  then have "work_seen s'" using w(1) unfolding work_seen_def scanning_def fr n by blast
  moreover have wake: "wake_pending s' i" if "wake_pending s i" "rs_pc s' i = Blocked" for i
    using that(1) by (rule wake_pending_step)
      (use that(2) step fr n in \<open>cases "rs_shut s"; auto simp: shut_moves_def split: if_splits\<close>)+
  moreover have "wake_pending s' i" if "rs_slot s' i \<noteq> rs_slot s i" for i
    using that step unfolding shut_moves_def wake_pending_def Let_def by (cases "rs_shut s") (auto split: if_splits)
  moreover have "rs_pc s i = Blocked" if "rs_pc s' i = Blocked" for i
    using that step unfolding shut_moves_def Let_def by (cases "rs_shut s") (auto split: if_splits)
  ultimately have "wakes_come s'" "work_seen s'" using w(2) unfolding wakes_come_def fr n by metis+
  moreover have "shut_seen s'"
    using w(3) step unfolding shut_seen_def shut_moves_def Let_def
    by (cases "rs_shut s") (auto simp: NOTIFIED_def PARKED_def less_Suc_eq split: if_splits)
  ultimately show ?thesis by (simp add: run_inv_def fr)
qed

lemma run_reach_inv: "run_reach n s \<Longrightarrow> 0 < n \<Longrightarrow> run_inv n s"
  by (induction rule: run_reach.induct) (auto intro: run_inv_start agent_keeps submit_keeps shut_keeps)

section \<open>Properties\<close>

text \<open>A run given by who moves, and which of the possible moves it makes.\<close>

datatype run_actor = Agent nat | Submitter | Stopper

fun run_choose :: "run_sys \<Rightarrow> (run_actor \<times> nat) list \<Rightarrow> run_sys option" where
  "run_choose s [] = Some s"
| "run_choose s ((a, m) # ms) = (let next = (case a of Agent i \<Rightarrow> if i < rs_agents s then agent_moves i s else [] | Submitter \<Rightarrow> submit_moves 0 s | Stopper \<Rightarrow> shut_moves s) in
     if m < List.length next then run_choose (next ! m) ms else None)"

lemma run_choose_reach:
  assumes "run_choose s ms = Some s'" and "run_reach n s" and "rs_agents s = n"
  shows "run_reach n s'"
  using assms
proof (induction s ms rule: run_choose.induct)
  case (2 s a m ms)
  have moves: "run_reach n t \<and> rs_agents t = n" if "t \<in> set (case a of Agent i \<Rightarrow> if i < rs_agents s then agent_moves i s else [] | Submitter \<Rightarrow> submit_moves 0 s | Stopper \<Rightarrow> shut_moves s)" for t
  proof -
    have "rs_agents t = n" if "t \<in> set (agent_moves i s)" for i
      using that 2(4) unfolding agent_moves_def Let_def by (cases "rs_pc s i") (auto split: if_splits)
    moreover have "rs_agents t = n" if "t \<in> set (submit_moves 0 s)"
      using that 2(4) unfolding submit_moves_def Let_def by (cases "rs_submit s 0") (auto split: if_splits)
    moreover have "rs_agents t = n" if "t \<in> set (shut_moves s)"
      using that 2(4) unfolding shut_moves_def Let_def by (cases "rs_shut s") (auto split: if_splits)
    ultimately show ?thesis
      using that 2(3,4) by (auto split: run_actor.splits if_splits intro: run_reach.intros)
  qed
  then show ?case using 2 by (auto simp: Let_def split: if_splits)
qed simp

definition park_path :: "(run_actor \<times> nat) list" where
  "park_path = (Submitter, 0) # replicate 4 (Agent 0, 0) @ replicate 2 (Submitter, 0) @ replicate 14 (Agent 0, 0)"

definition lost_path :: "(run_actor \<times> nat) list" where
  "lost_path = (Submitter, 0) # replicate 4 (Agent 0, 0) @ replicate 3 (Submitter, 0) @ replicate 13 (Agent 1, 0)
     @ [(Agent 0, 5)] @ replicate 4 (Agent 0, 0) @ [(Agent 1, 0)]"

lemmas run_eval = run_start_def agent_moves_def submit_moves_def shut_moves_def run_ops Let_def numeral_eq_Suc RUNNING_def PARKED_def NOTIFIED_def

lemma park_path_runs:
  "\<exists>s. run_choose (run_start 1) park_path = Some s \<and> rs_pc s 0 = Blocked \<and> (\<forall>p. rs_submit s p = SIdle) \<and> rs_shut s = ShIdle"
  by (simp add: park_path_def run_eval)

lemma lost_path_runs:
  "\<exists>s. run_choose (run_start 2) lost_path = Some s \<and> rs_pc s 0 = StopAwait \<and> rs_pc s 1 = Blocked \<and> rs_slot s 1 = PARKED
     \<and> rs_requested s \<and> \<not> rs_stopping s \<and> (\<forall>p. rs_submit s p = SIdle) \<and> rs_agents s = 2"
  by (simp add: lost_path_def run_eval upt_rec)

text \<open>
  C5: No wakeup is lost. Whatever the interleaving of the agents' loops and of submissions, as long as no shutdown has
  begun: when every agent waits in \<open>park\<close> and no submission is under way, no job is left in a queue. A shutdown that
  has begun abandons what is queued, but however it interleaves with the rest, once it has returned no agent waits in
  \<open>park\<close>.
\<close>

theorem run_loses_no_wakeup:
  assumes "run_reach n s" and "0 < n"
  shows "((\<forall>i<n. rs_pc s i = Blocked) \<and> (\<forall>p. rs_submit s p = SIdle) \<and> rs_shut s = ShIdle \<longrightarrow> (\<forall>q\<in>queues n. rs_jobs s q = 0))
    \<and> (rs_shut s = ShDone \<longrightarrow> (\<forall>i<n. rs_pc s i \<noteq> Blocked))"
proof (intro conjI impI)
  have inv: "rs_agents s = n" "work_seen s" "wakes_come s" "shut_seen s"
    using run_reach_inv [OF assms] by (auto simp: run_inv_def)
  show "\<forall>i<n. rs_pc s i \<noteq> Blocked" if "rs_shut s = ShDone" using inv(1,4) that by (simp add: shut_seen_def)
  show "\<forall>q\<in>queues n. rs_jobs s q = 0"
    if idle: "(\<forall>i<n. rs_pc s i = Blocked) \<and> (\<forall>p. rs_submit s p = SIdle) \<and> rs_shut s = ShIdle"
  proof -
    have "\<not> wake_pending s i" for i using idle by (simp add: wake_pending_def inv(1))
    then have "blind q s i" if "i < n" for q i using idle inv(1,3) that by (auto simp: blind_def wakes_come_def)
    moreover have "\<not> scanning s" using idle by (simp add: scanning_def)
    ultimately show ?thesis using inv(1,2) unfolding work_seen_def by auto
  qed
qed

text \<open>One agent runs a job and goes to sleep.\<close>

theorem run_loses_no_wakeup_witness:
  "\<exists>s. run_reach 1 s \<and> rs_pc s 0 = Blocked \<and> rs_jobs s Injected = 0 \<and> rs_jobs s (Deque 0) = 0"
proof -
  obtain s where s: "run_choose (run_start 1) park_path = Some s" "rs_pc s 0 = Blocked" "\<forall>p. rs_submit s p = SIdle" "rs_shut s = ShIdle"
    using park_path_runs by blast
  have "run_reach 1 s" by (rule run_choose_reach [OF s(1) run_reach_start]) (simp add: run_start_def)
  then show ?thesis using run_loses_no_wakeup [of 1 s] s by (auto simp: queues_def)
qed

text \<open>
  C23: The same does not hold of a stop. An agent that looked at \<open>requested\<close> before the stop was asked for and enters
  \<open>park\<close> after \<open>unpark_all\<close> was called goes to sleep: its recheck after publishing \<open>PARKED\<close> looks at \<open>stopping\<close> and the
  queues and not at the stop, and \<open>unpark_all\<close> leaves its slot as it is. The requester waits for it, and until
  somebody submits a job or shuts down neither moves, although the backend wakes whoever it is asked to.
\<close>

theorem safepoint_wake_lost:
  "\<exists>s. run_reach 2 s \<and> rs_pc s 0 = StopAwait \<and> rs_pc s 1 = Blocked \<and> rs_slot s 1 = PARKED \<and> rs_requested s \<and> \<not> rs_stopping s
     \<and> (\<forall>p. rs_submit s p = SIdle) \<and> agent_moves 0 s = [] \<and> agent_moves 1 s = []"
proof -
  obtain s where s: "run_choose (run_start 2) lost_path = Some s" "rs_pc s 0 = StopAwait" "rs_pc s 1 = Blocked" "rs_slot s 1 = PARKED"
    "rs_requested s" "\<not> rs_stopping s" "\<forall>p. rs_submit s p = SIdle" "rs_agents s = 2"
    using lost_path_runs by blast
  have "run_reach 2 s" by (rule run_choose_reach [OF s(1) run_reach_start]) (simp add: run_start_def)
  then show ?thesis using s by (intro exI [of _ s]) (simp add: agent_moves_def numeral_eq_Suc)
qed

end
