(* ===== verification/Krio_Cfg.thy ===== *)
theory Krio_Cfg
  imports Krio_Core
begin

text \<open>
  \<open>crates/krio-stackless/src/cfg.rs\<close>: what the transforms ask of a host's control-flow graph. A
  host's implementation of the trait \<open>CoroCfg\<close> is a value of the record \<open>coro_cfg\<close>, one field per
  method, over the host's bodies \<open>'c\<close>, block identities \<open>'b\<close> and locals \<open>'l\<close>; \<open>coro_hooks\<close> is
  \<open>CoroHooks\<close>. A method that may panic has its result in an option. The contract the transforms
  rely on is the locale \<open>split_cfg\<close>.

  \<open>toy_body\<close> is the implementation of \<open>crates/krio-stackless/tests/toy_adapter.rs\<close>, the one
  implementation the repository has of every method; it satisfies the contract.
\<close>

section \<open>The trait\<close>

record ('c, 'b, 'l) coro_cfg =
  block_count :: "'c \<Rightarrow> nat"
  statement_count :: "'c \<Rightarrow> 'b \<Rightarrow> nat option"
  block_ids :: "'c \<Rightarrow> 'b list"
  successors :: "'c \<Rightarrow> 'b \<Rightarrow> 'b list option"
  new_block :: "'c \<Rightarrow> 'b \<times> 'c"
  new_state_local :: "'c \<Rightarrow> 'l \<times> 'c"
  new_bool_local :: "'c \<Rightarrow> 'l \<times> 'c"
  new_mut_bool_local :: "'c \<Rightarrow> 'l \<times> 'c"
  emit_assign_i64 :: "'b \<Rightarrow> 'l \<Rightarrow> int \<Rightarrow> 'c \<Rightarrow> 'c option"
  emit_assign_bool :: "'b \<Rightarrow> 'l \<Rightarrow> bool \<Rightarrow> 'c \<Rightarrow> 'c option"
  emit_eq_check_i64 :: "'b \<Rightarrow> 'l \<Rightarrow> 'l \<Rightarrow> int \<Rightarrow> 'c \<Rightarrow> 'c option"
  replace_with_nop :: "'b \<Rightarrow> nat \<Rightarrow> 'c \<Rightarrow> 'c option"
  split_after :: "'b \<Rightarrow> nat \<Rightarrow> 'c \<Rightarrow> ('b \<times> 'c) option"
  prepend_assign_i64 :: "'b \<Rightarrow> 'l \<Rightarrow> int \<Rightarrow> 'c \<Rightarrow> 'c option"
  set_goto :: "'b \<Rightarrow> 'b \<Rightarrow> 'c \<Rightarrow> 'c option"
  set_branch :: "'b \<Rightarrow> 'l \<Rightarrow> 'b \<Rightarrow> 'b \<Rightarrow> 'c \<Rightarrow> 'c option"
  set_switch :: "'b \<Rightarrow> 'l \<Rightarrow> (int \<times> 'b) list \<Rightarrow> 'b \<Rightarrow> 'c \<Rightarrow> 'c option"
  redirect_targets :: "'b \<Rightarrow> 'b \<Rightarrow> 'b \<Rightarrow> 'c \<Rightarrow> 'c option"
  emit_deadlock :: "'b \<Rightarrow> 'c \<Rightarrow> (bool \<times> 'c) option"

record ('c, 'b, 'l) coro_hooks =
  classify_marker :: "'c \<Rightarrow> 'b \<Rightarrow> nat \<Rightarrow> marker option option"
  emit_guarded_recv_peek :: "'b \<Rightarrow> nat \<Rightarrow> 'b \<Rightarrow> 'c \<Rightarrow> ('l \<times> 'c) option"
  coroutine_priority :: "'c \<Rightarrow> 'b \<Rightarrow> nat \<Rightarrow> u32 option"

text \<open>The default methods.\<close>

definition default_emit_deadlock :: "'b \<Rightarrow> 'c \<Rightarrow> (bool \<times> 'c) option" where
  "default_emit_deadlock bb c = Some (False, c)"

definition default_coroutine_priority :: "'c \<Rightarrow> 'b \<Rightarrow> nat \<Rightarrow> u32 option" where
  "default_coroutine_priority c bb idx = None"

section \<open>The contract of block splitting\<close>

text \<open>
  A body has blocks, a block has statements. \<open>split_after\<close> moves the statements after an index into
  a block that did not exist before, \<open>new_block\<close> makes an empty one, and neither touches another
  block. \<open>room\<close> is the number of blocks the identity type can still name.
\<close>

locale split_cfg =
  fixes cfg :: "('c, 'b::linorder, 'l) coro_cfg"
    and code :: "'c \<Rightarrow> 'b \<Rightarrow> 's list"
    and ok :: "'c \<Rightarrow> bool"
    and room :: "'c \<Rightarrow> nat"
  assumes ids_distinct: "ok c \<Longrightarrow> distinct (block_ids cfg c)"
    and count_code: "ok c \<Longrightarrow> b \<in> set (block_ids cfg c) \<Longrightarrow> statement_count cfg c b = Some (length (code c b))"
    and split_code: "ok c \<Longrightarrow> 0 < room c \<Longrightarrow> b \<in> set (block_ids cfg c) \<Longrightarrow> i < length (code c b) \<Longrightarrow>
      \<exists>r c'. split_after cfg b i c = Some (r, c') \<and> ok c' \<and> Suc (room c') = room c \<and>
        r \<notin> set (block_ids cfg c) \<and> set (block_ids cfg c') = insert r (set (block_ids cfg c)) \<and>
        code c' b = take (Suc i) (code c b) \<and> code c' r = drop (Suc i) (code c b) \<and>
        (\<forall>x\<in>set (block_ids cfg c). x \<noteq> b \<longrightarrow> code c' x = code c x)"
    and new_code: "ok c \<Longrightarrow> 0 < room c \<Longrightarrow>
      \<exists>r c'. new_block cfg c = (r, c') \<and> ok c' \<and> Suc (room c') = room c \<and>
        r \<notin> set (block_ids cfg c) \<and> set (block_ids cfg c') = insert r (set (block_ids cfg c)) \<and>
        code c' r = [] \<and> (\<forall>x\<in>set (block_ids cfg c). code c' x = code c x)"

section \<open>The toy body\<close>

type_synonym toy_block_id = u32
type_synonym toy_local_id = u32

datatype local_ty = I64Mut | LBool | BoolMut

datatype toy_stmt =
    TMarker marker
  | User string
  | AssignI64 toy_local_id int
  | AssignBool toy_local_id bool
  | EqCheckI64 toy_local_id toy_local_id int
  | Nop

datatype toy_term =
    Unreachable
  | Goto toy_block_id
  | Branch toy_local_id toy_block_id toy_block_id
  | Switch toy_local_id "(int \<times> toy_block_id) list" toy_block_id
  | Return

record toy_body =
  tb_blocks :: "(toy_stmt list \<times> toy_term) list"
  tb_locals :: "local_ty list"

definition toy_new :: toy_body where
  "toy_new = \<lparr>tb_blocks = [], tb_locals = []\<rparr>"

definition toy_push_block :: "toy_stmt list \<Rightarrow> toy_term \<Rightarrow> toy_body \<Rightarrow> toy_block_id \<times> toy_body" where
  "toy_push_block stmts term c = (of_nat (length (tb_blocks c)), c\<lparr>tb_blocks := tb_blocks c @ [(stmts, term)]\<rparr>)"

definition toy_block :: "toy_body \<Rightarrow> toy_block_id \<Rightarrow> (toy_stmt list \<times> toy_term) option" where
  "toy_block c bb = get_nth (unat bb) (tb_blocks c)"

text \<open>\<open>self.blocks[bb].0\<close> and \<open>.1\<close> changed in place.\<close>

definition toy_stmts :: "(toy_stmt list \<Rightarrow> toy_stmt list option) \<Rightarrow> toy_block_id \<Rightarrow> toy_body \<Rightarrow> toy_body option" where
  "toy_stmts f bb c = do {
     (stmts, term) \<leftarrow> toy_block c bb;
     stmts' \<leftarrow> f stmts;
     Some (c\<lparr>tb_blocks := (tb_blocks c)[unat bb := (stmts', term)]\<rparr>) }"

definition toy_term :: "(toy_term \<Rightarrow> toy_term) \<Rightarrow> toy_block_id \<Rightarrow> toy_body \<Rightarrow> toy_body option" where
  "toy_term f bb c = do {
     (stmts, term) \<leftarrow> toy_block c bb;
     Some (c\<lparr>tb_blocks := (tb_blocks c)[unat bb := (stmts, f term)]\<rparr>) }"

definition toy_new_local :: "local_ty \<Rightarrow> toy_body \<Rightarrow> toy_local_id \<times> toy_body" where
  "toy_new_local ty c = (of_nat (length (tb_locals c)), c\<lparr>tb_locals := tb_locals c @ [ty]\<rparr>)"

definition toy_split_after :: "toy_block_id \<Rightarrow> nat \<Rightarrow> toy_body \<Rightarrow> (toy_block_id \<times> toy_body) option" where
  "toy_split_after src idx c = do {
     (stmts, term) \<leftarrow> toy_block c src;
     if idx + 1 \<le> length stmts
     then Some (toy_push_block (drop (idx + 1) stmts) term
       (c\<lparr>tb_blocks := (tb_blocks c)[unat src := (take (idx + 1) stmts, Unreachable)]\<rparr>))
     else None }"

fun term_targets :: "toy_term \<Rightarrow> toy_block_id list" where
  "term_targets Unreachable = []"
| "term_targets Return = []"
| "term_targets (Goto t) = [t]"
| "term_targets (Branch cond t f) = [t, f]"
| "term_targets (Switch discr targets otherwise) = map snd targets @ [otherwise]"

fun term_redirect :: "toy_block_id \<Rightarrow> toy_block_id \<Rightarrow> toy_term \<Rightarrow> toy_term" where
  "term_redirect from to (Goto t) = Goto (if t = from then to else t)"
| "term_redirect from to (Branch cond t f) =
     Branch cond (if t = from then to else t) (if f = from then to else f)"
| "term_redirect from to (Switch discr targets otherwise) =
     Switch discr (map (\<lambda>(v, b). (v, if b = from then to else b)) targets) (if otherwise = from then to else otherwise)"
| "term_redirect from to t = t"

definition toy_cfg :: "(toy_body, toy_block_id, toy_local_id) coro_cfg" where
  "toy_cfg = \<lparr>
     block_count = \<lambda>c. length (tb_blocks c),
     statement_count = \<lambda>c bb. map_option (\<lambda>(stmts, term). length stmts) (toy_block c bb),
     block_ids = \<lambda>c. map of_nat [0..<length (tb_blocks c)],
     successors = \<lambda>c bb. map_option (\<lambda>(stmts, term). term_targets term) (toy_block c bb),
     new_block = toy_push_block [] Unreachable,
     new_state_local = toy_new_local I64Mut,
     new_bool_local = toy_new_local LBool,
     new_mut_bool_local = toy_new_local BoolMut,
     emit_assign_i64 = \<lambda>bb l v. toy_stmts (\<lambda>stmts. Some (stmts @ [AssignI64 l v])) bb,
     emit_assign_bool = \<lambda>bb l v. toy_stmts (\<lambda>stmts. Some (stmts @ [AssignBool l v])) bb,
     emit_eq_check_i64 = \<lambda>bb d l r. toy_stmts (\<lambda>stmts. Some (stmts @ [EqCheckI64 d l r])) bb,
     replace_with_nop = \<lambda>bb idx. toy_stmts (set_nth idx Nop) bb,
     split_after = toy_split_after,
     prepend_assign_i64 = \<lambda>bb l v. toy_stmts (\<lambda>stmts. Some (AssignI64 l v # stmts)) bb,
     set_goto = \<lambda>bb t. toy_term (\<lambda>_. Goto t) bb,
     set_branch = \<lambda>bb cond t f. toy_term (\<lambda>_. Branch cond t f) bb,
     set_switch = \<lambda>bb discr targets otherwise. toy_term (\<lambda>_. Switch discr targets otherwise) bb,
     redirect_targets = \<lambda>bb from to. toy_term (term_redirect from to) bb,
     emit_deadlock = default_emit_deadlock\<rparr>"

definition toy_classify :: "toy_body \<Rightarrow> toy_block_id \<Rightarrow> nat \<Rightarrow> marker option option" where
  "toy_classify c bb idx = do {
     (stmts, term) \<leftarrow> toy_block c bb;
     stmt \<leftarrow> get_nth idx stmts;
     Some (case stmt of TMarker m \<Rightarrow> Some m | _ \<Rightarrow> None) }"

definition toy_hooks :: "(toy_body, toy_block_id, toy_local_id) coro_hooks" where
  "toy_hooks = \<lparr>classify_marker = toy_classify, emit_guarded_recv_peek = \<lambda>bb idx resume c. None,
     coroutine_priority = default_coroutine_priority\<rparr>"

section \<open>The toy body keeps the contract\<close>

definition toy_code :: "toy_body \<Rightarrow> toy_block_id \<Rightarrow> toy_stmt list" where
  "toy_code c bb = fst (tb_blocks c ! unat bb)"

definition toy_ok :: "toy_body \<Rightarrow> bool" where
  "toy_ok c \<longleftrightarrow> length (tb_blocks c) \<le> 2 ^ 32"

definition toy_room :: "toy_body \<Rightarrow> nat" where
  "toy_room c = 2 ^ 32 - length (tb_blocks c)"

lemma unat_of_nat_u32: "i < 2 ^ 32 \<Longrightarrow> unat (of_nat i :: u32) = i"
  by (simp add: unat_of_nat)

lemma u32_of_unat [simp]: "(of_nat (unat b) :: u32) = b"
  by simp

lemma of_nat_u32_eq: "i < 2 ^ 32 \<Longrightarrow> of_nat i = (b :: u32) \<longleftrightarrow> i = unat b"
  using unat_of_nat_u32 [of i] by (metis u32_of_unat)

lemma unat_u32_inj: "unat x = unat (b :: u32) \<longleftrightarrow> x = b"
  by (metis u32_of_unat)

lemma toy_ids: "toy_ok c \<Longrightarrow> b \<in> set (block_ids toy_cfg c) \<longleftrightarrow> unat b < length (tb_blocks c)"
proof -
  assume "toy_ok c"
  then have "i < 2 ^ 32" if "i < length (tb_blocks c)" for i using that by (simp add: toy_ok_def)
  then show ?thesis
    by (auto simp: toy_cfg_def image_iff unat_of_nat_u32 intro: bexI [of _ "unat b"])
qed

interpretation toy: split_cfg toy_cfg toy_code toy_ok toy_room
proof (unfold_locales, goal_cases)
  case (1 c)
  then have "i < 2 ^ 32" if "i < length (tb_blocks c)" for i using that by (simp add: toy_ok_def)
  then have "inj_on (of_nat :: nat \<Rightarrow> u32) {0..<length (tb_blocks c)}"
    by (intro inj_onI) (metis atLeastLessThan_iff unat_of_nat_u32)
  then show ?case by (simp add: toy_cfg_def distinct_map)
next
  case (2 c b)
  then have "unat b < length (tb_blocks c)" by (simp add: toy_ids)
  then show ?case by (simp add: toy_cfg_def toy_block_def get_nth_def toy_code_def split_beta)
next
  case (3 c b i)
  then have b: "unat b < length (tb_blocks c)" by (simp add: toy_ids)
  have len: "length (tb_blocks c) < 2 ^ 32" using 3(2) by (simp add: toy_room_def)
  obtain stmts t where st: "tb_blocks c ! unat b = (stmts, t)" by (cases "tb_blocks c ! unat b") auto
  with 3(4) have i: "i + 1 \<le> length stmts" by (simp add: toy_code_def)
  let ?bs = "(tb_blocks c)[unat b := (take (i + 1) stmts, Unreachable)] @ [(drop (i + 1) stmts, t)]"
  let ?r = "of_nat (length (tb_blocks c)) :: u32"
  let ?c = "c\<lparr>tb_blocks := ?bs\<rparr>"
  have "split_after toy_cfg b i c = Some (?r, ?c)"
    using b st i by (simp add: toy_cfg_def toy_split_after_def toy_block_def get_nth_def toy_push_block_def)
  moreover have ok: "toy_ok ?c" "Suc (toy_room ?c) = toy_room c" using len by (simp_all add: toy_ok_def toy_room_def)
  moreover have r: "unat ?r = length (tb_blocks c)" using len by (rule unat_of_nat_u32)
  then have "?r \<notin> set (block_ids toy_cfg c)" using 3(1) by (simp add: toy_ids)
  moreover have "x \<in> set (block_ids toy_cfg ?c) \<longleftrightarrow> x = ?r \<or> x \<in> set (block_ids toy_cfg c)" for x
  proof -
    have "unat x < Suc (length (tb_blocks c)) \<longleftrightarrow> x = ?r \<or> unat x < length (tb_blocks c)"
      using r by (metis less_Suc_eq u32_of_unat)
    then show ?thesis using 3(1) ok(1) by (simp add: toy_ids)
  qed
  then have "set (block_ids toy_cfg ?c) = insert ?r (set (block_ids toy_cfg c))" by blast
  moreover have "toy_code ?c b = take (Suc i) (toy_code c b)" "toy_code ?c ?r = drop (Suc i) (toy_code c b)"
    using b r st by (simp_all add: toy_code_def nth_append)
  moreover have "\<forall>x\<in>set (block_ids toy_cfg c). x \<noteq> b \<longrightarrow> toy_code ?c x = toy_code c x"
    using 3(1) b by (auto simp: toy_ids toy_code_def nth_append nth_list_update unat_u32_inj)
  ultimately show ?case by blast
next
  case (4 c)
  have len: "length (tb_blocks c) < 2 ^ 32" using 4(2) by (simp add: toy_room_def)
  let ?r = "of_nat (length (tb_blocks c)) :: u32"
  let ?c = "c\<lparr>tb_blocks := tb_blocks c @ [([], Unreachable)]\<rparr>"
  have "new_block toy_cfg c = (?r, ?c)" by (simp add: toy_cfg_def toy_push_block_def)
  moreover have ok: "toy_ok ?c" "Suc (toy_room ?c) = toy_room c" using len by (simp_all add: toy_ok_def toy_room_def)
  moreover have r: "unat ?r = length (tb_blocks c)" using len by (rule unat_of_nat_u32)
  then have "?r \<notin> set (block_ids toy_cfg c)" using 4(1) by (simp add: toy_ids)
  moreover have "x \<in> set (block_ids toy_cfg ?c) \<longleftrightarrow> x = ?r \<or> x \<in> set (block_ids toy_cfg c)" for x
  proof -
    have "unat x < Suc (length (tb_blocks c)) \<longleftrightarrow> x = ?r \<or> unat x < length (tb_blocks c)"
      using r by (metis less_Suc_eq u32_of_unat)
    then show ?thesis using 4(1) ok(1) by (simp add: toy_ids)
  qed
  then have "set (block_ids toy_cfg ?c) = insert ?r (set (block_ids toy_cfg c))" by blast
  moreover have "toy_code ?c ?r = []" using r by (simp add: toy_code_def)
  moreover have "\<forall>x\<in>set (block_ids toy_cfg c). toy_code ?c x = toy_code c x"
    using 4(1) by (auto simp: toy_ids toy_code_def nth_append)
  ultimately show ?case by blast
qed

end
