(* ===== verification/Krio_Async.thy ===== *)
theory Krio_Async
  imports Krio_Cfg "HOL-Library.Product_Lexorder"
begin

text \<open>
  \<open>crates/krio-async/src/lib.rs\<close> and \<open>validate.rs\<close>: the cross-function state-machine transform
  and the audit of its layouts. Block and local identities are ordered types \<open>'b\<close>, \<open>'v\<close>, function
  identities a type \<open>'f\<close>; the host's graph is a \<open>coro_cfg\<close>, its classification of statements and
  its oracle of suspending functions are functions. \<open>None\<close> is a panic.
\<close>

section \<open>Data\<close>

datatype ('f, 'v) suspension_site =
    DirectYield "'v option"
  | CrossFnCall 'f "'v option" "'v list" 'v

datatype ('b, 'v, 'f) block_kind =
    KDirectYield
  | CrossFnCallInit 'b "'v option" "'v list" 'v 'f
  | CrossFnCallResume 'b "'v option" "'v list" 'v 'f

record ('b, 'v, 'f) layout =
  resume_entries :: "'b list"
  yield_blocks :: "('b \<times> u32) list"
  yield_saves :: "('b \<times> (u32 \<times> 'v) list) list"
  resume_loads :: "('b \<times> (u32 \<times> 'v) list) list"
  block_kinds :: "('b \<times> ('b, 'v, 'f) block_kind) list"

record ('b, 'v) liveness_map =
  at_site :: "(('b \<times> nat) \<times> 'v list) list"

definition liveness_new :: "('b, 'v) liveness_map" where
  "liveness_new = \<lparr>at_site = []\<rparr>"

definition liveness_record :: "'b \<Rightarrow> nat \<Rightarrow> 'v list \<Rightarrow> ('b, 'v) liveness_map \<Rightarrow> ('b, 'v) liveness_map" where
  "liveness_record block idx values m = m\<lparr>at_site := at_site m @ [((block, idx), values)]\<rparr>"

definition liveness_lookup :: "'b \<Rightarrow> nat \<Rightarrow> ('b, 'v) liveness_map \<Rightarrow> 'v list" where
  "liveness_lookup block idx m =
     (case find (\<lambda>((b, i), _). b = block \<and> i = idx) (at_site m) of
        Some (_, v) \<Rightarrow> v
      | None \<Rightarrow> [])"

record 'v frame_state =
  fs_state_id :: u32
  fs_saved_values :: "'v list"

definition frame_state_new :: "'v frame_state" where
  "frame_state_new = \<lparr>fs_state_id = 0, fs_saved_values = []\<rparr>"

record transform_options =
  reserved_slots :: u32

definition default_options :: transform_options where
  "default_options = \<lparr>reserved_slots = 0\<rparr>"

section \<open>Scanning for sites\<close>

type_synonym ('b, 'f, 'v) site = "'b \<times> nat \<times> ('f, 'v) suspension_site"

fun scan_block :: "('c \<Rightarrow> 'b \<Rightarrow> nat \<Rightarrow> ('f, 'v) suspension_site option option) \<Rightarrow> 'c \<Rightarrow> 'b \<Rightarrow> nat list \<Rightarrow>
    ('b, 'f, 'v) site list option" where
  "scan_block classify c bb [] = Some []"
| "scan_block classify c bb (idx # idxs) = do {
     r \<leftarrow> classify c bb idx;
     sites \<leftarrow> scan_block classify c bb idxs;
     Some (case r of Some site \<Rightarrow> (bb, idx, site) # sites | None \<Rightarrow> sites) }"

fun scan_blocks :: "('c, 'b, 'v) coro_cfg \<Rightarrow> ('c \<Rightarrow> 'b \<Rightarrow> nat \<Rightarrow> ('f, 'v) suspension_site option option) \<Rightarrow> 'c \<Rightarrow>
    'b list \<Rightarrow> ('b, 'f, 'v) site list option" where
  "scan_blocks cfg classify c [] = Some []"
| "scan_blocks cfg classify c (bb # bbs) = do {
     n \<leftarrow> statement_count cfg c bb;
     sites \<leftarrow> scan_block classify c bb [0..<n];
     rest \<leftarrow> scan_blocks cfg classify c bbs;
     Some (sites @ rest) }"

section \<open>Splitting\<close>

record ('c, 'b, 'v, 'f) xform =
  x_cfg :: 'c
  x_entries :: "'b list"
  x_yields :: "('b \<times> u32) list"
  x_kinds :: "('b \<times> ('b, 'v, 'f) block_kind) list"
  x_site_yields :: "'b list"
  x_site_resumes :: "'b list"
  x_orig :: 'b
  x_cur :: 'b
  x_prev :: "nat option"

definition enter_block :: "'b \<Rightarrow> ('c, 'b, 'v, 'f) xform \<Rightarrow> ('c, 'b, 'v, 'f) xform" where
  "enter_block bb x =
     (if bb \<noteq> x_orig x \<or> x_prev x = None then x\<lparr>x_orig := bb, x_cur := bb, x_prev := None\<rparr> else x)"

text \<open>The index of a site in the block its statement is in now; the subtraction is checked.\<close>

definition current_idx :: "nat \<Rightarrow> ('c, 'b, 'v, 'f) xform \<Rightarrow> nat option" where
  "current_idx idx x = (case x_prev x of
      None \<Rightarrow> Some idx
    | Some prev \<Rightarrow> (if prev + 1 \<le> idx then Some (idx - (prev + 1)) else None))"

definition split_site :: "('c, 'b, 'v) coro_cfg \<Rightarrow> ('b, 'f, 'v) site \<Rightarrow> ('c, 'b, 'v, 'f) xform \<Rightarrow> ('c, 'b, 'v, 'f) xform option" where
  "split_site cfg = (\<lambda>(bb, idx, site) x. do {
     let x = enter_block bb x;
     i \<leftarrow> current_idx idx x;
     (tail, c) \<leftarrow> split_after cfg (x_cur x) i (x_cfg x);
     let next_state = of_nat (length (x_entries x)) in
     case site of
       DirectYield value \<Rightarrow>
         Some (x\<lparr>x_cfg := c, x_entries := x_entries x @ [tail], x_yields := x_yields x @ [(x_cur x, next_state)],
           x_kinds := x_kinds x @ [(x_cur x, KDirectYield)],
           x_site_yields := x_site_yields x @ [x_cur x], x_site_resumes := x_site_resumes x @ [tail],
           x_cur := tail, x_prev := Some idx\<rparr>)
     | CrossFnCall callee receiver args result \<Rightarrow>
         (let (check, c) = new_block cfg c in
          Some (x\<lparr>x_cfg := c, x_entries := x_entries x @ [check], x_yields := x_yields x @ [(x_cur x, next_state)],
            x_kinds := x_kinds x @ [(x_cur x, CrossFnCallInit check receiver args result callee),
                                     (check, CrossFnCallResume tail receiver args result callee)],
            x_site_yields := x_site_yields x @ [x_cur x], x_site_resumes := x_site_resumes x @ [check],
            x_cur := tail, x_prev := Some idx\<rparr>)) })"

fun split_sites :: "('c, 'b, 'v) coro_cfg \<Rightarrow> ('b, 'f, 'v) site list \<Rightarrow> ('c, 'b, 'v, 'f) xform \<Rightarrow> ('c, 'b, 'v, 'f) xform option" where
  "split_sites cfg [] x = Some x"
| "split_sites cfg (s # ss) x = do { x' \<leftarrow> split_site cfg s x; split_sites cfg ss x' }"

section \<open>Captures lift\<close>

record 'v slots =
  sl_map :: "'v \<rightharpoonup> u32"
  sl_next :: u32

definition slot_entry :: "'v \<Rightarrow> 'v slots \<Rightarrow> u32 \<times> 'v slots" where
  "slot_entry v sl = (case sl_map sl v of
      Some s \<Rightarrow> (s, sl)
    | None \<Rightarrow> (sl_next sl, \<lparr>sl_map = (sl_map sl)(v \<mapsto> sl_next sl), sl_next = sl_next sl + 1\<rparr>))"

fun slot_entries :: "'v list \<Rightarrow> 'v slots \<Rightarrow> (u32 \<times> 'v) list \<times> 'v slots" where
  "slot_entries [] sl = ([], sl)"
| "slot_entries (v # vs) sl =
     (let (s, sl) = slot_entry v sl; (es, sl) = slot_entries vs sl in ((s, v) # es, sl))"

text \<open>The sites with their yield and resume blocks, in order; the saves and the loads.\<close>

fun lift_sites :: "('b, 'v) liveness_map \<Rightarrow> (('b, 'f, 'v) site \<times> 'b \<times> 'b) list \<Rightarrow> 'v slots \<Rightarrow>
    ('b \<times> (u32 \<times> 'v) list) list \<times> ('b \<times> (u32 \<times> 'v) list) list \<times> 'v slots" where
  "lift_sites live [] sl = ([], [], sl)"
| "lift_sites live (((bb, idx, site), y, r) # ss) sl =
     (let vs = liveness_lookup bb idx live in
      if vs = [] then lift_sites live ss sl
      else let (es, sl) = slot_entries vs sl; (saves, loads, sl) = lift_sites live ss sl
           in ((y, es) # saves, (r, es) # loads, sl))"

section \<open>The transform\<close>

definition transform_with_options ::
  "('c, 'b::linorder, 'v) coro_cfg \<Rightarrow> ('f \<Rightarrow> bool) \<Rightarrow> ('c \<Rightarrow> 'b \<Rightarrow> nat \<Rightarrow> ('f, 'v) suspension_site option option) \<Rightarrow>
   ('b, 'v) liveness_map \<Rightarrow> transform_options \<Rightarrow> 'f \<Rightarrow> 'c \<Rightarrow> (('b, 'v, 'f) layout \<times> 'c) option" where
  "transform_with_options cfg is_suspending classify live options fn c =
     (if \<not> is_suspending fn
      then Some (\<lparr>resume_entries = [], yield_blocks = [], yield_saves = [], resume_loads = [], block_kinds = []\<rparr>, c)
      else case block_ids cfg c of
        [] \<Rightarrow> None
      | entry # bbs \<Rightarrow> do {
          sites \<leftarrow> scan_blocks cfg classify c (entry # bbs);
          let sites = sort_key (\<lambda>(bb, idx, _). (bb, idx)) sites;
          x \<leftarrow> split_sites cfg sites
                 \<lparr>x_cfg = c, x_entries = [entry], x_yields = [], x_kinds = [], x_site_yields = [], x_site_resumes = [],
                  x_orig = entry, x_cur = entry, x_prev = None\<rparr>;
          let (saves, loads, sl) = lift_sites live (zip sites (zip (x_site_yields x) (x_site_resumes x)))
                 \<lparr>sl_map = Map.empty, sl_next = reserved_slots options\<rparr>;
          Some (\<lparr>resume_entries = x_entries x, yield_blocks = x_yields x, yield_saves = saves, resume_loads = loads,
                 block_kinds = x_kinds x\<rparr>, x_cfg x) })"

definition transform_to_state_machine ::
  "('c, 'b::linorder, 'v) coro_cfg \<Rightarrow> ('f \<Rightarrow> bool) \<Rightarrow> ('c \<Rightarrow> 'b \<Rightarrow> nat \<Rightarrow> ('f, 'v) suspension_site option option) \<Rightarrow>
   ('b, 'v) liveness_map \<Rightarrow> 'f \<Rightarrow> 'c \<Rightarrow> (('b, 'v, 'f) layout \<times> 'c) option" where
  "transform_to_state_machine cfg is_suspending classify live fn c =
     transform_with_options cfg is_suspending classify live default_options fn c"

section \<open>Validation\<close>

datatype 'b layout_error =
    SaveWithoutLoad u32
  | LoadWithoutSave u32
  | DuplicateSaveSlot 'b u32
  | DuplicateLoadSlot 'b u32
  | EntryCountMismatch nat nat
  | SlotOutOfRange u32 u32

text \<open>One block's entries, with the slots seen before: a repeated slot, then one out of range.\<close>

fun check_entries :: "(u32 \<Rightarrow> 'b layout_error) \<Rightarrow> u32 \<Rightarrow> u32 set \<Rightarrow> (u32 \<times> 'v) list \<Rightarrow> 'b layout_error + unit" where
  "check_entries dup next_slot seen [] = Inr ()"
| "check_entries dup next_slot seen ((slot, v) # es) =
     (if slot \<in> seen then Inl (dup slot)
      else if next_slot \<le> slot then Inl (SlotOutOfRange slot next_slot)
      else check_entries dup next_slot (insert slot seen) es)"

fun check_blocks :: "('b \<Rightarrow> u32 \<Rightarrow> 'b layout_error) \<Rightarrow> u32 \<Rightarrow> ('b \<times> (u32 \<times> 'v) list) list \<Rightarrow> 'b layout_error + unit" where
  "check_blocks dup next_slot [] = Inr ()"
| "check_blocks dup next_slot ((block, es) # bs) =
     (case check_entries (dup block) next_slot {} es of
        Inl e \<Rightarrow> Inl e
      | Inr _ \<Rightarrow> check_blocks dup next_slot bs)"

definition table_slots :: "('b \<times> (u32 \<times> 'v) list) list \<Rightarrow> u32 list" where
  "table_slots t = concat (map (\<lambda>(b, es). map fst es) t)"

text \<open>The keys of a \<open>BTreeMap\<close> are visited in ascending order.\<close>

definition ordered_keys :: "u32 list \<Rightarrow> u32 list" where
  "ordered_keys xs = sort (remdups xs)"

definition validate_layout :: "('b, 'v, 'f) layout \<Rightarrow> u32 \<Rightarrow> 'b layout_error + unit" where
  "validate_layout l next_slot =
     (if length (resume_entries l) \<noteq> length (yield_blocks l) + 1
      then Inl (EntryCountMismatch (length (resume_entries l)) (length (yield_blocks l)))
      else case check_blocks DuplicateSaveSlot next_slot (yield_saves l) of
        Inl e \<Rightarrow> Inl e
      | Inr _ \<Rightarrow> (case check_blocks DuplicateLoadSlot next_slot (resume_loads l) of
          Inl e \<Rightarrow> Inl e
        | Inr _ \<Rightarrow>
            (let saved = ordered_keys (table_slots (yield_saves l)); loaded = ordered_keys (table_slots (resume_loads l)) in
             case find (\<lambda>s. s \<notin> set loaded) saved of
               Some s \<Rightarrow> Inl (SaveWithoutLoad s)
             | None \<Rightarrow> (case find (\<lambda>s. s \<notin> set saved) loaded of
                 Some s \<Rightarrow> Inl (LoadWithoutSave s)
               | None \<Rightarrow> Inr ()))))"

section \<open>What the audit accepts\<close>

lemma check_entries_Inr:
  "check_entries dup n seen es = Inr u \<longleftrightarrow>
     distinct (map fst es) \<and> fst ` set es \<inter> seen = {} \<and> (\<forall>s\<in>fst ` set es. s < n)"
  by (induction dup n seen es rule: check_entries.induct) auto

lemma check_blocks_Inr:
  "check_blocks dup n bs = Inr u \<longleftrightarrow>
     (\<forall>(b, es)\<in>set bs. distinct (map fst es) \<and> (\<forall>s\<in>fst ` set es. s < n))"
proof (induction bs)
  case (Cons p bs)
  obtain b es where p: "p = (b, es)" by (cases p) auto
  show ?case
  proof (cases "check_entries (dup b) n {} es")
    case (Inl e)
    then have "\<not> (distinct (map fst es) \<and> (\<forall>s\<in>fst ` set es. s < n))"
      using check_entries_Inr [of "dup b" n "{}" es "()"] by auto
    with Inl p show ?thesis by auto
  next
    case (Inr w)
    then have "distinct (map fst es) \<and> (\<forall>s\<in>fst ` set es. s < n)"
      using check_entries_Inr [of "dup b" n "{}" es "()"] by auto
    with Inr p Cons show ?thesis by auto
  qed
qed simp

lemma set_table_slots: "set (table_slots t) = (\<Union>(b, es)\<in>set t. fst ` set es)"
  by (auto simp: table_slots_def)

lemma validate_Inr:
  "validate_layout l n = Inr () \<longleftrightarrow>
     length (resume_entries l) = length (yield_blocks l) + 1 \<and>
     (\<forall>(b, es)\<in>set (yield_saves l) \<union> set (resume_loads l). distinct (map fst es) \<and> (\<forall>s\<in>fst ` set es. s < n)) \<and>
     set (table_slots (yield_saves l)) = set (table_slots (resume_loads l))"
proof -
  let ?S = "ordered_keys (table_slots (yield_saves l))" and ?L = "ordered_keys (table_slots (resume_loads l))"
  have "validate_layout l n = Inr () \<longleftrightarrow> length (resume_entries l) = length (yield_blocks l) + 1 \<and>
      check_blocks DuplicateSaveSlot n (yield_saves l) = Inr () \<and> check_blocks DuplicateLoadSlot n (resume_loads l) = Inr () \<and>
      find (\<lambda>s. s \<notin> set ?L) ?S = None \<and> find (\<lambda>s. s \<notin> set ?S) ?L = None"
    by (auto simp: validate_layout_def Let_def split: sum.splits option.splits)
  moreover have "find (\<lambda>s. s \<notin> set ?L) ?S = None \<and> find (\<lambda>s. s \<notin> set ?S) ?L = None \<longleftrightarrow>
      set (table_slots (yield_saves l)) = set (table_slots (resume_loads l))"
    by (auto simp: find_None_iff ordered_keys_def)
  ultimately show ?thesis
    by (simp add: check_blocks_Inr ball_Un)
qed

section \<open>Slots\<close>

lemma slot_entries_spec:
  assumes "slot_entries vs sl = (es, sl')"
  shows "sl_map sl \<subseteq>\<^sub>m sl_map sl' \<and> es = map (\<lambda>v. (the (sl_map sl' v), v)) vs \<and>
    dom (sl_map sl') = dom (sl_map sl) \<union> set vs"
  using assms
proof (induction vs arbitrary: sl es)
  case Nil
  then show ?case by simp
next
  case (Cons v vs)
  obtain s sl1 where 1: "slot_entry v sl = (s, sl1)" by (cases "slot_entry v sl") auto
  obtain fs where 2: "slot_entries vs sl1 = (fs, sl')" "es = (s, v) # fs"
    using Cons.prems 1 by (auto split: prod.splits)
  have 3: "sl_map sl \<subseteq>\<^sub>m sl_map sl1" "sl_map sl1 v = Some s" "dom (sl_map sl1) = insert v (dom (sl_map sl))"
    using 1 by (auto simp: slot_entry_def map_le_def split: option.splits)
  from Cons.IH [OF 2(1)] have 4: "sl_map sl1 \<subseteq>\<^sub>m sl_map sl'" "fs = map (\<lambda>v. (the (sl_map sl' v), v)) vs"
    "dom (sl_map sl') = dom (sl_map sl1) \<union> set vs" by auto
  have "sl_map sl' v = Some s" using 3(2) 4(1) by (metis domI map_le_def)
  then have "es = map (\<lambda>v. (the (sl_map sl' v), v)) (v # vs)" using 2(2) 4(2) by simp
  moreover have "sl_map sl \<subseteq>\<^sub>m sl_map sl'" using 3(1) 4(1) by (rule map_le_trans)
  moreover have "dom (sl_map sl') = dom (sl_map sl) \<union> set (v # vs)" unfolding 4(3) 3(3) by auto
  ultimately show ?case by blast
qed

definition live_at :: "('b, 'v) liveness_map \<Rightarrow> ('b, 'f, 'v) site \<Rightarrow> 'v list" where
  "live_at live s = liveness_lookup (fst s) (fst (snd s)) live"

definition slot_table :: "('v \<Rightarrow> u32) \<Rightarrow> ('b, 'v) liveness_map \<Rightarrow> (('b, 'f, 'v) site \<times> 'b) list \<Rightarrow> ('b \<times> (u32 \<times> 'v) list) list" where
  "slot_table \<sigma> live ss = map (\<lambda>(s, b). (b, map (\<lambda>v. (\<sigma> v, v)) (live_at live s))) (filter (\<lambda>(s, b). live_at live s \<noteq> []) ss)"

lemma slot_table_simps [simp]:
  "slot_table \<sigma> live [] = []"
  "slot_table \<sigma> live ((s, b) # ss) =
     (if live_at live s = [] then slot_table \<sigma> live ss else (b, map (\<lambda>v. (\<sigma> v, v)) (live_at live s)) # slot_table \<sigma> live ss)"
  by (simp_all add: slot_table_def)

lemma lift_sites_spec:
  assumes "lift_sites live ss sl = (saves, loads, sl')"
  shows "sl_map sl \<subseteq>\<^sub>m sl_map sl' \<and>
    dom (sl_map sl') = dom (sl_map sl) \<union> (\<Union>x\<in>set ss. set (live_at live (fst x))) \<and>
    saves = slot_table (\<lambda>v. the (sl_map sl' v)) live (map (\<lambda>(s, y, r). (s, y)) ss) \<and>
    loads = slot_table (\<lambda>v. the (sl_map sl' v)) live (map (\<lambda>(s, y, r). (s, r)) ss)"
  using assms
proof (induction live ss sl arbitrary: saves loads rule: lift_sites.induct)
  case (1 live sl)
  then show ?case by simp
next
  case (2 live bb idx site y r ss sl)
  let ?vs = "liveness_lookup bb idx live"
  show ?case
  proof (cases "?vs = []")
    case True
    with 2 show ?thesis by (simp add: live_at_def)
  next
    case False
    obtain es sl1 where e: "slot_entries ?vs sl = (es, sl1)" by (cases "slot_entries ?vs sl") auto
    obtain sa lo where l: "lift_sites live ss sl1 = (sa, lo, sl')" "saves = (y, es) # sa" "loads = (r, es) # lo"
      using 2(3) False e by (auto simp: Let_def split: prod.splits)
    from slot_entries_spec [OF e] have es: "sl_map sl \<subseteq>\<^sub>m sl_map sl1" "es = map (\<lambda>v. (the (sl_map sl1 v), v)) ?vs"
      "dom (sl_map sl1) = dom (sl_map sl) \<union> set ?vs" by auto
    from 2(2) [OF refl False e [symmetric] refl l(1)] have ih: "sl_map sl1 \<subseteq>\<^sub>m sl_map sl'"
      "dom (sl_map sl') = dom (sl_map sl1) \<union> (\<Union>x\<in>set ss. set (live_at live (fst x)))"
      "sa = slot_table (\<lambda>v. the (sl_map sl' v)) live (map (\<lambda>(s, y, r). (s, y)) ss)"
      "lo = slot_table (\<lambda>v. the (sl_map sl' v)) live (map (\<lambda>(s, y, r). (s, r)) ss)" by auto
    have "the (sl_map sl1 v) = the (sl_map sl' v)" if "v \<in> set ?vs" for v
      using that es(3) ih(1) by (auto simp: map_le_def)
    then have "es = map (\<lambda>v. (the (sl_map sl' v), v)) ?vs" using es(2) by simp
    moreover have "sl_map sl \<subseteq>\<^sub>m sl_map sl'" using es(1) ih(1) by (rule map_le_trans)
    ultimately show ?thesis using False ih l es by (simp add: live_at_def Un_assoc)
  qed
qed

text \<open>Slots are handed out in sequence from the first unreserved one.\<close>

definition slots_rep :: "u32 \<Rightarrow> 'v slots \<Rightarrow> bool" where
  "slots_rep base sl \<longleftrightarrow> (\<exists>vs. distinct vs \<and> dom (sl_map sl) = set vs \<and>
     (\<forall>i<length vs. sl_map sl (vs ! i) = Some (base + of_nat i)) \<and> sl_next sl = base + of_nat (length vs))"

lemma slot_entry_rep: "slots_rep base sl \<Longrightarrow> slots_rep base (snd (slot_entry v sl))"
proof -
  assume "slots_rep base sl"
  then obtain vs where vs: "distinct vs" "dom (sl_map sl) = set vs"
    "\<forall>i<length vs. sl_map sl (vs ! i) = Some (base + of_nat i)" "sl_next sl = base + of_nat (length vs)"
    by (auto simp: slots_rep_def)
  show ?thesis
  proof (cases "sl_map sl v")
    case (Some s)
    with \<open>slots_rep base sl\<close> show ?thesis by (simp add: slot_entry_def)
  next
    case None
    then have v: "v \<notin> set vs" using vs(2) by auto
    let ?sl = "\<lparr>sl_map = (sl_map sl)(v \<mapsto> sl_next sl), sl_next = sl_next sl + 1\<rparr>"
    have "\<forall>i<length (vs @ [v]). sl_map ?sl ((vs @ [v]) ! i) = Some (base + of_nat i)"
      using vs v by (auto simp: nth_append less_Suc_eq)
    moreover have "sl_next ?sl = base + of_nat (length (vs @ [v]))" using vs(4) by simp
    moreover have "distinct (vs @ [v])" "dom (sl_map ?sl) = set (vs @ [v])" using vs v by auto
    ultimately have "slots_rep base ?sl" unfolding slots_rep_def by blast
    with None show ?thesis by (simp add: slot_entry_def)
  qed
qed

lemma slot_entries_rep: "slots_rep base sl \<Longrightarrow> slots_rep base (snd (slot_entries vs sl))"
proof (induction vs arbitrary: sl)
  case (Cons v vs)
  with slot_entry_rep [of base sl v] Cons.IH [of "snd (slot_entry v sl)"] show ?case by (simp add: split_beta)
qed simp

lemma lift_sites_rep: "slots_rep base sl \<Longrightarrow> slots_rep base (snd (snd (lift_sites live ss sl)))"
proof (induction live ss sl rule: lift_sites.induct)
  case (2 live bb idx site y r ss sl)
  show ?case
  proof (cases "liveness_lookup bb idx live = []")
    case True
    with 2 show ?thesis by simp
  next
    case False
    obtain es sl1 where e: "slot_entries (liveness_lookup bb idx live) sl = (es, sl1)"
      by (cases "slot_entries (liveness_lookup bb idx live) sl") auto
    with slot_entries_rep [OF 2(3), of "liveness_lookup bb idx live"] have "slots_rep base sl1" by simp
    from 2(2) [OF refl False e [symmetric] refl this] e False show ?thesis by (simp add: Let_def split_beta)
  qed
qed simp

lemma slots_rep_injective:
  assumes "slots_rep base sl" and "unat base + card (dom (sl_map sl)) \<le> 2 ^ 32" and "v \<in> dom (sl_map sl)"
  shows "base \<le> the (sl_map sl v)" and "unat (the (sl_map sl v)) < unat base + card (dom (sl_map sl))"
    and "w \<in> dom (sl_map sl) \<Longrightarrow> the (sl_map sl v) = the (sl_map sl w) \<Longrightarrow> v = w"
proof -
  from assms(1) obtain vs where vs: "distinct vs" "dom (sl_map sl) = set vs"
    "\<forall>i<length vs. sl_map sl (vs ! i) = Some (base + of_nat i)" by (auto simp: slots_rep_def)
  have card: "card (dom (sl_map sl)) = length vs" using vs by (simp add: distinct_card)
  have at: "\<exists>i<length vs. vs ! i = u \<and> unat (the (sl_map sl u)) = unat base + i" if "u \<in> dom (sl_map sl)" for u
  proof -
    from that vs(2) obtain i where i: "i < length vs" "vs ! i = u" by (auto simp: in_set_conv_nth)
    have "unat base + i < 2 ^ 32" using assms(2) card i(1) by linarith
    then have "unat (base + of_nat i) = unat base + i"
      by (metis add_lessD1 of_nat_add u32_of_unat unat_of_nat_u32)
    with i vs(3) show ?thesis by auto
  qed
  from at [OF assms(3)] obtain i where i: "i < length vs" "vs ! i = v" "unat (the (sl_map sl v)) = unat base + i" by blast
  then show "base \<le> the (sl_map sl v)" "unat (the (sl_map sl v)) < unat base + card (dom (sl_map sl))"
    using card by (simp_all add: word_le_nat_alt)
  assume "w \<in> dom (sl_map sl)" and eq: "the (sl_map sl v) = the (sl_map sl w)"
  from at [OF this(1)] obtain j where "j < length vs" "vs ! j = w" "unat (the (sl_map sl w)) = unat base + j" by blast
  with i eq show "v = w" by simp
qed

section \<open>Splitting keeps the program\<close>

text \<open>
  The statements of a block between two of its suspension sites. The segment of a site starts
  after the site before it in the same block and ends with the site's own statement.
\<close>

definition seg_start :: "('b, 'f, 'v) site list \<Rightarrow> nat \<Rightarrow> nat" where
  "seg_start ss i = (if 0 < i \<and> fst (ss ! (i - 1)) = fst (ss ! i) then Suc (fst (snd (ss ! (i - 1)))) else 0)"

definition seg :: "('b \<Rightarrow> 's list) \<Rightarrow> ('b, 'f, 'v) site list \<Rightarrow> nat \<Rightarrow> 's list" where
  "seg prog ss i = take (Suc (fst (snd (ss ! i))) - seg_start ss i) (drop (seg_start ss i) (prog (fst (ss ! i))))"

text \<open>What stands after a site: the next site's segment, or the rest of the block.\<close>

definition seg_after :: "('b \<Rightarrow> 's list) \<Rightarrow> ('b, 'f, 'v) site list \<Rightarrow> nat \<Rightarrow> 's list" where
  "seg_after prog ss i =
     (if Suc i < length ss \<and> fst (ss ! Suc i) = fst (ss ! i) then seg prog ss (Suc i)
      else drop (Suc (fst (snd (ss ! i)))) (prog (fst (ss ! i))))"

definition site_less :: "('b::linorder, 'f, 'v) site \<Rightarrow> ('b, 'f, 'v) site \<Rightarrow> bool" where
  "site_less s t \<longleftrightarrow> fst s < fst t \<or> fst s = fst t \<and> fst (snd s) < fst (snd t)"

fun is_call :: "('f, 'v) suspension_site \<Rightarrow> bool" where
  "is_call (DirectYield v) = False"
| "is_call (CrossFnCall f r as v) = True"

text \<open>The kinds recorded for a site with its yield block, its resume block and its tail.\<close>

fun site_kinds :: "('b, 'f, 'v) site \<Rightarrow> 'b \<Rightarrow> 'b \<Rightarrow> 'b \<Rightarrow> ('b \<times> ('b, 'v, 'f) block_kind) list" where
  "site_kinds (bb, idx, DirectYield v) y r t = [(y, KDirectYield)]"
| "site_kinds (bb, idx, CrossFnCall f rcv as v) y r t =
     [(y, CrossFnCallInit r rcv as v f), (r, CrossFnCallResume t rcv as v f)]"

lemma seg_append [simp]: "i < length ss \<Longrightarrow> seg prog (ss @ ts) i = seg prog ss i"
  by (cases i) (simp_all add: seg_def seg_start_def nth_append)

text \<open>
  The state after the sites \<open>ps\<close>, for a program \<open>prog\<close> over the original blocks \<open>B\<close>. \<open>ts\<close> are the
  tails the splits made, in order.
\<close>

definition split_shape :: "'b \<Rightarrow> ('b, 'f, 'v) site list \<Rightarrow> 'b list \<Rightarrow> ('c, 'b, 'v, 'f) xform \<Rightarrow> bool" where
  "split_shape entry ps ts x \<longleftrightarrow>
     length ts = length ps \<and> length (x_site_yields x) = length ps \<and> length (x_site_resumes x) = length ps \<and>
     x_entries x = entry # x_site_resumes x \<and>
     x_yields x = zip (x_site_yields x) (map of_nat [1..<Suc (length ps)]) \<and>
     (\<forall>i<length ps. x_site_yields x ! i =
        (if 0 < i \<and> fst (ps ! (i - 1)) = fst (ps ! i) then ts ! (i - 1) else fst (ps ! i))) \<and>
     (\<forall>i<length ps. \<not> is_call (snd (snd (ps ! i))) \<longrightarrow> x_site_resumes x ! i = ts ! i) \<and>
     x_kinds x = concat (map (\<lambda>i. site_kinds (ps ! i) (x_site_yields x ! i) (x_site_resumes x ! i) (ts ! i)) [0..<length ps]) \<and>
     (if ps = [] then x_prev x = None
      else x_orig x = fst (last ps) \<and> x_prev x = Some (fst (snd (last ps))) \<and> x_cur x = last ts)"

definition frozen :: "('b, 'f, 'v) site list \<Rightarrow> 'b list \<Rightarrow> ('c, 'b, 'v, 'f) xform \<Rightarrow> 'b set" where
  "frozen ps ts x = set (x_site_yields x) \<union> {ts ! i | i. Suc i < length ps} \<union>
     {x_site_resumes x ! i | i. i < length ps \<and> is_call (snd (snd (ps ! i)))}"

lemma kinds_at:
  assumes "b \<in> fst ` set ks" and "ks = concat (map f [0..<n])"
  shows "\<exists>i<n. b \<in> fst ` set (f i)"
  using assms by auto

lemma kinds_frozen:
  assumes "split_shape entry ps ts x"
  shows "fst ` set (x_kinds x) \<subseteq> frozen ps ts x"
proof
  fix b assume "b \<in> fst ` set (x_kinds x)"
  moreover have "x_kinds x = concat (map (\<lambda>i. site_kinds (ps ! i) (x_site_yields x ! i) (x_site_resumes x ! i) (ts ! i)) [0..<length ps])"
    using assms by (simp add: split_shape_def)
  ultimately have "\<exists>i<length ps. b \<in> fst ` set (site_kinds (ps ! i) (x_site_yields x ! i) (x_site_resumes x ! i) (ts ! i))"
    by (rule kinds_at)
  then obtain i where i: "i < length ps"
    "b \<in> fst ` set (site_kinds (ps ! i) (x_site_yields x ! i) (x_site_resumes x ! i) (ts ! i))" by blast
  moreover have "length (x_site_yields x) = length ps" using assms by (simp add: split_shape_def)
  moreover obtain bb idx k where "ps ! i = (bb, idx, k)" by (cases "ps ! i")
  ultimately show "b \<in> frozen ps ts x" by (cases k) (auto simp: frozen_def)
qed

context split_cfg
begin

definition split_code_ok :: "'c \<Rightarrow> ('b, 'f, 'l) site list \<Rightarrow> 'b list \<Rightarrow> ('c, 'b, 'l, 'f) xform \<Rightarrow> bool" where
  "split_code_ok c ps ts x \<longleftrightarrow>
     ok (x_cfg x) \<and> room c \<le> room (x_cfg x) + 2 * length ps \<and>
     set (block_ids cfg c) \<subseteq> set (block_ids cfg (x_cfg x)) \<and>
     distinct ts \<and> set ts \<subseteq> set (block_ids cfg (x_cfg x)) - set (block_ids cfg c) \<and>
     distinct (x_site_yields x) \<and> distinct (map fst (x_kinds x)) \<and>
     (ps \<noteq> [] \<longrightarrow> last ts \<in> set (block_ids cfg (x_cfg x)) \<and> last ts \<notin> set (block_ids cfg c) \<and>
        last ts \<notin> frozen ps ts x \<and>
        code (x_cfg x) (last ts) = drop (Suc (fst (snd (last ps)))) (code c (fst (last ps)))) \<and>
     (\<forall>b\<in>set (block_ids cfg c). b \<notin> fst ` set ps \<longrightarrow> code (x_cfg x) b = code c b) \<and>
     (\<forall>b\<in>frozen ps ts x. b \<in> set (block_ids cfg (x_cfg x)) \<and> (b \<in> set (block_ids cfg c) \<longrightarrow> b \<in> fst ` set ps)) \<and>
     (\<forall>i<length ps. code (x_cfg x) (x_site_yields x ! i) = seg (code c) ps i) \<and>
     (\<forall>i. Suc i < length ps \<longrightarrow> code (x_cfg x) (ts ! i) = seg_after (code c) ps i) \<and>
     (\<forall>i<length ps. is_call (snd (snd (ps ! i))) \<longrightarrow>
        x_site_resumes x ! i \<notin> set ts \<and> code (x_cfg x) (x_site_resumes x ! i) = [])"

text \<open>The block a site's statement is in when its turn comes, and what that block holds.\<close>

lemma home_of_site:
  assumes "split_shape entry ps ts x" and "split_code_ok c ps ts x" and "sorted_wrt site_less (ps @ [s])"
    and "fst s \<in> set (block_ids cfg c)" and "fst (snd s) < length (code c (fst s))"
  shows "\<exists>i. current_idx (fst (snd s)) (enter_block (fst s) x) = Some i \<and>
      x_cur (enter_block (fst s) x) \<in> set (block_ids cfg (x_cfg x)) \<and>
      x_cur (enter_block (fst s) x) \<notin> frozen ps ts x \<and>
      code (x_cfg x) (x_cur (enter_block (fst s) x)) = drop (seg_start (ps @ [s]) (length ps)) (code c (fst s)) \<and>
      Suc i = Suc (fst (snd s)) - seg_start (ps @ [s]) (length ps) \<and> seg_start (ps @ [s]) (length ps) \<le> fst (snd s) \<and>
      x_cur (enter_block (fst s) x) =
        (if 0 < length ps \<and> fst (ps ! (length ps - 1)) = fst s then ts ! (length ps - 1) else fst s) \<and>
      (x_cur (enter_block (fst s) x) \<in> set (block_ids cfg c) \<longrightarrow> x_cur (enter_block (fst s) x) = fst s) \<and>
      (0 < length ps \<and> fst (ps ! (length ps - 1)) \<noteq> fst s \<longrightarrow> last ts \<noteq> x_cur (enter_block (fst s) x))"
proof (cases "ps \<noteq> [] \<and> fst (last ps) = fst s")
  case True
  then have ne: "ps \<noteq> []" and same: "fst (last ps) = fst s" by auto
  have "site_less (last ps) s" using assms(3) ne by (auto simp: sorted_wrt_append)
  with same have lt: "fst (snd (last ps)) < fst (snd s)" by (simp add: site_less_def)
  have len: "length ts = length ps" using assms(1) by (simp add: split_shape_def)
  with ne have "ts \<noteq> []" by auto
  with len have ts: "ts \<noteq> []" "last ts = ts ! (length ps - 1)" by (simp_all add: last_conv_nth)
  have enter: "enter_block (fst s) x = x" "x_prev x = Some (fst (snd (last ps)))" "x_cur x = last ts"
    using assms(1) ne same by (auto simp: enter_block_def split_shape_def)
  have start: "seg_start (ps @ [s]) (length ps) = Suc (fst (snd (last ps)))"
    using ne same by (simp add: seg_start_def nth_append last_conv_nth)
  show ?thesis
    using assms(2) enter start lt ne same ts by (auto simp: current_idx_def split_code_ok_def last_conv_nth)
next
  case False
  have notin: "fst s \<notin> fst ` set ps"
  proof
    assume "fst s \<in> fst ` set ps"
    then obtain p where p: "p \<in> set ps" "fst p = fst s" by auto
    then have ne: "ps \<noteq> []" by auto
    have "fst p \<le> fst (last ps)"
    proof (cases "p = last ps")
      case False
      with p ne have "p \<in> set (butlast ps)" by (metis append_butlast_last_id insert_iff list.simps(15) rotate1.simps(2) set_rotate1)
      moreover have "sorted_wrt site_less (butlast ps @ [last ps])" using assms(3) ne by (simp add: sorted_wrt_append)
      ultimately have "site_less p (last ps)" by (auto simp: sorted_wrt_append)
      then show ?thesis by (auto simp: site_less_def)
    qed simp
    moreover have "site_less (last ps) s" using assms(3) ne by (auto simp: sorted_wrt_append)
    ultimately show False using p(2) False ne by (auto simp: site_less_def)
  qed
  have start: "seg_start (ps @ [s]) (length ps) = 0"
    using False by (cases "ps = []") (simp_all add: seg_start_def nth_append last_conv_nth)
  have enter: "x_cur (enter_block (fst s) x) = fst s" "x_prev (enter_block (fst s) x) = None"
    using assms(1) False by (auto simp: enter_block_def split_shape_def split: if_splits)
  have "fst s \<in> set (block_ids cfg (x_cfg x))" "fst s \<notin> frozen ps ts x" "code (x_cfg x) (fst s) = code c (fst s)"
    using assms(2,4) notin by (auto simp: split_code_ok_def)
  moreover have "last ts \<noteq> fst s" if "ps \<noteq> []"
    using assms(2,4) that by (auto simp: split_code_ok_def)
  ultimately show ?thesis
    using enter start False by (auto simp: current_idx_def last_conv_nth)
qed


lemma seg_after_snoc_last:
  assumes "ps \<noteq> []"
  shows "seg_after prog (ps @ [s]) (length ps - 1) =
    (if fst s = fst (last ps) then seg prog (ps @ [s]) (length ps)
     else drop (Suc (fst (snd (last ps)))) (prog (fst (last ps))))"
  using assms by (simp add: seg_after_def nth_append last_conv_nth)

lemma seg_after_snoc:
  "Suc i < length ps \<Longrightarrow> seg_after prog (ps @ [s]) i = seg_after prog ps i"
  by (simp add: seg_after_def nth_append)

lemma split_site_ok:
  fixes x :: "('c, 'b, 'l, 'f) xform" and bb idx site
  defines "s \<equiv> (bb, idx, site)"
  assumes "split_shape entry ps ts x" and "split_code_ok c ps ts x" and "sorted_wrt site_less (ps @ [s])"
    and "bb \<in> set (block_ids cfg c)" and "idx < length (code c bb)"
    and "2 * length (ps @ [s]) \<le> room c"
  shows "\<exists>x' t. split_site cfg s x = Some x' \<and> split_shape entry (ps @ [s]) (ts @ [t]) x' \<and>
    split_code_ok c (ps @ [s]) (ts @ [t]) x'"
proof -
  have fs: "fst s = bb" "fst (snd s) = idx" "snd (snd s) = site" by (simp_all add: s_def)
  let ?e = "enter_block bb x" and ?start = "seg_start (ps @ [s]) (length ps)" and ?n = "length ps"
  let ?y = "x_cur ?e"
  have cfg_e: "x_cfg ?e = x_cfg x" "x_entries ?e = x_entries x" "x_yields ?e = x_yields x" "x_kinds ?e = x_kinds x"
    "x_site_yields ?e = x_site_yields x" "x_site_resumes ?e = x_site_resumes x"
    by (simp_all add: enter_block_def)
  have orig_e: "x_orig ?e = bb" by (simp add: enter_block_def)
  from home_of_site [OF assms(2-4), unfolded fs, OF assms(5,6)] obtain i where
    home: "current_idx idx ?e = Some i" "?y \<in> set (block_ids cfg (x_cfg x))" "?y \<notin> frozen ps ts x"
      "code (x_cfg x) ?y = drop ?start (code c bb)" "Suc i = Suc idx - ?start" "?start \<le> idx"
      "?y = (if 0 < ?n \<and> fst (ps ! (?n - 1)) = bb then ts ! (?n - 1) else bb)"
      "?y \<in> set (block_ids cfg c) \<longrightarrow> ?y = bb"
      "0 < ?n \<and> fst (ps ! (?n - 1)) \<noteq> bb \<longrightarrow> last ts \<noteq> ?y" by blast
  have len: "length ts = ?n" "length (x_site_yields x) = ?n" "length (x_site_resumes x) = ?n"
    using assms(2) by (auto simp: split_shape_def)
  have ok: "ok (x_cfg x)" and room: "room c \<le> room (x_cfg x) + 2 * ?n"
    and sub: "set (block_ids cfg c) \<subseteq> set (block_ids cfg (x_cfg x))"
    using assms(3) by (auto simp: split_code_ok_def)
  have i: "i < length (code (x_cfg x) ?y)" using home(4-6) assms(6) by simp
  have "0 < room (x_cfg x)" using room assms(7) by simp
  from split_code [OF ok this home(2) i] obtain t c1 where
    sp: "split_after cfg ?y i (x_cfg x) = Some (t, c1)" "ok c1" "Suc (room c1) = room (x_cfg x)"
      "t \<notin> set (block_ids cfg (x_cfg x))" "set (block_ids cfg c1) = insert t (set (block_ids cfg (x_cfg x)))"
      "code c1 ?y = take (Suc i) (code (x_cfg x) ?y)" "code c1 t = drop (Suc i) (code (x_cfg x) ?y)"
      "\<forall>b\<in>set (block_ids cfg (x_cfg x)). b \<noteq> ?y \<longrightarrow> code c1 b = code (x_cfg x) b" by blast
  have seg_y: "code c1 ?y = seg (code c) (ps @ [s]) ?n"
    using sp(6) home(4,5) by (simp add: seg_def nth_append fs)
  have tail: "code c1 t = drop (Suc idx) (code c bb)"
    using sp(7) home(4-6) by simp
  text \<open>The call case makes one more block; both cases end in a graph \<open>c2\<close> and a resume block \<open>r\<close>.\<close>
  obtain r c2 x' where x': "split_site cfg s x = Some x'" "x_cfg x' = c2" "x_entries x' = x_entries x @ [r]"
      "x_yields x' = x_yields x @ [(?y, of_nat (length (x_entries x)))]"
      "x_site_yields x' = x_site_yields x @ [?y]" "x_site_resumes x' = x_site_resumes x @ [r]"
      "x_orig x' = bb" "x_cur x' = t" "x_prev x' = Some idx" "x_kinds x' = x_kinds x @ site_kinds s ?y r t"
    and c2: "ok c2" "room (x_cfg x) \<le> room c2 + 2"
      "set (block_ids cfg c1) \<subseteq> set (block_ids cfg c2)" "\<forall>b\<in>set (block_ids cfg c1). code c2 b = code c1 b"
    and r: "\<not> is_call site \<longrightarrow> r = t"
      "is_call site \<longrightarrow> r \<in> set (block_ids cfg c2) \<and> r \<notin> set (block_ids cfg c1) \<and> code c2 r = []"
  proof (cases site)
    case (DirectYield v)
    let ?x = "?e\<lparr>x_cfg := c1, x_entries := x_entries ?e @ [t], x_yields := x_yields ?e @ [(?y, of_nat (length (x_entries ?e)))],
           x_kinds := x_kinds ?e @ [(?y, KDirectYield)],
           x_site_yields := x_site_yields ?e @ [?y], x_site_resumes := x_site_resumes ?e @ [t],
           x_cur := t, x_prev := Some idx\<rparr>"
    have "split_site cfg s x = Some ?x"
      using DirectYield home(1) sp(1) by (simp add: split_site_def s_def cfg_e Let_def)
    with DirectYield sp show thesis by (intro that [of ?x c1 t]) (simp_all add: cfg_e orig_e s_def)
  next
    case (CrossFnCall f rcv args res)
    have "0 < room c1" using sp(3) room assms(7) by simp
    from new_code [OF sp(2) this] obtain r c2 where
      nb: "new_block cfg c1 = (r, c2)" "ok c2" "Suc (room c2) = room c1" "r \<notin> set (block_ids cfg c1)"
        "set (block_ids cfg c2) = insert r (set (block_ids cfg c1))" "code c2 r = []"
        "\<forall>b\<in>set (block_ids cfg c1). code c2 b = code c1 b" by blast
    let ?x = "?e\<lparr>x_cfg := c2, x_entries := x_entries ?e @ [r], x_yields := x_yields ?e @ [(?y, of_nat (length (x_entries ?e)))],
            x_kinds := x_kinds ?e @ [(?y, CrossFnCallInit r rcv args res f), (r, CrossFnCallResume t rcv args res f)],
            x_site_yields := x_site_yields ?e @ [?y], x_site_resumes := x_site_resumes ?e @ [r],
            x_cur := t, x_prev := Some idx\<rparr>"
    have "split_site cfg s x = Some ?x"
      using CrossFnCall home(1) sp(1) nb(1) by (simp add: split_site_def s_def cfg_e Let_def)
    with CrossFnCall sp nb show thesis by (intro that [of ?x c2 r]) (auto simp: cfg_e orig_e s_def)
  qed
  have keep: "code c2 b = code (x_cfg x) b" if "b \<in> set (block_ids cfg (x_cfg x))" "b \<noteq> ?y" for b
    using that sp(5,8) c2(4) by simp
  have c2_y: "code c2 ?y = seg (code c) (ps @ [s]) ?n" and c2_t: "code c2 t = drop (Suc idx) (code c bb)"
    using seg_y tail sp(5) c2(4) home(2) by simp_all
  have inside: "b \<in> set (block_ids cfg c2)" if "b \<in> set (block_ids cfg (x_cfg x))" for b
    using that sp(5) c2(3) by blast
  have t_in: "t \<in> set (block_ids cfg c2)" using sp(5) c2(3) by blast
  have frz: "frozen (ps @ [s]) (ts @ [t]) x' \<subseteq> insert ?y (frozen ps ts x \<union> (if ps = [] then {} else {last ts}) \<union>
      (if is_call site then {r} else {}))"
  proof
    fix b assume "b \<in> frozen (ps @ [s]) (ts @ [t]) x'"
    then consider "b \<in> set (x_site_yields x')" | j where "Suc j < Suc ?n" "b = (ts @ [t]) ! j"
      | j where "j < Suc ?n" "is_call (snd (snd ((ps @ [s]) ! j)))" "b = x_site_resumes x' ! j"
      by (auto simp: frozen_def)
    then show "b \<in> insert ?y (frozen ps ts x \<union> (if ps = [] then {} else {last ts}) \<union> (if is_call site then {r} else {}))"
    proof cases
      case 1
      then show ?thesis using x'(5) by (auto simp: frozen_def)
    next
      case 2
      then have j: "j < ?n" "b = ts ! j" using len by (auto simp: nth_append)
      show ?thesis
      proof (cases "Suc j < ?n")
        case True
        with j show ?thesis by (auto simp: frozen_def)
      next
        case False
        with j have "j = ?n - 1" "ps \<noteq> []" by auto
        then have "ts \<noteq> []" using len by auto
        with \<open>j = ?n - 1\<close> have "b = last ts" using j len by (simp add: last_conv_nth)
        with \<open>ps \<noteq> []\<close> show ?thesis by simp
      qed
    next
      case 3
      show ?thesis
      proof (cases "j < ?n")
        case True
        with 3 x'(6) len show ?thesis by (auto simp: frozen_def nth_append)
      next
        case False
        with 3 x'(6) len have "j = ?n" "b = r" by (auto simp: nth_append)
        with 3 show ?thesis by (simp add: nth_append fs)
      qed
    qed
  qed
  have last_ts: "last ts \<in> set (block_ids cfg (x_cfg x))" "last ts \<notin> set (block_ids cfg c)"
    "code (x_cfg x) (last ts) = drop (Suc (fst (snd (last ps)))) (code c (fst (last ps)))" if "ps \<noteq> []"
    using assms(3) that by (auto simp: split_code_ok_def)
  have shape: "split_shape entry (ps @ [s]) (ts @ [t]) x'"
  proof -
    have old: "x_entries x = entry # x_site_resumes x" "x_yields x = zip (x_site_yields x) (map of_nat [1..<Suc ?n])"
      "\<forall>j<?n. x_site_yields x ! j = (if 0 < j \<and> fst (ps ! (j - 1)) = fst (ps ! j) then ts ! (j - 1) else fst (ps ! j))"
      "\<forall>j<?n. \<not> is_call (snd (snd (ps ! j))) \<longrightarrow> x_site_resumes x ! j = ts ! j"
      "x_kinds x = concat (map (\<lambda>j. site_kinds (ps ! j) (x_site_yields x ! j) (x_site_resumes x ! j) (ts ! j)) [0..<?n])"
      using assms(2) by (auto simp: split_shape_def)
    have "x_yields x' = zip (x_site_yields x') (map of_nat [1..<Suc (length (ps @ [s]))])"
    proof -
      have "[1..<Suc (length (ps @ [s]))] = [1..<Suc ?n] @ [Suc ?n]" by simp
      moreover have "length [1..<Suc ?n] = length (x_site_yields x)" using len by (simp del: upt_Suc)
      moreover have "length (x_entries x) = Suc ?n" using old(1) len by simp
      ultimately show ?thesis using old(2) x'(4,5) by (simp del: upt_Suc)
    qed
    moreover have "x_site_yields x' ! j =
        (if 0 < j \<and> fst ((ps @ [s]) ! (j - 1)) = fst ((ps @ [s]) ! j) then (ts @ [t]) ! (j - 1) else fst ((ps @ [s]) ! j))"
      if "j < Suc ?n" for j
    proof (cases "j < ?n")
      case True
      then have "j - 1 < ?n" by simp
      with True old(3) x'(5) len show ?thesis by (simp add: nth_append)
    next
      case False
      with that have j: "j = ?n" by simp
      have "0 < ?n \<Longrightarrow> ?n - 1 < ?n" by simp
      with j home(7) x'(5) len show ?thesis by (auto simp: nth_append fs)
    qed
    moreover have "x_site_resumes x' ! j = (ts @ [t]) ! j"
      if "j < Suc ?n" "\<not> is_call (snd (snd ((ps @ [s]) ! j)))" for j
      using that old(4) x'(6) r(1) len by (cases "j < ?n") (auto simp: nth_append fs less_Suc_eq)
    moreover have "x_kinds x' = concat (map (\<lambda>j. site_kinds ((ps @ [s]) ! j) (x_site_yields x' ! j) (x_site_resumes x' ! j)
        ((ts @ [t]) ! j)) [0..<Suc ?n])"
    proof -
      have "map (\<lambda>j. site_kinds ((ps @ [s]) ! j) (x_site_yields x' ! j) (x_site_resumes x' ! j) ((ts @ [t]) ! j)) [0..<?n] =
          map (\<lambda>j. site_kinds (ps ! j) (x_site_yields x ! j) (x_site_resumes x ! j) (ts ! j)) [0..<?n]"
        using x'(5,6) len by (simp add: nth_append)
      then have "concat (map (\<lambda>j. site_kinds ((ps @ [s]) ! j) (x_site_yields x' ! j) (x_site_resumes x' ! j) ((ts @ [t]) ! j)) [0..<?n]) =
          x_kinds x"
        using old(5) by (simp only:)
      moreover have "x_site_yields x' ! ?n = ?y" "x_site_resumes x' ! ?n = r" "(ts @ [t]) ! ?n = t" "(ps @ [s]) ! ?n = s"
        using x'(5,6) len by (simp_all add: nth_append)
      ultimately show ?thesis using x'(10) by simp
    qed
    ultimately show ?thesis
      using old(1) x' len by (simp add: split_shape_def fs)
  qed
  have code: "split_code_ok c (ps @ [s]) (ts @ [t]) x'"
    unfolding split_code_ok_def x'(2)
  proof (intro conjI impI)
    show "ok c2" by (rule c2(1))
    show "room c \<le> room c2 + 2 * length (ps @ [s])" using room c2(2) by simp
    show "set (block_ids cfg c) \<subseteq> set (block_ids cfg c2)" using sub inside by blast
    have old_ts: "distinct ts" "set ts \<subseteq> set (block_ids cfg (x_cfg x)) - set (block_ids cfg c)"
      using assms(3) by (auto simp: split_code_ok_def)
    show "distinct (ts @ [t])" using old_ts sp(4) by auto
    show "set (ts @ [t]) \<subseteq> set (block_ids cfg c2) - set (block_ids cfg c)"
      using old_ts(2) inside t_in sp(4) sub by auto
    have frozen_in: "b \<in> set (block_ids cfg (x_cfg x))" if "b \<in> frozen ps ts x" for b
      using assms(3) that by (auto simp: split_code_ok_def)
    show "distinct (x_site_yields x')"
      using assms(3) home(3) x'(5) by (auto simp: split_code_ok_def frozen_def)
    show "distinct (map fst (x_kinds x'))"
    proof -
      have "fst ` set (x_kinds x) \<subseteq> frozen ps ts x" using assms(2) by (rule kinds_frozen)
      then have "?y \<notin> fst ` set (x_kinds x)" "is_call site \<Longrightarrow> r \<notin> fst ` set (x_kinds x)"
        using home(3) frozen_in r(2) sp(5) by auto
      moreover have "is_call site \<Longrightarrow> r \<noteq> ?y" using r(2) sp(5) home(2) by auto
      moreover have "distinct (map fst (x_kinds x))" using assms(3) by (simp add: split_code_ok_def)
      ultimately show ?thesis using x'(10) by (cases site) (auto simp: s_def)
    qed
    show "last (ts @ [t]) \<in> set (block_ids cfg c2)" using t_in by simp
    show "last (ts @ [t]) \<notin> set (block_ids cfg c)" using sp(4) sub by auto
    show "last (ts @ [t]) \<notin> frozen (ps @ [s]) (ts @ [t]) x'"
    proof -
      have "t \<noteq> ?y" using sp(4) home(2) by auto
      moreover have "t \<notin> frozen ps ts x" using sp(4) assms(3) by (auto simp: split_code_ok_def)
      moreover have "ps \<noteq> [] \<Longrightarrow> t \<noteq> last ts" using sp(4) last_ts(1) by auto
      moreover have "is_call site \<Longrightarrow> t \<noteq> r" using r(2) sp(5) by auto
      ultimately show ?thesis using frz by (auto split: if_splits)
    qed
    show "code c2 (last (ts @ [t])) = drop (Suc (fst (snd (last (ps @ [s]))))) (code c (fst (last (ps @ [s]))))"
      using c2_t by (simp add: fs)
    show "\<forall>b\<in>set (block_ids cfg c). b \<notin> fst ` set (ps @ [s]) \<longrightarrow> code c2 b = code c b"
    proof (intro ballI impI)
      fix b assume b: "b \<in> set (block_ids cfg c)" "b \<notin> fst ` set (ps @ [s])"
      then have "b \<noteq> ?y" using home(8) by (auto simp: fs)
      with b sub keep have "code c2 b = code (x_cfg x) b" by blast
      with b assms(3) show "code c2 b = code c b" by (auto simp: split_code_ok_def)
    qed
    show "\<forall>b\<in>frozen (ps @ [s]) (ts @ [t]) x'. b \<in> set (block_ids cfg c2) \<and>
        (b \<in> set (block_ids cfg c) \<longrightarrow> b \<in> fst ` set (ps @ [s]))"
    proof
      fix b assume "b \<in> frozen (ps @ [s]) (ts @ [t]) x'"
      then consider "b = ?y" | "b \<in> frozen ps ts x" | "ps \<noteq> []" "b = last ts" | "is_call site" "b = r"
        using frz by (auto split: if_splits)
      then show "b \<in> set (block_ids cfg c2) \<and> (b \<in> set (block_ids cfg c) \<longrightarrow> b \<in> fst ` set (ps @ [s]))"
      proof cases
        case 1
        with home(2,8) inside show ?thesis by (auto simp: fs)
      next
        case 2
        with assms(3) inside show ?thesis by (auto simp: split_code_ok_def)
      next
        case 3
        with last_ts inside show ?thesis by auto
      next
        case 4
        with r(2) sp(5) sub show ?thesis by auto
      qed
    qed
    show "\<forall>j<length (ps @ [s]). code c2 (x_site_yields x' ! j) = seg (code c) (ps @ [s]) j"
    proof (intro allI impI)
      fix j assume "j < length (ps @ [s])"
      show "code c2 (x_site_yields x' ! j) = seg (code c) (ps @ [s]) j"
      proof (cases "j < ?n")
        case True
        then have "x_site_yields x ! j \<in> frozen ps ts x" using len by (simp add: frozen_def)
        then have "code c2 (x_site_yields x ! j) = code (x_cfg x) (x_site_yields x ! j)"
          using assms(3) home(3) by (intro keep) (auto simp: split_code_ok_def)
        with True assms(3) x'(5) len show ?thesis by (simp add: split_code_ok_def nth_append)
      next
        case False
        with \<open>j < length (ps @ [s])\<close> have "j = ?n" by simp
        with c2_y x'(5) len show ?thesis by (simp add: nth_append)
      qed
    qed
    show "\<forall>j. Suc j < length (ps @ [s]) \<longrightarrow> code c2 ((ts @ [t]) ! j) = seg_after (code c) (ps @ [s]) j"
    proof (intro allI impI)
      fix j assume "Suc j < length (ps @ [s])"
      then have j: "j < ?n" by simp
      show "code c2 ((ts @ [t]) ! j) = seg_after (code c) (ps @ [s]) j"
      proof (cases "Suc j < ?n")
        case True
        then have "ts ! j \<in> frozen ps ts x" by (auto simp: frozen_def)
        then have "code c2 (ts ! j) = code (x_cfg x) (ts ! j)"
          using assms(3) home(3) by (intro keep) (auto simp: split_code_ok_def)
        with True assms(3) len j show ?thesis by (simp add: split_code_ok_def nth_append seg_after_snoc)
      next
        case False
        with j have jn: "j = ?n - 1" "ps \<noteq> []" by auto
        with len have "ts \<noteq> []" by auto
        with jn len have ts_j: "(ts @ [t]) ! j = last ts" by (simp add: nth_append last_conv_nth)
        have last_ps: "fst (ps ! (?n - 1)) = fst (last ps)" using jn by (simp add: last_conv_nth)
        show ?thesis
        proof (cases "fst (last ps) = bb")
          case True
          then have "last ts = ?y" using home(7) last_ps jn len \<open>ts \<noteq> []\<close> by (simp add: last_conv_nth)
          with True c2_y ts_j jn show ?thesis using seg_after_snoc_last [OF jn(2), of "code c" s] by (simp add: fs)
        next
          case False
          then have "last ts \<noteq> ?y" using home(9) last_ps jn by simp
          with keep last_ts jn have "code c2 (last ts) = drop (Suc (fst (snd (last ps)))) (code c (fst (last ps)))" by simp
          with False ts_j jn show ?thesis using seg_after_snoc_last [OF jn(2), of "code c" s] by (simp add: fs)
        qed
      qed
    qed
    show "\<forall>j<length (ps @ [s]). is_call (snd (snd ((ps @ [s]) ! j))) \<longrightarrow>
        x_site_resumes x' ! j \<notin> set (ts @ [t]) \<and> code c2 (x_site_resumes x' ! j) = []"
    proof (intro allI impI)
      fix j assume j: "j < length (ps @ [s])" "is_call (snd (snd ((ps @ [s]) ! j)))"
      show "x_site_resumes x' ! j \<notin> set (ts @ [t]) \<and> code c2 (x_site_resumes x' ! j) = []"
      proof (cases "j < ?n")
        case True
        with j have fr: "x_site_resumes x ! j \<in> frozen ps ts x" by (auto simp: frozen_def nth_append)
        then have "code c2 (x_site_resumes x ! j) = code (x_cfg x) (x_site_resumes x ! j)"
          using assms(3) home(3) by (intro keep) (auto simp: split_code_ok_def)
        moreover have "x_site_resumes x ! j \<noteq> t"
          using frozen_in [OF fr] sp(4) by auto
        ultimately show ?thesis using True j assms(3) x'(6) len by (simp add: split_code_ok_def nth_append)
      next
        case False
        with j have "j = ?n" by simp
        with j r(2) x'(6) len old_ts(2) sp(5) show ?thesis by (auto simp: nth_append fs)
      qed
    qed
  qed
  from x'(1) shape code show ?thesis by blast
qed

lemma split_sites_ok:
  assumes "split_shape entry ps ts x" and "split_code_ok c ps ts x" and "sorted_wrt site_less (ps @ ss)"
    and "\<forall>s\<in>set ss. fst s \<in> set (block_ids cfg c) \<and> fst (snd s) < length (code c (fst s))"
    and "2 * length (ps @ ss) \<le> room c"
  shows "\<exists>x' ts'. split_sites cfg ss x = Some x' \<and> split_shape entry (ps @ ss) ts' x' \<and>
    split_code_ok c (ps @ ss) ts' x'"
  using assms
proof (induction ss arbitrary: ps ts x)
  case Nil
  then show ?case by auto
next
  case (Cons s ss)
  obtain bb idx site where s: "s = (bb, idx, site)" by (cases s)
  have "sorted_wrt site_less (ps @ [s])" using Cons.prems(3) by (auto simp: sorted_wrt_append)
  moreover have "2 * length (ps @ [s]) \<le> room c" using Cons.prems(5) by simp
  ultimately obtain x' t where x': "split_site cfg s x = Some x'" "split_shape entry (ps @ [s]) (ts @ [t]) x'"
    "split_code_ok c (ps @ [s]) (ts @ [t]) x'"
    using split_site_ok [OF Cons.prems(1,2), of bb idx site] Cons.prems(4) s by auto
  from Cons.IH [OF x'(2,3)] Cons.prems(3-5) x'(1) show ?case by simp
qed

end

text \<open>
  The statements a host runs over the polls that start at block \<open>b\<close>: the block's own; when it is a
  yield block, those of the block the recorded state resumes at; for a call, those after the callee
  is done. The code of blocks is a function \<open>code\<close>; \<open>n\<close> bounds the number of suspensions.
\<close>

fun polled_code :: "('b, 'v, 'f) layout \<Rightarrow> ('b \<Rightarrow> 's list) \<Rightarrow> nat \<Rightarrow> 'b \<Rightarrow> 's list" where
  "polled_code l code 0 b = []"
| "polled_code l code (Suc n) b = code b @
     (case map_of (yield_blocks l) b of
        None \<Rightarrow> []
      | Some st \<Rightarrow>
          (let r = resume_entries l ! unat st in
           case map_of (block_kinds l) r of
             Some (CrossFnCallResume done rcv as v f) \<Rightarrow> code r @ polled_code l code n done
           | _ \<Rightarrow> polled_code l code n r))"

context split_cfg
begin

lemma yields_keys:
  assumes "split_shape entry ps ts x" "split_code_ok c ps ts x" and "i < length ps"
  shows "map_of (x_yields x) (x_site_yields x ! i) = Some (of_nat (Suc i))"
proof -
  have len: "length (x_site_yields x) = length ps"
    and z: "x_yields x = zip (x_site_yields x) (map of_nat [1..<Suc (length ps)])"
    using assms(1) by (auto simp: split_shape_def)
  have "distinct (map fst (x_yields x))" using assms(2) len by (simp add: z split_code_ok_def del: upt_Suc)
  moreover have "(x_site_yields x ! i, of_nat (Suc i)) \<in> set (x_yields x)"
    unfolding z in_set_zip using assms(3) len by (intro exI [of _ i]) (simp del: upt_Suc)
  ultimately show ?thesis by simp
qed

lemma yields_range:
  assumes "split_shape entry ps ts x" and "map_of (x_yields x) b = Some st"
  shows "\<exists>i<length ps. b = x_site_yields x ! i"
proof -
  have len: "length (x_site_yields x) = length ps"
    and z: "x_yields x = zip (x_site_yields x) (map of_nat [1..<Suc (length ps)])"
    using assms(1) by (auto simp: split_shape_def)
  from assms(2) have "(b, st) \<in> set (x_yields x)" by (rule map_of_SomeD)
  then have "b \<in> set (x_site_yields x)" unfolding z by (rule set_zip_leftD)
  with len show ?thesis by (auto simp: in_set_conv_nth)
qed

lemma resume_keys:
  assumes "split_shape entry ps ts x" "split_code_ok c ps ts x"
    and "(b, CrossFnCallResume d rcv as w f) \<in> set (x_kinds x)"
  shows "b \<notin> set ts"
proof -
  have kinds: "x_kinds x = concat (map (\<lambda>i. site_kinds (ps ! i) (x_site_yields x ! i) (x_site_resumes x ! i) (ts ! i)) [0..<length ps])"
    using assms(1) by (simp add: split_shape_def)
  from assms(3) obtain i where i: "i < length ps"
    "(b, CrossFnCallResume d rcv as w f) \<in> set (site_kinds (ps ! i) (x_site_yields x ! i) (x_site_resumes x ! i) (ts ! i))"
    unfolding kinds by auto
  obtain bb idx k where "ps ! i = (bb, idx, k)" by (cases "ps ! i")
  with i have "is_call (snd (snd (ps ! i)))" "b = x_site_resumes x ! i" by (cases k; simp)+
  with i(1) assms(2) show ?thesis by (auto simp: split_code_ok_def)
qed

lemma polled_from_site:
  assumes "split_shape entry ps ts x" "split_code_ok c ps ts x"
    and "length ps < 2 ^ 32" and "i < length ps" and "length ps - i \<le> n"
    and "yield_blocks l = x_yields x" "resume_entries l = x_entries x" "block_kinds l = x_kinds x"
    and sites_in: "\<forall>s\<in>set ps. fst s \<in> set (block_ids cfg c)" and less: "sorted_wrt site_less ps"
  shows "polled_code l (code (x_cfg x)) (Suc n) (x_site_yields x ! i) = drop (seg_start ps i) (code c (fst (ps ! i)))"
  using assms(4,5)
proof (induction n arbitrary: i)
  case 0
  then show ?case by simp
next
  case (Suc n)
  let ?code = "code (x_cfg x)" and ?n = "length ps"
  have len: "length ts = ?n" "length (x_site_yields x) = ?n" "length (x_site_resumes x) = ?n"
    and ents: "x_entries x = entry # x_site_resumes x"
    and kinds: "x_kinds x = concat (map (\<lambda>i. site_kinds (ps ! i) (x_site_yields x ! i) (x_site_resumes x ! i) (ts ! i)) [0..<?n])"
    and ys: "\<And>j. j < ?n \<Longrightarrow> x_site_yields x ! j = (if 0 < j \<and> fst (ps ! (j - 1)) = fst (ps ! j) then ts ! (j - 1) else fst (ps ! j))"
    and rs: "\<And>j. j < ?n \<Longrightarrow> \<not> is_call (snd (snd (ps ! j))) \<Longrightarrow> x_site_resumes x ! j = ts ! j"
    using assms(1) by (auto simp: split_shape_def)
  have dist: "distinct ts" "distinct (map fst (x_kinds x))" "set ts \<inter> set (block_ids cfg c) = {}"
    and codes: "\<forall>j<?n. ?code (x_site_yields x ! j) = seg (code c) ps j"
      "\<forall>j. Suc j < ?n \<longrightarrow> ?code (ts ! j) = seg_after (code c) ps j"
      "\<forall>j<?n. is_call (snd (snd (ps ! j))) \<longrightarrow> ?code (x_site_resumes x ! j) = []"
    using assms(2) by (auto simp: split_code_ok_def)
  obtain bb idx k where site: "ps ! i = (bb, idx, k)" by (cases "ps ! i")
  have st: "unat (of_nat (Suc i) :: u32) = Suc i" using Suc.prems(1) assms(3) by (intro unat_of_nat_u32) simp
  have resume: "resume_entries l ! Suc i = x_site_resumes x ! i" using assms(7) ents by simp
  have tail: "polled_code l ?code (Suc n) (ts ! i) = drop (Suc idx) (code c bb)"
  proof (cases "Suc i < ?n \<and> fst (ps ! Suc i) = bb")
    case True
    then have "ts ! i = x_site_yields x ! Suc i" "seg_start ps (Suc i) = Suc idx"
      using ys [of "Suc i"] site by (auto simp: seg_start_def)
    with Suc.IH [of "Suc i"] True Suc.prems site show ?thesis by simp
  next
    case False
    have "map_of (x_yields x) (ts ! i) = None"
    proof (rule ccontr)
      assume "map_of (x_yields x) (ts ! i) \<noteq> None"
      then obtain j where j: "j < ?n" "ts ! i = x_site_yields x ! j" using yields_range [OF assms(1)] by blast
      show False
      proof (cases "0 < j \<and> fst (ps ! (j - 1)) = fst (ps ! j)")
        case True
        with j ys have "ts ! i = ts ! (j - 1)" by simp
        then have "i = j - 1" using dist(1) j(1) Suc.prems(1) len by (simp add: nth_eq_iff_index_eq)
        with True j(1) False site show False by auto
      next
        case False
        with j ys have "ts ! i = fst (ps ! j)" by auto
        moreover have "ts ! i \<in> set ts" using Suc.prems(1) len by simp
        moreover have "fst (ps ! j) \<in> set (block_ids cfg c)" using sites_in j(1) by simp
        ultimately show False using dist(3) by auto
      qed
    qed
    moreover have "?code (ts ! i) = drop (Suc idx) (code c bb)"
    proof (cases "Suc i < ?n")
      case True
      with codes(2) have "?code (ts ! i) = seg_after (code c) ps i" by simp
      with True False site show ?thesis by (simp add: seg_after_def)
    next
      case last: False
      then have "i = ?n - 1" "ps \<noteq> []" "ts \<noteq> []" using Suc.prems(1) len by auto
      then have "last ts = ts ! i" "last ps = ps ! i" using len by (simp_all add: last_conv_nth)
      with assms(2) \<open>ps \<noteq> []\<close> site show ?thesis by (auto simp: split_code_ok_def)
    qed
    ultimately show ?thesis using assms(6) by simp
  qed
  have "seg_start ps i \<le> idx"
  proof (cases "0 < i \<and> fst (ps ! (i - 1)) = bb")
    case True
    then have "site_less (ps ! (i - 1)) (ps ! i)" using less Suc.prems(1) by (auto simp: sorted_wrt_iff_nth_less)
    with True site show ?thesis by (auto simp: site_less_def seg_start_def)
  qed (use site in \<open>auto simp: seg_start_def\<close>)
  then have start: "seg (code c) ps i @ drop (Suc idx) (code c bb) = drop (seg_start ps i) (code c bb)"
    using site by (simp add: seg_def) (metis Suc_le_eq append_take_drop_id drop_drop le_SucI le_add_diff_inverse2 less_imp_le_nat)
  have after: "(let r = resume_entries l ! unat (of_nat (Suc i) :: u32) in
           case map_of (block_kinds l) r of
             Some (CrossFnCallResume done rcv as v f) \<Rightarrow> ?code r @ polled_code l ?code (Suc n) done
           | _ \<Rightarrow> polled_code l ?code (Suc n) r) = drop (Suc idx) (code c bb)"
  proof (cases k)
    case (CrossFnCall f rcv as v)
    have "(x_site_resumes x ! i, CrossFnCallResume (ts ! i) rcv as v f) \<in> set (x_kinds x)"
      using Suc.prems(1) site CrossFnCall unfolding kinds by force
    then have "map_of (block_kinds l) (x_site_resumes x ! i) = Some (CrossFnCallResume (ts ! i) rcv as v f)"
      using dist(2) assms(8) by simp
    moreover have "?code (x_site_resumes x ! i) = []" using codes(3) Suc.prems(1) site CrossFnCall by simp
    ultimately show ?thesis using tail st resume by (simp add: Let_def)
  next
    case (DirectYield v)
    have r: "x_site_resumes x ! i = ts ! i" using rs [OF Suc.prems(1)] site DirectYield by simp
    have none: "map_of (x_kinds x) (ts ! i) \<noteq> Some (CrossFnCallResume d rcv as w f)" for d rcv as w f
    proof
      assume "map_of (x_kinds x) (ts ! i) = Some (CrossFnCallResume d rcv as w f)"
      then have "(ts ! i, CrossFnCallResume d rcv as w f) \<in> set (x_kinds x)" by (rule map_of_SomeD)
      then show False using resume_keys [OF assms(1,2)] Suc.prems(1) len by (metis nth_mem)
    qed
    have "(case map_of (x_kinds x) (ts ! i) of
             Some (CrossFnCallResume done rcv as v f) \<Rightarrow> ?code (ts ! i) @ polled_code l ?code (Suc n) done
           | _ \<Rightarrow> polled_code l ?code (Suc n) (ts ! i)) = polled_code l ?code (Suc n) (ts ! i)"
      using none by (simp split: option.split block_kind.split del: polled_code.simps)
    then show ?thesis using r tail st resume assms(8) by (simp add: Let_def del: polled_code.simps of_nat_Suc)
  qed
  have "map_of (yield_blocks l) (x_site_yields x ! i) = Some (of_nat (Suc i))"
    using yields_keys [OF assms(1,2) Suc.prems(1)] assms(6) by simp
  then have "polled_code l ?code (Suc (Suc n)) (x_site_yields x ! i) = ?code (x_site_yields x ! i) @ drop (Suc idx) (code c bb)"
    using after by (simp del: of_nat_Suc)
  with codes(1) start Suc.prems(1) site show ?case by simp
qed

end

lemma scan_block_sites:
  "scan_block classify c bb is = Some ss \<Longrightarrow>
     map (\<lambda>(b, i, k). (b, i)) ss = map (\<lambda>i. (bb, i)) (filter (\<lambda>i. \<exists>k. classify c bb i = Some (Some k)) is) \<and>
     (\<forall>(b, i, k)\<in>set ss. classify c bb i = Some (Some k))"
proof (induction classify c bb "is" arbitrary: ss rule: scan_block.induct)
  case (2 classify c bb idx idxs)
  then obtain r ss2 where *: "classify c bb idx = Some r" "scan_block classify c bb idxs = Some ss2"
    "ss = (case r of Some site \<Rightarrow> (bb, idx, site) # ss2 | None \<Rightarrow> ss2)" by (auto split: bind_splits)
  from 2(1) [OF *(1,2)] *(1,3) show ?case by (cases r) auto
qed simp

lemma scan_blocks_sites:
  assumes "scan_blocks cfg classify c bbs = Some ss"
  shows "map (\<lambda>(b, i, k). (b, i)) ss =
      concat (map (\<lambda>b. map (\<lambda>i. (b, i)) (filter (\<lambda>i. \<exists>k. classify c b i = Some (Some k)) [0..<the (statement_count cfg c b)])) bbs) \<and>
     (\<forall>(b, i, k)\<in>set ss. classify c b i = Some (Some k))"
  using assms
proof (induction cfg classify c bbs arbitrary: ss rule: scan_blocks.induct)
  case (2 cfg classify c bb bbs)
  then obtain n ss1 ss2 where *: "statement_count cfg c bb = Some n" "scan_block classify c bb [0..<n] = Some ss1"
    "scan_blocks cfg classify c bbs = Some ss2" "ss = ss1 @ ss2" by (auto split: bind_splits)
  from scan_block_sites [OF *(2)] have 1: "map (\<lambda>(b, i, k). (b, i)) ss1 = map (\<lambda>i. (bb, i))
      (filter (\<lambda>i. \<exists>k. classify c bb i = Some (Some k)) [0..<n])" "\<forall>(b, i, k)\<in>set ss1. classify c bb i = Some (Some k)" by auto
  have bb: "b = bb" if "(b, i, k) \<in> set ss1" for b i k
  proof -
    have "(b, i) \<in> set (map (\<lambda>(b, i, k). (b, i)) ss1)" using that by force
    then show ?thesis using 1(1) by auto
  qed
  from 2(1) [OF *(1,2,3)] 1 bb *(1,4) show ?case by fastforce
qed simp

lemma scan_block_total:
  "\<forall>i\<in>set is. classify c bb i \<noteq> None \<Longrightarrow> scan_block classify c bb is \<noteq> None"
  by (induction classify c bb "is" rule: scan_block.induct) auto

lemma scan_blocks_total:
  "\<forall>b\<in>set bbs. \<exists>n. statement_count cfg c b = Some n \<and> (\<forall>i<n. classify c b i \<noteq> None) \<Longrightarrow>
     scan_blocks cfg classify c bbs \<noteq> None"
proof (induction cfg classify c bbs rule: scan_blocks.induct)
  case (2 cfg classify c bb bbs)
  then obtain n where n: "statement_count cfg c bb = Some n" "\<forall>i<n. classify c bb i \<noteq> None" by auto
  then obtain ss where ss: "scan_block classify c bb [0..<n] = Some ss" using scan_block_total [of "[0..<n]" classify c bb] by auto
  from 2(1) [OF n(1) ss] 2(2) n ss show ?case by auto
qed simp

section \<open>The sites in order\<close>

definition site_key :: "('b, 'f, 'v) site \<Rightarrow> 'b \<times> nat" where
  "site_key = (\<lambda>(bb, idx, _). (bb, idx))"

lemma site_key_less: "site_key s < site_key t \<longleftrightarrow> site_less s (t :: ('b::linorder, 'f, 'v) site)"
  by (auto simp: site_key_def site_less_def split: prod.splits)

lemma distinct_scan:
  fixes bbs :: "'b list"
  assumes "distinct bbs"
  shows "distinct (concat (map (\<lambda>b. map (\<lambda>i. (b, i :: nat)) (filter (P b) [0..<n b])) bbs))"
  using assms by (induction bbs) (auto simp: distinct_map inj_on_def)

lemma scanned_sites:
  fixes ss :: "('b::linorder, 'f, 'v) site list"
  assumes "scan_blocks cfg classify c bbs = Some ss" and "distinct bbs"
  shows "sorted_wrt site_less (sort_key site_key ss)"
    and "s \<in> set ss \<Longrightarrow> fst s \<in> set bbs \<and> fst (snd s) < the (statement_count cfg c (fst s))"
proof -
  have keys: "map site_key ss = concat (map (\<lambda>b. map (\<lambda>i. (b, i))
      (filter (\<lambda>i. \<exists>k. classify c b i = Some (Some k)) [0..<the (statement_count cfg c b)])) bbs)"
    using scan_blocks_sites [OF assms(1)] by (simp add: site_key_def)
  then have "distinct (map site_key ss)" using distinct_scan [OF assms(2)] by simp
  then have "distinct (map site_key (sort_key site_key ss))"
    by (metis mset_map mset_sort mset_eq_imp_distinct_iff)
  then have "sorted_wrt (<) (map site_key (sort_key site_key ss))" by (simp add: strict_sorted_iff)
  then show "sorted_wrt site_less (sort_key site_key ss)" by (simp add: sorted_wrt_map site_key_less)
  assume "s \<in> set ss"
  then have "site_key s \<in> set (map site_key ss)" by simp
  then show "fst s \<in> set bbs \<and> fst (snd s) < the (statement_count cfg c (fst s))"
    unfolding keys by (cases s) (auto simp: site_key_def)
qed

text \<open>Every site adds one entry, one yield block and one resume block, whatever the graph.\<close>

definition xform_start :: "'c \<Rightarrow> 'b \<Rightarrow> ('c, 'b, 'v, 'f) xform" where
  "xform_start c entry = \<lparr>x_cfg = c, x_entries = [entry], x_yields = [], x_kinds = [], x_site_yields = [], x_site_resumes = [],
     x_orig = entry, x_cur = entry, x_prev = None\<rparr>"

definition site_lists :: "'b \<Rightarrow> nat \<Rightarrow> ('c, 'b, 'v, 'f) xform \<Rightarrow> bool" where
  "site_lists entry n x \<longleftrightarrow> length (x_site_yields x) = n \<and> length (x_site_resumes x) = n \<and>
     x_entries x = entry # x_site_resumes x \<and> map fst (x_yields x) = x_site_yields x"

lemma split_site_lists:
  assumes "site_lists entry n x" and "split_site cfg s x = Some x'"
  shows "site_lists entry (Suc n) x'"
proof -
  obtain bb idx k where s: "s = (bb, idx, k)" by (cases s)
  have enter: "site_lists entry n (enter_block bb x)" using assms(1) by (simp add: site_lists_def enter_block_def)
  obtain i t c1 where *: "current_idx idx (enter_block bb x) = Some i"
    "split_after cfg (x_cur (enter_block bb x)) i (x_cfg (enter_block bb x)) = Some (t, c1)"
    using assms(2) by (auto simp: split_site_def s Let_def split: bind_splits)
  obtain r c2 where new: "new_block cfg c1 = (r, c2)" by (cases "new_block cfg c1")
  show ?thesis
  proof (cases k)
    case (DirectYield v)
    with assms(2) s * enter show ?thesis by (force simp: split_site_def site_lists_def Let_def)
  next
    case (CrossFnCall f rcv as v)
    with assms(2) s * new enter show ?thesis by (force simp: split_site_def site_lists_def Let_def)
  qed
qed

lemma split_sites_lists:
  "site_lists entry n x \<Longrightarrow> split_sites cfg ss x = Some x' \<Longrightarrow> site_lists entry (n + length ss) x'"
proof (induction ss arbitrary: x n)
  case (Cons s ss)
  then obtain y where y: "split_site cfg s x = Some y" "split_sites cfg ss y = Some x'" by (auto split: bind_splits)
  from Cons.IH [OF split_site_lists [OF Cons.prems(1) y(1)] y(2)] show ?case by simp
qed simp

text \<open>The transform in its three passes.\<close>

lemma transform_passes:
  assumes "is_suspending fn" and "block_ids cfg c \<noteq> []"
  shows "transform_with_options cfg is_suspending classify live options fn c =
    Option.bind (scan_blocks cfg classify c (block_ids cfg c)) (\<lambda>ss.
    Option.bind (split_sites cfg (sort_key site_key ss) (xform_start c (hd (block_ids cfg c)))) (\<lambda>x.
    let (saves, loads, sl) = lift_sites live (zip (sort_key site_key ss) (zip (x_site_yields x) (x_site_resumes x)))
         \<lparr>sl_map = Map.empty, sl_next = reserved_slots options\<rparr>
    in Some (\<lparr>resume_entries = x_entries x, yield_blocks = x_yields x, yield_saves = saves, resume_loads = loads,
            block_kinds = x_kinds x\<rparr>, x_cfg x)))"
  using assms
  by (cases "block_ids cfg c")
    (simp_all add: transform_with_options_def xform_start_def site_key_def Let_def del: scan_blocks.simps)

lemma transform_Some:
  assumes "transform_with_options cfg is_suspending classify live options fn c = Some (l, c')" and "is_suspending fn"
    and "scan_blocks cfg classify c (block_ids cfg c) = Some ss"
  obtains x saves loads sl where "block_ids cfg c \<noteq> []" "split_sites cfg (sort_key site_key ss) (xform_start c (hd (block_ids cfg c))) = Some x"
    "lift_sites live (zip (sort_key site_key ss) (zip (x_site_yields x) (x_site_resumes x)))
         \<lparr>sl_map = Map.empty, sl_next = reserved_slots options\<rparr> = (saves, loads, sl)"
    "l = \<lparr>resume_entries = x_entries x, yield_blocks = x_yields x, yield_saves = saves, resume_loads = loads,
            block_kinds = x_kinds x\<rparr>" "c' = x_cfg x"
proof -
  have ne: "block_ids cfg c \<noteq> []" using assms by (auto simp: transform_with_options_def)
  from assms(1) obtain x where
    "split_sites cfg (sort_key site_key ss) (xform_start c (hd (block_ids cfg c))) = Some x"
    "(let (saves, loads, sl) = lift_sites live (zip (sort_key site_key ss) (zip (x_site_yields x) (x_site_resumes x)))
         \<lparr>sl_map = Map.empty, sl_next = reserved_slots options\<rparr>
     in Some (\<lparr>resume_entries = x_entries x, yield_blocks = x_yields x, yield_saves = saves, resume_loads = loads,
            block_kinds = x_kinds x\<rparr>, x_cfg x)) = Some (l, c')"
    unfolding transform_passes [where is_suspending = is_suspending and fn = fn, OF assms(2) ne]
    using assms(3) by (auto split: bind_splits simp del: scan_blocks.simps)
  with ne that show thesis by (auto simp: split: prod.splits)
qed

text \<open>
  What the layout records for a site: its yield block is a direct yield, or the first half of a call
  whose second half is the block the state resumes at.
\<close>

definition site_lowered :: "('b \<times> ('b, 'v, 'f) block_kind) list \<Rightarrow> 'b \<Rightarrow> 'b \<Rightarrow> ('b, 'f, 'v) site \<Rightarrow> bool" where
  "site_lowered kinds y r s \<longleftrightarrow>
     (case snd (snd s) of
        DirectYield v \<Rightarrow> map_of kinds y = Some KDirectYield
      | CrossFnCall f rcv as v \<Rightarrow>
          map_of kinds y = Some (CrossFnCallInit r rcv as v f) \<and>
          (\<exists>d. map_of kinds r = Some (CrossFnCallResume d rcv as v f)))"

context split_cfg
begin

lemma split_start:
  assumes "ok c" and "hd (block_ids cfg c) = entry"
  shows "split_shape entry [] [] (xform_start c entry)" and "split_code_ok c [] [] (xform_start c entry)"
  using assms by (auto simp: split_shape_def split_code_ok_def frozen_def xform_start_def)

lemma transform_ok:
  assumes "ok c" and "block_ids cfg c \<noteq> []" and "is_suspending fn"
    and "scan_blocks cfg classify c (block_ids cfg c) = Some ss" and "2 * length ss \<le> room c"
  shows "\<exists>l c' x ts. transform_with_options cfg is_suspending classify live options fn c = Some (l, c') \<and>
    c' = x_cfg x \<and> resume_entries l = x_entries x \<and> yield_blocks l = x_yields x \<and> block_kinds l = x_kinds x \<and>
    split_shape (hd (block_ids cfg c)) (sort_key site_key ss) ts x \<and> split_code_ok c (sort_key site_key ss) ts x \<and>
    sorted_wrt site_less (sort_key site_key ss) \<and> (\<forall>s\<in>set ss. fst s \<in> set (block_ids cfg c))"
proof -
  note sites = scanned_sites [OF assms(4) ids_distinct [OF assms(1)]]
  have in_range: "\<forall>s\<in>set (sort_key site_key ss). fst s \<in> set (block_ids cfg c) \<and> fst (snd s) < length (code c (fst s))"
    using sites(2) count_code [OF assms(1)] by fastforce
  obtain x ts where x: "split_sites cfg (sort_key site_key ss) (xform_start c (hd (block_ids cfg c))) = Some x"
    "split_shape (hd (block_ids cfg c)) (sort_key site_key ss) ts x" "split_code_ok c (sort_key site_key ss) ts x"
    using split_sites_ok [OF split_start [OF assms(1) refl], of "sort_key site_key ss"] sites(1) in_range assms(5) by auto
  obtain saves loads sl where lift: "lift_sites live (zip (sort_key site_key ss) (zip (x_site_yields x) (x_site_resumes x)))
         \<lparr>sl_map = Map.empty, sl_next = reserved_slots options\<rparr> = (saves, loads, sl)" by (rule prod_cases3)
  let ?l = "\<lparr>resume_entries = x_entries x, yield_blocks = x_yields x, yield_saves = saves, resume_loads = loads,
            block_kinds = x_kinds x\<rparr>"
  have "transform_with_options cfg is_suspending classify live options fn c = Some (?l, x_cfg x)"
    by (simp add: transform_passes [where is_suspending = is_suspending and fn = fn, OF assms(3,2)] x(1) lift assms(4)
        del: scan_blocks.simps)
  with x(2,3) sites in_range show ?thesis by (intro exI [of _ ?l] exI [of _ "x_cfg x"] exI [of _ x] exI [of _ ts]) auto
qed

lemma transform_table:
  assumes "ok c" and "block_ids cfg c \<noteq> []" and "is_suspending fn"
    and "scan_blocks cfg classify c (block_ids cfg c) = Some ss" and "2 * length ss \<le> room c"
  shows "\<exists>l c'. transform_with_options cfg is_suspending classify live options fn c = Some (l, c') \<and>
    hd (resume_entries l) = hd (block_ids cfg c) \<and> length (resume_entries l) = Suc (length ss) \<and>
    map snd (yield_blocks l) = map of_nat [1..<Suc (length ss)] \<and>
    distinct (map fst (yield_blocks l)) \<and> distinct (map fst (block_kinds l)) \<and>
    (\<forall>i<length ss. site_lowered (block_kinds l) (fst (yield_blocks l ! i)) (resume_entries l ! Suc i) (sort_key site_key ss ! i))"
proof -
  from transform_ok [where is_suspending = is_suspending and fn = fn and live = live and options = options, OF assms]
  obtain l c' x ts where
    t: "transform_with_options cfg is_suspending classify live options fn c = Some (l, c')"
    and l: "c' = x_cfg x" "resume_entries l = x_entries x" "yield_blocks l = x_yields x" "block_kinds l = x_kinds x"
    and x: "split_shape (hd (block_ids cfg c)) (sort_key site_key ss) ts x" "split_code_ok c (sort_key site_key ss) ts x" by blast
  let ?ps = "sort_key site_key ss"
  have len: "length (x_site_yields x) = length ss" "length (x_site_resumes x) = length ss"
    and ents: "x_entries x = hd (block_ids cfg c) # x_site_resumes x"
    and z: "x_yields x = zip (x_site_yields x) (map of_nat [1..<Suc (length ss)])"
    and kinds: "x_kinds x = concat (map (\<lambda>i. site_kinds (?ps ! i) (x_site_yields x ! i) (x_site_resumes x ! i) (ts ! i)) [0..<length ss])"
    using x(1) by (auto simp: split_shape_def)
  have lens: "length (x_site_yields x) = length (map of_nat [1..<Suc (length ss)] :: u32 list)"
    using len by (simp del: upt_Suc)
  have "map fst (x_yields x) = x_site_yields x" "map snd (x_yields x) = map of_nat [1..<Suc (length ss)]"
    unfolding z using lens by (simp_all only: map_fst_zip map_snd_zip)
  moreover have dist: "distinct (x_site_yields x)" "distinct (map fst (x_kinds x))"
    using x(2) by (auto simp: split_code_ok_def)
  moreover have "site_lowered (x_kinds x) (x_site_yields x ! i) (x_site_resumes x ! i) (?ps ! i)" if i: "i < length ss" for i
  proof -
    obtain bb idx k where s: "?ps ! i = (bb, idx, k)" by (cases "?ps ! i")
    have sub: "set (site_kinds (?ps ! i) (x_site_yields x ! i) (x_site_resumes x ! i) (ts ! i)) \<subseteq> set (x_kinds x)"
      using i unfolding kinds by auto
    show ?thesis
      using sub dist(2) s by (cases k) (auto simp: site_lowered_def)
  qed
  moreover have "fst (x_yields x ! i) = x_site_yields x ! i" if "i < length ss" for i
    using that len calculation(1) by (metis length_map nth_map)
  ultimately have "hd (resume_entries l) = hd (block_ids cfg c) \<and> length (resume_entries l) = Suc (length ss) \<and>
    map snd (yield_blocks l) = map of_nat [1..<Suc (length ss)] \<and>
    distinct (map fst (yield_blocks l)) \<and> distinct (map fst (block_kinds l)) \<and>
    (\<forall>i<length ss. site_lowered (block_kinds l) (fst (yield_blocks l ! i)) (resume_entries l ! Suc i) (?ps ! i))"
    using l ents len by (simp del: upt_Suc)
  with t show ?thesis by blast
qed

lemma transform_polls:
  assumes "ok c" and "block_ids cfg c \<noteq> []" and "is_suspending fn"
    and "scan_blocks cfg classify c (block_ids cfg c) = Some ss" and "2 * length ss \<le> room c" and "length ss < 2 ^ 32"
  shows "\<exists>l c'. transform_with_options cfg is_suspending classify live options fn c = Some (l, c') \<and> ok c' \<and>
    (\<forall>b\<in>set (block_ids cfg c). polled_code l (code c') (Suc (length ss)) b = code c b)"
proof -
  from transform_ok [where is_suspending = is_suspending and fn = fn and live = live and options = options, OF assms(1-5)] obtain l c' x ts where
    t: "transform_with_options cfg is_suspending classify live options fn c = Some (l, c')"
    and l: "c' = x_cfg x" "resume_entries l = x_entries x" "yield_blocks l = x_yields x" "block_kinds l = x_kinds x"
    and x: "split_shape (hd (block_ids cfg c)) (sort_key site_key ss) ts x" "split_code_ok c (sort_key site_key ss) ts x"
    and sites: "sorted_wrt site_less (sort_key site_key ss)" "\<forall>s\<in>set ss. fst s \<in> set (block_ids cfg c)" by blast
  let ?ps = "sort_key site_key ss"
  have len: "length ?ps < 2 ^ 32" "length ?ps = length ss" using assms(6) by simp_all
  have "\<forall>s\<in>set ?ps. fst s \<in> set (block_ids cfg c)" using sites(2) by simp
  note at = polled_from_site [OF x len(1) _ _ l(3,2,4) this sites(1)]
  have ys: "\<forall>j<length ?ps. x_site_yields x ! j = (if 0 < j \<and> fst (?ps ! (j - 1)) = fst (?ps ! j) then ts ! (j - 1) else fst (?ps ! j))"
    "length ts = length ?ps"
    using x(1) by (auto simp: split_shape_def)
  have "polled_code l (code c') (Suc (length ss)) b = code c b" if b: "b \<in> set (block_ids cfg c)" for b
  proof (cases "map_of (x_yields x) b")
    case None
    have "b \<notin> fst ` set ?ps"
    proof
      assume "b \<in> fst ` set ?ps"
      then obtain i where "i < length ?ps" "fst (?ps ! i) = b" by (metis imageE in_set_conv_nth)
      then have ex: "\<exists>i. i < length ?ps \<and> fst (?ps ! i) = b" by blast
      define i where "i = (LEAST i. i < length ?ps \<and> fst (?ps ! i) = b)"
      have i: "i < length ?ps" "fst (?ps ! i) = b" using LeastI_ex [OF ex] by (auto simp: i_def)
      have "\<not> (0 < i \<and> fst (?ps ! (i - 1)) = fst (?ps ! i))"
      proof
        assume *: "0 < i \<and> fst (?ps ! (i - 1)) = fst (?ps ! i)"
        then have "i \<le> i - 1" using i unfolding i_def by (intro Least_le) auto
        with * show False by linarith
      qed
      then have "x_site_yields x ! i = b" using ys(1) i by auto
      with yields_keys [OF x i(1)] None show False by simp
    qed
    with b x(2) have "code (x_cfg x) b = code c b" by (auto simp: split_code_ok_def)
    with None l show ?thesis by simp
  next
    case (Some st)
    then obtain i where i: "i < length ?ps" "b = x_site_yields x ! i" using yields_range [OF x(1)] by blast
    have "fst (?ps ! i) = b \<and> seg_start ?ps i = 0"
    proof (cases "0 < i \<and> fst (?ps ! (i - 1)) = fst (?ps ! i)")
      case True
      then have "b = ts ! (i - 1)" using ys(1) i by simp
      then have "b \<in> set ts" using i(1) ys(2) by simp
      with b x(2) show ?thesis by (auto simp: split_code_ok_def)
    next
      case False
      with ys(1) i show ?thesis by (auto simp: seg_start_def)
    qed
    with at [OF i(1), of "length ss"] i len l(1) show ?thesis by simp
  qed
  moreover have "ok c'" using x(2) l(1) by (simp add: split_code_ok_def)
  ultimately show ?thesis using t by blast
qed

end

section \<open>Properties\<close>

text \<open>The values live at some site, the sites in the order of their states.\<close>

definition live_values :: "('b, 'v) liveness_map \<Rightarrow> ('b, 'f, 'v) site list \<Rightarrow> 'v set" where
  "live_values live ss = (\<Union>s\<in>set ss. set (live_at live s))"

lemma captures:
  fixes l :: "('b::linorder, 'v, 'f) layout" and c :: 'c and ss :: "('b, 'f, 'v) site list"
  assumes "transform_with_options cfg is_suspending classify live options fn c = Some (l, c')" and "is_suspending fn"
    and "scan_blocks cfg classify c (block_ids cfg c) = Some ss"
    and "unat (reserved_slots options) + card (live_values live ss) \<le> 2 ^ 32"
  shows "\<exists>\<sigma>. inj_on \<sigma> (live_values live ss) \<and>
      (\<forall>v\<in>live_values live ss. reserved_slots options \<le> \<sigma> v \<and>
         unat (\<sigma> v) < unat (reserved_slots options) + card (live_values live ss)) \<and>
      length (yield_blocks l) = length ss \<and> length (resume_entries l) = Suc (length ss) \<and>
      yield_saves l = slot_table \<sigma> live (zip (sort_key site_key ss) (map fst (yield_blocks l))) \<and>
      resume_loads l = slot_table \<sigma> live (zip (sort_key site_key ss) (tl (resume_entries l)))"
proof -
  from transform_Some [OF assms(1-3)] obtain x saves loads sl where
    x: "split_sites cfg (sort_key site_key ss) (xform_start c (hd (block_ids cfg c))) = Some x"
    and lift: "lift_sites live (zip (sort_key site_key ss) (zip (x_site_yields x) (x_site_resumes x)))
         \<lparr>sl_map = Map.empty, sl_next = reserved_slots options\<rparr> = (saves, loads, sl)"
    and l: "l = \<lparr>resume_entries = x_entries x, yield_blocks = x_yields x, yield_saves = saves, resume_loads = loads,
            block_kinds = x_kinds x\<rparr>"
    by (rule transform_Some [OF assms(1-3)]) (erule (2) that)
  let ?ps = "sort_key site_key ss" and ?sl = "\<lparr>sl_map = Map.empty, sl_next = reserved_slots options\<rparr> :: 'v slots"
  have "site_lists (hd (block_ids cfg c)) 0 (xform_start c (hd (block_ids cfg c)))"
    by (simp add: site_lists_def xform_start_def)
  from split_sites_lists [OF this x] have len: "length (x_site_yields x) = length ss" "length (x_site_resumes x) = length ss"
    "x_entries x = hd (block_ids cfg c) # x_site_resumes x" "map fst (x_yields x) = x_site_yields x"
    by (simp_all add: site_lists_def)
  have zips: "map fst (zip ?ps (zip (x_site_yields x) (x_site_resumes x))) = ?ps"
    "map (\<lambda>(s, y, r). (s, y)) (zip ?ps (zip (x_site_yields x) (x_site_resumes x))) = zip ?ps (x_site_yields x)"
    "map (\<lambda>(s, y, r). (s, r)) (zip ?ps (zip (x_site_yields x) (x_site_resumes x))) = zip ?ps (x_site_resumes x)"
    using len by (auto intro!: nth_equalityI)
  have "(\<Union>x\<in>set (zip ?ps (zip (x_site_yields x) (x_site_resumes x))). set (live_at live (fst x))) = live_values live ss"
  proof -
    have "fst ` set (zip ?ps (zip (x_site_yields x) (x_site_resumes x))) = set ss"
      using zips(1) by (metis set_map set_sort)
    moreover have "(\<Union>x\<in>A. set (live_at live (fst x))) = (\<Union>s\<in>fst ` A. set (live_at live s))"
      for A :: "(('b, 'f, 'v) site \<times> 'b \<times> 'b) set" by (simp only: image_image)
    ultimately show ?thesis by (simp only: live_values_def)
  qed
  with lift_sites_spec [OF lift] zips have spec: "dom (sl_map sl) = live_values live ss"
    "saves = slot_table (\<lambda>v. the (sl_map sl v)) live (zip ?ps (x_site_yields x))"
    "loads = slot_table (\<lambda>v. the (sl_map sl v)) live (zip ?ps (x_site_resumes x))" by simp_all
  have "slots_rep (reserved_slots options) ?sl"
    unfolding slots_rep_def by (intro exI [of _ "[]"]) simp
  from lift_sites_rep [OF this, of live "zip ?ps (zip (x_site_yields x) (x_site_resumes x))"] lift
  have rep: "slots_rep (reserved_slots options) sl" by simp
  note slots = slots_rep_injective [OF rep, unfolded spec(1), OF assms(4)]
  have "length (x_yields x) = length ss" using len(1,4) by (metis length_map)
  then show ?thesis
    using slots spec len l by (intro exI [of _ "\<lambda>v. the (sl_map sl v)"]) (auto simp: inj_on_def)
qed

lemma set_slot_table:
  assumes "length bs = length ss"
  shows "set (table_slots (slot_table \<sigma> live (zip ss bs))) = \<sigma> ` live_values live ss"
  using assms by (induction ss bs rule: list_induct2') (auto simp: table_slots_def live_values_def image_iff)

lemma slot_table_ball:
  "(\<forall>(b, es)\<in>set (slot_table \<sigma> live xs). Q (map fst es)) \<longleftrightarrow>
     (\<forall>(s, b)\<in>set xs. live_at live s \<noteq> [] \<longrightarrow> Q (map \<sigma> (live_at live s)))"
proof (induction xs)
  case (Cons x xs)
  moreover have "map fst (map (\<lambda>v. (\<sigma> v, v)) vs) = map \<sigma> vs" for vs by simp
  ultimately show ?case by (cases x) (simp del: map_map)
qed simp

text \<open>
  C8: captures. A transform that returns gives every value that is live at some site its own slot, in
  the range that starts after the reserved slots; the block of each site saves, and the block it
  resumes at loads, exactly the values live at the site, each in its slot.
\<close>

theorem transform_captures:
  assumes "transform_with_options cfg is_suspending classify live options fn c = Some (l, c')" and "is_suspending fn"
    and "scan_blocks cfg classify c (block_ids cfg c) = Some ss"
    and "unat (reserved_slots options) + card (live_values live ss) < 2 ^ 32"
  shows "\<exists>\<sigma>. inj_on \<sigma> (live_values live ss) \<and>
      (\<forall>v\<in>live_values live ss. reserved_slots options \<le> \<sigma> v \<and>
         unat (\<sigma> v) < unat (reserved_slots options) + card (live_values live ss)) \<and>
      length (yield_blocks l) = length ss \<and> length (resume_entries l) = Suc (length ss) \<and>
      yield_saves l = slot_table \<sigma> live (zip (sort_key site_key ss) (map fst (yield_blocks l))) \<and>
      resume_loads l = slot_table \<sigma> live (zip (sort_key site_key ss) (tl (resume_entries l)))"
  using captures [OF assms(1-3)] assms(4) by simp

text \<open>
  The audit accepts what the transform makes of a suspending function, with the first slot past the captures as the
  bound, unless the host's liveness names a value twice at one site.
\<close>

lemma suspending_validates:
  fixes l :: "('b::linorder, 'v, 'f) layout" and c :: 'c
  assumes "transform_with_options cfg is_suspending classify live options fn c = Some (l, c')" and "is_suspending fn"
    and "scan_blocks cfg classify c (block_ids cfg c) = Some ss"
    and "unat (reserved_slots options) + card (live_values live ss) < 2 ^ 32"
  shows "validate_layout l (reserved_slots options + of_nat (card (live_values live ss))) = Inr () \<longleftrightarrow>
    (\<forall>s\<in>set ss. distinct (live_at live s))"
proof -
  have "unat (reserved_slots options) + card (live_values live ss) \<le> 2 ^ 32" using assms(4) by simp
  from captures [OF assms(1-3) this] obtain \<sigma> where \<sigma>: "inj_on \<sigma> (live_values live ss)"
      "\<forall>v\<in>live_values live ss. unat (\<sigma> v) < unat (reserved_slots options) + card (live_values live ss)"
      "length (yield_blocks l) = length ss" "length (resume_entries l) = Suc (length ss)"
      "yield_saves l = slot_table \<sigma> live (zip (sort_key site_key ss) (map fst (yield_blocks l)))"
      "resume_loads l = slot_table \<sigma> live (zip (sort_key site_key ss) (tl (resume_entries l)))" by blast
  let ?n = "reserved_slots options + of_nat (card (live_values live ss))" and ?ps = "sort_key site_key ss"
  have n: "unat ?n = unat (reserved_slots options) + card (live_values live ss)"
    using assms(4) by (metis of_nat_add u32_of_unat unat_of_nat_u32)
  have sub: "set (live_at live s) \<subseteq> live_values live ss" if "s \<in> set ss" for s
    using that by (auto simp: live_values_def)
  have small: "\<sigma> v < ?n" if "s \<in> set ss" "v \<in> set (live_at live s)" for s v
    using sub [OF that(1)] that(2) \<sigma>(2) n by (auto simp: word_less_nat_alt)
  have dist: "distinct (map \<sigma> (live_at live s)) \<longleftrightarrow> distinct (live_at live s)" if "s \<in> set ss" for s
    using inj_on_subset [OF \<sigma>(1) sub [OF that]] by (auto simp: distinct_map)
  have same: "set (table_slots (yield_saves l)) = set (table_slots (resume_loads l))"
    using \<sigma>(3-6) by (simp add: set_slot_table)
  have entries: "(\<forall>(b, es)\<in>set (slot_table \<sigma> live (zip ?ps bs)). distinct (map fst es) \<and> (\<forall>s\<in>fst ` set es. s < ?n)) \<longleftrightarrow>
      (\<forall>s\<in>set ss. distinct (live_at live s))" if "length bs = length ss" for bs :: "'b list"
  proof -
    have "(\<forall>(b, es)\<in>set (slot_table \<sigma> live (zip ?ps bs)). distinct (map fst es) \<and> (\<forall>s\<in>fst ` set es. s < ?n)) \<longleftrightarrow>
        (\<forall>(s, b)\<in>set (zip ?ps bs). live_at live s \<noteq> [] \<longrightarrow>
           distinct (map \<sigma> (live_at live s)) \<and> (\<forall>v\<in>set (live_at live s). \<sigma> v < ?n))"
      using slot_table_ball [of \<sigma> live "zip ?ps bs" "\<lambda>xs. distinct xs \<and> (\<forall>s\<in>set xs. s < ?n)"] by simp
    also have "\<dots> \<longleftrightarrow> (\<forall>(s, b)\<in>set (zip ?ps bs). distinct (live_at live s))"
    proof -
      have "s \<in> set ss" if "(s, b) \<in> set (zip ?ps bs)" for s b using set_zip_leftD [OF that] by simp
      then show ?thesis using small dist by fastforce
    qed
    also have "\<dots> \<longleftrightarrow> (\<forall>s\<in>fst ` set (zip ?ps bs). distinct (live_at live s))" by auto
    also have "fst ` set (zip ?ps bs) = set ss"
      using that by (metis length_sort map_fst_zip set_map set_sort)
    finally show ?thesis .
  qed
  have "length (map fst (yield_blocks l)) = length ss" "length (tl (resume_entries l)) = length ss" using \<sigma>(3,4) by simp_all
  note e = entries [OF this(1)] entries [OF this(2)]
  show ?thesis unfolding validate_Inr ball_Un using e \<sigma>(3-6) same by simp
qed

text \<open>
  C3: the transform keeps the program. On a body with room for the new blocks it returns, and for
  every block of the original the statements the host runs over the polls that start there are the
  block's original statements, in their order, none lost or run twice.
\<close>

theorem transform_keeps_statements:
  assumes "toy_ok c" and "tb_blocks c \<noteq> []" and "is_suspending fn"
    and "scan_blocks toy_cfg classify c (block_ids toy_cfg c) = Some ss" and "2 * length ss \<le> toy_room c"
  shows "\<exists>l c'. transform_with_options toy_cfg is_suspending classify live options fn c = Some (l, c') \<and> toy_ok c' \<and>
    (\<forall>b\<in>set (block_ids toy_cfg c). polled_code l (toy_code c') (Suc (length ss)) b = toy_code c b)"
proof -
  have "length ss < 2 ^ 32" using assms(5) by (simp add: toy_room_def)
  moreover have "block_ids toy_cfg c \<noteq> []" using assms(2) by (simp add: toy_cfg_def)
  ultimately show ?thesis using toy.transform_polls [where is_suspending = is_suspending and fn = fn] assms by blast
qed

text \<open>
  C10: when the audit accepts what the transform makes, with the first slot past the captures as the bound: the layout
  of a suspending function unless the host's liveness names a value twice at one site, and the empty layout of
  a function that does not suspend never, at any bound: it has no entry for its state 0.
\<close>

theorem transform_validates:
  fixes l :: "('b::linorder, 'v, 'f) layout" and c :: 'c
  assumes "transform_with_options cfg is_suspending classify live options fn c = Some (l, c')"
    and "scan_blocks cfg classify c (block_ids cfg c) = Some ss"
    and "unat (reserved_slots options) + card (live_values live ss) < 2 ^ 32"
  shows "if is_suspending fn
    then validate_layout l (reserved_slots options + of_nat (card (live_values live ss))) = Inr () \<longleftrightarrow>
      (\<forall>s\<in>set ss. distinct (live_at live s))
    else \<forall>n. validate_layout l n = Inl (EntryCountMismatch 0 0)"
proof (cases "is_suspending fn")
  case True
  with suspending_validates [OF assms(1) True assms(2,3)] show ?thesis by simp
next
  case False
  with assms(1) show ?thesis by (auto simp: transform_with_options_def validate_layout_def)
qed

text \<open>
  C9: the layout. State 0 enters at the original entry block; the sites get the states 1, 2, \<dots> in the
  order of their original positions, each a yield block of its own, and the block of a cross-function
  call names the resume block of its state.
\<close>

theorem transform_layout:
  assumes "toy_ok c" and "tb_blocks c \<noteq> []" and "is_suspending fn"
    and "scan_blocks toy_cfg classify c (block_ids toy_cfg c) = Some ss" and "2 * length ss \<le> toy_room c"
  shows "\<exists>l c'. transform_with_options toy_cfg is_suspending classify live options fn c = Some (l, c') \<and>
    hd (resume_entries l) = 0 \<and> length (resume_entries l) = Suc (length ss) \<and>
    map snd (yield_blocks l) = map of_nat [1..<Suc (length ss)] \<and>
    distinct (map fst (yield_blocks l)) \<and> distinct (map fst (block_kinds l)) \<and>
    (\<forall>i<length ss. site_lowered (block_kinds l) (fst (yield_blocks l ! i)) (resume_entries l ! Suc i) (sort_key site_key ss ! i))"
proof -
  have "block_ids toy_cfg c \<noteq> []" using assms(2) by (simp add: toy_cfg_def)
  moreover have "hd (block_ids toy_cfg c) = 0" using assms(2) by (simp add: toy_cfg_def hd_map hd_upt)
  ultimately show ?thesis
    using toy.transform_table [where is_suspending = is_suspending and fn = fn] assms by metis
qed

section \<open>Witnesses\<close>

text \<open>A function with a yield, a call of a suspending function and a plain call in one block.\<close>

definition demo_body :: toy_body where
  "demo_body = \<lparr>tb_blocks = [([TMarker MYield, User ''f'', User ''g''], Goto 1), ([TMarker MYield, User ''h''], Return)],
     tb_locals = [I64Mut, I64Mut]\<rparr>"

definition demo_classify :: "toy_body \<Rightarrow> u32 \<Rightarrow> nat \<Rightarrow> (string, u32) suspension_site option option" where
  "demo_classify c bb idx = do {
     (stmts, term) \<leftarrow> toy_block c bb;
     stmt \<leftarrow> get_nth idx stmts;
     Some (case stmt of TMarker MYield \<Rightarrow> Some (DirectYield None)
       | User n \<Rightarrow> (if n = ''f'' then Some (CrossFnCall n None [] 1) else None)
       | _ \<Rightarrow> None) }"

definition demo_live :: "(u32, u32) liveness_map" where
  "demo_live = liveness_record 0 1 [0] (liveness_record 1 0 [1, 0] liveness_new)"

definition demo_sites :: "(u32, string, u32) site list" where
  "demo_sites = [(0, 0, DirectYield None), (0, 1, CrossFnCall ''f'' None [] 1), (1, 0, DirectYield None)]"

lemma demo_scan: "scan_blocks toy_cfg demo_classify demo_body (block_ids toy_cfg demo_body) = Some demo_sites"
  by code_simp

lemma demo_ok: "toy_ok demo_body" "tb_blocks demo_body \<noteq> []" "2 * length demo_sites \<le> toy_room demo_body"
  by (simp_all add: toy_ok_def demo_body_def demo_sites_def toy_room_def)

lemma demo_values: "live_values demo_live demo_sites = {0, 1}"
  by (auto simp: live_values_def demo_sites_def live_at_def liveness_lookup_def demo_live_def liveness_record_def
      liveness_new_def)

lemma demo_distinct: "\<forall>s\<in>set demo_sites. distinct (live_at demo_live s)"
  by (simp add: demo_sites_def live_at_def liveness_lookup_def demo_live_def liveness_record_def liveness_new_def)

definition demo_options :: transform_options where
  "demo_options = \<lparr>reserved_slots = 2\<rparr>"

lemma demo_transform:
  obtains l c' where "transform_with_options toy_cfg (\<lambda>_. True) demo_classify demo_live demo_options ''main'' demo_body = Some (l, c')"
proof -
  have "transform_with_options toy_cfg (\<lambda>_. True) demo_classify demo_live demo_options ''main'' demo_body \<noteq> None"
    by code_simp
  then show thesis using that by fastforce
qed

theorem transform_keeps_statements_witness:
  "\<exists>l c'. transform_with_options toy_cfg (\<lambda>_. True) demo_classify demo_live demo_options ''main'' demo_body = Some (l, c') \<and>
     toy_ok c' \<and> polled_code l (toy_code c') 4 0 = [TMarker MYield, User ''f'', User ''g'']"
proof -
  from transform_keeps_statements [OF demo_ok(1,2) _ demo_scan demo_ok(3), of "\<lambda>_. True" "''main''" demo_live demo_options]
  obtain l c' where *: "transform_with_options toy_cfg (\<lambda>_. True) demo_classify demo_live demo_options ''main'' demo_body = Some (l, c')"
    "toy_ok c'" "\<forall>b\<in>set (block_ids toy_cfg demo_body). polled_code l (toy_code c') (Suc (length demo_sites)) b = toy_code demo_body b"
    by blast
  have "0 \<in> set (block_ids toy_cfg demo_body)" by (simp add: toy_cfg_def demo_body_def)
  then have "polled_code l (toy_code c') 4 0 = [TMarker MYield, User ''f'', User ''g'']"
    using *(3) by (auto simp: demo_sites_def toy_code_def demo_body_def numeral_eq_Suc)
  with * show ?thesis by blast
qed

theorem transform_layout_witness:
  "\<exists>l c'. transform_with_options toy_cfg (\<lambda>_. True) demo_classify demo_live demo_options ''main'' demo_body = Some (l, c') \<and>
     map snd (yield_blocks l) = [1, 2, 3] \<and> distinct (map fst (block_kinds l))"
proof -
  from transform_layout [OF demo_ok(1,2) _ demo_scan demo_ok(3), of "\<lambda>_. True" "''main''" demo_live demo_options]
  obtain l c' where "transform_with_options toy_cfg (\<lambda>_. True) demo_classify demo_live demo_options ''main'' demo_body = Some (l, c')"
    "map snd (yield_blocks l) = map of_nat [1..<Suc (length demo_sites)]" "distinct (map fst (block_kinds l))" by blast
  moreover have "map of_nat [1..<Suc (length demo_sites)] = [1, 2, 3 :: u32]" by (simp add: demo_sites_def)
  ultimately show ?thesis by auto
qed

theorem transform_captures_witness:
  "\<exists>l c'. transform_with_options toy_cfg (\<lambda>_. True) demo_classify demo_live demo_options ''main'' demo_body = Some (l, c') \<and>
     length (resume_entries l) = 4 \<and> (\<exists>\<sigma>. inj_on \<sigma> {0, 1} \<and> 2 \<le> \<sigma> 0 \<and> 2 \<le> \<sigma> (1 :: u32) \<and>
       yield_saves l = slot_table \<sigma> demo_live (zip demo_sites (map fst (yield_blocks l))))"
proof -
  obtain l c' where t: "transform_with_options toy_cfg (\<lambda>_. True) demo_classify demo_live demo_options ''main'' demo_body = Some (l, c')"
    by (rule demo_transform)
  have room: "unat (reserved_slots demo_options) + card (live_values demo_live demo_sites) < 2 ^ 32"
    by (simp add: demo_values demo_options_def)
  have sorted: "sort_key site_key demo_sites = demo_sites" by code_simp
  from transform_captures [OF t _ demo_scan room] show ?thesis
    using t unfolding demo_values sorted by (auto simp: demo_sites_def demo_options_def)
qed

theorem transform_validates_witness:
  "\<exists>l c'. transform_with_options toy_cfg (\<lambda>_. True) demo_classify demo_live demo_options ''main'' demo_body = Some (l, c') \<and>
     validate_layout l 4 = Inr ()"
proof -
  obtain l c' where t: "transform_with_options toy_cfg (\<lambda>_. True) demo_classify demo_live demo_options ''main'' demo_body = Some (l, c')"
    by (rule demo_transform)
  have room: "unat (reserved_slots demo_options) + card (live_values demo_live demo_sites) < 2 ^ 32"
    by (simp add: demo_values demo_options_def)
  have four: "reserved_slots demo_options + of_nat (card (live_values demo_live demo_sites)) = 4"
    by (simp add: demo_values demo_options_def)
  from transform_validates [OF t demo_scan room] demo_distinct have "validate_layout l 4 = Inr ()"
    unfolding four by simp
  with t show ?thesis by blast
qed

end
