(* ===== verification/Krio_Stackless.thy ===== *)
theory Krio_Stackless
  imports Krio_Cfg
begin

text \<open>
  \<open>crates/krio-stackless/src/lib.rs\<close>: discovery of regions and of suspension points, and the state
  machine built for each coroutine. The body of the host is threaded through every operation; \<open>None\<close>
  is a panic of a host method or, for the two loops, not returning.
\<close>

section \<open>Data\<close>

definition DONE_STATE :: int where
  "DONE_STATE = 9999"

definition POLL_READY :: int where
  "POLL_READY = 0"

definition POLL_PENDING :: int where
  "POLL_PENDING = 1"

definition POLL_BLOCKED :: int where
  "POLL_BLOCKED = 2"

record 'b coroutine =
  co_begin :: "'b \<times> nat"
  co_end :: "'b \<times> nat"
  co_priority :: "u32 option"

record 'b region =
  region_begin :: "'b \<times> nat"
  region_end :: "'b \<times> nat"
  coroutines :: "'b coroutine list"

record ('b, 'l) machine =
  state_local :: 'l
  poll_result_local :: 'l
  progress_local :: 'l
  dispatch_bb :: 'b
  exit_bb :: 'b

datatype susp_kind = SYield | SGuardedRecv | SProducingSend

section \<open>Regions\<close>

text \<open>The variables of the scan: finished regions, the open region, its coroutines, the open one.\<close>

record 'b scan =
  sc_regions :: "'b region list"
  sc_region :: "('b \<times> nat) option"
  sc_coroutines :: "'b coroutine list"
  sc_begin :: "('b \<times> nat) option"
  sc_priority :: "u32 option"

definition scan_new :: "'b scan" where
  "scan_new = \<lparr>sc_regions = [], sc_region = None, sc_coroutines = [], sc_begin = None, sc_priority = None\<rparr>"

fun scan_marker :: "'b \<times> nat \<Rightarrow> u32 option \<Rightarrow> marker option \<Rightarrow> 'b scan \<Rightarrow> 'b scan" where
  "scan_marker p prio (Some RegionBegin) s = s\<lparr>sc_region := Some p, sc_coroutines := []\<rparr>"
| "scan_marker p prio (Some RegionEnd) s =
     (case sc_region s of
        None \<Rightarrow> s
      | Some q \<Rightarrow> s\<lparr>sc_region := None, sc_coroutines := [],
          sc_regions := sc_regions s @ [\<lparr>region_begin = q, region_end = p, coroutines = sc_coroutines s\<rparr>]\<rparr>)"
| "scan_marker p prio (Some CoroutineBegin) s = s\<lparr>sc_begin := Some p, sc_priority := prio\<rparr>"
| "scan_marker p prio (Some CoroutineEnd) s =
     (case sc_begin s of
        None \<Rightarrow> s
      | Some q \<Rightarrow> s\<lparr>sc_begin := None, sc_priority := None,
          sc_coroutines := sc_coroutines s @ [\<lparr>co_begin = q, co_end = p, co_priority = sc_priority s\<rparr>]\<rparr>)"
| "scan_marker p prio _ s = s"

fun scan_statements :: "('c, 'b, 'l) coro_hooks \<Rightarrow> 'c \<Rightarrow> 'b \<Rightarrow> nat list \<Rightarrow> 'b scan \<Rightarrow> 'b scan option" where
  "scan_statements hooks c bb [] s = Some s"
| "scan_statements hooks c bb (idx # idxs) s = do {
     m \<leftarrow> classify_marker hooks c bb idx;
     scan_statements hooks c bb idxs (scan_marker (bb, idx) (coroutine_priority hooks c bb idx) m s) }"

fun scan_body :: "('c, 'b, 'l) coro_cfg \<Rightarrow> ('c, 'b, 'l) coro_hooks \<Rightarrow> 'c \<Rightarrow> 'b list \<Rightarrow> 'b scan \<Rightarrow> 'b scan option" where
  "scan_body cfg hooks c [] s = Some s"
| "scan_body cfg hooks c (bb # bbs) s = do {
     n \<leftarrow> statement_count cfg c bb;
     s \<leftarrow> scan_statements hooks c bb [0..<n] s;
     scan_body cfg hooks c bbs s }"

definition find_regions :: "('c, 'b, 'l) coro_cfg \<Rightarrow> ('c, 'b, 'l) coro_hooks \<Rightarrow> 'c \<Rightarrow> 'b region list option" where
  "find_regions cfg hooks c = do {
     s \<leftarrow> scan_body cfg hooks c (block_ids cfg c) scan_new;
     Some (sc_regions s) }"

section \<open>Suspension points\<close>

text \<open>The successors not seen before are appended to the body and pushed; the head is the stack's top.\<close>

fun push_successors :: "'b list \<Rightarrow> 'b list \<Rightarrow> 'b list \<Rightarrow> 'b list \<times> 'b list" where
  "push_successors [] body stack = (body, stack)"
| "push_successors (s # ss) body stack =
     (if s \<in> set body then push_successors ss body stack else push_successors ss (body @ [s]) (s # stack))"

partial_function (option) collect_body ::
  "('c, 'b, 'l) coro_cfg \<Rightarrow> 'c \<Rightarrow> 'b \<Rightarrow> 'b list \<Rightarrow> 'b list \<Rightarrow> 'b list option" where
  "collect_body cfg c end_bb body stack =
     (case stack of
        [] \<Rightarrow> Some body
      | bb # rest \<Rightarrow>
          (if bb = end_bb then collect_body cfg c end_bb body rest
           else Option.bind (successors cfg c bb) (\<lambda>succs.
             let (body', stack') = push_successors succs body rest in collect_body cfg c end_bb body' stack')))"

fun points_in :: "('c, 'b, 'l) coro_hooks \<Rightarrow> 'c \<Rightarrow> 'b \<Rightarrow> nat list \<Rightarrow> ('b \<times> nat \<times> susp_kind) list option" where
  "points_in hooks c bb [] = Some []"
| "points_in hooks c bb (idx # idxs) = do {
     m \<leftarrow> classify_marker hooks c bb idx;
     ps \<leftarrow> points_in hooks c bb idxs;
     Some (case m of
         Some MYield \<Rightarrow> (bb, idx, SYield) # ps
       | Some GuardedRecv \<Rightarrow> (bb, idx, SGuardedRecv) # ps
       | Some ProducingSend \<Rightarrow> (bb, idx, SProducingSend) # ps
       | _ \<Rightarrow> ps) }"

fun points_of_blocks :: "('c, 'b, 'l) coro_cfg \<Rightarrow> ('c, 'b, 'l) coro_hooks \<Rightarrow> 'b coroutine \<Rightarrow> 'c \<Rightarrow> 'b list \<Rightarrow>
    ('b \<times> nat \<times> susp_kind) list option" where
  "points_of_blocks cfg hooks co c [] = Some []"
| "points_of_blocks cfg hooks co c (bb # bbs) = do {
     let first = (if bb = fst (co_begin co) then snd (co_begin co) + 1 else 0);
     last \<leftarrow> (if bb = fst (co_end co) then Some (snd (co_end co)) else statement_count cfg c bb);
     ps \<leftarrow> points_in hooks c bb [first..<last];
     qs \<leftarrow> points_of_blocks cfg hooks co c bbs;
     Some (ps @ qs) }"

definition find_suspension_points :: "('c, 'b::linorder, 'l) coro_cfg \<Rightarrow> ('c, 'b, 'l) coro_hooks \<Rightarrow> 'c \<Rightarrow> 'b coroutine \<Rightarrow>
    ('b \<times> nat \<times> susp_kind) list option" where
  "find_suspension_points cfg hooks c co = do {
     body \<leftarrow> collect_body cfg c (fst (co_end co)) [fst (co_begin co)] [fst (co_begin co)];
     points_of_blocks cfg hooks co c (sort body) }"

section \<open>State machines\<close>

text \<open>\<open>local = value\<close>, \<open>local = value\<close>, \<open>goto target\<close>: the yield, blocked and done blocks.\<close>

definition emit_pair :: "('c, 'b, 'l) coro_cfg \<Rightarrow> 'b \<Rightarrow> 'l \<Rightarrow> int \<Rightarrow> 'l \<Rightarrow> int \<Rightarrow> 'b \<Rightarrow> 'c \<Rightarrow> 'c option" where
  "emit_pair cfg bb l1 v1 l2 v2 target c = do {
     c \<leftarrow> emit_assign_i64 cfg bb l1 v1 c;
     c \<leftarrow> emit_assign_i64 cfg bb l2 v2 c;
     set_goto cfg bb target c }"

definition emit_no_suspension_machine ::
  "('c, 'b, 'l) coro_cfg \<Rightarrow> 'b coroutine \<Rightarrow> 'l \<Rightarrow> 'l \<Rightarrow> 'b \<Rightarrow> 'b \<Rightarrow> 'c \<Rightarrow> 'c option" where
  "emit_no_suspension_machine cfg co state poll dispatch exit c = do {
     let (done_bb, c) = new_block cfg c;
     c \<leftarrow> emit_pair cfg done_bb poll POLL_READY state DONE_STATE exit c;
     let (check_done, c) = new_bool_local cfg c;
     c \<leftarrow> emit_eq_check_i64 cfg dispatch check_done state DONE_STATE c;
     c \<leftarrow> set_branch cfg dispatch check_done exit (fst (co_begin co)) c;
     set_goto cfg (fst (co_end co)) done_bb c }"

text \<open>One suspension: its yield block, then the block its state resumes at.\<close>

definition emit_suspension :: "('c, 'b, 'l) coro_cfg \<Rightarrow> ('c, 'b, 'l) coro_hooks \<Rightarrow> 'l \<Rightarrow> 'l \<Rightarrow> 'l \<Rightarrow> 'b \<Rightarrow> int \<Rightarrow>
    'b \<times> nat \<times> susp_kind \<Rightarrow> 'c \<Rightarrow> ('b \<times> 'c) option" where
  "emit_suspension cfg hooks state poll progress exit state_id = (\<lambda>(susp_bb, susp_stmt, kind) c. do {
     let (yield_bb, c) = new_block cfg c;
     c \<leftarrow> emit_pair cfg yield_bb state state_id poll POLL_PENDING exit c;
     case kind of
       SGuardedRecv \<Rightarrow> do {
         (guard_bb, c) \<leftarrow>
           (if susp_stmt = 0 then Some (susp_bb, c)
            else do {
              (guard_bb, c) \<leftarrow> split_after cfg susp_bb (susp_stmt - 1) c;
              c \<leftarrow> set_goto cfg susp_bb guard_bb c;
              Some (guard_bb, c) });
         (resume_bb, c) \<leftarrow> split_after cfg guard_bb 0 c;
         (is_ready, c) \<leftarrow> emit_guarded_recv_peek hooks guard_bb 0 resume_bb c;
         c \<leftarrow> prepend_assign_i64 cfg resume_bb progress 1 c;
         let (blocked_bb, c) = new_block cfg c;
         c \<leftarrow> emit_pair cfg blocked_bb state state_id poll POLL_BLOCKED exit c;
         c \<leftarrow> set_branch cfg guard_bb is_ready resume_bb blocked_bb c;
         Some (guard_bb, c) }
     | SProducingSend \<Rightarrow> do {
         (resume_bb, c) \<leftarrow> split_after cfg susp_bb susp_stmt c;
         c \<leftarrow> set_goto cfg susp_bb yield_bb c;
         Some (resume_bb, c) }
     | SYield \<Rightarrow> do {
         (resume_bb, c) \<leftarrow> split_after cfg susp_bb susp_stmt c;
         c \<leftarrow> replace_with_nop cfg susp_bb susp_stmt c;
         c \<leftarrow> set_goto cfg susp_bb yield_bb c;
         Some (resume_bb, c) } })"

fun emit_suspensions :: "('c, 'b, 'l) coro_cfg \<Rightarrow> ('c, 'b, 'l) coro_hooks \<Rightarrow> 'l \<Rightarrow> 'l \<Rightarrow> 'l \<Rightarrow> 'b \<Rightarrow> nat \<Rightarrow>
    ('b \<times> nat \<times> susp_kind) list \<Rightarrow> 'b list \<Rightarrow> 'c \<Rightarrow> ('b list \<times> 'c) option" where
  "emit_suspensions cfg hooks state poll progress exit i [] entries c = Some (entries, c)"
| "emit_suspensions cfg hooks state poll progress exit i (p # ps) entries c = do {
     (entry, c) \<leftarrow> emit_suspension cfg hooks state poll progress exit (int (i + 1)) p c;
     emit_suspensions cfg hooks state poll progress exit (i + 1) ps (entries @ [entry]) c }"

definition emit_multi_state_machine :: "('c, 'b, 'l) coro_cfg \<Rightarrow> ('c, 'b, 'l) coro_hooks \<Rightarrow> 'b coroutine \<Rightarrow>
    ('b \<times> nat \<times> susp_kind) list \<Rightarrow> 'l \<Rightarrow> 'l \<Rightarrow> 'l \<Rightarrow> 'b \<Rightarrow> 'b \<Rightarrow> 'c \<Rightarrow> 'c option" where
  "emit_multi_state_machine cfg hooks co suspensions state poll progress dispatch exit c = do {
     (entries, c) \<leftarrow> emit_suspensions cfg hooks state poll progress exit 0 suspensions [fst (co_begin co)] c;
     let (done_bb, c) = new_block cfg c;
     c \<leftarrow> emit_pair cfg done_bb poll POLL_READY state DONE_STATE exit c;
     c \<leftarrow> set_goto cfg (fst (co_end co)) done_bb c;
     set_switch cfg dispatch state (zip (map int [0..<length entries]) entries) exit c }"

definition build_state_machine :: "('c, 'b, 'l) coro_cfg \<Rightarrow> ('c, 'b, 'l) coro_hooks \<Rightarrow> 'b coroutine \<Rightarrow>
    ('b \<times> nat \<times> susp_kind) list \<Rightarrow> 'l \<Rightarrow> 'c \<Rightarrow> (('b, 'l) machine \<times> 'c) option" where
  "build_state_machine cfg hooks co suspensions progress c = do {
     let (state, c) = new_state_local cfg c;
     let (poll, c) = new_state_local cfg c;
     let (dispatch, c) = new_block cfg c;
     let (exit, c) = new_block cfg c;
     c \<leftarrow> (if suspensions = [] then emit_no_suspension_machine cfg co state poll dispatch exit c
           else emit_multi_state_machine cfg hooks co suspensions state poll progress dispatch exit c);
     Some (\<lparr>state_local = state, poll_result_local = poll, progress_local = progress, dispatch_bb = dispatch,
            exit_bb = exit\<rparr>, c) }"

fun build_machines :: "('c, 'b, 'l) coro_cfg \<Rightarrow> ('c, 'b, 'l) coro_hooks \<Rightarrow> 'l \<Rightarrow>
    ('b coroutine \<times> ('b \<times> nat \<times> susp_kind) list) list \<Rightarrow> 'c \<Rightarrow> (('b, 'l) machine list \<times> 'c) option" where
  "build_machines cfg hooks progress [] c = Some ([], c)"
| "build_machines cfg hooks progress ((co, points) # cos) c = do {
     (m, c) \<leftarrow> build_state_machine cfg hooks co points progress c;
     (ms, c) \<leftarrow> build_machines cfg hooks progress cos c;
     Some (m # ms, c) }"

section \<open>The transform\<close>

text \<open>An executor strategy is its \<open>finalize_region\<close>, over its own state \<open>'e\<close>.\<close>

type_synonym ('c, 'b, 'l, 'e) executor =
  "'b region \<Rightarrow> ('b, 'l) machine list \<Rightarrow> 'e \<Rightarrow> 'c \<Rightarrow> ('e \<times> 'c) option"

fun all_points :: "('c, 'b::linorder, 'l) coro_cfg \<Rightarrow> ('c, 'b, 'l) coro_hooks \<Rightarrow> 'c \<Rightarrow> 'b coroutine list \<Rightarrow>
    ('b \<times> nat \<times> susp_kind) list list option" where
  "all_points cfg hooks c [] = Some []"
| "all_points cfg hooks c (co # cos) = do {
     p \<leftarrow> find_suspension_points cfg hooks c co;
     ps \<leftarrow> all_points cfg hooks c cos;
     Some (p # ps) }"

definition transform_region :: "('c, 'b::linorder, 'l) coro_cfg \<Rightarrow> ('c, 'b, 'l) coro_hooks \<Rightarrow> ('c, 'b, 'l, 'e) executor \<Rightarrow>
    'b region \<Rightarrow> 'e \<Rightarrow> 'c \<Rightarrow> ('e \<times> 'c) option" where
  "transform_region cfg hooks finalize region e c = do {
     points \<leftarrow> all_points cfg hooks c (coroutines region);
     let (progress, c) = new_state_local cfg c;
     (machines, c) \<leftarrow> build_machines cfg hooks progress (zip (coroutines region) points) c;
     finalize region machines e c }"

partial_function (option) run_with :: "('c, 'b::linorder, 'l) coro_cfg \<Rightarrow> ('c, 'b, 'l) coro_hooks \<Rightarrow> ('c, 'b, 'l, 'e) executor \<Rightarrow>
    'e \<Rightarrow> 'c \<Rightarrow> ('e \<times> 'c) option" where
  "run_with cfg hooks finalize e c =
     Option.bind (find_regions cfg hooks c) (\<lambda>regions.
       case find (\<lambda>r. coroutines r \<noteq> []) regions of
         None \<Rightarrow> Some (e, c)
       | Some region \<Rightarrow>
           Option.bind (transform_region cfg hooks finalize region e c) (\<lambda>(e, c). run_with cfg hooks finalize e c))"

declare collect_body.simps [code] run_with.simps [code]

section \<open>The body of a coroutine\<close>

text \<open>The edges that do not leave the end block, and the blocks they reach.\<close>

definition body_edges :: "('c, 'b, 'l) coro_cfg \<Rightarrow> 'c \<Rightarrow> 'b \<Rightarrow> ('b \<times> 'b) set" where
  "body_edges cfg c end_bb = {(x, y). x \<noteq> end_bb \<and> (\<exists>ss. successors cfg c x = Some ss \<and> y \<in> set ss)}"

definition body_blocks :: "('c, 'b, 'l) coro_cfg \<Rightarrow> 'c \<Rightarrow> 'b \<Rightarrow> 'b \<Rightarrow> 'b set" where
  "body_blocks cfg c end_bb begin_bb = {b. (begin_bb, b) \<in> (body_edges cfg c end_bb)\<^sup>*}"

lemma push_successors_spec:
  assumes "push_successors ss body stack = (body', stack')" and "distinct body"
  shows "distinct body' \<and> set body' = set body \<union> set ss \<and> set stack \<subseteq> set stack' \<and>
    set stack' \<subseteq> set stack \<union> set ss \<and> set body' - set body \<subseteq> set stack' \<and>
    length stack' = length stack + (length body' - length body) \<and> length body \<le> length body'"
  using assms
proof (induction ss body stack rule: push_successors.induct)
  case (2 s ss body stack)
  show ?case
  proof (cases "s \<in> set body")
    case True
    with 2 show ?thesis by auto
  next
    case False
    have "distinct (body @ [s])" using False 2(4) by simp
    with False 2(2) [OF False] 2(3) show ?thesis by auto
  qed
qed simp

text \<open>The search: what is on the stack is in the body, and what is not has its successors there.\<close>

definition searched :: "('c, 'b, 'l) coro_cfg \<Rightarrow> 'c \<Rightarrow> 'b \<Rightarrow> 'b \<Rightarrow> 'b list \<Rightarrow> 'b list \<Rightarrow> bool" where
  "searched cfg c end_bb begin_bb body stack \<longleftrightarrow>
     distinct body \<and> begin_bb \<in> set body \<and> set stack \<subseteq> set body \<and>
     set body \<subseteq> body_blocks cfg c end_bb begin_bb \<and>
     (\<forall>x\<in>set body - set stack. \<forall>y. (x, y) \<in> body_edges cfg c end_bb \<longrightarrow> y \<in> set body)"

lemma searched_done:
  assumes "searched cfg c end_bb begin_bb body []"
  shows "set body = body_blocks cfg c end_bb begin_bb"
proof
  show "set body \<subseteq> body_blocks cfg c end_bb begin_bb" using assms by (simp add: searched_def)
  have "b \<in> set body" if "(begin_bb, b) \<in> (body_edges cfg c end_bb)\<^sup>*" for b
    using that
  proof (induction rule: rtrancl_induct)
    case base
    then show ?case using assms by (simp add: searched_def)
  next
    case (step y z)
    then show ?case using assms by (auto simp: searched_def)
  qed
  then show "body_blocks cfg c end_bb begin_bb \<subseteq> set body" by (auto simp: body_blocks_def)
qed

lemma searched_step:
  assumes "searched cfg c end_bb begin_bb body (bb # rest)"
    and "bb \<noteq> end_bb" and "successors cfg c bb = Some ss" and "push_successors ss body rest = (body', stack')"
  shows "searched cfg c end_bb begin_bb body' stack'"
proof -
  have s: "distinct body" "begin_bb \<in> set body" "set (bb # rest) \<subseteq> set body"
    "set body \<subseteq> body_blocks cfg c end_bb begin_bb"
    "\<forall>x\<in>set body - set (bb # rest). \<forall>y. (x, y) \<in> body_edges cfg c end_bb \<longrightarrow> y \<in> set body"
    using assms(1) by (simp_all add: searched_def)
  note p = push_successors_spec [OF assms(4) s(1)]
  have edge: "(bb, y) \<in> body_edges cfg c end_bb \<longleftrightarrow> y \<in> set ss" for y
    using assms(2,3) by (simp add: body_edges_def)
  have "(begin_bb, bb) \<in> (body_edges cfg c end_bb)\<^sup>*" using s(3,4) by (auto simp: body_blocks_def)
  then have "set ss \<subseteq> body_blocks cfg c end_bb begin_bb"
    using edge by (auto simp: body_blocks_def intro: rtrancl_into_rtrancl)
  then have "set body' \<subseteq> body_blocks cfg c end_bb begin_bb" using p s(4) by auto
  moreover have "y \<in> set body'" if "x \<in> set body' - set stack'" "(x, y) \<in> body_edges cfg c end_bb" for x y
  proof (cases "x = bb")
    case True
    with that edge p show ?thesis by auto
  next
    case False
    have "set rest \<subseteq> set stack'" "set body' - set body \<subseteq> set stack'" "set body \<subseteq> set body'" using p by auto
    with that(1) False have "x \<in> set body - set (bb # rest)" by auto
    with s(5) that(2) \<open>set body \<subseteq> set body'\<close> show ?thesis by blast
  qed
  moreover have "set stack' \<subseteq> set body'" "distinct body'" "begin_bb \<in> set body'" using p s(2,3) by auto
  ultimately show ?thesis unfolding searched_def by blast
qed

lemma collect_body_returns:
  assumes "searched cfg c end_bb begin_bb body stack" and "finite (body_blocks cfg c end_bb begin_bb)"
    and "\<forall>b\<in>body_blocks cfg c end_bb begin_bb. b \<noteq> end_bb \<longrightarrow> successors cfg c b \<noteq> None"
  shows "\<exists>body'. collect_body cfg c end_bb body stack = Some body' \<and> distinct body' \<and>
    set body' = body_blocks cfg c end_bb begin_bb"
  using assms(1)
proof (induction "2 * (card (body_blocks cfg c end_bb begin_bb) - length body) + length stack"
    arbitrary: body stack rule: less_induct)
  case less
  show ?case
  proof (cases stack)
    case Nil
    then have "set body = body_blocks cfg c end_bb begin_bb" using searched_done less(2) by metis
    with less(2) Nil show ?thesis by (subst collect_body.simps) (simp add: searched_def)
  next
    case (Cons bb rest)
    show ?thesis
    proof (cases "bb = end_bb")
      case True
      have out: "(bb, y) \<notin> body_edges cfg c end_bb" for y using True by (simp add: body_edges_def)
      have s: "distinct body" "begin_bb \<in> set body" "set (bb # rest) \<subseteq> set body"
        "set body \<subseteq> body_blocks cfg c end_bb begin_bb"
        "\<forall>x\<in>set body - set (bb # rest). \<forall>y. (x, y) \<in> body_edges cfg c end_bb \<longrightarrow> y \<in> set body"
        using less(2) Cons by (simp_all add: searched_def)
      have "y \<in> set body" if "x \<in> set body - set rest" "(x, y) \<in> body_edges cfg c end_bb" for x y
      proof -
        have "x \<noteq> bb" using out that(2) by blast
        with that(1) have "x \<in> set body - set (bb # rest)" by simp
        with s(5) that(2) show ?thesis by blast
      qed
      then have s': "searched cfg c end_bb begin_bb body rest" unfolding searched_def using s(1-4) by simp
      have "2 * (card (body_blocks cfg c end_bb begin_bb) - length body) + length rest <
          2 * (card (body_blocks cfg c end_bb begin_bb) - length body) + length stack"
        using Cons by simp
      from less(1) [OF this s'] show ?thesis unfolding Cons by (subst collect_body.simps) (simp add: True)
    next
      case False
      have "bb \<in> body_blocks cfg c end_bb begin_bb" using less(2) Cons by (auto simp: searched_def)
      with assms(3) False obtain ss where ss: "successors cfg c bb = Some ss" by auto
      obtain body' stack' where p: "push_successors ss body rest = (body', stack')"
        by (cases "push_successors ss body rest") auto
      have s': "searched cfg c end_bb begin_bb body' stack'"
        using searched_step [OF _ False ss p] less(2) Cons by simp
      have "distinct body" using less(2) by (simp add: searched_def)
      note q = push_successors_spec [OF p this]
      have "set body' \<subseteq> body_blocks cfg c end_bb begin_bb" "distinct body'" using s' by (simp_all add: searched_def)
      then have "length body' \<le> card (body_blocks cfg c end_bb begin_bb)"
        using assms(2) by (metis card_mono distinct_card)
      then have "2 * (card (body_blocks cfg c end_bb begin_bb) - length body') + length stack' <
          2 * (card (body_blocks cfg c end_bb begin_bb) - length body) + length stack"
        using q Cons by (simp, arith)
      from less(1) [OF this s'] show ?thesis
        unfolding Cons by (subst collect_body.simps) (simp add: False ss p)
    qed
  qed
qed

lemma collect_body_spec:
  assumes "finite (body_blocks cfg c end_bb begin_bb)"
    and "\<forall>b\<in>body_blocks cfg c end_bb begin_bb. b \<noteq> end_bb \<longrightarrow> successors cfg c b \<noteq> None"
  shows "\<exists>body. collect_body cfg c end_bb [begin_bb] [begin_bb] = Some body \<and> distinct body \<and>
    set body = body_blocks cfg c end_bb begin_bb"
  using assms by (intro collect_body_returns) (auto simp: searched_def body_blocks_def)

fun kind_of :: "marker option \<Rightarrow> susp_kind option" where
  "kind_of (Some MYield) = Some SYield"
| "kind_of (Some GuardedRecv) = Some SGuardedRecv"
| "kind_of (Some ProducingSend) = Some SProducingSend"
| "kind_of _ = None"

definition point_window :: "('c, 'b, 'l) coro_cfg \<Rightarrow> 'c \<Rightarrow> 'b coroutine \<Rightarrow> 'b \<Rightarrow> nat \<Rightarrow> bool" where
  "point_window cfg c co b i \<longleftrightarrow>
     (b = fst (co_begin co) \<longrightarrow> snd (co_begin co) < i) \<and>
     i < (if b = fst (co_end co) then snd (co_end co) else the (statement_count cfg c b))"

lemma points_in_spec:
  assumes "\<forall>i\<in>set is. classify_marker hooks c bb i \<noteq> None"
  shows "\<exists>ps. points_in hooks c bb is = Some ps \<and>
    ps = concat (map (\<lambda>i. case kind_of (the (classify_marker hooks c bb i)) of Some k \<Rightarrow> [(bb, i, k)] | None \<Rightarrow> []) is)"
  using assms
proof (induction "is")
  case (Cons i js)
  then obtain m where m: "classify_marker hooks c bb i = Some m" by auto
  have "(case m of Some MYield \<Rightarrow> (bb, i, SYield) # ps | Some GuardedRecv \<Rightarrow> (bb, i, SGuardedRecv) # ps
       | Some ProducingSend \<Rightarrow> (bb, i, SProducingSend) # ps | _ \<Rightarrow> ps) =
      (case kind_of m of Some k \<Rightarrow> [(bb, i, k)] | None \<Rightarrow> []) @ ps" for ps
    by (cases m rule: kind_of.cases) simp_all
  with Cons m show ?case by auto
qed simp

lemma points_of_blocks_spec:
  assumes "sorted_wrt (<) bbs"
    and "\<forall>b\<in>set bbs. statement_count cfg c b \<noteq> None \<and> (\<forall>i. point_window cfg c co b i \<longrightarrow> classify_marker hooks c b i \<noteq> None)"
  shows "\<exists>ps. points_of_blocks cfg hooks co c bbs = Some ps \<and>
    sorted_wrt (\<lambda>p q. fst p < fst q \<or> fst p = fst q \<and> fst (snd p) < fst (snd q)) ps \<and>
    set ps = {(b, i, k). b \<in> set bbs \<and> point_window cfg c co b i \<and> kind_of (the (classify_marker hooks c b i)) = Some k}"
  using assms
proof (induction bbs)
  case (Cons b bbs)
  let ?first = "if b = fst (co_begin co) then snd (co_begin co) + 1 else 0"
  obtain n where n: "(if b = fst (co_end co) then Some (snd (co_end co)) else statement_count cfg c b) = Some n"
    using Cons.prems(2) by fastforce
  have window: "point_window cfg c co b i \<longleftrightarrow> i \<in> set [?first..<n]" for i
    using n by (auto simp: point_window_def Suc_le_eq split: if_splits)
  then have "\<forall>i\<in>set [?first..<n]. classify_marker hooks c b i \<noteq> None" using Cons.prems(2) by auto
  from points_in_spec [OF this] obtain ps where ps: "points_in hooks c b [?first..<n] = Some ps"
    "ps = concat (map (\<lambda>i. case kind_of (the (classify_marker hooks c b i)) of Some k \<Rightarrow> [(b, i, k)] | None \<Rightarrow> []) [?first..<n])"
    by blast
  from Cons obtain qs where qs: "points_of_blocks cfg hooks co c bbs = Some qs"
    "sorted_wrt (\<lambda>p q. fst p < fst q \<or> fst p = fst q \<and> fst (snd p) < fst (snd q)) qs"
    "set qs = {(b, i, k). b \<in> set bbs \<and> point_window cfg c co b i \<and> kind_of (the (classify_marker hooks c b i)) = Some k}"
    by auto
  have fst_ps: "fst p = b" if "p \<in> set ps" for p
    using that unfolding ps(2) by (auto split: option.splits)
  have set_ps: "set ps = {(x, i, k). x = b \<and> point_window cfg c co b i \<and> kind_of (the (classify_marker hooks c b i)) = Some k}"
    unfolding window ps(2) by (fastforce split: option.splits)
  have sorted_ps: "sorted_wrt (\<lambda>p q. fst p < fst q \<or> fst p = fst q \<and> fst (snd p) < fst (snd q))
      (concat (map (\<lambda>i. case K i of Some k \<Rightarrow> [(b, i, k)] | None \<Rightarrow> []) is))"
    if "sorted_wrt (<) is" for K :: "nat \<Rightarrow> susp_kind option" and "is" :: "nat list"
    using that by (induction "is") (auto simp: sorted_wrt_append split: option.splits)
  have "sorted_wrt (\<lambda>p q. fst p < fst q \<or> fst p = fst q \<and> fst (snd p) < fst (snd q)) (ps @ qs)"
    unfolding sorted_wrt_append
    using sorted_ps [of "[?first..<n]"] ps(2) qs(2,3) fst_ps Cons.prems(1) by fastforce
  moreover have "set (ps @ qs) = {(x, i, k). x \<in> set (b # bbs) \<and> point_window cfg c co x i \<and>
      kind_of (the (classify_marker hooks c x i)) = Some k}"
    using set_ps qs(3) by auto
  moreover have "points_of_blocks cfg hooks co c (b # bbs) = Some (ps @ qs)"
    using n ps(1) qs(1) by (simp add: Let_def)
  ultimately show ?case by blast
qed simp


lemma suspension_points:
  assumes "finite (body_blocks cfg c (fst (co_end co)) (fst (co_begin co)))"
    and "\<forall>b\<in>body_blocks cfg c (fst (co_end co)) (fst (co_begin co)).
      (b \<noteq> fst (co_end co) \<longrightarrow> successors cfg c b \<noteq> None) \<and> statement_count cfg c b \<noteq> None \<and>
      (\<forall>i. point_window cfg c co b i \<longrightarrow> classify_marker hooks c b i \<noteq> None)"
  shows "\<exists>ps. find_suspension_points cfg hooks c co = Some ps \<and>
    sorted_wrt (\<lambda>p q. fst p < fst q \<or> fst p = fst q \<and> fst (snd p) < fst (snd q)) ps \<and>
    set ps = {(b, i, k). b \<in> body_blocks cfg c (fst (co_end co)) (fst (co_begin co)) \<and>
      point_window cfg c co b i \<and> kind_of (the (classify_marker hooks c b i)) = Some k}"
proof -
  from collect_body_spec [OF assms(1)] assms(2) obtain body where
    body: "collect_body cfg c (fst (co_end co)) [fst (co_begin co)] [fst (co_begin co)] = Some body" "distinct body"
      "set body = body_blocks cfg c (fst (co_end co)) (fst (co_begin co))" by blast
  have "sorted_wrt (<) (sort body)" using body(2) by (simp add: strict_sorted_iff)
  moreover have "\<forall>b\<in>set (sort body). statement_count cfg c b \<noteq> None \<and>
      (\<forall>i. point_window cfg c co b i \<longrightarrow> classify_marker hooks c b i \<noteq> None)"
    using assms(2) body(3) by simp
  ultimately show ?thesis
    using points_of_blocks_spec [of "sort body" cfg c co hooks] body by (simp add: find_suspension_points_def)
qed

section \<open>Regions are read back\<close>

text \<open>The statements of a body in the order the scan visits them, and the structural marks among them.\<close>

definition body_statements :: "('c, 'b, 'l) coro_cfg \<Rightarrow> 'c \<Rightarrow> ('b \<times> nat) list" where
  "body_statements cfg c = concat (map (\<lambda>b. map (\<lambda>i. (b, i)) [0..<the (statement_count cfg c b)]) (block_ids cfg c))"

fun structural :: "marker option \<Rightarrow> bool" where
  "structural (Some RegionBegin) = True"
| "structural (Some RegionEnd) = True"
| "structural (Some CoroutineBegin) = True"
| "structural (Some CoroutineEnd) = True"
| "structural _ = False"

definition structure_marks :: "('c, 'b, 'l) coro_cfg \<Rightarrow> ('c, 'b, 'l) coro_hooks \<Rightarrow> 'c \<Rightarrow> (('b \<times> nat) \<times> marker option) list" where
  "structure_marks cfg hooks c =
     filter (\<lambda>(p, m). structural m) (map (\<lambda>(b, i). ((b, i), the (classify_marker hooks c b i))) (body_statements cfg c))"

definition coroutine_marks :: "'b coroutine \<Rightarrow> (('b \<times> nat) \<times> marker option) list" where
  "coroutine_marks co = [(co_begin co, Some CoroutineBegin), (co_end co, Some CoroutineEnd)]"

definition region_marks :: "'b region \<Rightarrow> (('b \<times> nat) \<times> marker option) list" where
  "region_marks r = (region_begin r, Some RegionBegin) # concat (map coroutine_marks (coroutines r)) @
     [(region_end r, Some RegionEnd)]"

definition scan_mark :: "('c, 'b, 'l) coro_hooks \<Rightarrow> 'c \<Rightarrow> ('b \<times> nat) \<times> marker option \<Rightarrow> 'b scan \<Rightarrow> 'b scan" where
  "scan_mark hooks c = (\<lambda>(p, m) s. scan_marker p (coroutine_priority hooks c (fst p) (snd p)) m s)"

lemma scan_statements_fold:
  assumes "\<forall>i\<in>set is. classify_marker hooks c bb i \<noteq> None"
  shows "scan_statements hooks c bb is s = Some (fold (scan_mark hooks c) (map (\<lambda>i. ((bb, i), the (classify_marker hooks c bb i))) is) s)"
  using assms by (induction "is" arbitrary: s) (auto simp: scan_mark_def)

lemma scan_body_fold:
  assumes "\<forall>b\<in>set bbs. \<exists>n. statement_count cfg c b = Some n \<and> (\<forall>i<n. classify_marker hooks c b i \<noteq> None)"
  shows "scan_body cfg hooks c bbs s = Some (fold (scan_mark hooks c)
    (map (\<lambda>(b, i). ((b, i), the (classify_marker hooks c b i)))
      (concat (map (\<lambda>b. map (\<lambda>i. (b, i)) [0..<the (statement_count cfg c b)]) bbs))) s)"
  using assms
proof (induction bbs arbitrary: s)
  case (Cons b bbs)
  then obtain n where n: "statement_count cfg c b = Some n" "\<forall>i\<in>set [0..<n]. classify_marker hooks c b i \<noteq> None" by auto
  with Cons scan_statements_fold [OF n(2)] show ?case by (simp add: comp_def)
qed simp

lemma scan_mark_plain: "\<not> structural m \<Longrightarrow> scan_mark hooks c (p, m) s = s"
  by (cases m rule: structural.cases) (simp_all add: scan_mark_def)

lemma fold_filter_marks:
  "fold (scan_mark hooks c) (filter (\<lambda>(p, m). structural m) ms) s = fold (scan_mark hooks c) ms s"
  by (induction ms arbitrary: s) (auto simp: scan_mark_plain)

lemma fold_coroutine_marks:
  assumes "\<forall>co\<in>set cos. coroutine_priority hooks c (fst (co_begin co)) (snd (co_begin co)) = co_priority co"
    and "sc_begin s = None" and "sc_priority s = None"
  shows "fold (scan_mark hooks c) (concat (map coroutine_marks cos)) s = s\<lparr>sc_coroutines := sc_coroutines s @ cos\<rparr>"
  using assms
proof (induction cos arbitrary: s)
  case (Cons co cos)
  let ?s = "s\<lparr>sc_coroutines := sc_coroutines s @ [co]\<rparr>"
  have "fold (scan_mark hooks c) (coroutine_marks co) s = ?s"
    using Cons.prems by (cases s) (simp add: coroutine_marks_def scan_mark_def)
  with Cons show ?case by (simp add: fold_append)
qed simp

lemma fold_region_marks:
  assumes "\<forall>r\<in>set rs. \<forall>co\<in>set (coroutines r). coroutine_priority hooks c (fst (co_begin co)) (snd (co_begin co)) = co_priority co"
    and "sc_begin s = None" and "sc_priority s = None" and "sc_region s = None" and "sc_coroutines s = []"
  shows "fold (scan_mark hooks c) (concat (map region_marks rs)) s = s\<lparr>sc_regions := sc_regions s @ rs\<rparr>"
  using assms
proof (induction rs arbitrary: s)
  case (Cons r rs)
  let ?s = "s\<lparr>sc_regions := sc_regions s @ [r]\<rparr>"
  have "fold (scan_mark hooks c) (region_marks r) s = ?s"
    using Cons.prems fold_coroutine_marks [of "coroutines r" hooks c "s\<lparr>sc_region := Some (region_begin r), sc_coroutines := []\<rparr>"]
    by (cases s) (simp add: region_marks_def scan_mark_def)
  with Cons show ?case by (simp add: fold_append)
qed simp

section \<open>Properties\<close>

text \<open>
  C26: Suspension points. For a coroutine whose body, the blocks reachable from its begin block
  without leaving its end block, is finite and readable, the search comes to an end whatever cycles
  the body has, and finds every yield, guarded receive and producing send between the two markers,
  each once, in the order of block and position, and nothing else.
\<close>

theorem find_suspension_points_exact:
  assumes "finite (body_blocks cfg c (fst (co_end co)) (fst (co_begin co)))"
    and "\<forall>b\<in>body_blocks cfg c (fst (co_end co)) (fst (co_begin co)).
      (b \<noteq> fst (co_end co) \<longrightarrow> successors cfg c b \<noteq> None) \<and> statement_count cfg c b \<noteq> None \<and>
      (\<forall>i. point_window cfg c co b i \<longrightarrow> classify_marker hooks c b i \<noteq> None)"
  shows "\<exists>ps. find_suspension_points cfg hooks c co = Some ps \<and>
    sorted_wrt (\<lambda>p q. fst p < fst q \<or> fst p = fst q \<and> fst (snd p) < fst (snd q)) ps \<and>
    set ps = {(b, i, k). b \<in> body_blocks cfg c (fst (co_end co)) (fst (co_begin co)) \<and>
      point_window cfg c co b i \<and> kind_of (the (classify_marker hooks c b i)) = Some k}"
  using assms by (rule suspension_points)

text \<open>
  C27: Regions are read back. When the structural markers of a body, in the order of the scan, are
  those of a list of regions written one after the other, each with its coroutines one after the
  other, \<open>find_regions\<close> returns exactly that list: positions, nesting and priorities.
\<close>

theorem find_regions_roundtrip:
  assumes "\<forall>b\<in>set (block_ids cfg c). \<exists>n. statement_count cfg c b = Some n \<and> (\<forall>i<n. classify_marker hooks c b i \<noteq> None)"
    and "structure_marks cfg hooks c = concat (map region_marks rs)"
    and "\<forall>r\<in>set rs. \<forall>co\<in>set (coroutines r). coroutine_priority hooks c (fst (co_begin co)) (snd (co_begin co)) = co_priority co"
  shows "find_regions cfg hooks c = Some rs"
proof -
  have "scan_body cfg hooks c (block_ids cfg c) scan_new = Some (fold (scan_mark hooks c) (concat (map region_marks rs)) scan_new)"
    using scan_body_fold [OF assms(1), of scan_new] assms(2)
      fold_filter_marks [of hooks c "map (\<lambda>(b, i). ((b, i), the (classify_marker hooks c b i))) (body_statements cfg c)" scan_new]
    by (simp add: structure_marks_def body_statements_def)
  then show ?thesis
    using fold_region_marks [OF assms(3), of scan_new] by (simp add: find_regions_def scan_new_def)
qed

section \<open>Witnesses\<close>

text \<open>A region with one coroutine whose body loops: block 1 yields and goes back to itself or on.\<close>

definition loop_body :: toy_body where
  "loop_body = \<lparr>tb_blocks = [
     ([TMarker RegionBegin, User ''a'', TMarker CoroutineBegin, User ''b''], Goto 1),
     ([User ''c'', TMarker MYield], Branch 0 1 2),
     ([User ''d'', TMarker CoroutineEnd, TMarker RegionEnd], Return)], tb_locals = [LBool]\<rparr>"

definition loop_coroutine :: "toy_block_id coroutine" where
  "loop_coroutine = \<lparr>co_begin = (0, 2), co_end = (2, 1), co_priority = None\<rparr>"

lemma loop_blocks:
  "toy_block loop_body b = (if b = 0 then Some ([TMarker RegionBegin, User ''a'', TMarker CoroutineBegin, User ''b''], Goto 1)
    else if b = 1 then Some ([User ''c'', TMarker MYield], Branch 0 1 2)
    else if b = 2 then Some ([User ''d'', TMarker CoroutineEnd, TMarker RegionEnd], Return) else None)"
proof -
  have "b = 0 \<or> b = 1 \<or> b = 2 \<or> 3 \<le> unat b"
  proof (rule ccontr)
    assume a: "\<not> ?thesis"
    then have "unat b = 0 \<or> unat b = 1 \<or> unat b = 2" by arith
    then have "b = of_nat 0 \<or> b = of_nat 1 \<or> b = of_nat 2" by (metis u32_of_unat)
    with a show False by simp
  qed
  then show ?thesis by (auto simp: toy_block_def get_nth_def loop_body_def)
qed

lemma loop_classify:
  "toy_classify loop_body b i = (case toy_block loop_body b of None \<Rightarrow> None
     | Some (stmts, t) \<Rightarrow> map_option (\<lambda>s. case s of TMarker m \<Rightarrow> Some m | _ \<Rightarrow> None) (get_nth i stmts))"
  by (cases "toy_block loop_body b") (auto simp: toy_classify_def map_conv_bind_option comp_def)

theorem find_regions_roundtrip_witness:
  "find_regions toy_cfg toy_hooks loop_body =
     Some [\<lparr>region_begin = (0, 0), region_end = (2, 2), coroutines = [loop_coroutine]\<rparr>]"
proof (rule find_regions_roundtrip)
  have ids: "block_ids toy_cfg loop_body = [0, 1, 2]"
    by (simp add: toy_cfg_def loop_body_def upt_rec)
  show "\<forall>b\<in>set (block_ids toy_cfg loop_body). \<exists>n. statement_count toy_cfg loop_body b = Some n \<and>
      (\<forall>i<n. classify_marker toy_hooks loop_body b i \<noteq> None)"
    unfolding ids by (simp add: toy_cfg_def toy_hooks_def loop_classify loop_blocks get_nth_def)
  show "structure_marks toy_cfg toy_hooks loop_body =
      concat (map region_marks [\<lparr>region_begin = (0, 0), region_end = (2, 2), coroutines = [loop_coroutine]\<rparr>])"
    unfolding structure_marks_def body_statements_def ids
    by (simp add: toy_cfg_def toy_hooks_def loop_classify loop_blocks get_nth_def region_marks_def coroutine_marks_def
        loop_coroutine_def upt_rec)
  show "\<forall>r\<in>set [\<lparr>region_begin = (0, 0), region_end = (2, 2), coroutines = [loop_coroutine]\<rparr>].
      \<forall>co\<in>set (coroutines r). coroutine_priority toy_hooks loop_body (fst (co_begin co)) (snd (co_begin co)) = co_priority co"
    by (simp add: loop_coroutine_def toy_hooks_def default_coroutine_priority_def)
qed

lemma loop_body_blocks: "body_blocks toy_cfg loop_body 2 0 = {0, 1, 2}"
proof -
  have succ: "successors toy_cfg loop_body x = (if x = 0 then Some [1] else if x = 1 then Some [1, 2] else if x = 2 then Some [] else None)"
    for x by (simp add: toy_cfg_def loop_blocks)
  have e: "(x, y) \<in> body_edges toy_cfg loop_body 2 \<longleftrightarrow> (x = 0 \<and> y = 1 \<or> x = 1 \<and> (y = 1 \<or> y = 2))" for x y
    by (auto simp: body_edges_def succ)
  have "b \<in> {0, 1, 2}" if "(0, b) \<in> (body_edges toy_cfg loop_body 2)\<^sup>*" for b
    using that by (induction rule: rtrancl_induct) (auto simp: e)
  moreover have 1: "(0, 1) \<in> (body_edges toy_cfg loop_body 2)\<^sup>*" by (rule r_into_rtrancl) (simp add: e)
  have 2: "(0, 2) \<in> (body_edges toy_cfg loop_body 2)\<^sup>*" using 1 by (rule rtrancl_into_rtrancl) (simp add: e)
  ultimately show ?thesis using 1 2 unfolding body_blocks_def by blast
qed

theorem find_suspension_points_exact_witness:
  "\<exists>ps. find_suspension_points toy_cfg toy_hooks loop_body loop_coroutine = Some ps \<and> (1, 1, SYield) \<in> set ps"
proof -
  have fin: "finite (body_blocks toy_cfg loop_body (fst (co_end loop_coroutine)) (fst (co_begin loop_coroutine)))"
    by (simp add: loop_coroutine_def loop_body_blocks)
  have succ: "successors toy_cfg loop_body b = (if b = 0 then Some [1] else if b = 1 then Some [1, 2] else if b = 2 then Some [] else None)"
    for b by (simp add: toy_cfg_def loop_blocks)
  have n: "statement_count toy_cfg loop_body b = (if b = 0 then Some 4 else if b = 1 then Some 2 else if b = 2 then Some 3 else None)" for b
    by (simp add: toy_cfg_def loop_blocks)
  have m: "classify_marker toy_hooks loop_body = toy_classify loop_body" by (simp add: toy_hooks_def)
  have all: "\<forall>b\<in>body_blocks toy_cfg loop_body (fst (co_end loop_coroutine)) (fst (co_begin loop_coroutine)).
      (b \<noteq> fst (co_end loop_coroutine) \<longrightarrow> successors toy_cfg loop_body b \<noteq> None) \<and> statement_count toy_cfg loop_body b \<noteq> None \<and>
      (\<forall>i. point_window toy_cfg loop_body loop_coroutine b i \<longrightarrow> classify_marker toy_hooks loop_body b i \<noteq> None)"
    by (auto simp: loop_coroutine_def loop_body_blocks point_window_def succ n m loop_classify loop_blocks get_nth_def)
  from find_suspension_points_exact [OF fin all] obtain ps where
    "find_suspension_points toy_cfg toy_hooks loop_body loop_coroutine = Some ps"
    "set ps = {(b, i, k). b \<in> body_blocks toy_cfg loop_body (fst (co_end loop_coroutine)) (fst (co_begin loop_coroutine)) \<and>
      point_window toy_cfg loop_body loop_coroutine b i \<and> kind_of (the (classify_marker toy_hooks loop_body b i)) = Some k}"
    by blast
  then show ?thesis
    by (simp add: loop_coroutine_def loop_body_blocks point_window_def n m loop_classify loop_blocks get_nth_def)
qed

end
