(* ===== verification/Krio_Executor.thy ===== *)
theory Krio_Executor
  imports Krio_Stackless
begin

text \<open>
  \<open>crates/krio-stackless/src/executor.rs\<close>: the strategies that join the machines of a region into
  one flow of control: the round-robin loop, the strict-priority loop and the one-shot poll.
\<close>

section \<open>What the strategies share\<close>

definition region_exit :: "('c, 'b, 'l) coro_cfg \<Rightarrow> 'b region \<Rightarrow> 'c \<Rightarrow> ('b \<times> 'c) option" where
  "region_exit cfg region c = do {
     let (exit, c) = new_block cfg c;
     let end_bb = fst (region_end region);
     n \<leftarrow> statement_count cfg c end_bb;
     (post, c) \<leftarrow> split_after cfg end_bb (n - 1) c;
     c \<leftarrow> set_goto cfg exit post c;
     Some (exit, c) }"

fun erase_coroutines :: "('c, 'b, 'l) coro_cfg \<Rightarrow> 'b coroutine list \<Rightarrow> 'c \<Rightarrow> 'c option" where
  "erase_coroutines cfg [] c = Some c"
| "erase_coroutines cfg (co # cos) c = do {
     c \<leftarrow> replace_with_nop cfg (fst (co_begin co)) (snd (co_begin co)) c;
     c \<leftarrow> replace_with_nop cfg (fst (co_end co)) (snd (co_end co)) c;
     erase_coroutines cfg cos c }"

fun init_states :: "('c, 'b, 'l) coro_cfg \<Rightarrow> 'b \<Rightarrow> ('b, 'l) machine list \<Rightarrow> 'c \<Rightarrow> 'c option" where
  "init_states cfg bb [] c = Some c"
| "init_states cfg bb (m # ms) c = do {
     c \<leftarrow> emit_assign_i64 cfg bb (state_local m) 0 c;
     init_states cfg bb ms c }"

definition finish_region :: "('c, 'b, 'l) coro_cfg \<Rightarrow> 'b region \<Rightarrow> ('b, 'l) machine list \<Rightarrow> 'b \<Rightarrow> 'c \<Rightarrow> 'c option" where
  "finish_region cfg region ms entry c = do {
     c \<leftarrow> erase_coroutines cfg (coroutines region) c;
     let (begin_bb, begin_idx) = region_begin region;
     c \<leftarrow> replace_with_nop cfg begin_bb begin_idx c;
     c \<leftarrow> replace_with_nop cfg (fst (region_end region)) (snd (region_end region)) c;
     (new_entry, c) \<leftarrow> split_after cfg begin_bb begin_idx c;
     c \<leftarrow> (case (ms, coroutines region) of
             (m # _, co # _) \<Rightarrow>
               (if fst (co_begin co) = begin_bb
                then redirect_targets cfg (dispatch_bb m) (fst (co_begin co)) new_entry c else Some c)
           | _ \<Rightarrow> Some c);
     c \<leftarrow> init_states cfg begin_bb ms c;
     set_goto cfg begin_bb entry c }"

section \<open>The cooperative loop\<close>

text \<open>
  One machine's part of the chain, from its check block to the block the next one starts from. The
  round-robin loop and the one-shot poll differ in what the two marks do besides.
\<close>

definition poll_part :: "('c, 'b, 'l) coro_cfg \<Rightarrow> 'l \<Rightarrow> 'l option \<Rightarrow> ('b, 'l) machine \<Rightarrow> 'b \<Rightarrow> 'c \<Rightarrow> ('b \<times> 'c) option" where
  "poll_part cfg all_done progress m check c = do {
     let (is_done, c) = new_bool_local cfg c;
     c \<leftarrow> emit_eq_check_i64 cfg check is_done (state_local m) DONE_STATE c;
     let (after_poll, c) = new_block cfg c;
     c \<leftarrow> set_branch cfg check is_done after_poll (dispatch_bb m) c;
     c \<leftarrow> set_goto cfg (exit_bb m) after_poll c;
     let (is_ready, c) = new_bool_local cfg c;
     c \<leftarrow> emit_eq_check_i64 cfg after_poll is_ready (poll_result_local m) 0 c;
     let (mark_done, c) = new_block cfg c;
     let (mark_pending, c) = new_block cfg c;
     let (next, c) = new_block cfg c;
     c \<leftarrow> set_branch cfg after_poll is_ready mark_done mark_pending c;
     c \<leftarrow> emit_assign_i64 cfg mark_done (state_local m) DONE_STATE c;
     c \<leftarrow> set_goto cfg mark_done next c;
     case progress of
       Some progress \<Rightarrow> do {
         c \<leftarrow> emit_assign_i64 cfg mark_done progress 1 c;
         c \<leftarrow> emit_assign_bool cfg mark_pending all_done False c;
         let (blocked, c) = new_bool_local cfg c;
         c \<leftarrow> emit_eq_check_i64 cfg mark_pending blocked (poll_result_local m) POLL_BLOCKED c;
         let (ran, c) = new_block cfg c;
         c \<leftarrow> set_branch cfg mark_pending blocked next ran c;
         c \<leftarrow> emit_assign_i64 cfg ran progress 1 c;
         c \<leftarrow> set_goto cfg ran next c;
         Some (next, c) }
     | None \<Rightarrow> do {
         c \<leftarrow> emit_assign_bool cfg mark_pending all_done False c;
         c \<leftarrow> set_goto cfg mark_pending next c;
         Some (next, c) } }"

text \<open>The first machine is checked in the block the chain starts in.\<close>

fun poll_chain :: "('c, 'b, 'l) coro_cfg \<Rightarrow> 'l \<Rightarrow> 'l option \<Rightarrow> bool \<Rightarrow> ('b, 'l) machine list \<Rightarrow> 'b \<Rightarrow> 'c \<Rightarrow> ('b \<times> 'c) option" where
  "poll_chain cfg all_done progress first [] current c = Some (current, c)"
| "poll_chain cfg all_done progress first (m # ms) current c = do {
     (check, c) \<leftarrow>
       (if first then Some (current, c)
        else do { let (check, c) = new_block cfg c; c \<leftarrow> set_goto cfg current check c; Some (check, c) });
     (next, c) \<leftarrow> poll_part cfg all_done progress m check c;
     poll_chain cfg all_done progress False ms next c }"

text \<open>\<open>machines[0]\<close> panics when there is no machine.\<close>

definition build_cooperative_loop :: "('c, 'b, 'l) coro_cfg \<Rightarrow> 'b region \<Rightarrow> ('b, 'l) machine list \<Rightarrow> 'c \<Rightarrow> 'c option" where
  "build_cooperative_loop cfg region ms c = do {
     let (loop, c) = new_block cfg c;
     (exit, c) \<leftarrow> region_exit cfg region c;
     let (all_done, c) = new_mut_bool_local cfg c;
     m0 \<leftarrow> get_nth 0 ms;
     let progress = progress_local m0;
     c \<leftarrow> emit_assign_bool cfg loop all_done True c;
     c \<leftarrow> emit_assign_i64 cfg loop progress 0 c;
     (current, c) \<leftarrow> poll_chain cfg all_done (Some progress) True ms loop c;
     let (not_done, c) = new_block cfg c;
     c \<leftarrow> set_branch cfg current all_done exit not_done c;
     let (stuck, c) = new_block cfg c;
     let (progressed, c) = new_bool_local cfg c;
     c \<leftarrow> emit_eq_check_i64 cfg not_done progressed progress 1 c;
     c \<leftarrow> set_branch cfg not_done progressed loop stuck c;
     (reported, c) \<leftarrow> emit_deadlock cfg stuck c;
     c \<leftarrow> (if reported then Some c else set_goto cfg stuck loop c);
     finish_region cfg region ms loop c }"

section \<open>The priority loop\<close>

text \<open>Ascending priorities, none last, ties in source order; a band is a run of equal priorities.\<close>

definition priority_order :: "'b coroutine list \<Rightarrow> nat list" where
  "priority_order cos =
     sort_key (\<lambda>i. case co_priority (cos ! i) of Some p \<Rightarrow> unat p | None \<Rightarrow> 2 ^ 32 - 1) [0..<length cos]"

fun add_to_bands :: "'b coroutine list \<Rightarrow> nat \<Rightarrow> nat list list \<Rightarrow> nat list list" where
  "add_to_bands cos i bands =
     (if bands \<noteq> [] \<and> co_priority (cos ! (last bands ! 0)) = co_priority (cos ! i)
      then butlast bands @ [last bands @ [i]]
      else bands @ [[i]])"

definition priority_bands :: "'b coroutine list \<Rightarrow> nat list list" where
  "priority_bands cos = fold (add_to_bands cos) (priority_order cos) []"

fun new_blocks :: "('c, 'b, 'l) coro_cfg \<Rightarrow> nat \<Rightarrow> 'c \<Rightarrow> 'b list \<times> 'c" where
  "new_blocks cfg 0 c = ([], c)"
| "new_blocks cfg (Suc n) c =
     (let (b, c) = new_block cfg c; (bs, c) = new_blocks cfg n c in (b # bs, c))"

fun new_block_rows :: "('c, 'b, 'l) coro_cfg \<Rightarrow> nat list \<Rightarrow> 'c \<Rightarrow> 'b list list \<times> 'c" where
  "new_block_rows cfg [] c = ([], c)"
| "new_block_rows cfg (n # ns) c =
     (let (r, c) = new_blocks cfg n c; (rs, c) = new_block_rows cfg ns c in (r # rs, c))"

fun new_state_locals :: "('c, 'b, 'l) coro_cfg \<Rightarrow> nat \<Rightarrow> 'c \<Rightarrow> 'l list \<times> 'c" where
  "new_state_locals cfg 0 c = ([], c)"
| "new_state_locals cfg (Suc n) c =
     (let (l, c) = new_state_local cfg c; (ls, c) = new_state_locals cfg n c in (l # ls, c))"

fun assign_all :: "('c, 'b, 'l) coro_cfg \<Rightarrow> 'b \<Rightarrow> int \<Rightarrow> 'l list \<Rightarrow> 'c \<Rightarrow> 'c option" where
  "assign_all cfg bb v [] c = Some c"
| "assign_all cfg bb v (l # ls) c = do { c \<leftarrow> emit_assign_i64 cfg bb l v c; assign_all cfg bb v ls c }"

text \<open>A poll of the machine in one half of the scan.\<close>

definition priority_poll :: "('c, 'b, 'l) coro_cfg \<Rightarrow> ('b, 'l) machine \<Rightarrow> 'l \<Rightarrow> int \<Rightarrow> 'b \<Rightarrow> 'b \<Rightarrow> 'c \<Rightarrow> 'c option" where
  "priority_poll cfg m sweep half poll next c = do {
     c \<leftarrow> emit_assign_i64 cfg poll sweep half c;
     let (done, c) = new_bool_local cfg c;
     c \<leftarrow> emit_eq_check_i64 cfg poll done (state_local m) DONE_STATE c;
     set_branch cfg poll done next (dispatch_bb m) c }"

text \<open>Member \<open>k\<close> of a band of \<open>n\<close>, its scan sites \<open>first\<close> and \<open>second\<close> and where each goes on to.\<close>

definition priority_member :: "('c, 'b, 'l) coro_cfg \<Rightarrow> ('b, 'l) machine \<Rightarrow> 'l \<Rightarrow> 'l \<Rightarrow> nat \<Rightarrow> nat \<Rightarrow> 'b \<Rightarrow>
    'b \<Rightarrow> 'b \<Rightarrow> 'b \<Rightarrow> 'b \<Rightarrow> 'c \<Rightarrow> 'c option" where
  "priority_member cfg m last_run sweep k n top_bb first second next_first next_second c = do {
     let later = map int [k..<n];
     let (poll_first, c) = new_block cfg c;
     let (poll_second, c) = new_block cfg c;
     c \<leftarrow> set_switch cfg first last_run (map (\<lambda>v. (v, next_first)) later) poll_first c;
     c \<leftarrow> set_switch cfg second last_run (map (\<lambda>v. (v, poll_second)) later) next_second c;
     c \<leftarrow> priority_poll cfg m sweep 0 poll_first next_first c;
     c \<leftarrow> priority_poll cfg m sweep 1 poll_second next_second c;
     let (after, c) = new_block cfg c;
     c \<leftarrow> set_goto cfg (exit_bb m) after c;
     let (blocked, c) = new_bool_local cfg c;
     c \<leftarrow> emit_eq_check_i64 cfg after blocked (poll_result_local m) POLL_BLOCKED c;
     let (ran, c) = new_block cfg c;
     let (pass_on, c) = new_block cfg c;
     c \<leftarrow> set_branch cfg after blocked pass_on ran c;
     c \<leftarrow> emit_assign_i64 cfg ran last_run (int k) c;
     c \<leftarrow> set_goto cfg ran top_bb c;
     set_switch cfg pass_on sweep [(0, next_first)] next_second c }"

fun priority_members :: "('c, 'b, 'l) coro_cfg \<Rightarrow> ('b, 'l) machine list \<Rightarrow> 'l \<Rightarrow> 'l \<Rightarrow> nat list \<Rightarrow> 'b \<Rightarrow>
    'b list \<Rightarrow> 'b list \<Rightarrow> 'b \<Rightarrow> nat list \<Rightarrow> 'c \<Rightarrow> 'c option" where
  "priority_members cfg ms last_run sweep band top_bb firsts seconds next_band [] c = Some c"
| "priority_members cfg ms last_run sweep band top_bb firsts seconds next_band (k # ks) c = do {
     m \<leftarrow> get_nth (band ! k) ms;
     c \<leftarrow> priority_member cfg m last_run sweep k (length band) top_bb (firsts ! k) (seconds ! k)
           (if k + 1 < length band then firsts ! (k + 1) else seconds ! 0)
           (if k + 1 < length band then seconds ! (k + 1) else next_band) c;
     priority_members cfg ms last_run sweep band top_bb firsts seconds next_band ks c }"

fun priority_bands_loop :: "('c, 'b, 'l) coro_cfg \<Rightarrow> ('b, 'l) machine list \<Rightarrow> nat list list \<Rightarrow> 'l list \<Rightarrow> 'l list \<Rightarrow> 'b \<Rightarrow>
    'b list list \<Rightarrow> 'b list list \<Rightarrow> 'b \<Rightarrow> nat list \<Rightarrow> 'c \<Rightarrow> 'c option" where
  "priority_bands_loop cfg ms bands lasts sweeps top_bb firsts seconds check_done [] c = Some c"
| "priority_bands_loop cfg ms bands lasts sweeps top_bb firsts seconds check_done (b # bs) c = do {
     let next_band = (if b + 1 < length bands then firsts ! (b + 1) ! 0 else check_done);
     c \<leftarrow> priority_members cfg ms (lasts ! b) (sweeps ! b) (bands ! b) top_bb (firsts ! b) (seconds ! b) next_band
           [0..<length (bands ! b)] c;
     priority_bands_loop cfg ms bands lasts sweeps top_bb firsts seconds check_done bs c }"

text \<open>The checks that every machine is done, one block per machine.\<close>

fun check_done_chain :: "('c, 'b, 'l) coro_cfg \<Rightarrow> 'b \<Rightarrow> ('b, 'l) machine list \<Rightarrow> 'b \<Rightarrow> 'c \<Rightarrow> ('b \<times> 'c) option" where
  "check_done_chain cfg no_progress [] check c = Some (check, c)"
| "check_done_chain cfg no_progress (m # ms) check c = do {
     let (done, c) = new_bool_local cfg c;
     c \<leftarrow> emit_eq_check_i64 cfg check done (state_local m) DONE_STATE c;
     let (next, c) = new_block cfg c;
     c \<leftarrow> set_branch cfg check done next no_progress c;
     check_done_chain cfg no_progress ms next c }"

definition build_priority_loop :: "('c, 'b, 'l) coro_cfg \<Rightarrow> 'b region \<Rightarrow> ('b, 'l) machine list \<Rightarrow> 'c \<Rightarrow> 'c option" where
  "build_priority_loop cfg region ms c = do {
     (exit, c) \<leftarrow> region_exit cfg region c;
     let bands = priority_bands (coroutines region);
     let (init, c) = new_block cfg c;
     let (top_bb, c) = new_block cfg c;
     let (check_done, c) = new_block cfg c;
     let (lasts, c) = new_state_locals cfg (length bands) c;
     let (sweeps, c) = new_state_locals cfg (length bands) c;
     c \<leftarrow> assign_all cfg init (-1) lasts c;
     c \<leftarrow> set_goto cfg init top_bb c;
     m0 \<leftarrow> get_nth 0 ms;
     let progress = progress_local m0;
     c \<leftarrow> emit_assign_i64 cfg top_bb progress 0 c;
     let (firsts, c) = new_block_rows cfg (map length bands) c;
     let (seconds, c) = new_block_rows cfg (map length bands) c;
     c \<leftarrow> set_goto cfg top_bb (firsts ! 0 ! 0) c;
     c \<leftarrow> priority_bands_loop cfg ms bands lasts sweeps top_bb firsts seconds check_done [0..<length bands] c;
     let (stuck, c) = new_block cfg c;
     let (no_progress, c) = new_block cfg c;
     let (progressed, c) = new_bool_local cfg c;
     c \<leftarrow> emit_eq_check_i64 cfg no_progress progressed progress 1 c;
     c \<leftarrow> set_branch cfg no_progress progressed top_bb stuck c;
     (reported, c) \<leftarrow> emit_deadlock cfg stuck c;
     c \<leftarrow> (if reported then Some c else set_goto cfg stuck top_bb c);
     (check, c) \<leftarrow> check_done_chain cfg no_progress ms check_done c;
     c \<leftarrow> set_goto cfg check exit c;
     finish_region cfg region ms init c }"

definition cooperative_executor :: "('c, 'b, 'l) coro_cfg \<Rightarrow> ('c, 'b, 'l, unit) executor" where
  "cooperative_executor cfg region ms e c = do {
     c \<leftarrow> (if \<exists>co\<in>set (coroutines region). co_priority co \<noteq> None
           then build_priority_loop cfg region ms c else build_cooperative_loop cfg region ms c);
     Some (e, c) }"

section \<open>The one-shot poll\<close>

record 'b region_exits =
  re_done :: 'b
  re_pending :: 'b

definition build_oneshot_poll :: "('c, 'b, 'l) coro_cfg \<Rightarrow> 'b region \<Rightarrow> ('b, 'l) machine list \<Rightarrow> 'c \<Rightarrow>
    ('b region_exits \<times> 'c) option" where
  "build_oneshot_poll cfg region ms c = do {
     let (poll_top, c) = new_block cfg c;
     let (region_done, c) = new_block cfg c;
     let (region_pending, c) = new_block cfg c;
     let end_bb = fst (region_end region);
     n \<leftarrow> statement_count cfg c end_bb;
     (post, c) \<leftarrow> split_after cfg end_bb (n - 1) c;
     c \<leftarrow> set_goto cfg region_done post c;
     let (all_done, c) = new_mut_bool_local cfg c;
     c \<leftarrow> emit_assign_bool cfg poll_top all_done True c;
     (current, c) \<leftarrow> poll_chain cfg all_done None True ms poll_top c;
     c \<leftarrow> set_branch cfg current all_done region_done region_pending c;
     c \<leftarrow> finish_region cfg region ms poll_top c;
     Some (\<lparr>re_done = region_done, re_pending = region_pending\<rparr>, c) }"

definition waker_executor :: "('c, 'b, 'l) coro_cfg \<Rightarrow> ('c, 'b, 'l, 'b region_exits list) executor" where
  "waker_executor cfg region ms e c = do {
     (exits, c) \<leftarrow> build_oneshot_poll cfg region ms c;
     Some (e @ [exits], c) }"

section \<open>The bands of the priority loop\<close>

definition prio_key :: "'b coroutine list \<Rightarrow> nat \<Rightarrow> nat" where
  "prio_key cos i = (case co_priority (cos ! i) of Some p \<Rightarrow> unat p | None \<Rightarrow> 2 ^ 32 - 1)"

text \<open>What the bands of a sorted prefix of the order are.\<close>

definition bands_ok :: "'b coroutine list \<Rightarrow> nat list \<Rightarrow> nat list list \<Rightarrow> bool" where
  "bands_ok cos is bs \<longleftrightarrow> concat bs = is \<and> [] \<notin> set bs \<and> (\<forall>b\<in>set bs. \<forall>i\<in>set b. co_priority (cos ! i) = co_priority (cos ! (b ! 0))) \<and>
     sorted_wrt (\<lambda>b b'. prio_key cos (b ! 0) < prio_key cos (b' ! 0)) bs"

lemma prio_key_inj:
  assumes "\<forall>co\<in>set cos. co_priority co \<noteq> Some 0xFFFFFFFF" and "i < length cos" and "j < length cos"
  shows "prio_key cos i = prio_key cos j \<longleftrightarrow> co_priority (cos ! i) = co_priority (cos ! j)"
proof -
  have max: "unat (0xFFFFFFFF :: u32) = 2 ^ 32 - 1" by simp
  have "unat p \<noteq> 2 ^ 32 - 1" if "co_priority (cos ! k) = Some p" "k < length cos" for k p
  proof
    assume "unat p = 2 ^ 32 - 1"
    then have "p = 0xFFFFFFFF" using max unsigned_word_eqI [of p "0xFFFFFFFF"] by simp
    then show False using assms(1) that nth_mem by metis
  qed
  note ne = this
  show ?thesis
  proof (cases "co_priority (cos ! i)")
    case None
    with ne [of j] assms(3) show ?thesis by (cases "co_priority (cos ! j)") (auto simp: prio_key_def)
  next
    case (Some p)
    with ne [of i] assms(2) show ?thesis
      by (cases "co_priority (cos ! j)") (auto simp: prio_key_def intro: unsigned_word_eqI)
  qed
qed

lemma prio_key_less:
  assumes "prio_key cos i < prio_key cos j"
  shows "\<exists>p. co_priority (cos ! i) = Some p \<and> (\<forall>p'. co_priority (cos ! j) = Some p' \<longrightarrow> p < p')"
proof (cases "co_priority (cos ! i)")
  case None
  have "unat p < 2 ^ 32" for p :: u32 using unsigned_less [of p] by simp
  then have "prio_key cos j \<le> 2 ^ 32 - 1" unfolding prio_key_def by (cases "co_priority (cos ! j)") (simp_all add: less_Suc_eq_le [symmetric])
  moreover have "prio_key cos i = 2 ^ 32 - 1" using None by (simp add: prio_key_def)
  ultimately show ?thesis using assms by simp
next
  case (Some p)
  then show ?thesis using assms by (auto simp: prio_key_def word_less_nat_alt)
qed

lemma bands_step:
  assumes bands: "bands_ok cos is bs" and sorted: "\<forall>j\<in>set is. prio_key cos j \<le> prio_key cos i"
    and inj: "\<forall>j\<in>set is. prio_key cos j = prio_key cos i \<longrightarrow> co_priority (cos ! j) = co_priority (cos ! i)"
  shows "bands_ok cos (is @ [i]) (add_to_bands cos i bs)"
proof (cases "bs = []")
  case True
  with bands show ?thesis by (auto simp: bands_ok_def)
next
  case False
  then obtain pre b where bs: "bs = pre @ [b]" by (cases bs rule: rev_cases) auto
  have b: "b \<noteq> []" "set b \<subseteq> set is" using bands bs by (auto simp: bands_ok_def)
  then have b0: "b ! 0 \<in> set is" using nth_mem [of 0 b] by auto
  have pre: "prio_key cos (b' ! 0) < prio_key cos (b ! 0)" if "b' \<in> set pre" for b'
    using bands that bs by (simp add: bands_ok_def sorted_wrt_append)
  show ?thesis
  proof (cases "co_priority (cos ! (b ! 0)) = co_priority (cos ! i)")
    case True
    then have "add_to_bands cos i bs = pre @ [b @ [i]]" using bs by simp
    moreover have "(b @ [i]) ! 0 = b ! 0" using b(1) by (simp add: nth_append)
    ultimately show ?thesis using bands bs b(1) True by (auto simp: bands_ok_def sorted_wrt_append)
  next
    case ne: False
    then have "prio_key cos (b ! 0) < prio_key cos i" using sorted inj b0 by (metis le_neq_implies_less)
    moreover from this pre have "prio_key cos (b' ! 0) < prio_key cos i" if "b' \<in> set pre" for b' using that less_trans by blast
    moreover have "add_to_bands cos i bs = bs @ [[i]]" using ne bs by simp
    ultimately show ?thesis using bands bs by (auto simp: bands_ok_def sorted_wrt_append)
  qed
qed

lemma bands_fold:
  assumes "sorted (map (prio_key cos) is)" and "\<forall>i\<in>set is. i < length cos" and "\<forall>co\<in>set cos. co_priority co \<noteq> Some 0xFFFFFFFF"
  shows "bands_ok cos is (fold (add_to_bands cos) is [])"
  using assms(1,2)
proof (induction "is" rule: rev_induct)
  case Nil
  then show ?case by (simp add: bands_ok_def)
next
  case (snoc i js)
  then have "bands_ok cos js (fold (add_to_bands cos) js [])" by (simp add: sorted_append del: add_to_bands.simps)
  moreover have "\<forall>j\<in>set js. prio_key cos j \<le> prio_key cos i" using snoc.prems(1) by (simp add: sorted_append)
  moreover have "\<forall>j\<in>set js. prio_key cos j = prio_key cos i \<longrightarrow> co_priority (cos ! j) = co_priority (cos ! i)"
    using prio_key_inj [OF assms(3)] snoc.prems(2) by auto
  ultimately show ?case by (simp only: fold_append comp_apply fold_simps bands_step)
qed

text \<open>A band of sorted bands is all of its key.\<close>

lemma band_of_key:
  assumes "bands_ok cos is bs" and "b \<in> set bs"
  shows "filter (\<lambda>j. prio_key cos j = prio_key cos (b ! 0)) is = b"
proof -
  have key: "prio_key cos i = prio_key cos (c ! 0)" if "c \<in> set bs" "i \<in> set c" for c i
  proof -
    have "\<forall>b\<in>set bs. \<forall>i\<in>set b. co_priority (cos ! i) = co_priority (cos ! (b ! 0))" using assms(1) by (simp add: bands_ok_def)
    from bspec [OF bspec [OF this that(1)] that(2)] show ?thesis by (simp add: prio_key_def)
  qed
  obtain pre post where bs: "bs = pre @ b # post" using split_list [OF assms(2)] by blast
  have out: "prio_key cos j \<noteq> prio_key cos (b ! 0)" if "c \<in> set pre \<union> set post" "j \<in> set c" for c j
  proof -
    have sorted: "sorted_wrt (\<lambda>b b'. prio_key cos (b ! 0) < prio_key cos (b' ! 0)) (pre @ b # post)"
      using assms(1) unfolding bands_ok_def bs by (elim conjE)
    have "prio_key cos (c ! 0) \<noteq> prio_key cos (b ! 0)"
    proof (cases "c \<in> set pre")
      case True
      have "\<forall>x\<in>set pre. prio_key cos (x ! 0) < prio_key cos (b ! 0)" using sorted by (simp add: sorted_wrt_append)
      from bspec [OF this True] show ?thesis by simp
    next
      case False
      with that(1) have c: "c \<in> set post" by simp
      have "\<forall>x\<in>set post. prio_key cos (b ! 0) < prio_key cos (x ! 0)" using sorted by (simp add: sorted_wrt_append)
      from bspec [OF this c] show ?thesis by simp
    qed
    moreover have "c \<in> set bs" using that(1) bs by auto
    ultimately show ?thesis unfolding key [OF \<open>c \<in> set bs\<close> that(2)] by simp
  qed
  have "filter (\<lambda>j. prio_key cos j = prio_key cos (b ! 0)) (concat pre) = []"
    "filter (\<lambda>j. prio_key cos j = prio_key cos (b ! 0)) (concat post) = []"
    using out by (auto simp: filter_empty_conv)
  moreover have "filter (\<lambda>j. prio_key cos j = prio_key cos (b ! 0)) b = b" using key [OF assms(2)] by (simp add: filter_id_conv)
  moreover have "is = concat pre @ b @ concat post" using assms(1) bs by (simp add: bands_ok_def)
  ultimately show ?thesis by simp
qed

text \<open>The bands of the priority loop: when no coroutine has the priority u32::MAX, a band is all coroutines of one
  priority in source order, every coroutine is in a band, the bands come in order of ascending priority and the
  coroutines without a priority in the last one.\<close>

theorem priority_bands_group_by_priority:
  assumes "\<forall>co\<in>set cos. co_priority co \<noteq> Some 0xFFFFFFFF"
  shows "(\<forall>b\<in>set (priority_bands cos). b \<noteq> [] \<and>
      (\<exists>p. b = filter (\<lambda>i. co_priority (cos ! i) = p) [0..<length cos])) \<and>
    set (concat (priority_bands cos)) = {..<length cos} \<and>
    sorted_wrt (\<lambda>b b'. \<exists>p. co_priority (cos ! (b ! 0)) = Some p \<and>
      (\<forall>p'. co_priority (cos ! (b' ! 0)) = Some p' \<longrightarrow> p < p')) (priority_bands cos)"
proof -
  let ?is = "sort_key (prio_key cos) [0..<length cos]"
  have order: "priority_order cos = ?is" by (simp add: priority_order_def prio_key_def [abs_def])
  have in_range: "\<forall>i\<in>set ?is. i < length cos" by simp
  have ok: "bands_ok cos ?is (priority_bands cos)"
    unfolding priority_bands_def order by (rule bands_fold [OF _ in_range assms]) simp
  have first: "b \<noteq> []" "b ! 0 < length cos" if "b \<in> set (priority_bands cos)" for b
  proof -
    show "b \<noteq> []" using ok that by (auto simp: bands_ok_def)
    then have "b ! 0 \<in> set b" by simp
    then have "b ! 0 \<in> set (concat (priority_bands cos))" using that unfolding set_concat by blast
    then have "b ! 0 \<in> set ?is" using ok unfolding bands_ok_def by (simp only:)
    then show "b ! 0 < length cos" by simp
  qed
  have "b = filter (\<lambda>i. co_priority (cos ! i) = co_priority (cos ! (b ! 0))) [0..<length cos]" if b: "b \<in> set (priority_bands cos)" for b
  proof -
    have "b = filter (\<lambda>j. prio_key cos j = prio_key cos (b ! 0)) ?is" using band_of_key [OF ok b] by simp
    also have "\<dots> = filter (\<lambda>j. prio_key cos j = prio_key cos (b ! 0)) [0..<length cos]" by (rule sort_key_stable)
    also have "\<dots> = filter (\<lambda>i. co_priority (cos ! i) = co_priority (cos ! (b ! 0))) [0..<length cos]"
      using prio_key_inj [OF assms _ first(2) [OF b]] by (intro filter_cong) simp_all
    finally show ?thesis .
  qed
  then have "\<forall>b\<in>set (priority_bands cos). b \<noteq> [] \<and> (\<exists>p. b = filter (\<lambda>i. co_priority (cos ! i) = p) [0..<length cos])"
    using first(1) by blast
  moreover have "set (concat (priority_bands cos)) = {..<length cos}" using ok by (auto simp: bands_ok_def)
  moreover have "sorted_wrt (\<lambda>b b'. \<exists>p. co_priority (cos ! (b ! 0)) = Some p \<and>
      (\<forall>p'. co_priority (cos ! (b' ! 0)) = Some p' \<longrightarrow> p < p')) (priority_bands cos)"
  proof (rule sorted_wrt_mono_rel [of _ "\<lambda>b b'. prio_key cos (b ! 0) < prio_key cos (b' ! 0)"])
    show "sorted_wrt (\<lambda>b b'. prio_key cos (b ! 0) < prio_key cos (b' ! 0)) (priority_bands cos)" using ok by (simp add: bands_ok_def)
    show "\<exists>p. co_priority (cos ! (b ! 0)) = Some p \<and> (\<forall>p'. co_priority (cos ! (b' ! 0)) = Some p' \<longrightarrow> p < p')"
      if "prio_key cos (b ! 0) < prio_key cos (b' ! 0)" for b b'
      by (rule prio_key_less [OF that])
  qed
  ultimately show ?thesis by blast
qed

text \<open>A coroutine of priority u32::MAX is not told from the ones without priority.\<close>

definition at_max :: "u32 option list \<Rightarrow> nat coroutine list" where
  "at_max ps = map (\<lambda>p. \<lparr>co_begin = (0, 0), co_end = (0, 0), co_priority = p\<rparr>) ps"

theorem max_priority_after_none: "priority_bands (at_max [None, Some 0xFFFFFFFF]) = [[0], [1]]"
  by (simp add: priority_bands_def priority_order_def at_max_def upt_conv_Cons)

theorem four_bands:
  "set (concat (priority_bands (at_max [Some 7, None, Some 3, Some 7]))) = {..<4} \<and>
    priority_bands (at_max [Some 7, None, Some 3, Some 7]) = [[2], [0, 3], [1]]"
proof
  show "set (concat (priority_bands (at_max [Some 7, None, Some 3, Some 7]))) = {..<4}"
    using priority_bands_group_by_priority [of "at_max [Some 7, None, Some 3, Some 7]"] by (simp add: at_max_def)
  show "priority_bands (at_max [Some 7, None, Some 3, Some 7]) = [[2], [0, 3], [1]]"
    by (simp add: priority_bands_def priority_order_def at_max_def upt_conv_Cons)
qed

end
