(* ===== verification/Krio_Lowering.thy ===== *)
theory Krio_Lowering
  imports Krio_Executor
begin

text \<open>
  What the machines of \<open>crates/krio-stackless/src/lib.rs\<close> compute, over the toy body of the tests. A
  toy body is a map from identities to blocks, each method of the adapter one update of it; running
  a body is executing its blocks one after the other. The lowered coroutine, polled again and
  again, runs the original.

  The test adapter records the statements and terminators of a body and has no engine that runs them.
  The execution semantics of this theory is the development's own: the one the names of the
  adapter's constructors and the documentation of the trait's methods give them. Everything said here
  of runs is relative to it.
\<close>

section \<open>The blocks of a toy body as a map\<close>

definition toy_put :: "toy_block_id \<Rightarrow> toy_stmt list \<times> toy_term \<Rightarrow> toy_body \<Rightarrow> toy_body" where
  "toy_put bb x c = c\<lparr>tb_blocks := (tb_blocks c)[unat bb := x]\<rparr>"

definition toy_grow :: "toy_stmt list \<times> toy_term \<Rightarrow> toy_body \<Rightarrow> toy_body" where
  "toy_grow x c = c\<lparr>tb_blocks := tb_blocks c @ [x]\<rparr>"

definition toy_fresh :: "toy_body \<Rightarrow> toy_block_id" where
  "toy_fresh c = of_nat (length (tb_blocks c))"

definition toy_more :: "local_ty \<Rightarrow> toy_body \<Rightarrow> toy_body" where
  "toy_more ty c = c\<lparr>tb_locals := tb_locals c @ [ty]\<rparr>"

definition toy_local :: "toy_body \<Rightarrow> toy_local_id" where
  "toy_local c = of_nat (length (tb_locals c))"

lemma toy_block_put [simp]:
  "toy_block c bb \<noteq> None \<Longrightarrow> toy_block (toy_put bb x c) = (toy_block c)(bb \<mapsto> x)"
  by (auto simp: toy_block_def toy_put_def get_nth_def fun_eq_iff nth_list_update unat_u32_inj split: if_splits)

lemma toy_block_more [simp]: "toy_block (toy_more ty c) = toy_block c"
  by (simp add: toy_block_def toy_more_def fun_eq_iff)

lemma toy_room_simps [simp]:
  "toy_room (toy_put bb x c) = toy_room c" "toy_room (toy_more ty c) = toy_room c"
  "toy_room (toy_grow x c) = toy_room c - 1"
  by (simp_all add: toy_room_def toy_put_def toy_more_def toy_grow_def)

lemma toy_fresh_simps [simp]:
  "toy_fresh (toy_put bb x c) = toy_fresh c" "toy_fresh (toy_more ty c) = toy_fresh c"
  by (simp_all add: toy_fresh_def toy_put_def toy_more_def)

lemma toy_local_simps [simp]:
  "toy_local (toy_put bb x c) = toy_local c" "toy_local (toy_grow x c) = toy_local c"
  by (simp_all add: toy_local_def toy_put_def toy_grow_def)

lemma toy_fresh_none: "0 < toy_room c \<Longrightarrow> toy_block c (toy_fresh c) = None"
  by (simp add: toy_block_def toy_fresh_def toy_room_def get_nth_def unat_of_nat_u32)

lemma toy_block_grow: "0 < toy_room c \<Longrightarrow> toy_block (toy_grow x c) = (toy_block c)(toy_fresh c \<mapsto> x)"
proof
  fix b assume "0 < toy_room c"
  then have u: "unat (toy_fresh c) = length (tb_blocks c)"
    by (simp add: toy_fresh_def toy_room_def unat_of_nat_u32)
  show "toy_block (toy_grow x c) b = ((toy_block c)(toy_fresh c \<mapsto> x)) b"
  proof (cases "b = toy_fresh c")
    case True
    with u show ?thesis by (simp add: toy_block_def toy_grow_def get_nth_def)
  next
    case False
    then have "unat b \<noteq> length (tb_blocks c)" using u unat_u32_inj by metis
    with False show ?thesis by (simp add: toy_block_def toy_grow_def get_nth_def nth_append)
  qed
qed

text \<open>Every method of the adapter as an update of that map.\<close>

lemma toy_ops:
  "toy_block c bb = Some (s, t) \<Longrightarrow> emit_assign_i64 toy_cfg bb l v c = Some (toy_put bb (s @ [AssignI64 l v], t) c)"
  "toy_block c bb = Some (s, t) \<Longrightarrow> emit_assign_bool toy_cfg bb l w c = Some (toy_put bb (s @ [AssignBool l w], t) c)"
  "toy_block c bb = Some (s, t) \<Longrightarrow> emit_eq_check_i64 toy_cfg bb d l v c = Some (toy_put bb (s @ [EqCheckI64 d l v], t) c)"
  "toy_block c bb = Some (s, t) \<Longrightarrow> prepend_assign_i64 toy_cfg bb l v c = Some (toy_put bb (AssignI64 l v # s, t) c)"
  "toy_block c bb = Some (s, t) \<Longrightarrow> set_goto toy_cfg bb g c = Some (toy_put bb (s, Goto g) c)"
  "toy_block c bb = Some (s, t) \<Longrightarrow> set_branch toy_cfg bb l g h c = Some (toy_put bb (s, Branch l g h) c)"
  "toy_block c bb = Some (s, t) \<Longrightarrow> set_switch toy_cfg bb l gs h c = Some (toy_put bb (s, Switch l gs h) c)"
  "toy_block c bb = Some (s, t) \<Longrightarrow> redirect_targets toy_cfg bb g h c = Some (toy_put bb (s, term_redirect g h t) c)"
  "toy_block c bb = Some (s, t) \<Longrightarrow> replace_with_nop toy_cfg bb i c =
     (if i < length s then Some (toy_put bb (s[i := Nop], t) c) else None)"
  "toy_block c bb = Some (s, t) \<Longrightarrow> split_after toy_cfg bb i c =
     (if i < length s then Some (toy_fresh c, toy_grow (drop (Suc i) s, t) (toy_put bb (take (Suc i) s, Unreachable) c)) else None)"
  "toy_block c bb = Some (s, t) \<Longrightarrow> statement_count toy_cfg c bb = Some (length s)"
  "new_block toy_cfg c = (toy_fresh c, toy_grow ([], Unreachable) c)"
  "new_state_local toy_cfg c = (toy_local c, toy_more I64Mut c)"
  "new_bool_local toy_cfg c = (toy_local c, toy_more LBool c)"
  "new_mut_bool_local toy_cfg c = (toy_local c, toy_more BoolMut c)"
  "emit_deadlock toy_cfg bb c = Some (False, c)"
  by (simp_all add: toy_cfg_def toy_stmts_def toy_term_def toy_put_def toy_grow_def toy_more_def toy_fresh_def toy_local_def
      toy_push_block_def toy_new_local_def toy_split_after_def default_emit_deadlock_def set_nth_def Suc_le_eq)

lemma toy_ops_none:
  "toy_block c bb = None \<Longrightarrow> emit_assign_i64 toy_cfg bb l v c = None"
  "toy_block c bb = None \<Longrightarrow> set_goto toy_cfg bb g c = None"
  "toy_block c bb = None \<Longrightarrow> split_after toy_cfg bb i c = None"
  by (simp_all add: toy_cfg_def toy_stmts_def toy_term_def toy_split_after_def)

section \<open>Suspensions\<close>

text \<open>What a yield and a producing send leave of the statements up to the point.\<close>

definition point_head :: "susp_kind \<Rightarrow> nat \<Rightarrow> toy_stmt list \<Rightarrow> toy_stmt list" where
  "point_head k i s = (if k = SYield then (take (Suc i) s)[i := Nop] else take (Suc i) s)"

lemma emit_suspension_toy:
  assumes "k \<noteq> SGuardedRecv" and "toy_block c b = Some (s, t)" and "i < length s" and "2 \<le> toy_room c"
  shows "\<exists>y r c'. emit_suspension toy_cfg hooks st po pr ex n (b, i, k) c = Some (r, c') \<and>
    y \<notin> dom (toy_block c) \<and> r \<notin> dom (toy_block c) \<and> y \<noteq> r \<and> toy_room c' = toy_room c - 2 \<and>
    toy_block c' = (toy_block c)(y \<mapsto> ([AssignI64 st n, AssignI64 po POLL_PENDING], Goto ex),
      b \<mapsto> (point_head k i s, Goto y), r \<mapsto> (drop (Suc i) s, t))"
proof -
  let ?y = "toy_fresh c" and ?c1 = "toy_grow ([], Unreachable) c"
  have y: "toy_block c ?y = None" using assms(4) by (intro toy_fresh_none) simp
  then have "?y \<noteq> b" using assms(2) by auto
  have b1: "toy_block ?c1 = (toy_block c)(?y \<mapsto> ([], Unreachable))" using assms(4) by (intro toy_block_grow) simp
  obtain c2 where c2: "emit_pair toy_cfg ?y st n po POLL_PENDING ex ?c1 = Some c2"
    "toy_block c2 = (toy_block c)(?y \<mapsto> ([AssignI64 st n, AssignI64 po POLL_PENDING], Goto ex))"
    "toy_room c2 = toy_room c - 1"
    by (simp add: emit_pair_def toy_ops b1)
  let ?r = "toy_fresh c2"
  have r: "toy_block c2 ?r = None" using assms(4) c2(3) by (intro toy_fresh_none) simp
  then have r': "?r \<noteq> ?y" "?r \<noteq> b" "toy_block c ?r = None" using c2(2) assms(2) by (auto split: if_splits)
  have b2: "toy_block c2 b = Some (s, t)" using c2(2) assms(2) \<open>?y \<noteq> b\<close> by simp
  define c3 where "c3 = toy_grow (drop (Suc i) s, t) (toy_put b (take (Suc i) s, Unreachable) c2)"
  have c3: "split_after toy_cfg b i c2 = Some (?r, c3)" using assms(3) by (simp add: toy_ops(10) [OF b2] c3_def)
  have b3: "toy_block c3 = (toy_block c2)(b \<mapsto> (take (Suc i) s, Unreachable), ?r \<mapsto> (drop (Suc i) s, t))"
    using toy_block_grow [of "toy_put b (take (Suc i) s, Unreachable) c2"] c2(3) assms(4) b2 by (simp add: c3_def)
  have room3: "toy_room c3 = toy_room c - 2" using c2(3) by (simp add: c3_def)
  have new: "new_block toy_cfg c = (?y, ?c1)" by (simp add: toy_ops)
  show ?thesis
  proof (cases k)
    case SYield
    have "replace_with_nop toy_cfg b i c3 = Some (toy_put b ((take (Suc i) s)[i := Nop], Unreachable) c3)"
      using b3 assms(3) r'(2) by (simp add: toy_ops)
    moreover have "set_goto toy_cfg b ?y (toy_put b ((take (Suc i) s)[i := Nop], Unreachable) c3) =
        Some (toy_put b ((take (Suc i) s)[i := Nop], Goto ?y) (toy_put b ((take (Suc i) s)[i := Nop], Unreachable) c3))"
      using b3 r'(2) by (simp add: toy_ops)
    ultimately have "emit_suspension toy_cfg hooks st po pr ex n (b, i, k) c =
        Some (?r, toy_put b (point_head k i s, Goto ?y) (toy_put b ((take (Suc i) s)[i := Nop], Unreachable) c3))"
      using new c2(1) c3 SYield by (simp add: emit_suspension_def point_head_def Let_def)
    then show ?thesis
      using b3 room3 y r r' c2(2) by (intro exI [of _ ?y] exI [of _ ?r]) (auto simp: fun_eq_iff)
  next
    case SProducingSend
    have "set_goto toy_cfg b ?y c3 = Some (toy_put b (take (Suc i) s, Goto ?y) c3)"
      using b3 r'(2) by (simp add: toy_ops)
    then have "emit_suspension toy_cfg hooks st po pr ex n (b, i, k) c = Some (?r, toy_put b (point_head k i s, Goto ?y) c3)"
      using new c2(1) c3 SProducingSend by (simp add: emit_suspension_def point_head_def Let_def)
    then show ?thesis
      using b3 room3 y r r' c2(2) by (intro exI [of _ ?y] exI [of _ ?r]) (auto simp: fun_eq_iff)
  qed (use assms(1) in simp)
qed

text \<open>
  A list of points in blocks of their own: \<open>rs\<close> are the blocks they resume at, \<open>ys\<close> their yield blocks.
\<close>

definition points_ok :: "('b \<times> nat \<times> susp_kind) list \<Rightarrow> ('b \<rightharpoonup> toy_stmt list \<times> toy_term) \<Rightarrow> bool" where
  "points_ok ps B \<longleftrightarrow> distinct (map fst ps) \<and>
     (\<forall>(b, i, k)\<in>set ps. k \<noteq> SGuardedRecv \<and> (\<exists>s t. B b = Some (s, t) \<and> i < length s))"

type_synonym toy_blocks = "toy_block_id \<rightharpoonup> toy_stmt list \<times> toy_term"

text \<open>Point \<open>p\<close>, with state \<open>n\<close>, in the blocks \<open>C\<close> made from \<open>B\<close>.\<close>

definition point_lowered :: "toy_blocks \<Rightarrow> toy_local_id \<Rightarrow> toy_local_id \<Rightarrow> toy_block_id \<Rightarrow> toy_blocks \<Rightarrow> nat \<Rightarrow>
    toy_block_id \<times> nat \<times> susp_kind \<Rightarrow> toy_block_id \<Rightarrow> bool" where
  "point_lowered B st po ex C n p r \<longleftrightarrow> (\<exists>y s t. case p of (b, i, k) \<Rightarrow>
     B b = Some (s, t) \<and> y \<notin> dom B \<and> r \<notin> dom B \<and>
     C b = Some (point_head k i s, Goto y) \<and>
     C y = Some ([AssignI64 st (int n), AssignI64 po POLL_PENDING], Goto ex) \<and>
     C r = Some (drop (Suc i) s, t))"

lemma emit_suspensions_toy:
  assumes "points_ok ps (toy_block c)" and "2 * length ps \<le> toy_room c"
  shows "\<exists>rs c'. emit_suspensions toy_cfg hooks st po pr ex n ps es c = Some (es @ rs, c') \<and> length rs = length ps \<and>
    toy_room c' = toy_room c - 2 * length ps \<and> dom (toy_block c) \<subseteq> dom (toy_block c') \<and>
    (\<forall>b\<in>dom (toy_block c). b \<notin> fst ` set ps \<longrightarrow> toy_block c' b = toy_block c b) \<and>
    (\<forall>j<length ps. point_lowered (toy_block c) st po ex (toy_block c') (Suc (n + j)) (ps ! j) (rs ! j))"
  using assms
proof (induction ps arbitrary: c n es)
  case Nil
  then show ?case by simp
next
  case (Cons p ps)
  obtain b i k where p: "p = (b, i, k)" by (cases p)
  with Cons.prems(1) obtain s t where st: "k \<noteq> SGuardedRecv" "toy_block c b = Some (s, t)" "i < length s"
    by (auto simp: points_ok_def)
  obtain y r c1 where 1: "emit_suspension toy_cfg hooks st po pr ex (int (n + 1)) p c = Some (r, c1)"
    "y \<notin> dom (toy_block c)" "r \<notin> dom (toy_block c)" "y \<noteq> r" "toy_room c1 = toy_room c - 2"
    "toy_block c1 = (toy_block c)(y \<mapsto> ([AssignI64 st (int (n + 1)), AssignI64 po POLL_PENDING], Goto ex),
      b \<mapsto> (point_head k i s, Goto y), r \<mapsto> (drop (Suc i) s, t))"
    using emit_suspension_toy [OF st, of hooks st po pr ex "int (n + 1)"] Cons.prems(2) p by auto
  have same: "toy_block c1 x = toy_block c x" if "x \<in> dom (toy_block c)" "x \<noteq> b" for x
    using that 1(2,3,6) by auto
  have notb: "b \<notin> fst ` set ps" using Cons.prems(1) p by (auto simp: points_ok_def)
  have "points_ok ps (toy_block c1)"
    unfolding points_ok_def
  proof (intro conjI ballI)
    show "distinct (map fst ps)" using Cons.prems(1) by (simp add: points_ok_def)
    fix q assume q: "q \<in> set ps"
    obtain x j l where x: "q = (x, j, l)" by (cases q)
    from q Cons.prems(1) x obtain s' t' where "l \<noteq> SGuardedRecv" "toy_block c x = Some (s', t')" "j < length s'"
      by (auto simp: points_ok_def)
    moreover have "x \<noteq> b" using q x notb by force
    ultimately show "case q of (b, i, k) \<Rightarrow> k \<noteq> SGuardedRecv \<and> (\<exists>s t. toy_block c1 b = Some (s, t) \<and> i < length s)"
      using same [of x] x by auto
  qed
  moreover have "2 * length ps \<le> toy_room c1" using Cons.prems(2) 1(5) by simp
  ultimately obtain rs c' where 2: "emit_suspensions toy_cfg hooks st po pr ex (n + 1) ps (es @ [r]) c1 = Some ((es @ [r]) @ rs, c')"
    "length rs = length ps" "toy_room c' = toy_room c1 - 2 * length ps" "dom (toy_block c1) \<subseteq> dom (toy_block c')"
    "\<forall>b\<in>dom (toy_block c1). b \<notin> fst ` set ps \<longrightarrow> toy_block c' b = toy_block c1 b"
    "\<forall>j<length ps. point_lowered (toy_block c1) st po ex (toy_block c') (Suc (n + 1 + j)) (ps ! j) (rs ! j)"
    using Cons.IH by blast
  have grow: "dom (toy_block c) \<subseteq> dom (toy_block c1)" using 1(6) by auto
  have ps_in: "fst q \<in> dom (toy_block c)" "fst q \<noteq> b" if "q \<in> set ps" for q
    using that Cons.prems(1) notb by (fastforce simp: points_ok_def)+
  have kept: "toy_block c' x = toy_block c1 x" if "x \<in> {b, y, r}" for x
  proof -
    have "x \<in> dom (toy_block c1)" using that 1(6) by auto
    moreover have "x \<notin> fst ` set ps" using that notb ps_in 1(2,3) by auto
    ultimately show ?thesis using 2(5) by blast
  qed
  have "y \<noteq> b" "r \<noteq> b" using 1(2,3) st(2) by auto
  then have first: "point_lowered (toy_block c) st po ex (toy_block c') (Suc n) p r"
    using kept [of b] kept [of y] kept [of r] 1(2-4,6) st(2)
    unfolding point_lowered_def p by (intro exI [of _ y] exI [of _ s] exI [of _ t]) auto
  have rest: "point_lowered (toy_block c) st po ex C m q r'"
    if "point_lowered (toy_block c1) st po ex C m q r'" "q \<in> set ps" for C m q r'
  proof -
    obtain x j l where q: "q = (x, j, l)" by (cases q)
    from that(1) obtain y' s' t' where *: "toy_block c1 x = Some (s', t')" "y' \<notin> dom (toy_block c1)" "r' \<notin> dom (toy_block c1)"
      "C x = Some (point_head l j s', Goto y')" "C y' = Some ([AssignI64 st (int m), AssignI64 po POLL_PENDING], Goto ex)"
      "C r' = Some (drop (Suc j) s', t')"
      unfolding point_lowered_def q by auto
    have "toy_block c x = Some (s', t')" using same [of x] ps_in [OF that(2)] *(1) q by simp
    with * grow show ?thesis unfolding point_lowered_def q by blast
  qed
  have "point_lowered (toy_block c) st po ex (toy_block c') (Suc (n + j)) ((p # ps) ! j) ((r # rs) ! j)"
    if "j < length (p # ps)" for j
    using that first rest 2(6) by (cases j) auto
  moreover have "toy_block c' x = toy_block c x" if "x \<in> dom (toy_block c)" "x \<notin> fst ` set (p # ps)" for x
    using that 2(5) same [of x] grow p by auto
  moreover have "emit_suspensions toy_cfg hooks st po pr ex n (p # ps) es c = Some (es @ r # rs, c')"
    using 1(1) 2(1) by simp
  ultimately show ?case
    using 2(2-4) 1(5) grow by (intro exI [of _ "r # rs"] exI [of _ c']) auto
qed


section \<open>The machine of a coroutine\<close>

lemma emit_multi_toy:
  assumes "points_ok ps (toy_block c)" and "2 * length ps < toy_room c"
    and "toy_block c (fst (co_end co)) = Some (se, te)" and "fst (co_end co) \<notin> fst ` set ps"
    and "toy_block c d = Some (sd, td)" and "d \<notin> fst ` set ps" and "d \<noteq> fst (co_end co)"
  shows "\<exists>rs dn c'. emit_multi_state_machine toy_cfg hooks co ps st po pr d ex c = Some c' \<and> length rs = length ps \<and>
    dn \<notin> dom (toy_block c) \<and>
    toy_block c' d = Some (sd, Switch st (zip (map int [0..<Suc (length ps)]) (fst (co_begin co) # rs)) ex) \<and>
    toy_block c' (fst (co_end co)) = Some (se, Goto dn) \<and>
    toy_block c' dn = Some ([AssignI64 po POLL_READY, AssignI64 st DONE_STATE], Goto ex) \<and>
    (\<forall>b\<in>dom (toy_block c). b \<notin> fst ` set ps \<longrightarrow> b \<noteq> d \<longrightarrow> b \<noteq> fst (co_end co) \<longrightarrow> toy_block c' b = toy_block c b) \<and>
    (\<forall>j<length ps. point_lowered (toy_block c) st po ex (toy_block c') (Suc j) (ps ! j) (rs ! j))"
proof -
  let ?e = "fst (co_end co)"
  obtain rs c1 where 1: "emit_suspensions toy_cfg hooks st po pr ex 0 ps [fst (co_begin co)] c = Some ([fst (co_begin co)] @ rs, c1)"
    "length rs = length ps" "toy_room c1 = toy_room c - 2 * length ps" "dom (toy_block c) \<subseteq> dom (toy_block c1)"
    "\<forall>b\<in>dom (toy_block c). b \<notin> fst ` set ps \<longrightarrow> toy_block c1 b = toy_block c b"
    "\<forall>j<length ps. point_lowered (toy_block c) st po ex (toy_block c1) (Suc (0 + j)) (ps ! j) (rs ! j)"
    using emit_suspensions_toy [OF assms(1), of hooks st po pr ex 0 "[fst (co_begin co)]"] assms(2) by auto
  let ?dn = "toy_fresh c1" and ?g = "toy_grow ([], Unreachable) c1"
  have room: "0 < toy_room c1" using 1(3) assms(2) by simp
  have dn: "toy_block c1 ?dn = None" using room by (rule toy_fresh_none)
  have e1: "toy_block c1 ?e = Some (se, te)" "toy_block c1 d = Some (sd, td)" using 1(5) assms(3-6) by auto
  have neq: "?dn \<noteq> ?e" "?dn \<noteq> d" "d \<noteq> ?e" using dn e1 assms(7) by auto
  have g: "toy_block ?g = (toy_block c1)(?dn \<mapsto> ([], Unreachable))" using room by (rule toy_block_grow)
  obtain c2 where c2: "emit_pair toy_cfg ?dn po POLL_READY st DONE_STATE ex ?g = Some c2"
    "toy_block c2 = (toy_block c1)(?dn \<mapsto> ([AssignI64 po POLL_READY, AssignI64 st DONE_STATE], Goto ex))"
    by (simp add: emit_pair_def toy_ops g)
  have e2: "toy_block c2 ?e = Some (se, te)" "toy_block c2 d = Some (sd, td)" using c2(2) e1 neq by auto
  let ?c3 = "toy_put ?e (se, Goto ?dn) c2"
  let ?sw = "Switch st (zip (map int [0..<Suc (length ps)]) (fst (co_begin co) # rs)) ex"
  let ?c' = "toy_put d (sd, ?sw) ?c3"
  have b3: "toy_block ?c3 = (toy_block c2)(?e \<mapsto> (se, Goto ?dn))" using e2 by simp
  have d3: "toy_block ?c3 d = Some (sd, td)" using b3 e2(2) neq(3) by simp
  have b': "toy_block ?c' = (toy_block c2)(?e \<mapsto> (se, Goto ?dn), d \<mapsto> (sd, ?sw))" using d3 b3 by simp
  have run: "emit_multi_state_machine toy_cfg hooks co ps st po pr d ex c = Some ?c'"
    using 1(1,2) c2(1) by (simp add: emit_multi_state_machine_def toy_ops(12) toy_ops(5) [OF e2(1)] toy_ops(7) [OF d3] Let_def
        del: upt_Suc)
  have keep: "toy_block ?c' b = toy_block c1 b" if "b \<noteq> ?dn" "b \<noteq> ?e" "b \<noteq> d" for b
    using that b' c2(2) by simp
  have "point_lowered (toy_block c) st po ex (toy_block ?c') (Suc j) (ps ! j) (rs ! j)" if j: "j < length ps" for j
  proof -
    obtain b i k where p: "ps ! j = (b, i, k)" by (cases "ps ! j")
    then have in_ps: "b \<in> fst ` set ps" using j by (metis fst_conv image_eqI nth_mem)
    from 1(6) j p obtain y s t where *: "toy_block c b = Some (s, t)" "y \<notin> dom (toy_block c)" "rs ! j \<notin> dom (toy_block c)"
      "toy_block c1 b = Some (point_head k i s, Goto y)"
      "toy_block c1 y = Some ([AssignI64 st (int (Suc j)), AssignI64 po POLL_PENDING], Goto ex)"
      "toy_block c1 (rs ! j) = Some (drop (Suc i) s, t)"
      unfolding point_lowered_def by fastforce
    have "b \<noteq> ?e" "b \<noteq> d" using in_ps assms(4,6) by blast+
    moreover have "y \<noteq> ?e" "y \<noteq> d" "rs ! j \<noteq> ?e" "rs ! j \<noteq> d" using *(2,3) assms(3,5) by auto
    moreover have "b \<noteq> ?dn" "y \<noteq> ?dn" "rs ! j \<noteq> ?dn" using *(4-6) dn by auto
    ultimately show ?thesis using * keep unfolding point_lowered_def p by auto
  qed
  moreover have "?dn \<notin> dom (toy_block c)" using dn 1(4) by auto
  moreover have "toy_block ?c' b = toy_block c b"
    if "b \<in> dom (toy_block c)" "b \<notin> fst ` set ps" "b \<noteq> d" "b \<noteq> ?e" for b
    using that keep [of b] 1(5) dn 1(4) by auto
  moreover have "toy_block ?c' d = Some (sd, ?sw)" "toy_block ?c' ?e = Some (se, Goto ?dn)"
    "toy_block ?c' ?dn = Some ([AssignI64 po POLL_READY, AssignI64 st DONE_STATE], Goto ex)"
    using b' c2(2) neq by auto
  ultimately show ?thesis using run 1(2) by blast
qed

section \<open>Running bodies\<close>

text \<open>
  The development's own semantics of the toy IR: locals hold integers, booleans are 0 and 1, a user
  statement appends its name to the output, markers and nops do nothing, a branch tests its local, a
  switch looks its local up.
\<close>

record toy_state =
  ts_vars :: "toy_local_id \<Rightarrow> int"
  ts_out :: "string list"

fun toy_exec :: "toy_stmt \<Rightarrow> toy_state \<Rightarrow> toy_state" where
  "toy_exec (TMarker m) s = s"
| "toy_exec (User n) s = s\<lparr>ts_out := ts_out s @ [n]\<rparr>"
| "toy_exec (AssignI64 l v) s = s\<lparr>ts_vars := (ts_vars s)(l := v)\<rparr>"
| "toy_exec (AssignBool l w) s = s\<lparr>ts_vars := (ts_vars s)(l := (if w then 1 else 0))\<rparr>"
| "toy_exec (EqCheckI64 d l v) s = s\<lparr>ts_vars := (ts_vars s)(d := (if ts_vars s l = v then 1 else 0))\<rparr>"
| "toy_exec Nop s = s"

fun toy_goto :: "toy_term \<Rightarrow> (toy_local_id \<Rightarrow> int) \<Rightarrow> toy_block_id option" where
  "toy_goto Unreachable \<sigma> = None"
| "toy_goto Return \<sigma> = None"
| "toy_goto (Goto t) \<sigma> = Some t"
| "toy_goto (Branch cond t f) \<sigma> = Some (if \<sigma> cond \<noteq> 0 then t else f)"
| "toy_goto (Switch d targets otherwise) \<sigma> =
     Some (case map_of targets (\<sigma> d) of Some t \<Rightarrow> t | None \<Rightarrow> otherwise)"

type_synonym toy_config = "toy_block_id option \<times> toy_state"

text \<open>One block: its statements, then its terminator. A block that does not exist ends the run.\<close>

definition toy_step :: "toy_body \<Rightarrow> toy_config \<Rightarrow> toy_config" where
  "toy_step c = (\<lambda>(pc, x). case Option.bind pc (toy_block c) of
      None \<Rightarrow> (None, x)
    | Some (s, t) \<Rightarrow> (let x = fold toy_exec s x in (toy_goto t (ts_vars x), x)))"

fun toy_run :: "toy_body \<Rightarrow> nat \<Rightarrow> toy_config \<Rightarrow> toy_config" where
  "toy_run c 0 z = z"
| "toy_run c (Suc n) z = toy_run c n (toy_step c z)"

lemma toy_run_add: "toy_run c (m + n) z = toy_run c n (toy_run c m z)"
  by (induction m arbitrary: z) simp_all

lemma toy_run_Suc: "toy_run c (Suc n) z = toy_step c (toy_run c n z)"
  using toy_run_add [of c n 1 z] by simp

lemma toy_step_at: "toy_block c b = Some (s, t) \<Longrightarrow>
    toy_step c (Some b, x) = (toy_goto t (ts_vars (fold toy_exec s x)), fold toy_exec s x)"
  by (simp add: toy_step_def Let_def)

lemma toy_run_None [simp]: "toy_run c n (None, x) = (None, x)"
  by (induction n) (simp_all add: toy_step_def)

text \<open>Code that does not mention some locals, and states that agree on all other locals.\<close>

fun stmt_locals :: "toy_stmt \<Rightarrow> toy_local_id set" where
  "stmt_locals (AssignI64 l v) = {l}"
| "stmt_locals (AssignBool l w) = {l}"
| "stmt_locals (EqCheckI64 d l v) = {d, l}"
| "stmt_locals s = {}"

fun term_locals :: "toy_term \<Rightarrow> toy_local_id set" where
  "term_locals (Branch cond t f) = {cond}"
| "term_locals (Switch d targets otherwise) = {d}"
| "term_locals t = {}"

definition block_locals :: "toy_stmt list \<times> toy_term \<Rightarrow> toy_local_id set" where
  "block_locals = (\<lambda>(s, t). (\<Union>a\<in>set s. stmt_locals a) \<union> term_locals t)"

definition agree :: "toy_local_id set \<Rightarrow> toy_state \<Rightarrow> toy_state \<Rightarrow> bool" where
  "agree L x y \<longleftrightarrow> ts_out x = ts_out y \<and> (\<forall>l. l \<notin> L \<longrightarrow> ts_vars x l = ts_vars y l)"

lemma agree_exec: "agree L x y \<Longrightarrow> stmt_locals a \<inter> L = {} \<Longrightarrow> agree L (toy_exec a x) (toy_exec a y)"
  by (cases a) (auto simp: agree_def)

lemma agree_fold: "agree L x y \<Longrightarrow> (\<Union>a\<in>set s. stmt_locals a) \<inter> L = {} \<Longrightarrow> agree L (fold toy_exec s x) (fold toy_exec s y)"
  by (induction s arbitrary: x y) (auto simp: Int_Un_distrib2 intro: agree_exec)

lemma agree_goto: "agree L x y \<Longrightarrow> term_locals t \<inter> L = {} \<Longrightarrow> toy_goto t (ts_vars x) = toy_goto t (ts_vars y)"
  by (cases t) (auto simp: agree_def)

lemma point_head_run:
  assumes "i < length s" and "k = SYield \<Longrightarrow> toy_exec (s ! i) = id" and "k \<noteq> SGuardedRecv"
  shows "fold toy_exec (point_head k i s) x = fold toy_exec (take (Suc i) s) x"
proof (cases "k = SYield")
  case True
  have "take (Suc i) s = take i s @ [s ! i]" using assms(1) by (rule take_Suc_conv_app_nth)
  then show ?thesis using assms(1,2) True by (simp add: point_head_def list_update_append fun_eq_iff)
qed (simp add: point_head_def)

lemma dispatch_entry:
  assumes "j \<le> length rs"
  shows "map_of (zip (map int [0..<Suc (length rs)]) (b # rs)) (int j) = Some ((b # rs) ! j)"
proof -
  have "distinct (map fst (zip (map int [0..<Suc (length rs)]) (b # rs)))" by (simp add: distinct_map del: upt_Suc)
  moreover have "(int j, (b # rs) ! j) \<in> set (zip (map int [0..<Suc (length rs)]) (b # rs))"
    unfolding in_set_zip using assms by (intro exI [of _ j]) (simp del: upt_Suc)
  ultimately show ?thesis by (simp del: upt_Suc)
qed


section \<open>The lowered coroutine does what the original does\<close>

text \<open>
  A coroutine whose blocks are \<open>R\<close>: closed under the edges that do not leave the end block, its code
  free of the machine's two locals, its points in blocks of their own, the yields on markers; the
  dispatch and the exit block are new and empty.
\<close>

definition coroutine_ok :: "toy_body \<Rightarrow> toy_block_id coroutine \<Rightarrow> (toy_block_id \<times> nat \<times> susp_kind) list \<Rightarrow> toy_block_id set \<Rightarrow>
    toy_local_id \<Rightarrow> toy_local_id \<Rightarrow> toy_block_id \<Rightarrow> toy_block_id \<Rightarrow> bool" where
  "coroutine_ok c co ps R st po d ex \<longleftrightarrow>
     points_ok ps (toy_block c) \<and>
     (\<forall>(b, i, k)\<in>set ps. k = SYield \<longrightarrow> (\<exists>m. fst (the (toy_block c b)) ! i = TMarker m)) \<and>
     fst (co_begin co) \<in> R \<and> fst (co_end co) \<in> R \<and> R \<subseteq> dom (toy_block c) - {d, ex} \<and>
     fst ` set ps \<subseteq> R - {fst (co_end co)} \<and>
     (\<forall>b\<in>R. b \<noteq> fst (co_end co) \<longrightarrow> set (term_targets (snd (the (toy_block c b)))) \<subseteq> R) \<and>
     (\<forall>b\<in>R. block_locals (the (toy_block c b)) \<inter> {st, po} = {}) \<and>
     (\<exists>td. toy_block c d = Some ([], td)) \<and> (\<exists>tx. toy_block c ex = Some ([], tx)) \<and> d \<noteq> ex \<and> st \<noteq> po"

lemma goto_targets: "toy_goto t \<sigma> = Some b \<Longrightarrow> b \<in> set (term_targets t)"
  by (cases t) (auto split: if_splits option.splits intro: rev_image_eqI dest: map_of_SomeD)

text \<open>The blocks of the lowered coroutine, with the exit block going back to the dispatch.\<close>

definition coroutine_lowered :: "toy_blocks \<Rightarrow> toy_blocks \<Rightarrow> toy_block_id coroutine \<Rightarrow> (toy_block_id \<times> nat \<times> susp_kind) list \<Rightarrow>
    toy_local_id \<Rightarrow> toy_local_id \<Rightarrow> toy_block_id \<Rightarrow> toy_block_id \<Rightarrow> bool" where
  "coroutine_lowered B C co ps st po d ex \<longleftrightarrow> (\<exists>rs dn.
     length rs = length ps \<and>
     C d = Some ([], Switch st (zip (map int [0..<Suc (length ps)]) (fst (co_begin co) # rs)) ex) \<and>
     C ex = Some ([], Goto d) \<and>
     C (fst (co_end co)) = Some (fst (the (B (fst (co_end co)))), Goto dn) \<and>
     C dn = Some ([AssignI64 po POLL_READY, AssignI64 st DONE_STATE], Goto ex) \<and>
     (\<forall>b\<in>dom B. b \<notin> fst ` set ps \<longrightarrow> b \<notin> {d, ex, fst (co_end co)} \<longrightarrow> C b = B b) \<and>
     (\<forall>j<length ps. point_lowered B st po ex C (Suc j) (ps ! j) (rs ! j)))"

lemma emit_multi_lowers:
  assumes "coroutine_ok c co ps R st po d ex" and "2 * length ps < toy_room c"
  shows "\<exists>c'. emit_multi_state_machine toy_cfg hooks co ps st po pr d ex c = Some c' \<and>
    coroutine_lowered (toy_block c) (toy_block (toy_put ex ([], Goto d) c')) co ps st po d ex"
proof -
  have ok: "points_ok ps (toy_block c)" "fst (co_end co) \<in> dom (toy_block c)" "fst (co_end co) \<noteq> d" "fst (co_end co) \<noteq> ex"
    "fst (co_end co) \<notin> fst ` set ps" "d \<notin> fst ` set ps" "ex \<notin> fst ` set ps" "d \<noteq> ex"
    using assms(1) by (auto simp: coroutine_ok_def)
  obtain td tx where dx: "toy_block c d = Some ([], td)" "toy_block c ex = Some ([], tx)"
    using assms(1) by (auto simp: coroutine_ok_def)
  obtain se te where e: "toy_block c (fst (co_end co)) = Some (se, te)" using ok(2) by auto
  from emit_multi_toy [OF ok(1) assms(2) e ok(5) dx(1) ok(6), of hooks st po pr ex] ok(3) obtain rs dn c' where
    run: "emit_multi_state_machine toy_cfg hooks co ps st po pr d ex c = Some c'" and len: "length rs = length ps"
    and dn: "dn \<notin> dom (toy_block c)"
    and cd: "toy_block c' d = Some ([], Switch st (zip (map int [0..<Suc (length ps)]) (fst (co_begin co) # rs)) ex)"
    and ce: "toy_block c' (fst (co_end co)) = Some (se, Goto dn)"
    and cn: "toy_block c' dn = Some ([AssignI64 po POLL_READY, AssignI64 st DONE_STATE], Goto ex)"
    and keep: "\<forall>b\<in>dom (toy_block c). b \<notin> fst ` set ps \<longrightarrow> b \<noteq> d \<longrightarrow> b \<noteq> fst (co_end co) \<longrightarrow> toy_block c' b = toy_block c b"
    and low: "\<forall>j<length ps. point_lowered (toy_block c) st po ex (toy_block c') (Suc j) (ps ! j) (rs ! j)"
    by metis
  have "toy_block c' ex = Some ([], tx)" using keep dx(2) ok(4,7,8) by auto
  then have C: "toy_block (toy_put ex ([], Goto d) c') = (toy_block c')(ex \<mapsto> ([], Goto d))" by simp
  have "point_lowered (toy_block c) st po ex (toy_block (toy_put ex ([], Goto d) c')) (Suc j) (ps ! j) (rs ! j)"
    if j: "j < length ps" for j
  proof -
    obtain b i k where p: "ps ! j = (b, i, k)" by (cases "ps ! j")
    then have "b \<in> fst ` set ps" using j by (metis fst_conv image_eqI nth_mem)
    then have "b \<noteq> ex" using ok(7) by blast
    from low j p obtain y s t where *: "toy_block c b = Some (s, t)" "y \<notin> dom (toy_block c)" "rs ! j \<notin> dom (toy_block c)"
      "toy_block c' b = Some (point_head k i s, Goto y)"
      "toy_block c' y = Some ([AssignI64 st (int (Suc j)), AssignI64 po POLL_PENDING], Goto ex)"
      "toy_block c' (rs ! j) = Some (drop (Suc i) s, t)"
      unfolding point_lowered_def by fastforce
    moreover have "y \<noteq> ex" "rs ! j \<noteq> ex" using *(2,3) dx(2) by auto
    ultimately show ?thesis using \<open>b \<noteq> ex\<close> unfolding C point_lowered_def p by auto
  qed
  moreover have "dn \<noteq> ex" using dn dx(2) by auto
  ultimately have "coroutine_lowered (toy_block c) (toy_block (toy_put ex ([], Goto d) c')) co ps st po d ex"
    unfolding coroutine_lowered_def
    using len cd ce cn keep e ok(4,8) by (intro exI [of _ rs] exI [of _ dn]) (simp add: C del: upt_Suc)
  with run show ?thesis by blast
qed

text \<open>One block of the original is one block of the lowered coroutine, or a suspension and the poll after it.\<close>

lemma lowered_step:
  assumes ok: "coroutine_ok c co ps R st po d ex" and low: "coroutine_lowered (toy_block c) (toy_block c2) co ps st po d ex"
    and b: "b \<in> R" "b \<noteq> fst (co_end co)" and xy: "agree {st, po} x y"
  shows "\<exists>m y'. toy_run c2 m (Some b, y) = (fst (toy_step c (Some b, x)), y') \<and> agree {st, po} (snd (toy_step c (Some b, x))) y'"
proof -
  have "b \<in> dom (toy_block c)" "b \<notin> {d, ex}" using ok b by (auto simp: coroutine_ok_def)
  then obtain s t where st: "toy_block c b = Some (s, t)" by auto
  have quiet: "(\<Union>a\<in>set s. stmt_locals a) \<inter> {st, po} = {}" "term_locals t \<inter> {st, po} = {}"
  proof -
    have "\<forall>b\<in>R. block_locals (the (toy_block c b)) \<inter> {st, po} = {}" using ok by (simp add: coroutine_ok_def)
    with b(1) have "block_locals (the (toy_block c b)) \<inter> {st, po} = {}" by blast
    with st have "block_locals (s, t) \<inter> {st, po} = {}" by simp
    then show "(\<Union>a\<in>set s. stmt_locals a) \<inter> {st, po} = {}" "term_locals t \<inter> {st, po} = {}"
      unfolding block_locals_def by blast+
  qed
  have fold: "agree {st, po} (fold toy_exec s x) (fold toy_exec s y)" using xy quiet(1) by (rule agree_fold)
  have orig: "toy_step c (Some b, x) = (toy_goto t (ts_vars (fold toy_exec s x)), fold toy_exec s x)"
    using st by (rule toy_step_at)
  show ?thesis
  proof (cases "b \<in> fst ` set ps")
    case False
    then have "toy_block c2 b = Some (s, t)"
      using low b(2) st \<open>b \<notin> {d, ex}\<close> \<open>b \<in> dom (toy_block c)\<close> by (auto simp: coroutine_lowered_def)
    then have "toy_run c2 1 (Some b, y) = (toy_goto t (ts_vars (fold toy_exec s y)), fold toy_exec s y)"
      by (simp add: toy_step_at)
    with fold orig agree_goto [OF fold quiet(2)] show ?thesis by (intro exI [of _ 1]) auto
  next
    case True
    then obtain j i k where j: "j < length ps" "ps ! j = (b, i, k)" by (force simp: in_set_conv_nth)
    obtain rs where rs: "length rs = length ps"
      "toy_block c2 d = Some ([], Switch st (zip (map int [0..<Suc (length ps)]) (fst (co_begin co) # rs)) ex)"
      "toy_block c2 ex = Some ([], Goto d)" "point_lowered (toy_block c) st po ex (toy_block c2) (Suc j) (ps ! j) (rs ! j)"
      using low j(1) by (auto simp: coroutine_lowered_def)
    obtain y0 where y0: "toy_block c2 b = Some (point_head k i s, Goto y0)"
      "toy_block c2 y0 = Some ([AssignI64 st (int (Suc j)), AssignI64 po POLL_PENDING], Goto ex)"
      "toy_block c2 (rs ! j) = Some (drop (Suc i) s, t)"
      using rs(4) st unfolding point_lowered_def j(2) by auto
    have "(b, i, k) \<in> set ps" using j by (metis nth_mem)
    then have pt: "i < length s" "k \<noteq> SGuardedRecv" "k = SYield \<Longrightarrow> \<exists>m. s ! i = TMarker m"
      using ok st by (auto simp: coroutine_ok_def points_ok_def)
    define z where "z = fold toy_exec (take (Suc i) s) y"
    define z2 where "z2 = z\<lparr>ts_vars := (ts_vars z)(st := int (Suc j), po := POLL_PENDING)\<rparr>"
    have head: "fold toy_exec (point_head k i s) y = z"
      unfolding z_def using pt by (intro point_head_run) (auto simp: fun_eq_iff)
    have split: "s = take (Suc i) s @ drop (Suc i) s" by simp
    have zq: "agree {st, po} (fold toy_exec (take (Suc i) s) x) z"
      unfolding z_def using xy quiet(1) by (intro agree_fold) (auto dest: in_set_takeD)
    then have "agree {st, po} (fold toy_exec (take (Suc i) s) x) z2" by (auto simp: agree_def z2_def)
    then have end_agree: "agree {st, po} (fold toy_exec (drop (Suc i) s) (fold toy_exec (take (Suc i) s) x)) (fold toy_exec (drop (Suc i) s) z2)"
      using quiet(1) by (intro agree_fold) (auto dest: in_set_dropD)
    have whole: "fold toy_exec (drop (Suc i) s) (fold toy_exec (take (Suc i) s) x) = fold toy_exec s x"
      by (metis append_take_drop_id fold_append comp_apply)
    have 1: "toy_step c2 (Some b, y) = (Some y0, z)" using toy_step_at [OF y0(1)] head by simp
    have 2: "toy_step c2 (Some y0, z) = (Some ex, z2)" using toy_step_at [OF y0(2)] by (simp add: z2_def)
    have 3: "toy_step c2 (Some ex, z2) = (Some d, z2)" using toy_step_at [OF rs(3)] by simp
    have stv: "ts_vars z2 st = int (Suc j)" using ok by (auto simp: z2_def coroutine_ok_def)
    have "map_of (zip (map int [0..<Suc (length ps)]) (fst (co_begin co) # rs)) (int (Suc j)) = Some (rs ! j)"
      using dispatch_entry [of "Suc j" rs "fst (co_begin co)"] j(1) rs(1) by (simp del: upt_Suc of_nat_Suc)
    then have 4: "toy_step c2 (Some d, z2) = (Some (rs ! j), z2)"
      using toy_step_at [OF rs(2), of z2] stv by (simp del: upt_Suc of_nat_Suc)
    have 5: "toy_step c2 (Some (rs ! j), z2) = (toy_goto t (ts_vars (fold toy_exec (drop (Suc i) s) z2)), fold toy_exec (drop (Suc i) s) z2)"
      by (rule toy_step_at [OF y0(3)])
    have "toy_run c2 5 (Some b, y) = (toy_goto t (ts_vars (fold toy_exec (drop (Suc i) s) z2)), fold toy_exec (drop (Suc i) s) z2)"
      using 1 2 3 4 5 by (simp add: numeral_eq_Suc)
    with orig end_agree agree_goto [OF end_agree quiet(2)] whole show ?thesis by (intro exI [of _ 5]) auto
  qed
qed


lemma original_stays:
  assumes "coroutine_ok c co ps R st po d ex"
    and "\<forall>k<n. fst (toy_run c k (Some (fst (co_begin co)), x)) \<noteq> Some (fst (co_end co))"
    and "fst (toy_run c n (Some (fst (co_begin co)), x)) = Some b"
  shows "b \<in> R"
  using assms(2,3)
proof (induction n arbitrary: b)
  case 0
  then show ?case using assms(1) by (simp add: coroutine_ok_def)
next
  case (Suc n)
  let ?z = "toy_run c n (Some (fst (co_begin co)), x)"
  obtain a w where z: "?z = (a, w)" by (cases ?z)
  from Suc.prems(2) z have step: "fst (toy_step c (a, w)) = Some b" by (simp add: toy_run_Suc del: toy_run.simps)
  then obtain b0 s t where b0: "a = Some b0" "toy_block c b0 = Some (s, t)" "toy_goto t (ts_vars (fold toy_exec s w)) = Some b"
    by (cases a; cases "Option.bind a (toy_block c)") (auto simp: toy_step_def Let_def)
  have "b0 \<in> R" using Suc.IH [of b0] Suc.prems(1) z b0(1) by simp
  moreover have "b0 \<noteq> fst (co_end co)" using Suc.prems(1) z b0(1) by auto
  ultimately have "set (term_targets t) \<subseteq> R" using assms(1) b0(2) by (fastforce simp: coroutine_ok_def)
  with goto_targets [OF b0(3)] show ?case by blast
qed

lemma lowered_run:
  assumes ok: "coroutine_ok c co ps R st po d ex" and low: "coroutine_lowered (toy_block c) (toy_block c2) co ps st po d ex"
    and xy: "agree {st, po} x y" "ts_vars y st = 0"
    and path: "\<forall>k<n. fst (toy_run c k (Some (fst (co_begin co)), x)) \<noteq> Some (fst (co_end co))"
  shows "\<exists>m y'. toy_run c2 m (Some d, y) = (fst (toy_run c n (Some (fst (co_begin co)), x)), y') \<and>
    agree {st, po} (snd (toy_run c n (Some (fst (co_begin co)), x))) y'"
  using path
proof (induction n)
  case 0
  obtain rs where rs: "length rs = length ps"
    "toy_block c2 d = Some ([], Switch st (zip (map int [0..<Suc (length ps)]) (fst (co_begin co) # rs)) ex)"
    using low by (auto simp: coroutine_lowered_def)
  have "map_of (zip (map int [0..<Suc (length ps)]) (fst (co_begin co) # rs)) 0 = Some (fst (co_begin co))"
    using dispatch_entry [of 0 rs "fst (co_begin co)"] rs(1) by (simp del: upt_Suc)
  then have "toy_run c2 1 (Some d, y) = (Some (fst (co_begin co)), y)"
    using toy_step_at [OF rs(2), of y] xy(2) by (simp del: upt_Suc)
  with xy(1) show ?case by (intro exI [of _ 1]) auto
next
  case (Suc n)
  let ?z = "toy_run c n (Some (fst (co_begin co)), x)"
  obtain a w where z: "?z = (a, w)" by (cases ?z)
  obtain m y' where m: "toy_run c2 m (Some d, y) = (a, y')" "agree {st, po} w y'" using Suc z by auto
  show ?case
  proof (cases a)
    case None
    with m z show ?thesis by (intro exI [of _ m]) (simp add: toy_run_Suc toy_step_def del: toy_run.simps)
  next
    case (Some b)
    have "b \<in> R" using original_stays [OF ok, of n x b] Suc.prems z Some by simp
    moreover have "b \<noteq> fst (co_end co)" using Suc.prems z Some by auto
    ultimately obtain k y'' where "toy_run c2 k (Some b, y') = (fst (toy_step c (Some b, w)), y'')"
      "agree {st, po} (snd (toy_step c (Some b, w))) y''"
      using lowered_step [OF ok low _ _ m(2)] by blast
    moreover have "toy_run c2 (m + k) (Some d, y) = toy_run c2 k (Some b, y')"
      using m(1) Some by (simp add: toy_run_add)
    ultimately show ?thesis using z Some by (intro exI [of _ "m + k"] exI [of _ y'']) (simp add: toy_run_Suc del: toy_run.simps)
  qed
qed

lemma lowered_end:
  assumes ok: "coroutine_ok c co ps R st po d ex" and low: "coroutine_lowered (toy_block c) (toy_block c2) co ps st po d ex"
    and xy: "agree {st, po} x y"
  shows "\<exists>y'. toy_run c2 2 (Some (fst (co_end co)), y) = (Some ex, y') \<and> ts_vars y' st = DONE_STATE \<and>
    ts_vars y' po = POLL_READY \<and> agree {st, po} (snd (toy_step c (Some (fst (co_end co)), x))) y'"
proof -
  let ?e = "fst (co_end co)"
  have "?e \<in> dom (toy_block c)" "?e \<in> R" "st \<noteq> po" using ok by (auto simp: coroutine_ok_def)
  then obtain s t where e: "toy_block c ?e = Some (s, t)" by auto
  have "block_locals (the (toy_block c ?e)) \<inter> {st, po} = {}"
    using ok \<open>?e \<in> R\<close> by (simp add: coroutine_ok_def)
  then have "(\<Union>a\<in>set s. stmt_locals a) \<inter> {st, po} = {}" unfolding e block_locals_def by auto
  with xy have ag: "agree {st, po} (fold toy_exec s x) (fold toy_exec s y)" by (rule agree_fold)
  obtain dn where dn: "toy_block c2 ?e = Some (s, Goto dn)"
    "toy_block c2 dn = Some ([AssignI64 po POLL_READY, AssignI64 st DONE_STATE], Goto ex)"
    using low e by (auto simp: coroutine_lowered_def)
  have "toy_step c2 (Some ?e, y) = (Some dn, fold toy_exec s y)" using toy_step_at [OF dn(1)] by simp
  moreover have "toy_step c2 (Some dn, fold toy_exec s y) = (Some ex, (fold toy_exec s y)\<lparr>ts_vars :=
      (ts_vars (fold toy_exec s y))(po := POLL_READY, st := DONE_STATE)\<rparr>)"
    using toy_step_at [OF dn(2)] by simp
  ultimately show ?thesis
    using ag \<open>st \<noteq> po\<close> toy_step_at [OF e, of x] by (simp add: numeral_eq_Suc agree_def)
qed

section \<open>Guarded receives\<close>

text \<open>
  The documented contract of the host's \<open>emit_guarded_recv_peek\<close> on a toy body: the statement at the slot moves to
  the front of the resume block, the peek \<open>pk\<close> takes its place, and the host names the local \<open>g\<close> that the peek sets.
  The adapter of the tests has no such hook.
\<close>

definition peeks :: "(toy_body, toy_block_id, toy_local_id) coro_hooks \<Rightarrow> toy_local_id \<Rightarrow> toy_stmt \<Rightarrow> bool" where
  "peeks hooks g pk \<longleftrightarrow> (\<forall>c b i r s t u v. b \<noteq> r \<and> toy_block c b = Some (s, t) \<and> i < length s \<and> toy_block c r = Some (u, v) \<longrightarrow>
     (\<exists>c'. emit_guarded_recv_peek hooks b i r c = Some (g, c') \<and> toy_room c' = toy_room c \<and>
        toy_block c' = (toy_block c)(b \<mapsto> (s[i := pk], t), r \<mapsto> (s ! i # u, v))))"

lemma peeksD:
  assumes "peeks hooks g pk" and "b \<noteq> r" and "toy_block c b = Some (s, t)" and "i < length s" and "toy_block c r = Some (u, v)"
  obtains c' where "emit_guarded_recv_peek hooks b i r c = Some (g, c')" and "toy_room c' = toy_room c"
    and "toy_block c' = (toy_block c)(b \<mapsto> (s[i := pk], t), r \<mapsto> (s ! i # u, v))"
  using assms(1) [unfolded peeks_def, rule_format, OF conjI [OF assms(2) conjI [OF assms(3) conjI [OF assms(4,5)]]]] that by blast

lemma emit_pair_toy:
  assumes "toy_block c b = Some ([], t)"
  obtains c' where "emit_pair toy_cfg b st n po v ex c = Some c'" and "toy_room c' = toy_room c"
    and "toy_block c' = (toy_block c)(b \<mapsto> ([AssignI64 st n, AssignI64 po v], Goto ex))"
  using assms that by (simp add: emit_pair_def toy_ops)

lemma grown_block:
  assumes "0 < toy_room c"
  obtains y where "new_block toy_cfg c = (y, toy_grow ([], Unreachable) c)" and "toy_block c y = None"
    and "toy_block (toy_grow ([], Unreachable) c) = (toy_block c)(y \<mapsto> ([], Unreachable))"
    and "toy_room (toy_grow ([], Unreachable) c) = toy_room c - 1"
  using assms toy_fresh_none toy_block_grow that by (simp add: toy_ops)

lemma split_block:
  assumes "0 < toy_room c" and "toy_block c b = Some (s, t)" and "i < length s"
  obtains r c' where "split_after toy_cfg b i c = Some (r, c')" and "toy_block c r = None" and "r \<noteq> b" and "toy_room c' = toy_room c - 1"
    and "toy_block c' = (toy_block c)(b \<mapsto> (take (Suc i) s, Unreachable), r \<mapsto> (drop (Suc i) s, t))"
proof -
  let ?c = "toy_grow (drop (Suc i) s, t) (toy_put b (take (Suc i) s, Unreachable) c)"
  have r: "toy_block c (toy_fresh c) = None" using assms(1) by (rule toy_fresh_none)
  then have "toy_fresh c \<noteq> b" using assms(2) by auto
  moreover have "toy_block ?c = (toy_block c)(b \<mapsto> (take (Suc i) s, Unreachable), toy_fresh c \<mapsto> (drop (Suc i) s, t))"
    using toy_block_grow [of "toy_put b (take (Suc i) s, Unreachable) c"] assms(1,2) by simp
  ultimately show thesis using that [of "toy_fresh c" ?c] r assms(3) by (simp add: toy_ops(10) [OF assms(2)])
qed

text \<open>The blocks a guarded receive leaves: \<open>e\<close> peeks and branches, \<open>r\<close> receives, \<open>bl\<close> reports \<open>BLOCKED\<close>.\<close>

definition guard_blocks :: "toy_blocks \<Rightarrow> toy_local_id \<Rightarrow> toy_local_id \<Rightarrow> toy_local_id \<Rightarrow> toy_block_id \<Rightarrow> int \<Rightarrow> toy_local_id \<Rightarrow> toy_stmt \<Rightarrow>
    toy_stmt list \<times> toy_term \<Rightarrow> toy_block_id \<Rightarrow> bool" where
  "guard_blocks C st po pr ex n g pk rest e \<longleftrightarrow> (\<exists>r bl. C e = Some ([pk], Branch g r bl) \<and>
     C r = Some (AssignI64 pr 1 # fst rest, snd rest) \<and> C bl = Some ([AssignI64 st n, AssignI64 po POLL_BLOCKED], Goto ex))"

lemma guard_tail:
  assumes "peeks hooks g pk" and e: "toy_block c e = Some (a # s, t)" and room: "2 \<le> toy_room c"
  obtains r c1 c2 c3 bl c4 c5 c' where "split_after toy_cfg e 0 c = Some (r, c1)" and "emit_guarded_recv_peek hooks e 0 r c1 = Some (g, c2)"
    and "prepend_assign_i64 toy_cfg r pr 1 c2 = Some c3" and "new_block toy_cfg c3 = (bl, c4)"
    and "emit_pair toy_cfg bl st n po POLL_BLOCKED ex c4 = Some c5" and "set_branch toy_cfg e g r bl c5 = Some c'"
    and "guard_blocks (toy_block c') st po pr ex n g pk (a # s, t) e" and "\<forall>b. b \<noteq> e \<and> toy_block c b \<noteq> None \<longrightarrow> toy_block c' b = toy_block c b"
proof -
  have "0 < toy_room c" "0 < length (a # s)" using room by simp_all
  from split_block [OF this(1) e this(2)] obtain r c1 where
    c1: "split_after toy_cfg e 0 c = Some (r, c1)" "toy_block c r = None" "r \<noteq> e" "toy_room c1 = toy_room c - 1"
      "toy_block c1 = (toy_block c)(e \<mapsto> ([a], Unreachable), r \<mapsto> (s, t))" by auto
  have "toy_block c1 e = Some ([a], Unreachable)" "toy_block c1 r = Some (s, t)" "e \<noteq> r" "0 < length [a]" using c1(3,5) by auto
  from peeksD [OF assms(1) this(3,1,4,2)] obtain c2 where
    c2: "emit_guarded_recv_peek hooks e 0 r c1 = Some (g, c2)" "toy_room c2 = toy_room c1"
      "toy_block c2 = (toy_block c1)(e \<mapsto> ([pk], Unreachable), r \<mapsto> (a # s, t))" by auto
  define c3 where "c3 = toy_put r (AssignI64 pr 1 # a # s, t) c2"
  have "toy_block c2 r = Some (a # s, t)" using c2(3) by simp
  from toy_ops(4) [OF this] have c3: "prepend_assign_i64 toy_cfg r pr 1 c2 = Some c3" by (simp add: c3_def)
  have b3: "toy_block c3 = (toy_block c2)(r \<mapsto> (AssignI64 pr 1 # a # s, t))" "toy_room c3 = toy_room c - 1"
    using c2 c1(4) by (simp_all add: c3_def)
  have "0 < toy_room c3" using b3(2) room by simp
  from grown_block [OF this] obtain bl where
    bl: "new_block toy_cfg c3 = (bl, toy_grow ([], Unreachable) c3)" "toy_block c3 bl = None"
      "toy_block (toy_grow ([], Unreachable) c3) = (toy_block c3)(bl \<mapsto> ([], Unreachable))" by blast
  have "toy_block (toy_grow ([], Unreachable) c3) bl = Some ([], Unreachable)" using bl(3) by simp
  from emit_pair_toy [OF this] obtain c5 where
    c5: "emit_pair toy_cfg bl st n po POLL_BLOCKED ex (toy_grow ([], Unreachable) c3) = Some c5"
      "toy_block c5 = (toy_block c3)(bl \<mapsto> ([AssignI64 st n, AssignI64 po POLL_BLOCKED], Goto ex))"
    by (metis bl(3) fun_upd_upd)
  have new: "bl \<noteq> e" "bl \<noteq> r" using bl(2) b3(1) c2(3) by (auto split: if_splits)
  have e5: "toy_block c5 e = Some ([pk], Unreachable)" using c5(2) b3(1) c2(3) new c1(3) by simp
  define c' where "c' = toy_put e ([pk], Branch g r bl) c5"
  have c': "set_branch toy_cfg e g r bl c5 = Some c'" using toy_ops(6) [OF e5] by (simp add: c'_def)
  have b': "toy_block c' = (toy_block c5)(e \<mapsto> ([pk], Branch g r bl))" using e5 by (simp add: c'_def)
  have "guard_blocks (toy_block c') st po pr ex n g pk (a # s, t) e"
    unfolding guard_blocks_def by (intro exI [of _ r] exI [of _ bl]) (use b' c5(2) b3(1) new c1(3) in simp)
  moreover have "\<forall>b. b \<noteq> e \<and> toy_block c b \<noteq> None \<longrightarrow> toy_block c' b = toy_block c b"
  proof (intro allI impI, elim conjE)
    fix b assume b: "b \<noteq> e" "toy_block c b \<noteq> None"
    then have "b \<noteq> r" using c1(2) by auto
    moreover have "b \<noteq> bl" using bl(2) b b3(1) c2(3) c1(5) \<open>b \<noteq> r\<close> by auto
    ultimately show "toy_block c' b = toy_block c b" using b b' c5(2) b3(1) c2(3) c1(5) by simp
  qed
  ultimately show thesis by (rule that [OF c1(1) c2(1) c3 bl(1) c5(1) c'])
qed

lemma emit_guarded_toy:
  assumes "peeks hooks g pk" and b: "toy_block c b = Some (s, t)" and i: "i < length s" and room: "4 \<le> toy_room c"
  shows "\<exists>e c'. emit_suspension toy_cfg hooks st po pr ex n (b, i, SGuardedRecv) c = Some (e, c') \<and>
    guard_blocks (toy_block c') st po pr ex n g pk (drop i s, t) e \<and>
    (if i = 0 then e = b else toy_block c' b = Some (take i s, Goto e) \<and> toy_block c e = None) \<and>
    (\<forall>x. x \<noteq> b \<and> toy_block c x \<noteq> None \<longrightarrow> toy_block c' x = toy_block c x)"
proof -
  have "0 < toy_room c" using room by simp
  from grown_block [OF this] obtain y where y: "new_block toy_cfg c = (y, toy_grow ([], Unreachable) c)" "toy_block c y = None"
    "toy_block (toy_grow ([], Unreachable) c) = (toy_block c)(y \<mapsto> ([], Unreachable))"
    "toy_room (toy_grow ([], Unreachable) c) = toy_room c - 1" by blast
  have "toy_block (toy_grow ([], Unreachable) c) y = Some ([], Unreachable)" using y(3) by simp
  from emit_pair_toy [OF this] obtain c2 where c2: "emit_pair toy_cfg y st n po POLL_PENDING ex (toy_grow ([], Unreachable) c) = Some c2"
    "toy_room c2 = toy_room c - 1" "toy_block c2 = (toy_block c)(y \<mapsto> ([AssignI64 st n, AssignI64 po POLL_PENDING], Goto ex))"
    by (metis y(3,4) fun_upd_upd)
  have yb: "y \<noteq> b" using y(2) b by auto
  then have b2: "toy_block c2 b = Some (s, t)" using c2(3) b by simp
  have keep2: "toy_block c2 x = toy_block c x" if "toy_block c x \<noteq> None" for x using c2(3) y(2) that by auto
  show ?thesis
  proof (cases i)
    case 0
    then obtain a s' where s: "s = a # s'" using i by (cases s) auto
    have "2 \<le> toy_room c2" using c2(2) room by simp
    from guard_tail [OF assms(1) b2 [unfolded s] this] obtain r c3 c4 c5 bl c6 c7 c' where
      tail: "split_after toy_cfg b 0 c2 = Some (r, c3)" "emit_guarded_recv_peek hooks b 0 r c3 = Some (g, c4)"
        "prepend_assign_i64 toy_cfg r pr 1 c4 = Some c5" "new_block toy_cfg c5 = (bl, c6)"
        "emit_pair toy_cfg bl st n po POLL_BLOCKED ex c6 = Some c7" "set_branch toy_cfg b g r bl c7 = Some c'"
      and gb: "guard_blocks (toy_block c') st po pr ex n g pk (a # s', t) b"
      and keep: "\<forall>x. x \<noteq> b \<and> toy_block c2 x \<noteq> None \<longrightarrow> toy_block c' x = toy_block c2 x" .
    have "emit_suspension toy_cfg hooks st po pr ex n (b, i, SGuardedRecv) c = Some (b, c')"
      using y(1) c2(1) tail 0 by (simp add: emit_suspension_def Let_def)
    moreover have "toy_block c' x = toy_block c x" if "x \<noteq> b" "toy_block c x \<noteq> None" for x
      using keep keep2 [OF that(2)] that by auto
    ultimately show ?thesis using gb 0 s by (intro exI [of _ b] exI [of _ c']) simp
  next
    case (Suc j)
    have "0 < toy_room c2" "j < length s" using c2(2) room i Suc by simp_all
    from split_block [OF this(1) b2 this(2)] obtain e c3 where c3: "split_after toy_cfg b j c2 = Some (e, c3)"
      "toy_block c2 e = None" "e \<noteq> b" "toy_room c3 = toy_room c2 - 1"
      "toy_block c3 = (toy_block c2)(b \<mapsto> (take (Suc j) s, Unreachable), e \<mapsto> (drop (Suc j) s, t))" by blast
    have b3: "toy_block c3 b = Some (take (Suc j) s, Unreachable)" using c3(3,5) by simp
    define c4 where "c4 = toy_put b (take (Suc j) s, Goto e) c3"
    have c4: "set_goto toy_cfg b e c3 = Some c4" using toy_ops(5) [OF b3] by (simp add: c4_def)
    have b4: "toy_block c4 = (toy_block c3)(b \<mapsto> (take (Suc j) s, Goto e))" "toy_room c4 = toy_room c - 2"
      using b3 c3(4) c2(2) by (simp_all add: c4_def)
    obtain a s' where as: "drop (Suc j) s = a # s'" using i Suc by (cases "drop (Suc j) s") auto
    have e4: "toy_block c4 e = Some (a # s', t)" using b4(1) c3(3,5) as by simp
    have "2 \<le> toy_room c4" using b4(2) room by simp
    from guard_tail [OF assms(1) e4 this] obtain r c5 c6 c7 bl c8 c9 c' where
      tail: "split_after toy_cfg e 0 c4 = Some (r, c5)" "emit_guarded_recv_peek hooks e 0 r c5 = Some (g, c6)"
        "prepend_assign_i64 toy_cfg r pr 1 c6 = Some c7" "new_block toy_cfg c7 = (bl, c8)"
        "emit_pair toy_cfg bl st n po POLL_BLOCKED ex c8 = Some c9" "set_branch toy_cfg e g r bl c9 = Some c'"
      and gb: "guard_blocks (toy_block c') st po pr ex n g pk (a # s', t) e"
      and keep: "\<forall>x. x \<noteq> e \<and> toy_block c4 x \<noteq> None \<longrightarrow> toy_block c' x = toy_block c4 x" .
    have em: "emit_suspension toy_cfg hooks st po pr ex n (b, i, SGuardedRecv) c = Some (e, c')"
      using y(1) c2(1) c3(1) c4 tail Suc by (simp add: emit_suspension_def Let_def)
    have b': "toy_block c' b = Some (take i s, Goto e)" using keep b4(1) c3(3) Suc by simp
    have new: "toy_block c e = None"
    proof (rule ccontr)
      assume "toy_block c e \<noteq> None"
      from keep2 [OF this] this c3(2) show False by simp
    qed
    have "toy_block c' x = toy_block c x" if x: "x \<noteq> b" "toy_block c x \<noteq> None" for x
    proof -
      have "x \<noteq> e" using new x by auto
      with keep2 [OF x(2)] x b4(1) c3(5) keep show ?thesis by auto
    qed
    with em gb b' new as Suc show ?thesis by (intro exI [of _ e] exI [of _ c']) simp
  qed
qed

text \<open>What two steps of the guard block do.\<close>

lemma guard_run:
  assumes "guard_blocks (toy_block c) st po pr ex n g pk (s, t) e"
  shows "toy_run c 2 (Some e, x) = (let y = toy_exec pk x in
    if ts_vars y g \<noteq> 0 then (let z = fold toy_exec s (toy_exec (AssignI64 pr 1) y) in (toy_goto t (ts_vars z), z))
    else (Some ex, y\<lparr>ts_vars := (ts_vars y)(st := n, po := POLL_BLOCKED)\<rparr>))"
proof -
  obtain r bl where b: "toy_block c e = Some ([pk], Branch g r bl)" "toy_block c r = Some (AssignI64 pr 1 # s, t)"
    "toy_block c bl = Some ([AssignI64 st n, AssignI64 po POLL_BLOCKED], Goto ex)"
    using assms by (auto simp: guard_blocks_def)
  show ?thesis by (simp add: numeral_2_eq_2 toy_step_at [OF b(1)] toy_step_at [OF b(2)] toy_step_at [OF b(3)] Let_def)
qed

section \<open>Properties\<close>



text \<open>
  A guarded receive waits. The transform and the documented contract of the host's peek hook together: the
  resume entry of the point is its guard, reached from the statements before the receive, which run once, and again
  from the dispatch block on every later poll. Each time the guard peeks. Ready, it counts as progress, receives and
  goes on with the rest of the block; not ready, it stores the point's own state and \<open>BLOCKED\<close> and leaves
  through the exit block, with nothing of the rest executed. The run is that of the toy IR as above, whose
  semantics is this development's.
\<close>

theorem guarded_receive_waits:
  assumes "peeks hooks g pk" and "toy_block c b = Some (s, t)" and "i < length s" and "4 \<le> toy_room c"
  shows "\<exists>e c'. emit_suspension toy_cfg hooks st po pr ex n (b, i, SGuardedRecv) c = Some (e, c') \<and>
    (i \<noteq> 0 \<longrightarrow> toy_run c' 1 (Some b, x) = (Some e, fold toy_exec (take i s) x)) \<and> (i = 0 \<longrightarrow> e = b) \<and>
    (\<forall>x. toy_run c' 2 (Some e, x) = (let y = toy_exec pk x in
      if ts_vars y g \<noteq> 0 then (let z = fold toy_exec (drop i s) (toy_exec (AssignI64 pr 1) y) in (toy_goto t (ts_vars z), z))
      else (Some ex, y\<lparr>ts_vars := (ts_vars y)(st := n, po := POLL_BLOCKED)\<rparr>))) \<and>
    (\<forall>b'. b' \<noteq> b \<and> toy_block c b' \<noteq> None \<longrightarrow> toy_block c' b' = toy_block c b')"
proof -
  from emit_guarded_toy [OF assms] obtain e c' where
    e: "emit_suspension toy_cfg hooks st po pr ex n (b, i, SGuardedRecv) c = Some (e, c')"
      "guard_blocks (toy_block c') st po pr ex n g pk (drop i s, t) e"
      "if i = 0 then e = b else toy_block c' b = Some (take i s, Goto e) \<and> toy_block c e = None"
      "\<forall>x. x \<noteq> b \<and> toy_block c x \<noteq> None \<longrightarrow> toy_block c' x = toy_block c x" by blast
  have "toy_run c' 1 (Some b, x) = (Some e, fold toy_exec (take i s) x)" if "i \<noteq> 0"
  proof -
    from e(3) that have b': "toy_block c' b = Some (take i s, Goto e)" by simp
    show ?thesis by (simp add: toy_step_at [OF b'])
  qed
  with e guard_run [OF e(2)] show ?thesis by (intro exI [of _ e] exI [of _ c'] conjI) (simp_all split: if_splits)
qed

lemma emit_suspension_out:
  assumes "k \<noteq> SGuardedRecv" and "toy_block c b = Some (s, t)" and "length s \<le> i" and "0 < toy_room c"
  shows "emit_suspension toy_cfg hooks st po pr ex n (b, i, k) c = None"
proof -
  let ?y = "toy_fresh c" and ?c1 = "toy_grow ([], Unreachable) c"
  have "toy_block c ?y = None" using assms(4) by (rule toy_fresh_none)
  then have "?y \<noteq> b" using assms(2) by auto
  moreover have b1: "toy_block ?c1 = (toy_block c)(?y \<mapsto> ([], Unreachable))" using assms(4) by (rule toy_block_grow)
  ultimately obtain c2 where "emit_pair toy_cfg ?y st n po POLL_PENDING ex ?c1 = Some c2" "toy_block c2 b = Some (s, t)"
    using assms(2) by (simp add: emit_pair_def toy_ops b1)
  with assms(1,3) show ?thesis by (cases k) (simp_all add: emit_suspension_def toy_ops Let_def)
qed

text \<open>
  C28: one point per block. Points in one block are split one after the other with their original
  positions, so the second is looked for past the end of what the first split left: the transform
  panics on every block with two suspension points that are not guarded receives.
\<close>

theorem second_point_in_block_panics:
  assumes "toy_block c b = Some (s, t)" and "i < j" and "k \<noteq> SGuardedRecv" and "l \<noteq> SGuardedRecv" and "3 \<le> toy_room c"
  shows "emit_suspensions toy_cfg hooks st po pr ex n ((b, i, k) # (b, j, l) # ps) es c = None"
proof (cases "i < length s")
  case False
  with emit_suspension_out [OF assms(3,1)] assms(5) show ?thesis by simp
next
  case True
  have "2 \<le> toy_room c" using assms(5) by simp
  from emit_suspension_toy [OF assms(3,1) True this, of hooks st po pr ex "int (n + 1)"] obtain y r c1 where
    1: "emit_suspension toy_cfg hooks st po pr ex (int (n + 1)) (b, i, k) c = Some (r, c1)" "r \<notin> dom (toy_block c)"
      "toy_room c1 = toy_room c - 2" "toy_block c1 = (toy_block c)(y \<mapsto> ([AssignI64 st (int (n + 1)), AssignI64 po POLL_PENDING], Goto ex),
      b \<mapsto> (point_head k i s, Goto y), r \<mapsto> (drop (Suc i) s, t))" by blast
  have "r \<noteq> b" using 1(2) assms(1) by auto
  then have b1: "toy_block c1 b = Some (point_head k i s, Goto y)" using 1(4) by simp
  have short: "length (point_head k i s) \<le> j" using assms(2) by (simp add: point_head_def)
  have room: "0 < toy_room c1" using 1(3) assms(5) by simp
  have "emit_suspension toy_cfg hooks st po pr ex (int (n + 1 + 1)) (b, j, l) c1 = None"
    by (rule emit_suspension_out [OF assms(4) b1 short room])
  with 1(1) show ?thesis by simp
qed

section \<open>Witnesses\<close>

definition plain_body :: toy_body where
  "plain_body = \<lparr>tb_blocks = [([User ''a'', TMarker MYield, User ''b''], Goto 1), ([User ''c''], Return),
     ([], Unreachable), ([], Unreachable)], tb_locals = [I64Mut, I64Mut]\<rparr>"

definition plain_coroutine :: "toy_block_id coroutine" where
  "plain_coroutine = \<lparr>co_begin = (0, 0), co_end = (1, 0), co_priority = None\<rparr>"

definition toy_zero :: toy_state where
  "toy_zero = \<lparr>ts_vars = (\<lambda>l. 0), ts_out = []\<rparr>"

lemma plain_blocks:
  "toy_block plain_body 0 = Some ([User ''a'', TMarker MYield, User ''b''], Goto 1)"
  "toy_block plain_body 1 = Some ([User ''c''], Return)"
  "toy_block plain_body 2 = Some ([], Unreachable)" "toy_block plain_body 3 = Some ([], Unreachable)"
  by (simp_all add: plain_body_def toy_block_def get_nth_def)

lemma plain_ok: "coroutine_ok plain_body plain_coroutine [(0, 1, SYield)] {0, 1} 0 1 2 3"
  by (simp add: coroutine_ok_def points_ok_def plain_coroutine_def plain_blocks block_locals_def domIff)


theorem second_point_in_block_panics_witness:
  "emit_suspensions toy_cfg toy_hooks 0 1 2 3 0 [(0, 0, SProducingSend), (0, 1, SYield)] [0] plain_body = None"
proof -
  have b: "toy_block plain_body 0 = Some ([User ''a'', TMarker MYield, User ''b''], Goto 1)"
    by (simp add: plain_body_def toy_block_def get_nth_def)
  have "3 \<le> toy_room plain_body" by (simp add: toy_room_def plain_body_def)
  from second_point_in_block_panics [OF b _ _ _ this, of 0 1 SProducingSend SYield toy_hooks 0 1 2 3 0 "[]" "[0]"]
  show ?thesis by simp
qed

text \<open>A host whose peek compares the length of a channel, kept in a local, with 1.\<close>

definition peek_hooks :: "toy_local_id \<Rightarrow> toy_local_id \<Rightarrow> (toy_body, toy_block_id, toy_local_id) coro_hooks" where
  "peek_hooks g len = toy_hooks\<lparr>emit_guarded_recv_peek := \<lambda>b i r c. do {
     (s, t) \<leftarrow> toy_block c b;
     a \<leftarrow> get_nth i s;
     (u, v) \<leftarrow> toy_block c r;
     Some (g, toy_put r (a # u, v) (toy_put b (s[i := EqCheckI64 g len 1], t) c)) }\<rparr>"

lemma peek_hooks_peeks: "peeks (peek_hooks g len) g (EqCheckI64 g len 1)"
  by (auto simp: peeks_def peek_hooks_def get_nth_def)

definition recv_body :: toy_body where
  "recv_body = \<lparr>tb_blocks = [([User ''a'', User ''recv'', User ''b''], Return)], tb_locals = [I64Mut, I64Mut, I64Mut, I64Mut, LBool]\<rparr>"

theorem guarded_receive_example:
  "\<exists>e c'. emit_suspension toy_cfg (peek_hooks 4 3) 0 1 2 9 1 (0, 1, SGuardedRecv) recv_body = Some (e, c') \<and>
     fst (toy_run c' 2 (Some e, toy_zero)) = Some 9 \<and> ts_out (snd (toy_run c' 2 (Some e, toy_zero\<lparr>ts_vars := (\<lambda>l. 0)(3 := 1)\<rparr>))) = [''recv'', ''b'']"
proof -
  have b: "toy_block recv_body 0 = Some ([User ''a'', User ''recv'', User ''b''], Return)"
    by (simp add: toy_block_def recv_body_def get_nth_def)
  have room: "4 \<le> toy_room recv_body" by (simp add: toy_room_def recv_body_def)
  have i: "1 < length [User ''a'', User ''recv'', User ''b'']" by simp
  obtain e c' where e: "emit_suspension toy_cfg (peek_hooks 4 3) 0 1 2 9 1 (0, 1, SGuardedRecv) recv_body = Some (e, c')"
    and run: "\<And>x. toy_run c' 2 (Some e, x) = (let y = toy_exec (EqCheckI64 4 3 1) x in
      if ts_vars y 4 \<noteq> 0 then (let z = fold toy_exec (drop 1 [User ''a'', User ''recv'', User ''b'']) (toy_exec (AssignI64 2 1) y)
        in (toy_goto Return (ts_vars z), z))
      else (Some 9, y\<lparr>ts_vars := (ts_vars y)(0 := 1, 1 := POLL_BLOCKED)\<rparr>))"
    using guarded_receive_waits [OF peek_hooks_peeks b i room, of 4 3 0 1 2 9 1] by blast
  from e show ?thesis by (intro exI [of _ e] exI [of _ c']) (simp add: run toy_zero_def)
qed

end
