(* ===== verification/Krio_Chain.thy ===== *)
theory Krio_Chain
  imports Krio_Lowering
begin

text \<open>
  What the chain of polls that \<open>crates/krio-stackless/src/executor.rs\<close> emits does, over the toy body of the tests.
  \<open>take_turn\<close> is one machine's turn as a function on states, \<open>part_code\<close> and \<open>chain_code\<close> the blocks that
  \<open>poll_part\<close> and \<open>poll_chain\<close> make, and \<open>chain_runs\<close> says that running them folds the turns.
\<close>

section \<open>A pass over the machines\<close>

definition set_var :: "toy_local_id \<Rightarrow> int \<Rightarrow> toy_state \<Rightarrow> toy_state" where
  "set_var l v x = x\<lparr>ts_vars := (ts_vars x)(l := v)\<rparr>"

text \<open>
  One machine's turn. \<open>f\<close> is what a poll of it does, the flag is \<open>all_done\<close>, \<open>pr\<close> the progress local of the
  cooperative loop. A machine that is done is not polled, but its last result is looked at again.
\<close>

definition take_turn :: "toy_local_id option \<Rightarrow> (toy_block_id, toy_local_id) machine \<times> (toy_state \<Rightarrow> toy_state) \<Rightarrow>
    toy_state \<times> bool \<Rightarrow> toy_state \<times> bool" where
  "take_turn pr = (\<lambda>(m, f) (x, all_done).
     let x = (if ts_vars x (state_local m) = DONE_STATE then x else f x);
         ran = (\<lambda>x. case pr of Some p \<Rightarrow> set_var p 1 x | None \<Rightarrow> x)
     in if ts_vars x (poll_result_local m) = 0 then (ran (set_var (state_local m) DONE_STATE x), all_done)
        else (if ts_vars x (poll_result_local m) = POLL_BLOCKED then x else ran x, False))"

definition run_pass :: "toy_local_id option \<Rightarrow> ((toy_block_id, toy_local_id) machine \<times> (toy_state \<Rightarrow> toy_state)) list \<Rightarrow>
    toy_state \<Rightarrow> toy_state \<times> bool" where
  "run_pass pr ms x = fold (take_turn pr) ms (case pr of Some p \<Rightarrow> set_var p 0 x | None \<Rightarrow> x, True)"

section \<open>The blocks of a chain\<close>

text \<open>
  The blocks that \<open>poll_part\<close> makes for a machine, among the blocks \<open>U\<close> of \<open>B\<close>. The locals from \<open>N\<close> on are the
  executor's.
\<close>

definition part_code :: "toy_block_id set \<Rightarrow> toy_blocks \<Rightarrow> nat \<Rightarrow> toy_local_id \<Rightarrow> toy_local_id option \<Rightarrow>
    (toy_block_id, toy_local_id) machine \<Rightarrow> toy_block_id \<Rightarrow> toy_stmt list \<Rightarrow> toy_block_id \<Rightarrow> bool" where
  "part_code U B N ad pr m check s nx \<longleftrightarrow> (\<exists>d r after md mp. N < unat d \<and> N < unat r \<and> {check, exit_bb m, after, md, mp} \<subseteq> U \<and>
     B check = Some (s @ [EqCheckI64 d (state_local m) DONE_STATE], Branch d after (dispatch_bb m)) \<and>
     B (exit_bb m) = Some ([], Goto after) \<and>
     B after = Some ([EqCheckI64 r (poll_result_local m) 0], Branch r md mp) \<and>
     (case pr of
        Some p \<Rightarrow> B md = Some ([AssignI64 (state_local m) DONE_STATE, AssignI64 p 1], Goto nx) \<and>
          (\<exists>b ran. N < unat b \<and> ran \<in> U \<and> B mp = Some ([AssignBool ad False, EqCheckI64 b (poll_result_local m) POLL_BLOCKED], Branch b nx ran) \<and>
            B ran = Some ([AssignI64 p 1], Goto nx))
      | None \<Rightarrow> B md = Some ([AssignI64 (state_local m) DONE_STATE], Goto nx) \<and> B mp = Some ([AssignBool ad False], Goto nx)))"

fun chain_code :: "toy_block_id set \<Rightarrow> toy_blocks \<Rightarrow> nat \<Rightarrow> toy_local_id \<Rightarrow> toy_local_id option \<Rightarrow> bool \<Rightarrow>
    (toy_block_id, toy_local_id) machine list \<Rightarrow> toy_block_id \<Rightarrow> toy_stmt list \<Rightarrow> toy_block_id \<Rightarrow> bool" where
  "chain_code U B N ad pr first [] cur s nx \<longleftrightarrow> cur = nx"
| "chain_code U B N ad pr first (m # ms) cur s nx \<longleftrightarrow> (\<exists>check nx1.
     (if first then check = cur else cur \<in> U \<and> B cur = Some ([], Goto check)) \<and>
     part_code U B N ad pr m check (if first then s else []) nx1 \<and> chain_code U B N ad pr False ms nx1 [] nx)"

lemma part_code_mono:
  assumes "part_code U B N ad pr m check s nx" and sub: "U \<subseteq> V" and same: "\<forall>x\<in>U. B' x = B x"
  shows "part_code V B' N ad pr m check s nx"
proof -
  have keep: "B' x = Some v" if "B x = Some v" "x \<in> U" for x v using same that by simp
  show ?thesis
  proof (cases pr)
    case None
    from assms(1) obtain d r after md mp where *: "N < unat d" "N < unat r" "{check, exit_bb m, after, md, mp} \<subseteq> U"
      "B check = Some (s @ [EqCheckI64 d (state_local m) DONE_STATE], Branch d after (dispatch_bb m))"
      "B (exit_bb m) = Some ([], Goto after)" "B after = Some ([EqCheckI64 r (poll_result_local m) 0], Branch r md mp)"
      "B md = Some ([AssignI64 (state_local m) DONE_STATE], Goto nx)" "B mp = Some ([AssignBool ad False], Goto nx)"
      unfolding part_code_def None option.case by (elim exE conjE) (rule that; assumption)
    have "{check, exit_bb m, after, md, mp} \<subseteq> V" using *(3) sub by (rule subset_trans)
    then show ?thesis
      unfolding part_code_def None option.case using *(1,2) keep [OF *(4)] keep [OF *(5)] keep [OF *(6)] keep [OF *(7)] keep [OF *(8)] *(3)
      by - (rule exI [of _ d], rule exI [of _ r], rule exI [of _ after], rule exI [of _ md], rule exI [of _ mp], simp)
  next
    case (Some p)
    from assms(1) obtain d r after md mp b ran where *: "N < unat d" "N < unat r" "{check, exit_bb m, after, md, mp} \<subseteq> U"
      "B check = Some (s @ [EqCheckI64 d (state_local m) DONE_STATE], Branch d after (dispatch_bb m))"
      "B (exit_bb m) = Some ([], Goto after)" "B after = Some ([EqCheckI64 r (poll_result_local m) 0], Branch r md mp)"
      "B md = Some ([AssignI64 (state_local m) DONE_STATE, AssignI64 p 1], Goto nx)" "N < unat b" "ran \<in> U"
      "B mp = Some ([AssignBool ad False, EqCheckI64 b (poll_result_local m) POLL_BLOCKED], Branch b nx ran)"
      "B ran = Some ([AssignI64 p 1], Goto nx)"
      unfolding part_code_def Some option.case by (elim exE conjE) (rule that; assumption)
    have "{check, exit_bb m, after, md, mp} \<subseteq> V" "ran \<in> V" using subset_trans [OF *(3) sub] subsetD [OF sub *(9)] by simp_all
    then show ?thesis
      unfolding part_code_def Some option.case
      using *(1,2,8) keep [OF *(4)] keep [OF *(5)] keep [OF *(6)] keep [OF *(7)] keep [OF *(10)] keep [OF *(11)] *(3,9)
      by - (rule exI [of _ d], rule exI [of _ r], rule exI [of _ after], rule exI [of _ md], rule exI [of _ mp], simp)
  qed
qed

lemma chain_code_mono:
  "chain_code U B N ad pr first ms cur s nx \<Longrightarrow> U \<subseteq> V \<Longrightarrow> \<forall>x\<in>U. B' x = B x \<Longrightarrow> chain_code V B' N ad pr first ms cur s nx"
proof (induction ms arbitrary: first cur s)
  case (Cons m ms)
  then obtain check nx1 where 1: "if first then check = cur else cur \<in> U \<and> B cur = Some ([], Goto check)"
    and 2: "part_code U B N ad pr m check (if first then s else []) nx1" and 3: "chain_code U B N ad pr False ms nx1 [] nx" by auto
  from 1 Cons.prems(2,3) have "if first then check = cur else cur \<in> V \<and> B' cur = Some ([], Goto check)" by (auto split: if_splits)
  with part_code_mono [OF 2 Cons.prems(2,3)] Cons.IH [OF 3 Cons.prems(2,3)] show ?case by auto
qed simp

section \<open>Emitting the chain\<close>

definition local_count :: "toy_body \<Rightarrow> nat" where
  "local_count c = length (tb_locals c)"

lemma local_count_simps [simp]:
  "local_count (toy_put b x c) = local_count c" "local_count (toy_grow x c) = local_count c"
  "local_count (toy_more ty c) = Suc (local_count c)"
  by (simp_all add: local_count_def toy_put_def toy_grow_def toy_more_def)

lemma toy_local_count: "local_count c < 2 ^ 32 \<Longrightarrow> unat (toy_local c) = local_count c"
  by (simp add: local_count_def toy_local_def unat_of_nat_u32)

text \<open>Of a fresh block only its being fresh matters.\<close>

lemma new_block_toy:
  assumes "0 < toy_room c"
  obtains b c' where "new_block toy_cfg c = (b, c')" "b \<notin> dom (toy_block c)" "toy_block c' = (toy_block c)(b \<mapsto> ([], Unreachable))"
    "toy_room c' = toy_room c - 1" "local_count c' = local_count c"
  using toy_fresh_none [OF assms] toy_block_grow [OF assms, of "([], Unreachable)"] by (simp add: toy_ops domIff)

lemma new_bool_toy:
  assumes "local_count c < 2 ^ 32"
  obtains l c' where "new_bool_local toy_cfg c = (l, c')" "unat l = local_count c" "toy_block c' = toy_block c"
    "toy_room c' = toy_room c" "local_count c' = Suc (local_count c)"
  using toy_local_count [OF assms] by (simp add: toy_ops)

text \<open>A method that changes one block.\<close>

lemma put_toy:
  assumes "toy_block c b = Some (s, t)"
  shows "toy_block (toy_put b x c) = (toy_block c)(b \<mapsto> x)" "toy_room (toy_put b x c) = toy_room c"
    "local_count (toy_put b x c) = local_count c"
  using assms by simp_all

lemma poll_part_toy:
  assumes check: "toy_block c check = Some (s, t)" and exit: "toy_block c (exit_bb m) = Some ([], te)" and ne: "check \<noteq> exit_bb m"
    and room: "5 \<le> toy_room c" and locals: "N < local_count c" "local_count c + 3 \<le> 2 ^ 32"
  shows "\<exists>nx c'. poll_part toy_cfg ad pr m check c = Some (nx, c') \<and> nx \<notin> dom (toy_block c) \<and>
    toy_block c' nx = Some ([], Unreachable) \<and> dom (toy_block c) \<subseteq> dom (toy_block c') \<and>
    (\<forall>x\<in>dom (toy_block c) - {check, exit_bb m}. toy_block c' x = toy_block c x) \<and>
    toy_room c \<le> toy_room c' + 5 \<and> local_count c \<le> local_count c' \<and> local_count c' \<le> local_count c + 3 \<and>
    part_code (insert check (insert (exit_bb m) (dom (toy_block c') - dom (toy_block c) - {nx}))) (toy_block c') N ad pr m check s nx"
proof -
  obtain d c1 where 1: "new_bool_local toy_cfg c = (d, c1)" "unat d = local_count c" "toy_block c1 = toy_block c"
    "toy_room c1 = toy_room c" "local_count c1 = Suc (local_count c)"
    using new_bool_toy [of c] locals(2) by auto
  let ?check = "(s @ [EqCheckI64 d (state_local m) DONE_STATE], t)"
  define c2 where "c2 = toy_put check ?check c1"
  have 2: "emit_eq_check_i64 toy_cfg check d (state_local m) DONE_STATE c1 = Some c2" "toy_block c2 = (toy_block c)(check \<mapsto> ?check)"
    "toy_room c2 = toy_room c" "local_count c2 = Suc (local_count c)"
    using check 1 by (simp_all add: c2_def toy_ops)
  obtain after c3 where 3: "new_block toy_cfg c2 = (after, c3)" "after \<notin> dom (toy_block c2)" "toy_block c3 = (toy_block c2)(after \<mapsto> ([], Unreachable))"
    "toy_room c3 = toy_room c - 1" "local_count c3 = Suc (local_count c)"
    using new_block_toy [of c2] 2 room by auto
  have af: "after \<noteq> check" "after \<noteq> exit_bb m" "after \<notin> dom (toy_block c)" using 3(2) 2(2) check exit by auto
  define c5 where "c5 = toy_put (exit_bb m) ([], Goto after) (toy_put check (fst ?check, Branch d after (dispatch_bb m)) c3)"
  have 4: "set_branch toy_cfg check d after (dispatch_bb m) c3 = Some (toy_put check (fst ?check, Branch d after (dispatch_bb m)) c3)"
    using af 3 2(2) by (simp add: toy_ops)
  have 5: "set_goto toy_cfg (exit_bb m) after (toy_put check (fst ?check, Branch d after (dispatch_bb m)) c3) = Some c5"
    "toy_block c5 = (toy_block c)(check \<mapsto> (fst ?check, Branch d after (dispatch_bb m)), exit_bb m \<mapsto> ([], Goto after), after \<mapsto> ([], Unreachable))"
    "toy_room c5 = toy_room c - 1" "local_count c5 = Suc (local_count c)"
    using af ne exit 3 2(2) by (simp_all add: c5_def toy_ops fun_upd_twist)
  obtain r c6 where 6: "new_bool_local toy_cfg c5 = (r, c6)" "unat r = Suc (local_count c)" "toy_block c6 = toy_block c5"
    "toy_room c6 = toy_room c - 1" "local_count c6 = Suc (Suc (local_count c))"
    using new_bool_toy [of c5] locals(2) 5 by auto
  define c7 where "c7 = toy_put after ([EqCheckI64 r (poll_result_local m) 0], Unreachable) c6"
  have 7: "emit_eq_check_i64 toy_cfg after r (poll_result_local m) 0 c6 = Some c7"
    "toy_block c7 = (toy_block c5)(after \<mapsto> ([EqCheckI64 r (poll_result_local m) 0], Unreachable))"
    "toy_room c7 = toy_room c - 1" "local_count c7 = Suc (Suc (local_count c))"
    using 5 6 by (simp_all add: c7_def toy_ops)
  have dom7: "dom (toy_block c7) = insert after (dom (toy_block c))" using 7(2) 5(2) check exit by auto
  have "0 < toy_room c7" using 7(3) room by simp
  then obtain md c8 where 8: "new_block toy_cfg c7 = (md, c8)" "md \<notin> dom (toy_block c7)" "toy_block c8 = (toy_block c7)(md \<mapsto> ([], Unreachable))"
    "toy_room c8 = toy_room c7 - 1" "local_count c8 = local_count c7"
    by (rule new_block_toy)
  have "0 < toy_room c8" using 8(4) 7(3) room by simp
  then obtain mp c9 where 9: "new_block toy_cfg c8 = (mp, c9)" "mp \<notin> dom (toy_block c8)" "toy_block c9 = (toy_block c8)(mp \<mapsto> ([], Unreachable))"
    "toy_room c9 = toy_room c8 - 1" "local_count c9 = local_count c8"
    by (rule new_block_toy)
  have "0 < toy_room c9" using 9(4) 8(4) 7(3) room by simp
  then obtain nx c10 where 10: "new_block toy_cfg c9 = (nx, c10)" "nx \<notin> dom (toy_block c9)" "toy_block c10 = (toy_block c9)(nx \<mapsto> ([], Unreachable))"
    "toy_room c10 = toy_room c9 - 1" "local_count c10 = local_count c9"
    by (rule new_block_toy)
  have fresh: "md \<notin> dom (toy_block c)" "mp \<notin> dom (toy_block c)" "nx \<notin> dom (toy_block c)" "distinct [check, exit_bb m, after, md, mp, nx]"
    using 8(2,3) 9(2,3) 10(2) dom7 check exit ne af by (auto simp: domIff split: if_splits)
  have "distinct (rev [check, exit_bb m, after, md, mp, nx])" using fresh(4) by (simp only: distinct_rev)
  then have neq: "distinct [check, exit_bb m, after, md, mp, nx]" "distinct [nx, mp, md, after, exit_bb m, check]"
    using fresh(4) by simp_all
  let ?b7 = "[EqCheckI64 r (poll_result_local m) 0]" and ?st = "AssignI64 (state_local m) DONE_STATE"
  have b10: "toy_block c10 = (toy_block c)(check \<mapsto> (fst ?check, Branch d after (dispatch_bb m)), exit_bb m \<mapsto> ([], Goto after),
      after \<mapsto> (?b7, Unreachable), md \<mapsto> ([], Unreachable), mp \<mapsto> ([], Unreachable), nx \<mapsto> ([], Unreachable))"
    using 10(3) 9(3) 8(3) 7(2) 5(2) by simp
  define c11 where "c11 = toy_put after (?b7, Branch r md mp) c10"
  define c12 where "c12 = toy_put md ([?st], Unreachable) c11"
  define c13 where "c13 = toy_put md ([?st], Goto nx) c12"
  have at: "toy_block c10 after = Some (?b7, Unreachable)" using neq b10 by simp
  have 11: "set_branch toy_cfg after r md mp c10 = Some c11" "toy_block c11 = (toy_block c10)(after \<mapsto> (?b7, Branch r md mp))"
    using at by (simp_all add: c11_def toy_ops(6) [OF at])
  have at: "toy_block c11 md = Some ([], Unreachable)" using neq b10 11(2) by simp
  have 12: "emit_assign_i64 toy_cfg md (state_local m) DONE_STATE c11 = Some c12" "toy_block c12 = (toy_block c11)(md \<mapsto> ([?st], Unreachable))"
    using at by (simp_all add: c12_def toy_ops(1) [OF at])
  have at: "toy_block c12 md = Some ([?st], Unreachable)" using 12(2) by simp
  have "set_goto toy_cfg md nx c12 = Some c13" unfolding c13_def by (rule toy_ops(5) [OF at])
  moreover have "toy_room c13 = toy_room c - 4" "local_count c13 = Suc (Suc (local_count c))"
    using 10(4,5) 9(4,5) 8(4,5) 7(3,4) by (simp_all add: c13_def c12_def c11_def)
  ultimately have 13: "set_goto toy_cfg md nx c12 = Some c13" "toy_room c13 = toy_room c - 4" "local_count c13 = Suc (Suc (local_count c))"
    by simp_all
  have b13: "toy_block c13 = (toy_block c)(check \<mapsto> (fst ?check, Branch d after (dispatch_bb m)), exit_bb m \<mapsto> ([], Goto after),
      after \<mapsto> (?b7, Branch r md mp), md \<mapsto> ([?st], Goto nx), mp \<mapsto> ([], Unreachable), nx \<mapsto> ([], Unreachable))"
    using at neq unfolding c13_def toy_block_put [of c12 md, unfolded at, simplified] 12(2) 11(2) b10 by (auto simp: fun_eq_iff)
  note front = 1(1) 2(1) 3(1) 4 [simplified fst_conv] 5(1) [simplified fst_conv] 6(1) 7(1) 8(1) 9(1) 10(1) 11(1) 12(1) 13(1)
  show ?thesis
  proof (cases pr)
    case None
    have at: "toy_block c13 mp = Some ([], Unreachable)" using neq b13 by simp
    define c15 where "c15 = toy_put mp ([] @ [AssignBool ad False], Unreachable) c13"
    have 15: "emit_assign_bool toy_cfg mp ad False c13 = Some c15" "toy_block c15 = (toy_block c13)(mp \<mapsto> ([AssignBool ad False], Unreachable))"
      using at by (simp_all add: c15_def toy_ops(2) [OF at])
    have at: "toy_block c15 mp = Some ([AssignBool ad False], Unreachable)" using 15(2) by simp
    define c14 where "c14 = toy_put mp ([AssignBool ad False], Goto nx) c15"
    have g14: "set_goto toy_cfg mp nx c15 = Some c14" unfolding c14_def by (rule toy_ops(5) [OF at])
    have 14: "toy_block c14 = (toy_block c13)(mp \<mapsto> ([AssignBool ad False], Goto nx))" "toy_room c14 = toy_room c - 4"
      "local_count c14 = Suc (Suc (local_count c))"
      using at 15(2) 13(2,3) by (simp_all add: c14_def c15_def)
    have run: "poll_part toy_cfg ad pr m check c = Some (nx, c14)"
      by (simp add: poll_part_def front None 15(1) g14)
    have code: "part_code (insert check (insert (exit_bb m) (dom (toy_block c14) - dom (toy_block c) - {nx}))) (toy_block c14) N ad pr m check s nx"
      unfolding part_code_def None option.case
      using fresh neq af(3) 1(2) 6(2) locals(1) 14(1) b13
      by - (rule exI [of _ d], rule exI [of _ r], rule exI [of _ after], rule exI [of _ md], rule exI [of _ mp], simp)
    have frame: "dom (toy_block c) \<subseteq> dom (toy_block c14)" "\<forall>x\<in>dom (toy_block c) - {check, exit_bb m}. toy_block c14 x = toy_block c x"
      using 14(1) b13 fresh(1-3) af(3) by auto
    show ?thesis
      using run code frame fresh(3) 14 b13 neq by (intro exI [of _ nx] exI [of _ c14] conjI) auto
  next
    case (Some p)
    let ?ab = "AssignBool ad False" and ?ap = "AssignI64 p 1"
    have at: "toy_block c13 md = Some ([?st], Goto nx)" using neq b13 by simp
    define c14 where "c14 = toy_put md ([?st] @ [?ap], Goto nx) c13"
    have 14: "emit_assign_i64 toy_cfg md p 1 c13 = Some c14" "toy_block c14 = (toy_block c13)(md \<mapsto> ([?st, ?ap], Goto nx))"
      using at by (simp_all add: c14_def toy_ops(1) [OF at])
    have at: "toy_block c14 mp = Some ([], Unreachable)" using neq b13 14(2) by simp
    define c15 where "c15 = toy_put mp ([] @ [?ab], Unreachable) c14"
    have g15: "emit_assign_bool toy_cfg mp ad False c14 = Some c15" unfolding c15_def by (rule toy_ops(2) [OF at])
    have 15: "toy_block c15 = (toy_block c14)(mp \<mapsto> ([?ab], Unreachable))"
      "local_count c15 = Suc (Suc (local_count c))" "toy_room c15 = toy_room c - 4"
      using at 13(2,3) by (simp_all add: c15_def) (simp_all add: c14_def)
    have "local_count c15 < 2 ^ 32" using 15(2) locals(2) by simp
    then obtain b c16 where 16: "new_bool_local toy_cfg c15 = (b, c16)" "unat b = local_count c15" "toy_block c16 = toy_block c15"
      "toy_room c16 = toy_room c15" "local_count c16 = Suc (local_count c15)"
      by (rule new_bool_toy)
    let ?eq = "EqCheckI64 b (poll_result_local m) POLL_BLOCKED"
    have at: "toy_block c16 mp = Some ([?ab], Unreachable)" using 16(3) 15(1) by simp
    define c17 where "c17 = toy_put mp ([?ab] @ [?eq], Unreachable) c16"
    have 17: "emit_eq_check_i64 toy_cfg mp b (poll_result_local m) POLL_BLOCKED c16 = Some c17"
      "toy_block c17 = (toy_block c16)(mp \<mapsto> ([?ab, ?eq], Unreachable))" "toy_room c17 = toy_room c - 4"
      "local_count c17 = local_count c + 3"
      using at 16(4,5) 15(2,3) by (simp_all add: c17_def toy_ops(3) [OF at])
    have "0 < toy_room c17" using 17(3) room by simp
    then obtain ran c18 where 18: "new_block toy_cfg c17 = (ran, c18)" "ran \<notin> dom (toy_block c17)"
      "toy_block c18 = (toy_block c17)(ran \<mapsto> ([], Unreachable))" "toy_room c18 = toy_room c17 - 1" "local_count c18 = local_count c17"
      by (rule new_block_toy)
    have "{check, exit_bb m, after, md, mp, nx} \<union> dom (toy_block c) \<subseteq> dom (toy_block c17)"
      using 17(2) 16(3) 15(1) 14(2) b13 by auto
    then have ran: "ran \<notin> {check, exit_bb m, after, md, mp, nx}" "ran \<notin> dom (toy_block c)" using 18(2) by blast+
    then have nr: "check \<noteq> ran" "exit_bb m \<noteq> ran" "after \<noteq> ran" "md \<noteq> ran" "mp \<noteq> ran" "nx \<noteq> ran" by auto
    have at: "toy_block c18 mp = Some ([?ab, ?eq], Unreachable)" using 18(3) 17(2) ran(1) by auto
    define c19 where "c19 = toy_put mp ([?ab, ?eq], Branch b nx ran) c18"
    have 19: "set_branch toy_cfg mp b nx ran c18 = Some c19" "toy_block c19 = (toy_block c18)(mp \<mapsto> ([?ab, ?eq], Branch b nx ran))"
      using at by (simp_all add: c19_def toy_ops(6) [OF at])
    have at: "toy_block c19 ran = Some ([], Unreachable)" using 19(2) 18(3) ran(1) by auto
    define c20 where "c20 = toy_put ran ([] @ [?ap], Unreachable) c19"
    have 20: "emit_assign_i64 toy_cfg ran p 1 c19 = Some c20" "toy_block c20 = (toy_block c19)(ran \<mapsto> ([?ap], Unreachable))"
      using at by (simp_all add: c20_def toy_ops(1) [OF at])
    have at: "toy_block c20 ran = Some ([?ap], Unreachable)" using 20(2) by simp
    define c21 where "c21 = toy_put ran ([?ap], Goto nx) c20"
    have g21: "set_goto toy_cfg ran nx c20 = Some c21" unfolding c21_def by (rule toy_ops(5) [OF at])
    have 21: "toy_room c21 = toy_room c - 5" "local_count c21 = local_count c + 3"
      using 17(3,4) 18(4,5) by (simp_all add: c21_def c20_def c19_def)
    have b21: "toy_block c21 = (toy_block c)(check \<mapsto> (fst ?check, Branch d after (dispatch_bb m)), exit_bb m \<mapsto> ([], Goto after),
        after \<mapsto> (?b7, Branch r md mp), md \<mapsto> ([?st, ?ap], Goto nx), mp \<mapsto> ([?ab, ?eq], Branch b nx ran), nx \<mapsto> ([], Unreachable),
        ran \<mapsto> ([?ap], Goto nx))"
      using at neq ran(1) unfolding c21_def toy_block_put [of c20 ran, unfolded at, simplified] 20(2) 19(2) 18(3) 17(2) 16(3) 15(1) 14(2) b13
      by (auto simp: fun_eq_iff)
    have run: "poll_part toy_cfg ad pr m check c = Some (nx, c21)"
      by (simp add: poll_part_def front Some 14(1) g15 16(1) 17(1) 18(1) 19(1) 20(1) g21)
    have code: "part_code (insert check (insert (exit_bb m) (dom (toy_block c21) - dom (toy_block c) - {nx}))) (toy_block c21) N ad pr m check s nx"
      unfolding part_code_def Some option.case
      using fresh neq ran nr af(3) 1(2) 6(2) 16(2) 15(2) locals(1) b21
      by - (rule exI [of _ d], rule exI [of _ r], rule exI [of _ after], rule exI [of _ md], rule exI [of _ mp], simp)
    have frame: "dom (toy_block c) \<subseteq> dom (toy_block c21)" "\<forall>x\<in>dom (toy_block c) - {check, exit_bb m}. toy_block c21 x = toy_block c x"
      using b21 fresh(1-3) af(3) ran nr by auto
    show ?thesis
      using run code frame fresh(3) 21 b21 neq ran(1) nr by (intro exI [of _ nx] exI [of _ c21] conjI) auto
  qed
qed

text \<open>The blocks a chain uses: the one it starts in, the exits of the machines and new ones, but not its last.\<close>

definition chain_blocks :: "toy_blocks \<Rightarrow> toy_blocks \<Rightarrow> toy_block_id \<Rightarrow> (toy_block_id, toy_local_id) machine list \<Rightarrow> toy_block_id \<Rightarrow> toy_block_id set" where
  "chain_blocks B C cur ms nx = insert cur (exit_bb ` set ms \<union> (dom C - dom B)) - {nx}"

definition chain_ready :: "toy_body \<Rightarrow> toy_block_id \<Rightarrow> toy_stmt list \<Rightarrow> bool \<Rightarrow> (toy_block_id, toy_local_id) machine list \<Rightarrow> nat \<Rightarrow> bool" where
  "chain_ready c cur s first ms N \<longleftrightarrow> (\<exists>t. toy_block c cur = Some (s, t)) \<and> (\<not> first \<longrightarrow> s = []) \<and>
     (\<forall>m\<in>set ms. \<exists>t. toy_block c (exit_bb m) = Some ([], t)) \<and> distinct (cur # map exit_bb ms) \<and>
     6 * length ms \<le> toy_room c \<and> N < local_count c \<and> local_count c + 3 * length ms \<le> 2 ^ 32"

lemma chain_check_toy:
  assumes "chain_ready c cur s first ms N" and "ms \<noteq> []"
  shows "\<exists>check c0 t. (if first then Some (cur, c)
        else do { let (check, c) = new_block toy_cfg c; c \<leftarrow> set_goto toy_cfg cur check c; Some (check, c) }) = Some (check, c0) \<and>
      toy_block c0 check = Some (if first then s else [], t) \<and> dom (toy_block c) \<subseteq> dom (toy_block c0) \<and>
      (\<forall>x\<in>dom (toy_block c) - {cur}. toy_block c0 x = toy_block c x) \<and>
      (if first then check = cur else check \<notin> dom (toy_block c) \<and> toy_block c0 cur = Some ([], Goto check)) \<and>
      toy_room c \<le> toy_room c0 + 1 \<and> local_count c0 = local_count c"
proof (cases first)
  case True
  with assms show ?thesis by (auto simp: chain_ready_def)
next
  case False
  obtain t where cur: "toy_block c cur = Some ([], t)" using assms(1) False by (auto simp: chain_ready_def)
  have "0 < toy_room c" using assms by (cases ms) (auto simp: chain_ready_def)
  then obtain check c1 where 1: "new_block toy_cfg c = (check, c1)" "check \<notin> dom (toy_block c)" "toy_block c1 = (toy_block c)(check \<mapsto> ([], Unreachable))"
    "toy_room c1 = toy_room c - 1" "local_count c1 = local_count c"
    by (rule new_block_toy)
  have ne: "cur \<noteq> check" "check \<noteq> cur" using 1(2) cur by auto
  have at: "toy_block c1 cur = Some ([], t)" using 1(3) ne cur by simp
  have 2: "toy_block (toy_put cur ([], Goto check) c1) = (toy_block c)(check \<mapsto> ([], Unreachable), cur \<mapsto> ([], Goto check))"
    using at 1(3) by simp
  show ?thesis
    using False 1 2 ne toy_ops(5) [OF at, of check]
    by (intro exI [of _ check] exI [of _ "toy_put cur ([], Goto check) c1"] exI [of _ Unreachable]) auto
qed

lemma poll_chain_toy:
  assumes "chain_ready c cur s first ms N"
  shows "\<exists>nx c'. poll_chain toy_cfg ad pr first ms cur c = Some (nx, c') \<and> dom (toy_block c) \<subseteq> dom (toy_block c') \<and>
    (\<forall>x\<in>dom (toy_block c) - insert cur (exit_bb ` set ms). toy_block c' x = toy_block c x) \<and>
    (if ms = [] then nx = cur \<and> c' = c else nx \<notin> dom (toy_block c) \<and> toy_block c' nx = Some ([], Unreachable)) \<and>
    toy_room c \<le> toy_room c' + 6 * length ms \<and> local_count c \<le> local_count c' \<and> local_count c' \<le> local_count c + 3 * length ms \<and>
    chain_code (chain_blocks (toy_block c) (toy_block c') cur ms nx) (toy_block c') N ad pr first ms cur s nx"
  using assms
proof (induction ms arbitrary: c cur s first)
  case Nil
  then show ?case by simp
next
  case (Cons m ms)
  obtain check c0 t where 0: "(if first then Some (cur, c)
        else do { let (check, c) = new_block toy_cfg c; c \<leftarrow> set_goto toy_cfg cur check c; Some (check, c) }) = Some (check, c0)"
      "toy_block c0 check = Some (if first then s else [], t)" "dom (toy_block c) \<subseteq> dom (toy_block c0)"
      "\<forall>x\<in>dom (toy_block c) - {cur}. toy_block c0 x = toy_block c x"
      "if first then check = cur else check \<notin> dom (toy_block c) \<and> toy_block c0 cur = Some ([], Goto check)"
      "toy_room c \<le> toy_room c0 + 1" "local_count c0 = local_count c"
    using chain_check_toy [OF Cons.prems list.distinct(2)] by (elim exE conjE) (rule that)
  have ready: "\<exists>t. toy_block c cur = Some (s, t)" "\<forall>m'\<in>set (m # ms). \<exists>t. toy_block c (exit_bb m') = Some ([], t)"
    "distinct (cur # map exit_bb (m # ms))" "6 * length (m # ms) \<le> toy_room c" "N < local_count c" "local_count c + 3 * length (m # ms) \<le> 2 ^ 32"
    using Cons.prems unfolding chain_ready_def by blast+
  have exits: "toy_block c0 (exit_bb m') = toy_block c (exit_bb m')" "exit_bb m' \<in> dom (toy_block c)" if "m' \<in> set (m # ms)" for m'
    using ready(2,3) 0(4) that by fastforce+
  obtain te where te: "toy_block c0 (exit_bb m) = Some ([], te)" using exits(1) [of m] ready(2) by auto
  have ne: "check \<noteq> exit_bb m'" if "m' \<in> set (m # ms)" for m'
    using 0(5) exits(2) [OF that] ready(3) that by (auto split: if_splits)
  have room: "5 \<le> toy_room c0" "N < local_count c0" "local_count c0 + 3 \<le> 2 ^ 32" using ready(4-6) 0(6,7) by simp_all
  obtain nx1 c1 where 1: "poll_part toy_cfg ad pr m check c0 = Some (nx1, c1)" "nx1 \<notin> dom (toy_block c0)"
      "toy_block c1 nx1 = Some ([], Unreachable)" "dom (toy_block c0) \<subseteq> dom (toy_block c1)"
      "\<forall>x\<in>dom (toy_block c0) - {check, exit_bb m}. toy_block c1 x = toy_block c0 x"
      "toy_room c0 \<le> toy_room c1 + 5" "local_count c0 \<le> local_count c1" "local_count c1 \<le> local_count c0 + 3"
      "part_code (insert check (insert (exit_bb m) (dom (toy_block c1) - dom (toy_block c0) - {nx1}))) (toy_block c1) N ad pr m check (if first then s else []) nx1"
    using poll_part_toy [OF 0(2) te ne [OF list.set_intros(1)] room, of ad pr] by (elim exE conjE) (rule that)
  have "chain_ready c1 nx1 [] False ms N"
    unfolding chain_ready_def
  proof (intro conjI)
    show "\<forall>m'\<in>set ms. \<exists>t. toy_block c1 (exit_bb m') = Some ([], t)"
    proof
      fix m' assume m': "m' \<in> set ms"
      then have "exit_bb m' \<in> dom (toy_block c0)" using subsetD [OF 0(3) exits(2) [of m']] by simp
      moreover have "exit_bb m' \<noteq> check" using ne [of m'] m' by auto
      moreover have "exit_bb m' \<noteq> exit_bb m" using m' ready(3) by (auto simp: image_iff)
      ultimately have "exit_bb m' \<in> dom (toy_block c0) - {check, exit_bb m}" by simp
      then have "toy_block c1 (exit_bb m') = toy_block c (exit_bb m')" using 1(5) exits(1) [of m'] m' by simp
      then show "\<exists>t. toy_block c1 (exit_bb m') = Some ([], t)" using ready(2) m' by simp
    qed
    have "nx1 \<noteq> exit_bb m'" if "m' \<in> set ms" for m'
      using 1(2) subsetD [OF 0(3) exits(2) [of m']] that by auto
    then show "distinct (nx1 # map exit_bb ms)" using ready(3) by auto
  qed (use 1(3) 1(6-8) 0(6,7) ready(4-6) in auto)
  from Cons.IH [OF this] obtain nx c' where 2: "poll_chain toy_cfg ad pr False ms nx1 c1 = Some (nx, c')" "dom (toy_block c1) \<subseteq> dom (toy_block c')"
      "\<forall>x\<in>dom (toy_block c1) - insert nx1 (exit_bb ` set ms). toy_block c' x = toy_block c1 x"
      "if ms = [] then nx = nx1 \<and> c' = c1 else nx \<notin> dom (toy_block c1) \<and> toy_block c' nx = Some ([], Unreachable)"
      "toy_room c1 \<le> toy_room c' + 6 * length ms" "local_count c1 \<le> local_count c'" "local_count c' \<le> local_count c1 + 3 * length ms"
      "chain_code (chain_blocks (toy_block c1) (toy_block c') nx1 ms nx) (toy_block c') N ad pr False ms nx1 [] nx"
    by (elim exE conjE) (rule that)
  let ?U = "chain_blocks (toy_block c) (toy_block c') cur (m # ms) nx"
  let ?U1 = "insert check (insert (exit_bb m) (dom (toy_block c1) - dom (toy_block c0) - {nx1}))"
  have run: "poll_chain toy_cfg ad pr first (m # ms) cur c = Some (nx, c')"
    unfolding poll_chain.simps(2) 0(1) by (simp add: 1(1) 2(1))
  have doms: "dom (toy_block c) \<subseteq> dom (toy_block c')" using 0(3) 1(4) 2(2) by blast
  have cur: "cur \<in> dom (toy_block c)" using ready(1) by auto
  have check: "check \<in> dom (toy_block c0)" "check \<noteq> nx1" using 0(2) 1(2) by auto
  have same1: "toy_block c' x = toy_block c1 x" if "x \<in> ?U1 \<union> dom (toy_block c0)" "x \<notin> exit_bb ` set ms" for x
  proof -
    have "x \<in> dom (toy_block c1)" "x \<noteq> nx1" using that check te 1(2,4) by auto
    then show ?thesis using 2(3) that(2) by blast
  qed
  have same: "toy_block c' x = toy_block c0 x" if "x \<in> dom (toy_block c0)" "x \<notin> {check, exit_bb m}" "x \<notin> exit_bb ` set ms" for x
  proof -
    have "toy_block c' x = toy_block c1 x" using same1 [OF UnI2 [OF that(1)] that(3)] .
    moreover have "x \<in> dom (toy_block c0) - {check, exit_bb m}" using that(1,2) by (rule DiffI)
    ultimately show ?thesis using bspec [OF 1(5)] by metis
  qed
  have frame: "\<forall>x\<in>dom (toy_block c) - insert cur (exit_bb ` set (m # ms)). toy_block c' x = toy_block c x"
  proof
    fix x assume x: "x \<in> dom (toy_block c) - insert cur (exit_bb ` set (m # ms))"
    then have "x \<noteq> check" using 0(5) by (auto split: if_splits)
    then show "toy_block c' x = toy_block c x" using same [of x] x 0(3,4) by auto
  qed
  have "toy_block c' nx = Some ([], Unreachable)" using 2(4) 1(3) by (cases "ms = []") simp_all
  moreover have nx0: "nx \<notin> dom (toy_block c0)" using 2(4) 1(2) subsetD [OF 1(4), of nx] by (cases "ms = []") auto
  moreover have "nx \<notin> dom (toy_block c)" using nx0 subsetD [OF 0(3)] by blast
  ultimately have nx: "nx \<notin> dom (toy_block c)" "toy_block c' nx = Some ([], Unreachable)" "nx \<notin> dom (toy_block c0)"
    by simp_all
  have U1: "?U1 \<subseteq> ?U"
  proof
    fix x assume x: "x \<in> ?U1"
    have "x \<noteq> nx" using x check(1) te nx(3) 2(4) by (auto split: if_splits)
    moreover have "x \<in> insert cur (exit_bb ` set (m # ms) \<union> (dom (toy_block c') - dom (toy_block c)))"
      using x 0(3,5) check(1) 1(4) 2(2) by (auto split: if_splits)
    ultimately show "x \<in> ?U" by (simp add: chain_blocks_def)
  qed
  have U2: "chain_blocks (toy_block c1) (toy_block c') nx1 ms nx \<subseteq> ?U"
  proof -
    have "nx1 \<in> dom (toy_block c') - dom (toy_block c)" using 1(2,3) subsetD [OF 2(2), of nx1] subsetD [OF 0(3), of nx1] by auto
    moreover have "dom (toy_block c') - dom (toy_block c1) \<subseteq> dom (toy_block c') - dom (toy_block c)" using 0(3) 1(4) by (intro Diff_mono) simp_all
    ultimately show ?thesis unfolding chain_blocks_def by (intro Diff_mono) auto
  qed
  have "x \<notin> exit_bb ` set ms" if x: "x \<in> ?U1" for x
  proof
    assume "x \<in> exit_bb ` set ms"
    then obtain m' where m': "x = exit_bb m'" "m' \<in> set ms" by blast
    have "x \<in> dom (toy_block c0)" using subsetD [OF 0(3) exits(2) [of m']] m' by simp
    moreover have "x \<noteq> check" using ne [of m'] m' by auto
    moreover have "x \<noteq> exit_bb m" using m' ready(3) by (auto simp: image_iff)
    ultimately show False using x by blast
  qed
  then have "\<forall>x\<in>?U1. toy_block c' x = toy_block c1 x" using same1 by blast
  from part_code_mono [OF 1(9) U1 this]
  have part: "part_code ?U (toy_block c') N ad pr m check (if first then s else []) nx1" .
  have rest: "chain_code ?U (toy_block c') N ad pr False ms nx1 [] nx"
    using chain_code_mono [OF 2(8) U2] by blast
  have "if first then check = cur else cur \<in> ?U \<and> toy_block c' cur = Some ([], Goto check)"
  proof (cases first)
    case False
    then have "cur \<noteq> check" using 0(5) cur by auto
    then have "toy_block c' cur = toy_block c0 cur" using same [of cur] ready(3) 0(3) cur by auto
    moreover have "cur \<in> ?U" using nx(1) cur by (auto simp: chain_blocks_def)
    ultimately show ?thesis using 0(5) False by simp
  qed (use 0(5) in simp)
  with part rest have "chain_code ?U (toy_block c') N ad pr first (m # ms) cur s nx" by auto
  then show ?case
    using run doms frame nx(1,2) 0(6,7) 1(6-8) 2(5-7) by (intro exI [of _ nx] exI [of _ c']) simp
qed

section \<open>Running the chain\<close>

text \<open>
  The code of a machine does \<open>f\<close> when it is polled: it comes from the dispatch to the exit block, and neither
  reads nor changes the locals that came after it, which are the executor's.
\<close>

definition polls :: "toy_body \<Rightarrow> nat \<Rightarrow> toy_local_id \<Rightarrow> (toy_block_id, toy_local_id) machine \<times> (toy_state \<Rightarrow> toy_state) \<Rightarrow> bool" where
  "polls c N ad = (\<lambda>(m, f). unat (state_local m) < N \<and> unat (poll_result_local m) < N \<and>
     (\<forall>x y. agree {l. N \<le> unat l} x y \<and> ts_vars x (state_local m) \<noteq> DONE_STATE \<longrightarrow>
       (\<exists>k z. toy_run c k (Some (dispatch_bb m), y) = (Some (exit_bb m), z) \<and> agree {l. N \<le> unat l} (f x) z \<and> ts_vars z ad = ts_vars y ad)))"

text \<open>A state of the code stands for a state of the pass.\<close>

definition stands_for :: "nat \<Rightarrow> toy_local_id \<Rightarrow> toy_state \<Rightarrow> toy_state \<times> bool \<Rightarrow> bool" where
  "stands_for N ad z p \<longleftrightarrow> agree {l. N \<le> unat l} (fst p) z \<and> ts_vars z ad = (if snd p then 1 else 0)"

lemma toy_run_step: "toy_block c b = Some (s, t) \<Longrightarrow>
    toy_run c (Suc k) (Some b, x) = toy_run c k (toy_goto t (ts_vars (fold toy_exec s x)), fold toy_exec s x)"
  by (simp add: toy_step_at)

lemma agree_local: "agree L x y \<Longrightarrow> l \<notin> L \<Longrightarrow> ts_vars y l = ts_vars x l"
  by (simp add: agree_def)

lemma stands_for_set: "stands_for N ad z (w, flag) \<Longrightarrow> unat l < N \<Longrightarrow> unat ad = N \<Longrightarrow>
    stands_for N ad (toy_exec (AssignI64 l v) z) (set_var l v w, flag)"
  by (auto simp: stands_for_def set_var_def agree_def)

lemma stands_for_own: "stands_for N ad z (w, flag) \<Longrightarrow> N < unat d \<Longrightarrow> unat ad = N \<Longrightarrow>
    stands_for N ad (toy_exec (EqCheckI64 d l v) z) (w, flag)"
  by (auto simp: stands_for_def agree_def)

lemma stands_for_flag: "stands_for N ad z (w, flag) \<Longrightarrow> unat ad = N \<Longrightarrow> stands_for N ad (toy_exec (AssignBool ad b) z) (w, b)"
  by (auto simp: stands_for_def agree_def)

lemma stands_for_local: "stands_for N ad z (w, flag) \<Longrightarrow> unat l < N \<Longrightarrow> ts_vars z l = ts_vars w l"
  by (simp add: stands_for_def agree_def)

lemma part_runs:
  assumes code: "part_code U (toy_block c) N ad pr m check s nx" and ad: "unat ad = N" and polls: "polls c N ad (m, f)"
    and pr: "\<And>p. pr = Some p \<Longrightarrow> unat p < N" and y: "stands_for N ad (fold toy_exec s y) (x, flag)"
  shows "\<exists>k z. toy_run c k (Some check, y) = (Some nx, z) \<and> stands_for N ad z (take_turn pr (m, f) (x, flag))"
proof -
  let ?T = "{l. N \<le> unat l}"
  define w where "w = (if ts_vars x (state_local m) = DONE_STATE then x else f x)"
  obtain d r after md mp where 1: "N < unat d" "N < unat r"
    "toy_block c check = Some (s @ [EqCheckI64 d (state_local m) DONE_STATE], Branch d after (dispatch_bb m))"
    "toy_block c (exit_bb m) = Some ([], Goto after)"
    "toy_block c after = Some ([EqCheckI64 r (poll_result_local m) 0], Branch r md mp)"
    "case pr of
        Some p \<Rightarrow> toy_block c md = Some ([AssignI64 (state_local m) DONE_STATE, AssignI64 p 1], Goto nx) \<and>
          (\<exists>b ran. N < unat b \<and> ran \<in> U \<and> toy_block c mp = Some ([AssignBool ad False, EqCheckI64 b (poll_result_local m) POLL_BLOCKED], Branch b nx ran) \<and>
            toy_block c ran = Some ([AssignI64 p 1], Goto nx))
      | None \<Rightarrow> toy_block c md = Some ([AssignI64 (state_local m) DONE_STATE], Goto nx) \<and> toy_block c mp = Some ([AssignBool ad False], Goto nx)"
    using code unfolding part_code_def by (elim exE conjE) (rule that)
  have m: "unat (state_local m) < N" "unat (poll_result_local m) < N" using polls by (auto simp: polls_def)
  have yx: "agree ?T x (fold toy_exec s y)" "ts_vars (fold toy_exec s y) ad = (if flag then 1 else 0)"
    using y by (simp_all add: stands_for_def)
  let ?y = "toy_exec (EqCheckI64 d (state_local m) DONE_STATE) (fold toy_exec s y)"
  have y1: "agree ?T x ?y" "ts_vars ?y ad = (if flag then 1 else 0)"
    using yx 1(1) ad by (auto simp: agree_def)
  have st: "ts_vars (fold toy_exec s y) (state_local m) = ts_vars x (state_local m)"
    using agree_local [OF yx(1)] m(1) by simp
  have first: "toy_run c 1 (Some check, y) = (Some (if ts_vars x (state_local m) = DONE_STATE then after else dispatch_bb m), ?y)"
    unfolding One_nat_def toy_run_step [OF 1(3)] by (simp add: st)
  have "\<exists>k z. toy_run c k (Some check, y) = (Some after, z) \<and> agree ?T w z \<and> ts_vars z ad = (if flag then 1 else 0)"
  proof (cases "ts_vars x (state_local m) = DONE_STATE")
    case True
    then show ?thesis using first y1 by (intro exI [of _ 1] exI [of _ ?y]) (simp add: w_def)
  next
    case False
    then obtain k z where kz: "toy_run c k (Some (dispatch_bb m), ?y) = (Some (exit_bb m), z)" "agree ?T (f x) z" "ts_vars z ad = ts_vars ?y ad"
      using polls y1(1) unfolding polls_def by blast
    have "toy_run c (1 + k + 1) (Some check, y) = toy_run c 1 (toy_run c k (toy_run c 1 (Some check, y)))"
      by (simp only: toy_run_add)
    also have "\<dots> = (Some after, z)" using first False kz(1) 1(4) by (simp add: toy_step_at)
    finally show ?thesis using False kz(2,3) y1(2) by (intro exI [of _ "1 + k + 1"] exI [of _ z]) (simp add: w_def)
  qed
  then obtain k z where kz: "toy_run c k (Some check, y) = (Some after, z)" "agree ?T w z" "ts_vars z ad = (if flag then 1 else 0)" by blast
  let ?z = "toy_exec (EqCheckI64 r (poll_result_local m) 0) z"
  have po: "ts_vars z (poll_result_local m) = ts_vars w (poll_result_local m)"
    using agree_local [OF kz(2)] m(2) by simp
  have second: "toy_run c (k + 1) (Some check, y) = (Some (if ts_vars w (poll_result_local m) = 0 then md else mp), ?z)"
    unfolding toy_run_add kz(1) One_nat_def toy_run_step [OF 1(5)] using po by simp
  have z1: "agree ?T w ?z" "ts_vars ?z ad = (if flag then 1 else 0)"
    using kz(2,3) 1(2) ad by (auto simp: agree_def)
  have zw: "stands_for N ad ?z (w, flag)" using z1 by (simp add: stands_for_def)
  have turn: "take_turn pr (m, f) (x, flag) =
      (if ts_vars w (poll_result_local m) = 0 then ((case pr of Some p \<Rightarrow> set_var p 1 | None \<Rightarrow> id) (set_var (state_local m) DONE_STATE w), flag)
       else (if ts_vars w (poll_result_local m) = POLL_BLOCKED then w else (case pr of Some p \<Rightarrow> set_var p 1 | None \<Rightarrow> id) w, False))"
    by (simp add: take_turn_def w_def Let_def split: option.split)
  show ?thesis
  proof (cases pr)
    case None
    have 2: "toy_block c md = Some ([AssignI64 (state_local m) DONE_STATE], Goto nx)" "toy_block c mp = Some ([AssignBool ad False], Goto nx)"
      using 1(6) None by simp_all
    show ?thesis
    proof (cases "ts_vars w (poll_result_local m) = 0")
      case True
      have "toy_run c (k + 1 + 1) (Some check, y) = (Some nx, toy_exec (AssignI64 (state_local m) DONE_STATE) ?z)"
        unfolding toy_run_add [of c "k + 1"] second using True 2(1) by (simp add: toy_step_at)
      moreover have res: "take_turn pr (m, f) (x, flag) = (set_var (state_local m) DONE_STATE w, flag)" unfolding turn using True None by (simp add: POLL_BLOCKED_def)
      moreover have "stands_for N ad (toy_exec (AssignI64 (state_local m) DONE_STATE) ?z) (take_turn pr (m, f) (x, flag))"
        unfolding res by (rule stands_for_set [OF zw m(1) ad])
      ultimately show ?thesis by blast
    next
      case False
      have "toy_run c (k + 1 + 1) (Some check, y) = (Some nx, toy_exec (AssignBool ad False) ?z)"
        unfolding toy_run_add [of c "k + 1"] second using False 2(2) by (simp add: toy_step_at)
      moreover have res: "take_turn pr (m, f) (x, flag) = (w, False)" unfolding turn using False None by (simp add: POLL_BLOCKED_def)
      moreover have "stands_for N ad (toy_exec (AssignBool ad False) ?z) (take_turn pr (m, f) (x, flag))"
        unfolding res by (rule stands_for_flag [OF zw ad])
      ultimately show ?thesis by blast
    qed
  next
    case (Some p)
    obtain b ran where mem: "toy_block c md = Some ([AssignI64 (state_local m) DONE_STATE, AssignI64 p 1], Goto nx)"
      "toy_block c mp = Some ([AssignBool ad False, EqCheckI64 b (poll_result_local m) POLL_BLOCKED], Branch b nx ran)"
      "toy_block c ran = Some ([AssignI64 p 1], Goto nx)" "N < unat b"
      using 1(6) Some by auto
    have p: "unat p < N" using pr Some by simp
    consider "ts_vars w (poll_result_local m) = 0" | "ts_vars w (poll_result_local m) = POLL_BLOCKED"
      | "ts_vars w (poll_result_local m) \<noteq> 0" "ts_vars w (poll_result_local m) \<noteq> POLL_BLOCKED" by blast
    then show ?thesis
    proof cases
      case 1
      let ?v2 = "toy_exec (AssignI64 p 1) (toy_exec (AssignI64 (state_local m) DONE_STATE) ?z)"
      have "toy_run c (k + 1 + 1) (Some check, y) = (Some nx, ?v2)"
        unfolding toy_run_add [of c "k + 1"] second using 1 mem(1) by (simp add: toy_step_at)
      moreover have res: "take_turn pr (m, f) (x, flag) = (set_var p 1 (set_var (state_local m) DONE_STATE w), flag)" unfolding turn using 1 Some by (simp add: POLL_BLOCKED_def)
      moreover have "stands_for N ad ?v2 (take_turn pr (m, f) (x, flag))"
        unfolding res by (rule stands_for_set [OF stands_for_set [OF zw m(1) ad] p ad])
      ultimately show ?thesis by blast
    next
      case 2
      let ?v2 = "toy_exec (EqCheckI64 b (poll_result_local m) POLL_BLOCKED) (toy_exec (AssignBool ad False) ?z)"
      have "ts_vars ?v2 b = 1" using 2 po 1(2) mem(4) ad m(2) by auto
      then have "toy_run c (k + 1 + 1) (Some check, y) = (Some nx, ?v2)"
        unfolding toy_run_add [of c "k + 1"] second using 2 mem(2) by (simp add: toy_step_at POLL_BLOCKED_def)
      moreover have res: "take_turn pr (m, f) (x, flag) = (w, False)" unfolding turn using 2 Some by (simp add: POLL_BLOCKED_def)
      moreover have "stands_for N ad ?v2 (take_turn pr (m, f) (x, flag))"
        unfolding res by (rule stands_for_own [OF stands_for_flag [OF zw ad] mem(4) ad])
      ultimately show ?thesis by blast
    next
      case 3
      let ?v = "toy_exec (EqCheckI64 b (poll_result_local m) POLL_BLOCKED) (toy_exec (AssignBool ad False) ?z)"
      let ?v2 = "toy_exec (AssignI64 p 1) ?v"
      have "ts_vars ?v b = 0" using 3 po 1(2) mem(4) ad m(2) by auto
      then have "toy_run c (k + 1 + 2) (Some check, y) = (Some nx, ?v2)"
        unfolding toy_run_add [of c "k + 1"] second using 3 mem(2,3) by (simp add: toy_step_at numeral_eq_Suc)
      moreover have res: "take_turn pr (m, f) (x, flag) = (set_var p 1 w, False)" unfolding turn using 3 Some by (simp add: POLL_BLOCKED_def)
      moreover have "stands_for N ad ?v2 (take_turn pr (m, f) (x, flag))"
        unfolding res by (rule stands_for_set [OF stands_for_own [OF stands_for_flag [OF zw ad] mem(4) ad] p ad])
      ultimately show ?thesis by blast
    qed
  qed
qed

lemma chain_rest_runs:
  assumes "chain_code U (toy_block c) N ad pr False (map fst ps) cur [] nx" and ad: "unat ad = N"
    and "\<And>p. p \<in> set ps \<Longrightarrow> polls c N ad p" and pr: "\<And>p. pr = Some p \<Longrightarrow> unat p < N" and "stands_for N ad y q"
  shows "\<exists>k z. toy_run c k (Some cur, y) = (Some nx, z) \<and> stands_for N ad z (fold (take_turn pr) ps q)"
  using assms(1,3,5)
proof (induction ps arbitrary: cur y q)
  case Nil
  then show ?case by (intro exI [of _ 0] exI [of _ y]) simp
next
  case (Cons p ps)
  obtain m f where p: "p = (m, f)" by (cases p)
  obtain x flag where q: "q = (x, flag)" by (cases q)
  from Cons.prems(1) p obtain check nx1 where 1: "toy_block c cur = Some ([], Goto check)"
    "part_code U (toy_block c) N ad pr m check [] nx1" "chain_code U (toy_block c) N ad pr False (map fst ps) nx1 [] nx" by auto
  have "polls c N ad (m, f)" using Cons.prems(2) p by simp
  moreover have "stands_for N ad (fold toy_exec [] y) (x, flag)" using Cons.prems(3) q by simp
  ultimately obtain k z where 2: "toy_run c k (Some check, y) = (Some nx1, z)" "stands_for N ad z (take_turn pr p q)"
    using part_runs [OF 1(2) ad _ pr] p q by blast
  obtain k' z' where 3: "toy_run c k' (Some nx1, z) = (Some nx, z')" "stands_for N ad z' (fold (take_turn pr) ps (take_turn pr p q))"
    using Cons.IH [OF 1(3) _ 2(2)] Cons.prems(2) by auto
  have "toy_run c (1 + k + k') (Some cur, y) = (Some nx, z')"
    using 1(1) 2(1) 3(1) by (simp add: toy_run_add toy_step_at del: plus_nat.add_Suc)
  with 3(2) show ?case by (intro exI [of _ "1 + k + k'"] exI [of _ z']) (simp del: toy_run.simps)
qed

lemma chain_runs:
  assumes "chain_code U (toy_block c) N ad pr True (map fst ps) cur s nx" and "ps \<noteq> []" and ad: "unat ad = N"
    and "\<And>p. p \<in> set ps \<Longrightarrow> polls c N ad p" and pr: "\<And>p. pr = Some p \<Longrightarrow> unat p < N" and "stands_for N ad (fold toy_exec s y) q"
  shows "\<exists>k z. toy_run c k (Some cur, y) = (Some nx, z) \<and> stands_for N ad z (fold (take_turn pr) ps q)"
proof -
  obtain m f ps' where p: "ps = (m, f) # ps'" using assms(2) by (cases ps) auto
  obtain x flag where q: "q = (x, flag)" by (cases q)
  from assms(1) p obtain nx1 where 1: "part_code U (toy_block c) N ad pr m cur s nx1"
    "chain_code U (toy_block c) N ad pr False (map fst ps') nx1 [] nx" by auto
  obtain k z where 2: "toy_run c k (Some cur, y) = (Some nx1, z)" "stands_for N ad z (take_turn pr (m, f) q)"
    using part_runs [OF 1(1) ad _ pr, of f y x flag] assms(4,6) p q by auto
  obtain k' z' where 3: "toy_run c k' (Some nx1, z) = (Some nx, z')" "stands_for N ad z' (fold (take_turn pr) ps' (take_turn pr (m, f) q))"
    using chain_rest_runs [OF 1(2) ad _ pr 2(2)] assms(4) p by auto
  have "toy_run c (k + k') (Some cur, y) = (Some nx, z')" using 2(1) 3(1) by (simp add: toy_run_add)
  with 3(2) p show ?thesis by auto
qed

end
