(* ===== verification/Krio_Schedule.thy ===== *)
theory Krio_Schedule
  imports Krio_Chain
begin

text \<open>
  The executors of \<open>crates/krio-stackless/src/executor.rs\<close> as programs: where a scan of the cooperative loop and
  of the one-shot poll comes out, for machines whose code does what a function on states says (\<open>polls\<close>). The
  scans are folds of the turns of \<open>Krio_Chain\<close>.
\<close>

section \<open>The region around the executor\<close>

text \<open>No block but those of \<open>S\<close> and new ones changes.\<close>

definition only_blocks :: "toy_block_id set \<Rightarrow> toy_body \<Rightarrow> toy_body \<Rightarrow> bool" where
  "only_blocks S c c' \<longleftrightarrow> dom (toy_block c) \<subseteq> dom (toy_block c') \<and> (\<forall>x\<in>dom (toy_block c) - S. toy_block c' x = toy_block c x)"

lemma only_blocks_refl: "only_blocks S c c"
  by (simp add: only_blocks_def)

lemma only_blocks_trans: "only_blocks S c d \<Longrightarrow> only_blocks S d e \<Longrightarrow> only_blocks S c e"
  unfolding only_blocks_def by (metis (no_types, lifting) DiffE DiffI subset_iff)

lemma only_blocks_put: "b \<in> S \<Longrightarrow> toy_block c b \<noteq> None \<Longrightarrow> only_blocks S c (toy_put b x c)"
  by (auto simp: only_blocks_def)

lemma only_blocks_grow: "only_blocks S c (toy_grow x c)"
  by (auto simp: only_blocks_def toy_block_def toy_grow_def get_nth_def nth_append split: if_splits)

lemma only_blocks_emit:
  "b \<in> S \<Longrightarrow> emit_assign_i64 toy_cfg b l v c = Some c' \<Longrightarrow> only_blocks S c c'"
  "b \<in> S \<Longrightarrow> set_goto toy_cfg b g c = Some c' \<Longrightarrow> only_blocks S c c'"
  "b \<in> S \<Longrightarrow> redirect_targets toy_cfg b g h c = Some c' \<Longrightarrow> only_blocks S c c'"
  "b \<in> S \<Longrightarrow> replace_with_nop toy_cfg b i c = Some c' \<Longrightarrow> only_blocks S c c'"
  by (cases "toy_block c b"; force simp: toy_ops toy_cfg_def toy_stmts_def toy_term_def toy_put_def [symmetric] split: if_splits bind_splits
      intro: only_blocks_put)+

lemma only_blocks_split:
  assumes "b \<in> S" and "split_after toy_cfg b i c = Some (r, c')"
  shows "only_blocks S c c'"
proof (cases "toy_block c b")
  case None
  then show ?thesis using assms(2) by (simp add: toy_ops_none)
next
  case (Some st)
  obtain s t where st: "st = (s, t)" by (cases st)
  then have "c' = toy_grow (drop (Suc i) s, t) (toy_put b (take (Suc i) s, Unreachable) c)"
    using toy_ops(10) [of c b s t i] Some assms(2) by (auto split: if_splits)
  then show ?thesis using assms(1) Some by (auto intro: only_blocks_trans only_blocks_put only_blocks_grow)
qed

definition region_blocks :: "toy_block_id region \<Rightarrow> (toy_block_id, toy_local_id) machine list \<Rightarrow> toy_block_id set" where
  "region_blocks region ms = {fst (region_begin region), fst (region_end region)} \<union> (fst \<circ> co_begin) ` set (coroutines region) \<union>
     (fst \<circ> co_end) ` set (coroutines region) \<union> dispatch_bb ` set ms"

lemma only_blocks_erase:
  "erase_coroutines toy_cfg cos c = Some c' \<Longrightarrow> (fst \<circ> co_begin) ` set cos \<union> (fst \<circ> co_end) ` set cos \<subseteq> S \<Longrightarrow> only_blocks S c c'"
proof (induction cos arbitrary: c)
  case (Cons co cos)
  from Cons.prems(1) obtain c1 c2 where "replace_with_nop toy_cfg (fst (co_begin co)) (snd (co_begin co)) c = Some c1"
    "replace_with_nop toy_cfg (fst (co_end co)) (snd (co_end co)) c1 = Some c2" "erase_coroutines toy_cfg cos c2 = Some c'"
    by (auto split: bind_splits)
  then show ?case using only_blocks_emit(4) only_blocks_trans Cons.IH [of c2] Cons.prems(2)
    by (metis (no_types, lifting) comp_apply image_subset_iff le_sup_iff list.set_intros(1) set_subset_Cons subset_trans image_mono)
qed (simp add: only_blocks_refl)

lemma only_blocks_init:
  "init_states toy_cfg bb ms c = Some c' \<Longrightarrow> bb \<in> S \<Longrightarrow> only_blocks S c c'"
proof (induction ms arbitrary: c)
  case (Cons m ms)
  then show ?case using only_blocks_emit(1) only_blocks_trans by (auto split: bind_splits) blast
qed (simp add: only_blocks_refl)

lemma init_states_block:
  "init_states toy_cfg bb ms c = Some c' \<Longrightarrow> toy_block c bb = Some (s, t) \<Longrightarrow>
    toy_block c' bb = Some (s @ map (\<lambda>m. AssignI64 (state_local m) 0) ms, t)"
proof (induction ms arbitrary: c s)
  case (Cons m ms)
  have "toy_block (toy_put bb (s @ [AssignI64 (state_local m) 0], t) c) bb = Some (s @ [AssignI64 (state_local m) 0], t)"
    using Cons.prems(2) by simp
  with Cons.IH [OF _ this] Cons.prems show ?case by (simp add: toy_ops(1) [OF Cons.prems(2)])
qed simp

lemma finish_region_blocks:
  assumes "finish_region toy_cfg region ms entry c = Some c'"
  shows "only_blocks (region_blocks region ms) c c'" and "\<exists>s. toy_block c' (fst (region_begin region)) = Some (s @ map (\<lambda>m. AssignI64 (state_local m) 0) ms, Goto entry)"
proof -
  let ?S = "region_blocks region ms"
  obtain bb bi where b: "region_begin region = (bb, bi)" by (cases "region_begin region")
  have S: "bb \<in> ?S" "fst (region_end region) \<in> ?S" using b by (auto simp: region_blocks_def)
  from assms obtain c1 c2 c3 new c4 c5 c6 where 1: "erase_coroutines toy_cfg (coroutines region) c = Some c1"
    "replace_with_nop toy_cfg bb bi c1 = Some c2" "replace_with_nop toy_cfg (fst (region_end region)) (snd (region_end region)) c2 = Some c3"
    "split_after toy_cfg bb bi c3 = Some (new, c4)"
    "(case (ms, coroutines region) of
             (m # _, co # _) \<Rightarrow>
               (if fst (co_begin co) = bb
                then redirect_targets toy_cfg (dispatch_bb m) (fst (co_begin co)) new c4 else Some c4)
           | _ \<Rightarrow> Some c4) = Some c5"
    "init_states toy_cfg bb ms c5 = Some c6" "set_goto toy_cfg bb entry c6 = Some c'"
    unfolding finish_region_def by (auto simp: b split: bind_splits)
  have "only_blocks ?S c4 c5"
    using 1(5) by (auto simp: region_blocks_def only_blocks_refl intro: only_blocks_emit(3) [rotated] split: list.splits if_splits)
  moreover have "only_blocks ?S c c1" by (rule only_blocks_erase [OF 1(1)]) (auto simp: region_blocks_def)
  ultimately show "only_blocks ?S c c'"
    using only_blocks_emit(4) [OF S(1) 1(2)] only_blocks_emit(4) [OF S(2) 1(3)] only_blocks_split [OF S(1) 1(4)]
      only_blocks_init [OF 1(6) S(1)] only_blocks_emit(2) [OF S(1) 1(7)] by (meson only_blocks_trans)
  have "toy_block c3 bb \<noteq> None" using 1(4) toy_ops_none(3) [of c3 bb bi] by force
  then have "toy_block c5 bb \<noteq> None"
    using only_blocks_split [OF S(1) 1(4)] \<open>only_blocks ?S c4 c5\<close> unfolding only_blocks_def by (blast elim!: domI dest: domD)
  then obtain s t where "toy_block c5 bb = Some (s, t)" by auto
  from init_states_block [OF 1(6) this] have c6: "toy_block c6 bb = Some (s @ map (\<lambda>m. AssignI64 (state_local m) 0) ms, t)" .
  then show "\<exists>s. toy_block c' (fst (region_begin region)) = Some (s @ map (\<lambda>m. AssignI64 (state_local m) 0) ms, Goto entry)"
    using 1(7) by (intro exI [of _ s]) (auto simp: b toy_ops(5) [OF c6])
qed

text \<open>The exit \<open>b\<close> of a region goes on after the region's end.\<close>

lemma exit_split:
  assumes "statement_count toy_cfg c e = Some n" and "split_after toy_cfg e (n - 1) c = Some (post, c1)" and "set_goto toy_cfg b post c1 = Some c'"
    and b: "toy_block c b = Some ([], t0)" "b \<noteq> e" and room: "0 < toy_room c"
  shows "post \<notin> dom (toy_block c)" and "toy_block c' b = Some ([], Goto post)" and "only_blocks {e, b} c c'"
    and "toy_room c' = toy_room c - 1" and "local_count c' = local_count c"
    and "toy_block c' post = Some ([], snd (the (toy_block c e)))" and "post \<noteq> b"
proof -
  obtain s t where at: "toy_block c e = Some (s, t)"
    using assms(2) by (cases "toy_block c e") (auto simp: toy_ops_none)
  have n: "n = length s" using assms(1) toy_ops(11) [OF at] by simp
  define d where "d = toy_put e (take (Suc (n - 1)) s, Unreachable) c"
  have c1: "post = toy_fresh c" "c1 = toy_grow (drop (Suc (n - 1)) s, t) d"
    using assms(2) toy_ops(10) [OF at, of "n - 1"] by (simp_all add: d_def split: if_splits)
  show fresh: "post \<notin> dom (toy_block c)" using toy_fresh_none [OF room] by (auto simp: c1)
  have "toy_block c1 = (toy_block d)(post \<mapsto> (drop (Suc (n - 1)) s, t))"
    using toy_block_grow [of d] room by (simp add: c1 d_def)
  moreover have "toy_block d = (toy_block c)(e \<mapsto> (take (Suc (n - 1)) s, Unreachable))" using at by (simp add: d_def)
  ultimately have blocks: "toy_block c1 = (toy_block c)(e \<mapsto> (take (Suc (n - 1)) s, Unreachable), post \<mapsto> (drop (Suc (n - 1)) s, t))"
    by simp
  have atb: "toy_block c1 b = Some ([], t0)" using blocks b fresh by auto
  then have c': "c' = toy_put b ([], Goto post) c1" using assms(3) toy_ops(5) [OF atb] by simp
  show "toy_block c' b = Some ([], Goto post)" using atb by (simp add: c')
  show "only_blocks {e, b} c c'" unfolding only_blocks_def c' using atb blocks fresh by auto
  show "toy_room c' = toy_room c - 1" "local_count c' = local_count c" by (simp_all add: c' c1 d_def)
  show post: "post \<noteq> b" using fresh b(1) by auto
  have post_at: "toy_block c' post = toy_block c1 post" using post atb by (simp add: c')
  show "toy_block c' post = Some ([], snd (the (toy_block c e)))" using post_at blocks n by (simp add: at)
qed

lemma region_exit_blocks:
  assumes "region_exit toy_cfg region c = Some (exit, c')" and "2 \<le> toy_room c" and "fst (region_end region) \<in> dom (toy_block c)"
  shows "only_blocks {fst (region_end region)} c c'" and "exit \<notin> dom (toy_block c)"
    and "\<exists>post. toy_block c' exit = Some ([], Goto post) \<and> post \<notin> dom (toy_block c) \<and> post \<noteq> exit \<and>
      toy_block c' post = Some ([], snd (the (toy_block c (fst (region_end region)))))"
    and "toy_room c \<le> toy_room c' + 2" and "local_count c' = local_count c"
proof -
  have "0 < toy_room c" using assms(2) by simp
  then obtain b c1 where 1: "new_block toy_cfg c = (b, c1)" "b \<notin> dom (toy_block c)" "toy_block c1 = (toy_block c)(b \<mapsto> ([], Unreachable))"
    "toy_room c1 = toy_room c - 1" "local_count c1 = local_count c"
    by (rule new_block_toy)
  from assms(1) obtain n post c2 where "exit = b" and 2: "statement_count toy_cfg c1 (fst (region_end region)) = Some n"
    "split_after toy_cfg (fst (region_end region)) (n - 1) c1 = Some (post, c2)" "set_goto toy_cfg b post c2 = Some c'"
    unfolding region_exit_def by (auto simp: 1(1) Let_def split: bind_splits)
  have "b \<noteq> fst (region_end region)" "toy_block c1 b = Some ([], Unreachable)" "0 < toy_room c1" using 1 assms(2,3) by auto
  note ex = exit_split [OF 2 this(2,1,3)]
  show "exit \<notin> dom (toy_block c)" "toy_room c \<le> toy_room c' + 2" "local_count c' = local_count c"
    using 1 ex(4,5) assms(2) \<open>exit = b\<close> by auto
  have "post \<notin> dom (toy_block c)" using ex(1) 1(3) by auto
  then show "\<exists>post. toy_block c' exit = Some ([], Goto post) \<and> post \<notin> dom (toy_block c) \<and> post \<noteq> exit \<and>
      toy_block c' post = Some ([], snd (the (toy_block c (fst (region_end region)))))"
    using ex(2,6,7) 1(3) \<open>b \<noteq> fst (region_end region)\<close> \<open>exit = b\<close> by (intro exI [of _ post]) simp
  show "only_blocks {fst (region_end region)} c c'"
    using ex(3) 1(2,3) unfolding only_blocks_def by auto
qed

text \<open>
  A body to which an executor can be added: the region's blocks exist, the machines have empty exit blocks of
  their own, and there are identities left.
\<close>

definition executor_ready :: "toy_body \<Rightarrow> toy_block_id region \<Rightarrow> (toy_block_id, toy_local_id) machine list \<Rightarrow> bool" where
  "executor_ready c region ms \<longleftrightarrow> region_blocks region ms \<subseteq> dom (toy_block c) \<and>
     (\<forall>m\<in>set ms. \<exists>t. toy_block c (exit_bb m) = Some ([], t)) \<and> distinct (map exit_bb ms) \<and>
     exit_bb ` set ms \<inter> region_blocks region ms = {} \<and>
     6 * length ms + 8 \<le> toy_room c \<and> local_count c + 3 * length ms + 2 \<le> 2 ^ 32"

text \<open>What the front of both executors leaves: the entry block and the exits, before the chain.\<close>

lemma chain_starts:
  assumes "executor_ready c region ms" and "only_blocks {fst (region_end region)} c c1" and "toy_room c \<le> toy_room c1 + 5"
    and "local_count c1 = Suc (local_count c)" and "toy_block c1 loop = Some (s, t)" and "loop \<notin> dom (toy_block c)"
  shows "chain_ready c1 loop s True ms (local_count c)"
proof -
  have "toy_block c1 (exit_bb m) = toy_block c (exit_bb m)" "exit_bb m \<in> dom (toy_block c)" if "m \<in> set ms" for m
  proof -
    show d: "exit_bb m \<in> dom (toy_block c)" using assms(1) that by (auto simp: executor_ready_def)
    have "exit_bb m \<notin> region_blocks region ms" using assms(1) that unfolding executor_ready_def by blast
    then have "exit_bb m \<noteq> fst (region_end region)" by (auto simp: region_blocks_def)
    then show "toy_block c1 (exit_bb m) = toy_block c (exit_bb m)" using assms(2) d by (simp add: only_blocks_def)
  qed
  then show ?thesis using assms by (auto simp: chain_ready_def executor_ready_def)
qed

text \<open>The blocks of a chain are not the region's, so they stay as they are.\<close>

lemma chain_stays:
  assumes "executor_ready c region ms" and "only_blocks {fst (region_end region)} c c1" and "loop \<notin> dom (toy_block c)"
  shows "chain_blocks (toy_block c1) C loop ms nx \<inter> region_blocks region ms = {}"
  using assms unfolding executor_ready_def chain_blocks_def only_blocks_def by auto

lemma toy_local_eq: "local_count c = local_count d \<Longrightarrow> toy_local c = toy_local d"
  by (simp add: local_count_def toy_local_def)

lemma cooperative_code:
  assumes run: "build_cooperative_loop toy_cfg region ms c = Some c'" and ready: "executor_ready c region ms"
  shows "\<exists>m0 ms' loop exit nx not_done stuck U d s post. ms = m0 # ms' \<and> 
    toy_block c' (fst (region_begin region)) = Some (s @ map (\<lambda>m. AssignI64 (state_local m) 0) ms, Goto loop) \<and>
    exit \<notin> dom (toy_block c) \<and> toy_block c' exit = Some ([], Goto post) \<and>
    toy_block c' post = Some ([], snd (the (toy_block c (fst (region_end region))))) \<and>
    chain_code U (toy_block c') (local_count c) (toy_local c) (Some (progress_local m0)) True ms loop
      [AssignBool (toy_local c) True, AssignI64 (progress_local m0) 0] nx \<and>
    toy_block c' nx = Some ([], Branch (toy_local c) exit not_done) \<and>
    toy_block c' not_done = Some ([EqCheckI64 d (progress_local m0) 1], Branch d loop stuck) \<and> local_count c < unat d \<and>
    toy_block c' stuck = Some ([], Goto loop) \<and> stuck \<notin> dom (toy_block c) \<and> exit \<noteq> loop \<and> stuck \<noteq> loop \<and> exit \<noteq> stuck"
proof -
  have room: "8 \<le> toy_room c" using ready by (simp add: executor_ready_def)
  then have "0 < toy_room c" by simp
  then obtain loop c1 where 1: "new_block toy_cfg c = (loop, c1)" "loop \<notin> dom (toy_block c)" "toy_block c1 = (toy_block c)(loop \<mapsto> ([], Unreachable))"
    "toy_room c1 = toy_room c - 1" "local_count c1 = local_count c"
    by (rule new_block_toy)
  obtain exit c2 where 2: "region_exit toy_cfg region c1 = Some (exit, c2)"
    using run unfolding build_cooperative_loop_def by (auto simp: 1(1) split: bind_splits)
  have end_in: "fst (region_end region) \<in> dom (toy_block c1)" "fst (region_end region) \<noteq> loop"
    using ready 1(2,3) by (auto simp: executor_ready_def region_blocks_def)
  have "2 \<le> toy_room c1" using 1(4) room by simp
  note ex = region_exit_blocks [OF 2 this end_in(1)]
  let ?ad = "toy_local c" and ?N = "local_count c"
  define c3 where "c3 = toy_more BoolMut c2"
  have c3: "new_mut_bool_local toy_cfg c2 = (?ad, c3)" using ex(5) 1(5) by (simp add: toy_ops c3_def toy_local_eq [of c2 c])
  have b3: "toy_block c3 = toy_block c2" "toy_room c3 = toy_room c2" "local_count c3 = Suc ?N" using ex(5) 1(5) by (simp_all add: c3_def)
  have "ms \<noteq> []" using run unfolding build_cooperative_loop_def by (auto simp: 1(1) 2 c3 get_nth_def split: bind_splits if_splits)
  then obtain m0 ms' where ms: "ms = m0 # ms'" by (cases ms) auto
  let ?p = "progress_local m0" and ?s = "[AssignBool ?ad True, AssignI64 (progress_local m0) 0]"
  have loop: "toy_block c3 loop = Some ([], Unreachable)" using ex(1) 1(3) end_in(2) by (simp add: b3 only_blocks_def)
  define c4 where "c4 = toy_put loop ([] @ [AssignBool ?ad True], Unreachable) c3"
  have 4: "emit_assign_bool toy_cfg loop ?ad True c3 = Some c4" unfolding c4_def by (rule toy_ops(2) [OF loop])
  have at: "toy_block c4 loop = Some ([AssignBool ?ad True], Unreachable)" using loop by (simp add: c4_def)
  define c5 where "c5 = toy_put loop ([AssignBool ?ad True] @ [AssignI64 ?p 0], Unreachable) c4"
  have 5: "emit_assign_i64 toy_cfg loop ?p 0 c4 = Some c5" unfolding c5_def by (rule toy_ops(1) [OF at])
  have b5: "toy_block c5 = (toy_block c2)(loop \<mapsto> (?s, Unreachable))" "toy_room c5 = toy_room c2" "local_count c5 = Suc ?N"
    using at loop b3 by (simp_all add: c5_def c4_def)
  have ob: "only_blocks {fst (region_end region)} c c5"
    using ex(1) 1(2,3) unfolding only_blocks_def b5(1) by auto
  have "chain_ready c5 loop ?s True ms ?N"
    using ready ob b5 1(2,4) ex(4) by (intro chain_starts) simp_all
  from poll_chain_toy [OF this, of ?ad "Some ?p"] obtain nx c6 where 6: "poll_chain toy_cfg ?ad (Some ?p) True ms loop c5 = Some (nx, c6)"
      "dom (toy_block c5) \<subseteq> dom (toy_block c6)"
      "\<forall>x\<in>dom (toy_block c5) - insert loop (exit_bb ` set ms). toy_block c6 x = toy_block c5 x"
      "if ms = [] then nx = loop \<and> c6 = c5 else nx \<notin> dom (toy_block c5) \<and> toy_block c6 nx = Some ([], Unreachable)"
      "toy_room c5 \<le> toy_room c6 + 6 * length ms" "local_count c5 \<le> local_count c6" "local_count c6 \<le> local_count c5 + 3 * length ms"
      "chain_code (chain_blocks (toy_block c5) (toy_block c6) loop ms nx) (toy_block c6) ?N ?ad (Some ?p) True ms loop ?s nx"
    by (elim exE conjE) (rule that)
  have nx: "nx \<notin> dom (toy_block c5)" "toy_block c6 nx = Some ([], Unreachable)" using 6(4) ms by simp_all
  have "6 * length ms + 8 \<le> toy_room c" "local_count c + 3 * length ms + 2 \<le> 2 ^ 32"
    using ready unfolding executor_ready_def by blast+
  then have room6: "2 \<le> toy_room c6" "local_count c6 < 2 ^ 32"
    using 6(5,7) b5(2,3) ex(4) 1(4) by linarith+
  then have "0 < toy_room c6" by simp
  then obtain not_done c7 where 7: "new_block toy_cfg c6 = (not_done, c7)" "not_done \<notin> dom (toy_block c6)"
    "toy_block c7 = (toy_block c6)(not_done \<mapsto> ([], Unreachable))" "toy_room c7 = toy_room c6 - 1" "local_count c7 = local_count c6"
    by (rule new_block_toy)
  have at: "toy_block c7 nx = Some ([], Unreachable)" using 7(2,3) nx(2) by auto
  define c8 where "c8 = toy_put nx ([], Branch ?ad exit not_done) c7"
  have 8: "set_branch toy_cfg nx ?ad exit not_done c7 = Some c8" unfolding c8_def by (rule toy_ops(6) [OF at])
  have b8: "toy_block c8 = (toy_block c7)(nx \<mapsto> ([], Branch ?ad exit not_done))" "toy_room c8 = toy_room c6 - 1" "local_count c8 = local_count c6"
    using at 7 by (simp_all add: c8_def)
  have "0 < toy_room c8" using b8(2) room6 by simp
  then obtain stuck c9 where 9: "new_block toy_cfg c8 = (stuck, c9)" "stuck \<notin> dom (toy_block c8)"
    "toy_block c9 = (toy_block c8)(stuck \<mapsto> ([], Unreachable))" "toy_room c9 = toy_room c8 - 1" "local_count c9 = local_count c8"
    by (rule new_block_toy)
  have "local_count c9 < 2 ^ 32" using 9(5) b8(3) room6(2) by simp
  then obtain d c10 where 10: "new_bool_local toy_cfg c9 = (d, c10)" "unat d = local_count c9" "toy_block c10 = toy_block c9"
    "toy_room c10 = toy_room c9" "local_count c10 = Suc (local_count c9)"
    by (rule new_bool_toy)
  have doms: "dom (toy_block c) \<subseteq> dom (toy_block c5)" "dom (toy_block c5) \<subseteq> dom (toy_block c6)" "dom (toy_block c6) \<subseteq> dom (toy_block c8)"
    using ob 6(2) b8(1) 7(3) by (auto simp: only_blocks_def)
  have in5: "loop \<in> dom (toy_block c5)" "exit \<in> dom (toy_block c5)" using b5(1) ex(3) by auto
  have ne1: "exit \<noteq> loop" using ex(2) 1(3) by auto
  have ne2: "nx \<noteq> loop" "nx \<noteq> exit" using nx(1) in5 by auto
  have in6: "loop \<in> dom (toy_block c6)" "exit \<in> dom (toy_block c6)" "nx \<in> dom (toy_block c6)" using in5 doms(2) nx(2) by auto
  have ne3: "not_done \<noteq> loop" "not_done \<noteq> exit" "not_done \<noteq> nx" using 7(2) in6 by auto
  have ne4: "stuck \<noteq> loop" "stuck \<noteq> exit" "stuck \<noteq> nx" "stuck \<noteq> not_done" using 9(2) in6 doms(3) b8(1) 7(3) by auto
  have out: "exit \<notin> dom (toy_block c)" "nx \<notin> dom (toy_block c)" "not_done \<notin> dom (toy_block c)" "stuck \<notin> dom (toy_block c)"
    using ex(2) 1(3) nx(1) 7(2) 9(2) doms by auto
  have at: "toy_block c10 not_done = Some ([], Unreachable)" using 10(3) 9(3) b8(1) 7(3) ne3 ne4 by auto
  define c11 where "c11 = toy_put not_done ([] @ [EqCheckI64 d ?p 1], Unreachable) c10"
  have 11: "emit_eq_check_i64 toy_cfg not_done d ?p 1 c10 = Some c11" unfolding c11_def by (rule toy_ops(3) [OF at])
  have at: "toy_block c11 not_done = Some ([EqCheckI64 d ?p 1], Unreachable)" using at by (simp add: c11_def)
  define c12 where "c12 = toy_put not_done ([EqCheckI64 d ?p 1], Branch d loop stuck) c11"
  have 12: "set_branch toy_cfg not_done d loop stuck c11 = Some c12" unfolding c12_def by (rule toy_ops(6) [OF at])
  have b12: "toy_block c12 = (toy_block c6)(not_done \<mapsto> ([EqCheckI64 d ?p 1], Branch d loop stuck), nx \<mapsto> ([], Branch ?ad exit not_done),
      stuck \<mapsto> ([], Unreachable))"
    using at ne3 ne4 unfolding c12_def toy_block_put [of c11 not_done, unfolded at, simplified]
    by (auto simp: c11_def 10(3) 9(3) b8(1) 7(3) fun_eq_iff)
  have at: "toy_block c12 stuck = Some ([], Unreachable)" using b12 by simp
  define c13 where "c13 = toy_put stuck ([], Goto loop) c12"
  have 13: "set_goto toy_cfg stuck loop c12 = Some c13" unfolding c13_def by (rule toy_ops(5) [OF at])
  have b13: "toy_block c13 = (toy_block c12)(stuck \<mapsto> ([], Goto loop))" using at by (simp add: c13_def)
  have "get_nth 0 ms = Some m0" using ms by (simp add: get_nth_def)
  then have fin: "finish_region toy_cfg region ms loop c13 = Some c'"
    using run unfolding build_cooperative_loop_def
    by (simp add: 1(1) 2 c3 4 5 6(1) 7(1) 8 9(1) 10(1) 11 12 toy_ops(16) 13 Let_def)
  note fr = finish_region_blocks [OF fin]
  have "region_blocks region ms \<subseteq> dom (toy_block c)" using ready by (simp add: executor_ready_def)
  then have keep: "toy_block c' x = toy_block c13 x" if "x \<in> dom (toy_block c13)" "x \<notin> dom (toy_block c)" for x
    using fr(1) that by (auto simp: only_blocks_def)
  have in13: "dom (toy_block c13) = insert not_done (insert stuck (dom (toy_block c6)))" using b13 b12 in6 by auto
  let ?U = "chain_blocks (toy_block c5) (toy_block c6) loop ms nx"
  have "toy_block c' x = toy_block c6 x" if x: "x \<in> ?U" for x
  proof -
    have "exit_bb ` set ms \<subseteq> dom (toy_block c)" using ready by (auto simp: executor_ready_def)
    then have "exit_bb ` set ms \<subseteq> dom (toy_block c6)" using doms(1,2) by (meson subset_trans)
    then have "x \<in> dom (toy_block c6)" using x in6(1) unfolding chain_blocks_def by blast
    moreover have "x \<notin> region_blocks region ms" using chain_stays [OF ready ob 1(2), of "toy_block c6" nx] x by blast
    moreover have "x \<noteq> nx" using x by (simp add: chain_blocks_def)
    moreover have "x \<noteq> not_done" "x \<noteq> stuck" using calculation(1) 7(2) 9(2) doms(3) by auto
    ultimately show ?thesis using fr(1) in13 b13 b12 by (simp add: only_blocks_def)
  qed
  then have chain: "chain_code ?U (toy_block c') ?N ?ad (Some ?p) True ms loop ?s nx"
    using chain_code_mono [OF 6(8) subset_refl] by blast
  have blocks: "toy_block c' nx = Some ([], Branch ?ad exit not_done)" "toy_block c' not_done = Some ([EqCheckI64 d ?p 1], Branch d loop stuck)"
    "toy_block c' stuck = Some ([], Goto loop)"
    using keep out in13 in6 ne3 ne4 b13 b12 by auto
  have "exit \<notin> exit_bb ` set ms" using ready out(1) by (auto simp: executor_ready_def)
  then have e6: "toy_block c6 exit = toy_block c2 exit" using 6(3) in5 ne1 b5(1) by auto
  obtain post where post: "toy_block c2 exit = Some ([], Goto post)" "post \<notin> dom (toy_block c1)" "post \<noteq> exit"
    "toy_block c2 post = Some ([], snd (the (toy_block c1 (fst (region_end region)))))"
    using ex(3) by blast
  have exit: "toy_block c' exit = Some ([], Goto post)"
    using keep [of exit] out in13 in6 ne2 ne3 ne4 b13 b12 e6 post(1) by auto
  have p_out: "post \<noteq> loop" "post \<notin> dom (toy_block c)" using post(2) 1(3) by auto
  then have p5: "toy_block c5 post = toy_block c2 post" "post \<in> dom (toy_block c5)" using b5(1) post(4) by auto
  have "exit_bb ` set ms \<subseteq> dom (toy_block c)" using ready by (auto simp: executor_ready_def)
  then have "post \<notin> exit_bb ` set ms" using p_out(2) by blast
  then have p6: "toy_block c6 post = toy_block c2 post" "post \<in> dom (toy_block c6)" using 6(2,3) p5 p_out(1) by auto
  then have "post \<noteq> nx" "post \<noteq> not_done" "post \<noteq> stuck" using nx(1) p5(2) 7(2) 9(2) doms(3) by auto
  then have "toy_block c' post = toy_block c2 post" using keep [of post] p_out(2) in13 b13 b12 p6 by auto
  then have goes_on: "toy_block c' post = Some ([], snd (the (toy_block c (fst (region_end region)))))"
    using post(4) 1(3) end_in(2) by simp
  have "?N < unat d" using 10(2) 9(5) b8(3) 6(6) b5(3) by simp
  obtain s where sp: "toy_block c' (fst (region_begin region)) = Some (s @ map (\<lambda>m. AssignI64 (state_local m) 0) ms, Goto loop)"
    using fr(2) by blast
  note all = ms sp out(1) exit goes_on chain blocks \<open>?N < unat d\<close> out(4) ne1 ne4(1) ne4(2) [symmetric]
  show ?thesis
    by (rule exI [of _ m0], rule exI [of _ ms'], rule exI [of _ loop], rule exI [of _ exit], rule exI [of _ nx], rule exI [of _ not_done],
        rule exI [of _ stuck], rule exI [of _ ?U], rule exI [of _ d], rule exI [of _ s], rule exI [of _ post], intro conjI) (rule all)+
qed

text \<open>Where a pass of the cooperative loop goes on.\<close>

definition pass_target :: "toy_local_id \<Rightarrow> toy_block_id \<Rightarrow> toy_block_id \<Rightarrow> toy_block_id \<Rightarrow> toy_state \<times> bool \<Rightarrow> toy_block_id" where
  "pass_target progress loop exit stuck p = (if snd p then exit else if ts_vars (fst p) progress = 1 then loop else stuck)"

definition runs_passes :: "toy_body \<Rightarrow> nat \<Rightarrow> toy_local_id option \<Rightarrow> ((toy_block_id, toy_local_id) machine \<times> (toy_state \<Rightarrow> toy_state)) list \<Rightarrow>
    toy_block_id \<Rightarrow> (toy_state \<times> bool \<Rightarrow> toy_block_id) \<Rightarrow> bool" where
  "runs_passes c N pr ps entry target \<longleftrightarrow> (\<forall>x y. agree {l. N \<le> unat l} x y \<longrightarrow>
     (\<exists>k z. 0 < k \<and> toy_run c k (Some entry, y) = (Some (target (run_pass pr ps x)), z) \<and> agree {l. N \<le> unat l} (fst (run_pass pr ps x)) z))"

lemma cooperative_runs:
  assumes "build_cooperative_loop toy_cfg region (map fst ps) c = Some c'" and "executor_ready c region (map fst ps)"
    and polls: "\<And>p. p \<in> set ps \<Longrightarrow> polls c' (local_count c) (toy_local c) p"
    and progress: "unat (progress_local (fst (hd ps))) < local_count c"
  shows "\<exists>loop exit stuck post s. toy_block c' (fst (region_begin region)) =
      Some (s @ map (\<lambda>m. AssignI64 (state_local m) 0) (map fst ps), Goto loop) \<and> toy_block c' exit = Some ([], Goto post) \<and>
    toy_block c' post = Some ([], snd (the (toy_block c (fst (region_end region))))) \<and>
    toy_block c' stuck = Some ([], Goto loop) \<and> distinct [loop, exit, stuck] \<and>
    runs_passes c' (local_count c) (Some (progress_local (fst (hd ps)))) ps loop (pass_target (progress_local (fst (hd ps))) loop exit stuck)"
proof -
  let ?N = "local_count c" and ?ad = "toy_local c" and ?p = "progress_local (fst (hd ps))"
  obtain m0 ms' loop exit nx not_done stuck U d s post where 1: "map fst ps = m0 # ms'"
    "toy_block c' (fst (region_begin region)) = Some (s @ map (\<lambda>m. AssignI64 (state_local m) 0) (map fst ps), Goto loop)"
    "exit \<notin> dom (toy_block c)" "toy_block c' exit = Some ([], Goto post)"
    "toy_block c' post = Some ([], snd (the (toy_block c (fst (region_end region)))))"
    "chain_code U (toy_block c') ?N ?ad (Some (progress_local m0)) True (map fst ps) loop [AssignBool ?ad True, AssignI64 (progress_local m0) 0] nx"
    "toy_block c' nx = Some ([], Branch ?ad exit not_done)"
    "toy_block c' not_done = Some ([EqCheckI64 d (progress_local m0) 1], Branch d loop stuck)" "?N < unat d"
    "toy_block c' stuck = Some ([], Goto loop)" "stuck \<notin> dom (toy_block c)" "exit \<noteq> loop" "stuck \<noteq> loop" "exit \<noteq> stuck"
    using cooperative_code [OF assms(1,2)] by (elim exE conjE) (rule that)
  have ps: "ps \<noteq> []" "fst (hd ps) = m0" using 1(1) by (cases ps; simp)+
  have "?N < 2 ^ 32" using assms(2) by (simp add: executor_ready_def)
  then have ad: "unat ?ad = ?N" by (rule toy_local_count)
  have "\<exists>k z. 0 < k \<and> toy_run c' k (Some loop, y) = (Some (pass_target ?p loop exit stuck (run_pass (Some ?p) ps x)), z) \<and>
      agree {l. ?N \<le> unat l} (fst (run_pass (Some ?p) ps x)) z" if xy: "agree {l. ?N \<le> unat l} x y" for x y
  proof -
    let ?r = "run_pass (Some ?p) ps x"
    have start: "stands_for ?N ?ad (fold toy_exec [AssignBool ?ad True, AssignI64 ?p 0] y) (set_var ?p 0 x, True)"
      using xy ad progress by (auto simp: stands_for_def agree_def set_var_def)
    obtain k z where 2: "toy_run c' k (Some loop, y) = (Some nx, z)" "stands_for ?N ?ad z ?r"
      using chain_runs [OF 1(6) ps(1) ad polls, of y "(set_var ?p 0 x, True)"] progress start ps(2)
      by (auto simp: run_pass_def)
    have pr: "ts_vars z ?p = ts_vars (fst ?r) ?p" using 2(2) progress by (auto simp: stands_for_def agree_def)
    show ?thesis
    proof (cases "snd ?r")
      case True
      then have "toy_run c' (k + 1) (Some loop, y) = (Some exit, z)"
        unfolding toy_run_add 2(1) using 2(2) 1(7) by (simp add: toy_step_at stands_for_def)
      with True 2(2) show ?thesis by (intro exI [of _ "k + 1"] exI [of _ z]) (simp add: pass_target_def stands_for_def)
    next
      case False
      let ?z = "toy_exec (EqCheckI64 d ?p 1) z"
      have "toy_run c' (k + 2) (Some loop, y) = (Some (if ts_vars z ?p = 1 then loop else stuck), ?z)"
        unfolding toy_run_add 2(1) using False 2(2) 1(7,8) ps(2) by (simp add: toy_step_at stands_for_def numeral_eq_Suc)
      moreover have "agree {l. ?N \<le> unat l} (fst ?r) ?z" using 2(2) 1(9) by (auto simp: stands_for_def agree_def)
      ultimately show ?thesis using False pr by (intro exI [of _ "k + 2"] exI [of _ ?z]) (simp add: pass_target_def)
    qed
  qed
  then have "runs_passes c' ?N (Some ?p) ps loop (pass_target ?p loop exit stuck)" by (simp add: runs_passes_def)
  with 1(2,4,5,10,12-14) show ?thesis by auto
qed

lemma oneshot_code:
  assumes run: "build_oneshot_poll toy_cfg region ms c = Some (re, c')" and ready: "executor_ready c region ms" and ms: "ms \<noteq> []"
  shows "\<exists>top nx U s post. toy_block c' (fst (region_begin region)) = Some (s @ map (\<lambda>m. AssignI64 (state_local m) 0) ms, Goto top) \<and>
    chain_code U (toy_block c') (local_count c) (toy_local c) None True ms top [AssignBool (toy_local c) True] nx \<and>
    toy_block c' nx = Some ([], Branch (toy_local c) (re_done re) (re_pending re)) \<and>
    toy_block c' (re_done re) = Some ([], Goto post) \<and> toy_block c' (re_pending re) = Some ([], Unreachable) \<and> re_done re \<noteq> re_pending re \<and>
    toy_block c' post = Some ([], snd (the (toy_block c (fst (region_end region)))))"
proof -
  have sizes: "6 * length ms + 8 \<le> toy_room c" "local_count c + 3 * length ms + 2 \<le> 2 ^ 32"
    using ready unfolding executor_ready_def by blast+
  then have "0 < toy_room c" by simp
  then obtain top c1 where 1: "new_block toy_cfg c = (top, c1)" "top \<notin> dom (toy_block c)" "toy_block c1 = (toy_block c)(top \<mapsto> ([], Unreachable))"
    "toy_room c1 = toy_room c - 1" "local_count c1 = local_count c"
    by (rule new_block_toy)
  have "0 < toy_room c1" using 1(4) sizes by simp
  then obtain dn c2 where 2: "new_block toy_cfg c1 = (dn, c2)" "dn \<notin> dom (toy_block c1)" "toy_block c2 = (toy_block c1)(dn \<mapsto> ([], Unreachable))"
    "toy_room c2 = toy_room c1 - 1" "local_count c2 = local_count c1"
    by (rule new_block_toy)
  have "0 < toy_room c2" using 1(4) 2(4) sizes by simp
  then obtain pe c3 where 3: "new_block toy_cfg c2 = (pe, c3)" "pe \<notin> dom (toy_block c2)" "toy_block c3 = (toy_block c2)(pe \<mapsto> ([], Unreachable))"
    "toy_room c3 = toy_room c2 - 1" "local_count c3 = local_count c2"
    by (rule new_block_toy)
  let ?e = "fst (region_end region)" and ?ad = "toy_local c" and ?N = "local_count c"
  have e: "?e \<in> dom (toy_block c)" using ready by (auto simp: executor_ready_def region_blocks_def)
  have ne: "top \<noteq> ?e" "dn \<noteq> ?e" "pe \<noteq> ?e" "dn \<noteq> top" "pe \<noteq> top" "pe \<noteq> dn" using e 1 2 3 by auto
  from run obtain n post c4 c5 where 4: "statement_count toy_cfg c3 ?e = Some n" "split_after toy_cfg ?e (n - 1) c3 = Some (post, c4)"
    "set_goto toy_cfg dn post c4 = Some c5"
    unfolding build_oneshot_poll_def by (auto simp: 1(1) 2(1) 3(1) Let_def split: bind_splits)
  have "toy_block c3 dn = Some ([], Unreachable)" "0 < toy_room c3" using ne 2(3) 3(3,4) 2(4) 1(4) sizes by auto
  note ex = exit_split [OF 4 this(1) ne(2) this(2)]
  have b5: "toy_block c5 top = Some ([], Unreachable)" "toy_block c5 pe = Some ([], Unreachable)" "toy_room c \<le> toy_room c5 + 4" "local_count c5 = ?N"
    using ex(3-5) ne 1 2 3 by (auto simp: only_blocks_def)
  define c6 where "c6 = toy_more BoolMut c5"
  have 6: "new_mut_bool_local toy_cfg c5 = (?ad, c6)" using b5(4) by (simp add: toy_ops c6_def toy_local_eq [of c5 c])
  have at: "toy_block c6 top = Some ([], Unreachable)" using b5(1) by (simp add: c6_def)
  let ?s = "[AssignBool ?ad True]"
  define c7 where "c7 = toy_put top ([] @ ?s, Unreachable) c6"
  have 7: "emit_assign_bool toy_cfg top ?ad True c6 = Some c7" unfolding c7_def by (rule toy_ops(2) [OF at])
  have b7: "toy_block c7 = (toy_block c5)(top \<mapsto> (?s, Unreachable))" "toy_room c \<le> toy_room c7 + 5" "local_count c7 = Suc ?N"
    using at b5(3,4) by (simp_all add: c7_def c6_def)
  have new: "top \<notin> dom (toy_block c)" "dn \<notin> dom (toy_block c)" "pe \<notin> dom (toy_block c)" using 1(2,3) 2(2,3) 3(2) by auto
  have "toy_block c7 x = toy_block c x" if "x \<in> dom (toy_block c)" "x \<noteq> ?e" for x
  proof -
    have "x \<notin> {top, dn, pe}" using that(1) new by blast
    then have "toy_block c3 x = toy_block c x" "x \<in> dom (toy_block c3) - {?e, dn}" using that 1(3) 2(3) 3(3) by auto
    then show ?thesis using ex(3) b7(1) \<open>x \<notin> {top, dn, pe}\<close> unfolding only_blocks_def by simp
  qed
  moreover have "dom (toy_block c) \<subseteq> dom (toy_block c7)" using ex(3) 1(3) 2(3) 3(3) b7(1) unfolding only_blocks_def by auto
  ultimately have ob: "only_blocks {?e} c c7" by (simp add: only_blocks_def)
  have "chain_ready c7 top ?s True ms ?N" using ready ob b7 1(2) by (intro chain_starts) simp_all
  from poll_chain_toy [OF this, of ?ad None] obtain nx c8 where 8: "poll_chain toy_cfg ?ad None True ms top c7 = Some (nx, c8)"
      "dom (toy_block c7) \<subseteq> dom (toy_block c8)"
      "\<forall>x\<in>dom (toy_block c7) - insert top (exit_bb ` set ms). toy_block c8 x = toy_block c7 x"
      "if ms = [] then nx = top \<and> c8 = c7 else nx \<notin> dom (toy_block c7) \<and> toy_block c8 nx = Some ([], Unreachable)"
      "toy_room c7 \<le> toy_room c8 + 6 * length ms" "local_count c7 \<le> local_count c8" "local_count c8 \<le> local_count c7 + 3 * length ms"
      "chain_code (chain_blocks (toy_block c7) (toy_block c8) top ms nx) (toy_block c8) ?N ?ad None True ms top ?s nx"
    by (elim exE conjE) (rule that)
  have nx: "nx \<notin> dom (toy_block c7)" "toy_block c8 nx = Some ([], Unreachable)" using 8(4) ms by simp_all
  define c9 where "c9 = toy_put nx ([], Branch ?ad dn pe) c8"
  have 9: "set_branch toy_cfg nx ?ad dn pe c8 = Some c9" unfolding c9_def by (rule toy_ops(6) [OF nx(2)])
  have b9: "toy_block c9 = (toy_block c8)(nx \<mapsto> ([], Branch ?ad dn pe))" using nx(2) by (simp add: c9_def)
  have fin: "finish_region toy_cfg region ms top c9 = Some c'" and re: "re_done re = dn" "re_pending re = pe"
    using run unfolding build_oneshot_poll_def
    by (auto simp: 1(1) 2(1) 3(1) 4(1,3) 4(2) [unfolded One_nat_def] 6 7 8(1) 9 Let_def split: bind_splits)
  note fr = finish_region_blocks [OF fin]
  have regs: "region_blocks region ms \<subseteq> dom (toy_block c)" "exit_bb ` set ms \<subseteq> dom (toy_block c)" using ready by (auto simp: executor_ready_def)
  have doms: "dom (toy_block c) \<subseteq> dom (toy_block c7)" using ob by (simp add: only_blocks_def)
  have in7: "top \<in> dom (toy_block c7)" "dn \<in> dom (toy_block c7)" "pe \<in> dom (toy_block c7)" using b5(1,2) b7(1) ex(2) by auto
  have nxne: "nx \<noteq> top" "nx \<noteq> dn" "nx \<noteq> pe" "nx \<notin> dom (toy_block c)" using nx(1) in7 doms by auto
  have keep: "toy_block c' x = toy_block c9 x" if "x \<in> dom (toy_block c8)" "x \<notin> region_blocks region ms" for x
    using fr(1) that b9 nx(2) by (auto simp: only_blocks_def)
  let ?U = "chain_blocks (toy_block c7) (toy_block c8) top ms nx"
  have "toy_block c' x = toy_block c8 x" if x: "x \<in> ?U" for x
  proof -
    have "exit_bb ` set ms \<subseteq> dom (toy_block c8)" using regs(2) doms 8(2) by (meson subset_trans)
    then have "x \<in> dom (toy_block c8)" using x subsetD [OF 8(2) in7(1)] unfolding chain_blocks_def by blast
    moreover have "x \<notin> region_blocks region ms" using chain_stays [OF ready ob 1(2), of "toy_block c8" nx] x by blast
    moreover have "x \<noteq> nx" using x by (simp add: chain_blocks_def)
    ultimately show ?thesis using keep [of x] b9 by simp
  qed
  then have chain: "chain_code ?U (toy_block c') ?N ?ad None True ms top ?s nx"
    using chain_code_mono [OF 8(8) subset_refl] by blast
  have "dn \<notin> exit_bb ` set ms" "pe \<notin> exit_bb ` set ms" using subsetD [OF regs(2)] new(2,3) by blast+
  then have "toy_block c8 dn = toy_block c7 dn" "toy_block c8 pe = toy_block c7 pe" using 8(3) in7 ne(4,5) by auto
  moreover have "toy_block c7 dn = Some ([], Goto post)" "toy_block c7 pe = Some ([], Unreachable)" using b7(1) ne ex(2) b5(2) by auto
  moreover have "dn \<in> dom (toy_block c8)" "pe \<in> dom (toy_block c8)" "nx \<in> dom (toy_block c8)" using in7 8(2) nx(2) by auto
  moreover have "dn \<notin> region_blocks region ms" "pe \<notin> region_blocks region ms" "nx \<notin> region_blocks region ms"
    using subsetD [OF regs(1)] new(2,3) nxne(4) by blast+
  ultimately have blocks: "toy_block c' nx = Some ([], Branch ?ad dn pe)" "toy_block c' dn = Some ([], Goto post)"
    "toy_block c' pe = Some ([], Unreachable)"
    using keep [of nx] keep [of dn] keep [of pe] nxne(2,3) b9 by auto
  have p3: "post \<notin> dom (toy_block c3)" "toy_block c5 post = Some ([], snd (the (toy_block c ?e)))"
    using ex(1,6) 3(3) 2(3) 1(3) ne by auto
  then have p_out: "post \<noteq> top" "post \<notin> dom (toy_block c)" using 3(3) 2(3) 1(3) by auto
  then have p7: "toy_block c7 post = toy_block c5 post" "post \<in> dom (toy_block c7)" using b7(1) p3(2) by auto
  have "post \<notin> exit_bb ` set ms" "post \<notin> region_blocks region ms" using subsetD [OF regs(2)] subsetD [OF regs(1)] p_out(2) by blast+
  then have "post \<in> dom (toy_block c7) - insert top (exit_bb ` set ms)" using p7(2) p_out(1) by simp
  then have p8: "toy_block c8 post = toy_block c7 post" by (rule bspec [OF 8(3)])
  have "post \<noteq> nx" using nx(1) p7(2) by blast
  then have goes_on: "toy_block c' post = Some ([], snd (the (toy_block c ?e)))"
    using keep [OF subsetD [OF 8(2) p7(2)] \<open>post \<notin> region_blocks region ms\<close>] p8 p7(1) p3(2) b9 by simp
  obtain s where s: "toy_block c' (fst (region_begin region)) = Some (s @ map (\<lambda>m. AssignI64 (state_local m) 0) ms, Goto top)" using fr(2) by blast
  note all = s chain blocks ne(6) [symmetric] goes_on
  show ?thesis unfolding re
    by (rule exI [of _ top], rule exI [of _ nx], rule exI [of _ ?U], rule exI [of _ s], rule exI [of _ post], intro conjI) (rule all)+
qed

lemma oneshot_runs:
  assumes "build_oneshot_poll toy_cfg region (map fst ps) c = Some (re, c')" and "executor_ready c region (map fst ps)" and ps: "ps \<noteq> []"
    and polls: "\<And>p. p \<in> set ps \<Longrightarrow> polls c' (local_count c) (toy_local c) p"
  shows "\<exists>top post s. toy_block c' (fst (region_begin region)) = Some (s @ map (\<lambda>m. AssignI64 (state_local m) 0) (map fst ps), Goto top) \<and>
    toy_block c' (re_done re) = Some ([], Goto post) \<and> toy_block c' post = Some ([], snd (the (toy_block c (fst (region_end region))))) \<and>
    toy_block c' (re_pending re) = Some ([], Unreachable) \<and> re_done re \<noteq> re_pending re \<and>
    runs_passes c' (local_count c) None ps top (\<lambda>p. if snd p then re_done re else re_pending re)"
proof -
  let ?N = "local_count c" and ?ad = "toy_local c"
  have ne: "map fst ps \<noteq> []" using ps by simp
  obtain top nx U s post where 1: "toy_block c' (fst (region_begin region)) = Some (s @ map (\<lambda>m. AssignI64 (state_local m) 0) (map fst ps), Goto top)"
    "chain_code U (toy_block c') ?N ?ad None True (map fst ps) top [AssignBool ?ad True] nx"
    "toy_block c' nx = Some ([], Branch ?ad (re_done re) (re_pending re))"
    "toy_block c' (re_done re) = Some ([], Goto post)" "toy_block c' (re_pending re) = Some ([], Unreachable)" "re_done re \<noteq> re_pending re"
    "toy_block c' post = Some ([], snd (the (toy_block c (fst (region_end region)))))"
    using oneshot_code [OF assms(1,2) ne] by (elim exE conjE) (rule that)
  have "?N < 2 ^ 32" using assms(2) by (simp add: executor_ready_def)
  then have ad: "unat ?ad = ?N" by (rule toy_local_count)
  have "\<exists>k z. 0 < k \<and> toy_run c' k (Some top, y) = (Some (if snd (run_pass None ps x) then re_done re else re_pending re), z) \<and>
      agree {l. ?N \<le> unat l} (fst (run_pass None ps x)) z" if xy: "agree {l. ?N \<le> unat l} x y" for x y
  proof -
    have start: "stands_for ?N ?ad (fold toy_exec [AssignBool ?ad True] y) (x, True)"
      using xy ad by (auto simp: stands_for_def agree_def)
    obtain k z where 2: "toy_run c' k (Some top, y) = (Some nx, z)" "stands_for ?N ?ad z (run_pass None ps x)"
      using chain_runs [OF 1(2) ps ad polls, of y "(x, True)"] start by (auto simp: run_pass_def)
    have "toy_run c' (k + 1) (Some top, y) = (Some (if snd (run_pass None ps x) then re_done re else re_pending re), z)"
      unfolding toy_run_add 2(1) using 2(2) 1(3) by (simp add: toy_step_at stands_for_def)
    with 2(2) show ?thesis by (intro exI [of _ "k + 1"] exI [of _ z]) (simp add: stands_for_def)
  qed
  then have "runs_passes c' ?N None ps top (\<lambda>p. if snd p then re_done re else re_pending re)" by (simp add: runs_passes_def)
  with 1 show ?thesis by blast
qed

section \<open>What a pass comes to\<close>

text \<open>
  Machines with locals of their own: a poll changes no state and no result but its own, the progress local only to
  1, and a machine that makes itself done reports ready.
\<close>

definition own_locals :: "toy_local_id option \<Rightarrow> ((toy_block_id, toy_local_id) machine \<times> (toy_state \<Rightarrow> toy_state)) list \<Rightarrow> bool" where
  "own_locals pr ps \<longleftrightarrow> distinct (map (state_local \<circ> fst) ps @ map (poll_result_local \<circ> fst) ps) \<and>
     (\<forall>p. pr = Some p \<longrightarrow> p \<notin> (state_local \<circ> fst) ` set ps \<union> (poll_result_local \<circ> fst) ` set ps) \<and>
     (\<forall>q\<in>set ps. \<forall>x. (ts_vars x (state_local (fst q)) \<noteq> DONE_STATE \<and> ts_vars (snd q x) (state_local (fst q)) = DONE_STATE \<longrightarrow>
           ts_vars (snd q x) (poll_result_local (fst q)) = 0) \<and>
        (\<forall>p. pr = Some p \<longrightarrow> ts_vars (snd q x) p = ts_vars x p \<or> ts_vars (snd q x) p = 1) \<and>
        (\<forall>q'\<in>set ps. state_local (fst q') \<noteq> state_local (fst q) \<longrightarrow>
           ts_vars (snd q x) (state_local (fst q')) = ts_vars x (state_local (fst q')) \<and>
           ts_vars (snd q x) (poll_result_local (fst q')) = ts_vars x (poll_result_local (fst q'))))"

text \<open>A done machine has reported ready.\<close>

definition ready_done :: "((toy_block_id, toy_local_id) machine \<times> (toy_state \<Rightarrow> toy_state)) list \<Rightarrow> toy_state \<Rightarrow> bool" where
  "ready_done ps x \<longleftrightarrow> (\<forall>q\<in>set ps. ts_vars x (state_local (fst q)) = DONE_STATE \<longrightarrow> ts_vars x (poll_result_local (fst q)) = 0)"

lemma own_localsD:
  assumes "own_locals pr ps" and "q \<in> set ps" and "q' \<in> set ps"
  shows "state_local (fst q) \<noteq> poll_result_local (fst q')"
    and "state_local (fst q') \<noteq> state_local (fst q) \<Longrightarrow> poll_result_local (fst q') \<noteq> poll_result_local (fst q)"
    and "pr = Some p \<Longrightarrow> p \<noteq> state_local (fst q)" "pr = Some p \<Longrightarrow> p \<noteq> poll_result_local (fst q)"
    and "ts_vars x (state_local (fst q)) \<noteq> DONE_STATE \<Longrightarrow> ts_vars (snd q x) (state_local (fst q)) = DONE_STATE \<Longrightarrow> ts_vars (snd q x) (poll_result_local (fst q)) = 0"
    and "pr = Some p \<Longrightarrow> ts_vars (snd q x) p = ts_vars x p \<or> ts_vars (snd q x) p = 1"
    and "state_local (fst q') \<noteq> state_local (fst q) \<Longrightarrow> ts_vars (snd q x) (state_local (fst q')) = ts_vars x (state_local (fst q'))"
    and "state_local (fst q') \<noteq> state_local (fst q) \<Longrightarrow> ts_vars (snd q x) (poll_result_local (fst q')) = ts_vars x (poll_result_local (fst q'))"
proof -
  from assms have sets: "state_local (fst q) \<in> (state_local \<circ> fst) ` set ps" "poll_result_local (fst q') \<in> (poll_result_local \<circ> fst) ` set ps" "poll_result_local (fst q) \<in> (poll_result_local \<circ> fst) ` set ps"
    by auto
  have "(state_local \<circ> fst) ` set ps \<inter> (poll_result_local \<circ> fst) ` set ps = {}"
    using assms(1) by (simp add: own_locals_def)
  then show "state_local (fst q) \<noteq> poll_result_local (fst q')" using sets by (metis IntI empty_iff)
  show "pr = Some p \<Longrightarrow> p \<noteq> state_local (fst q)" "pr = Some p \<Longrightarrow> p \<noteq> poll_result_local (fst q)"
    using assms(1) sets unfolding own_locals_def by blast+
  have "inj_on (poll_result_local \<circ> fst) (set ps)" using assms(1) by (simp add: own_locals_def distinct_map)
  then show "state_local (fst q') \<noteq> state_local (fst q) \<Longrightarrow> poll_result_local (fst q') \<noteq> poll_result_local (fst q)"
    using inj_onD [OF _ _ assms(3,2)] by (metis comp_apply)
qed (use assms in \<open>auto simp: own_locals_def\<close>)

lemma turn_others:
  assumes own: "own_locals pr ps" and q: "q \<in> set ps" "q' \<in> set ps" "state_local (fst q') \<noteq> state_local (fst q)"
  shows "ts_vars (fst (take_turn pr q w)) (state_local (fst q')) = ts_vars (fst w) (state_local (fst q'))"
    "ts_vars (fst (take_turn pr q w)) (poll_result_local (fst q')) = ts_vars (fst w) (poll_result_local (fst q'))"
proof -
  have p: "p \<noteq> state_local (fst q')" "p \<noteq> poll_result_local (fst q')" if "pr = Some p" for p
    using own_localsD(3,4) [OF own q(2,1) that] by simp_all
  note keep = own_localsD(7,8) [OF own q(1,2) q(3)] own_localsD(1) [OF own q(1,2)]
  show "ts_vars (fst (take_turn pr q w)) (state_local (fst q')) = ts_vars (fst w) (state_local (fst q'))"
    "ts_vars (fst (take_turn pr q w)) (poll_result_local (fst q')) = ts_vars (fst w) (poll_result_local (fst q'))"
    using p q(3) keep by (cases q; cases w; auto simp: take_turn_def set_var_def Let_def split: option.split)+
qed

text \<open>The machine whose turn it was is done just if it has reported ready, and then leaves the flag as it is.\<close>

lemma turn_own:
  assumes own: "own_locals pr ps" and q: "q \<in> set ps" and ready: "ready_done ps (fst w)"
  shows "ready_done ps (fst (take_turn pr q w))"
    and "snd (take_turn pr q w) \<longleftrightarrow> snd w \<and> ts_vars (fst (take_turn pr q w)) (state_local (fst q)) = DONE_STATE"
proof -
  obtain m f where m: "q = (m, f)" by (cases q)
  obtain x flag where w: "w = (x, flag)" by (cases w)
  define y where "y = (if ts_vars x (state_local m) = DONE_STATE then x else f x)"
  let ?ran = "\<lambda>x. case pr of Some p \<Rightarrow> set_var p 1 x | None \<Rightarrow> x"
  have turn: "take_turn pr q w = (if ts_vars y (poll_result_local m) = 0 then (?ran (set_var (state_local m) DONE_STATE y), flag)
      else (if ts_vars y (poll_result_local m) = POLL_BLOCKED then y else ?ran y, False))"
    unfolding take_turn_def m w Let_def prod.case y_def [symmetric] by (rule refl)
  have own_y: "ts_vars y (state_local m) = DONE_STATE \<Longrightarrow> ts_vars y (poll_result_local m) = 0"
    using ready q own_localsD(5) [OF own q q] by (auto simp: y_def m w ready_done_def)
  have pr: "ts_vars (?ran v) l = ts_vars v l" if "l \<in> (state_local \<circ> fst) ` set ps \<union> (poll_result_local \<circ> fst) ` set ps" for v l
    using own that by (auto simp: own_locals_def set_var_def split: option.split)
  have m_in: "state_local m \<in> (state_local \<circ> fst) ` set ps \<union> (poll_result_local \<circ> fst) ` set ps"
    "poll_result_local m \<in> (state_local \<circ> fst) ` set ps \<union> (poll_result_local \<circ> fst) ` set ps" using q m by force+
  have ne: "poll_result_local m \<noteq> state_local m" using own_localsD(1) [OF own q q] m by simp
  show flag: "snd (take_turn pr q w) \<longleftrightarrow> snd w \<and> ts_vars (fst (take_turn pr q w)) (state_local (fst q)) = DONE_STATE"
    unfolding turn using own_y pr [OF m_in(1)] by (auto simp: m w set_var_def)
  have own: "ts_vars (fst (take_turn pr q w)) (state_local m) = DONE_STATE \<Longrightarrow> ts_vars (fst (take_turn pr q w)) (poll_result_local m) = 0"
    unfolding turn using own_y pr [OF m_in(1)] pr [OF m_in(2)] ne by (auto simp: set_var_def split: if_splits)
  show "ready_done ps (fst (take_turn pr q w))"
    unfolding ready_done_def
  proof (intro ballI impI)
    fix q' assume q': "q' \<in> set ps" "ts_vars (fst (take_turn pr q w)) (state_local (fst q')) = DONE_STATE"
    show "ts_vars (fst (take_turn pr q w)) (poll_result_local (fst q')) = 0"
    proof (cases "state_local (fst q') = state_local (fst q)")
      case True
      have "inj_on (state_local \<circ> fst) (set ps)" using assms(1) by (simp add: own_locals_def distinct_map)
      then have "q' = q" by (rule inj_onD) (use True q q'(1) in simp_all)
      then show ?thesis using own q'(2) m by simp
    next
      case False
      then show ?thesis using turn_others [OF assms(1) q q'(1)] ready q' by (auto simp: ready_done_def)
    qed
  qed
qed

lemma turns_others:
  assumes "own_locals pr ps" and "set qs \<subseteq> set ps" and "q' \<in> set ps" and "state_local (fst q') \<notin> (state_local \<circ> fst) ` set qs"
  shows "ts_vars (fst (fold (take_turn pr) qs w)) (state_local (fst q')) = ts_vars (fst w) (state_local (fst q'))"
    "ts_vars (fst (fold (take_turn pr) qs w)) (poll_result_local (fst q')) = ts_vars (fst w) (poll_result_local (fst q'))"
proof -
  have "ts_vars (fst (fold (take_turn pr) qs w)) (state_local (fst q')) = ts_vars (fst w) (state_local (fst q')) \<and>
    ts_vars (fst (fold (take_turn pr) qs w)) (poll_result_local (fst q')) = ts_vars (fst w) (poll_result_local (fst q'))"
    using assms(2,4)
  proof (induction qs arbitrary: w)
    case (Cons q qs)
    have ne: "state_local (fst q') \<noteq> state_local (fst q)" and q: "q \<in> set ps" using Cons.prems by auto
    have "set qs \<subseteq> set ps" "state_local (fst q') \<notin> (state_local \<circ> fst) ` set qs" using Cons.prems by auto
    from Cons.IH [OF this, of "take_turn pr q w"] turn_others [OF assms(1) q assms(3) ne, of w] show ?case by simp
  qed simp
  then show "ts_vars (fst (fold (take_turn pr) qs w)) (state_local (fst q')) = ts_vars (fst w) (state_local (fst q'))"
    "ts_vars (fst (fold (take_turn pr) qs w)) (poll_result_local (fst q')) = ts_vars (fst w) (poll_result_local (fst q'))" by simp_all
qed

lemma turns_done:
  assumes "own_locals pr ps" and "set qs \<subseteq> set ps" and "distinct (map (state_local \<circ> fst) qs)" and "ready_done ps (fst w)"
  shows "snd (fold (take_turn pr) qs w) \<longleftrightarrow> snd w \<and> (\<forall>q\<in>set qs. ts_vars (fst (fold (take_turn pr) qs w)) (state_local (fst q)) = DONE_STATE)"
  using assms(2-4)
proof (induction qs arbitrary: w)
  case (Cons q qs)
  have q: "q \<in> set ps" "set qs \<subseteq> set ps" "state_local (fst q) \<notin> (state_local \<circ> fst) ` set qs" using Cons.prems(1,2) by auto
  note own = turn_own [OF assms(1) q(1) Cons.prems(3)]
  from Cons.IH [OF q(2) _ own(1)] Cons.prems(2) own(2) turns_others(1) [OF assms(1) q(2,1,3), of "take_turn pr q w"]
  show ?case by auto
qed simp

lemma turns_ready_done:
  assumes "own_locals pr ps"
  shows "set qs \<subseteq> set ps \<Longrightarrow> ready_done ps (fst w) \<Longrightarrow> ready_done ps (fst (fold (take_turn pr) qs w))"
  by (induction qs arbitrary: w) (simp_all add: turn_own(1) [OF assms])

text \<open>Clearing the progress local does not matter.\<close>

lemma pass_start:
  assumes "own_locals pr ps" and "ready_done ps x"
  shows "ready_done ps (case pr of Some p \<Rightarrow> set_var p 0 x | None \<Rightarrow> x)" (is "ready_done ps ?w")
  unfolding ready_done_def
proof (intro ballI impI)
  fix q assume q: "q \<in> set ps" "ts_vars ?w (state_local (fst q)) = DONE_STATE"
  have "ts_vars ?w l = ts_vars x l" if "l \<in> {state_local (fst q), poll_result_local (fst q)}" for l
    using own_localsD(3,4) [OF assms(1) q(1,1)] that by (cases pr) (auto simp: set_var_def)
  then show "ts_vars ?w (poll_result_local (fst q)) = 0" using q assms(2) by (simp add: ready_done_def)
qed

lemma pass_ready_done: "own_locals pr ps \<Longrightarrow> ready_done ps x \<Longrightarrow> ready_done ps (fst (run_pass pr ps x))"
  using turns_ready_done [OF _ subset_refl] pass_start by (simp add: run_pass_def)

text \<open>The flag after a pass says whether all machines are done.\<close>

lemma pass_all_done:
  assumes "own_locals pr ps" and "ready_done ps x"
  shows "snd (run_pass pr ps x) \<longleftrightarrow> (\<forall>q\<in>set ps. ts_vars (fst (run_pass pr ps x)) (state_local (fst q)) = DONE_STATE)"
proof -
  have "distinct (map (state_local \<circ> fst) ps)" using assms(1) by (simp add: own_locals_def)
  then show ?thesis
    unfolding run_pass_def using turns_done [OF assms(1) subset_refl] pass_start [OF assms] by simp
qed

text \<open>A machine that is blocked for good: a poll of it reports so and does not move it.\<close>

definition shut :: "toy_local_id \<Rightarrow> (toy_block_id, toy_local_id) machine \<times> (toy_state \<Rightarrow> toy_state) \<Rightarrow> bool" where
  "shut pr = (\<lambda>(m, f). \<forall>x. ts_vars (f x) (poll_result_local m) = POLL_BLOCKED \<and> ts_vars (f x) (state_local m) = ts_vars x (state_local m) \<and>
     ts_vars (f x) pr = ts_vars x pr)"

lemma turn_done:
  assumes own: "own_locals (Some p) ps" and q: "q \<in> set ps" and fin: "ts_vars (fst w) (state_local (fst q)) = DONE_STATE"
    and ready: "ts_vars (fst w) (poll_result_local (fst q)) = 0"
  shows "snd (take_turn (Some p) q w) = snd w" "ts_vars (fst (take_turn (Some p) q w)) p = 1"
proof -
  obtain m f x flag where eq: "q = (m, f)" "w = (x, flag)" by (cases q; cases w)
  have "p \<noteq> state_local m" using own_localsD(3) [OF own q q refl] eq by simp
  with fin ready show "snd (take_turn (Some p) q w) = snd w" "ts_vars (fst (take_turn (Some p) q w)) p = 1"
    by (simp_all add: eq take_turn_def set_var_def)
qed

lemma turn_shut:
  assumes "shut p q" and "ts_vars (fst w) (state_local (fst q)) \<noteq> DONE_STATE"
  shows "\<not> snd (take_turn (Some p) q w)" "ts_vars (fst (take_turn (Some p) q w)) p = ts_vars (fst w) p"
  using assms by (cases q; cases w; simp add: shut_def take_turn_def POLL_BLOCKED_def)+

lemma turns_shut:
  assumes own: "own_locals (Some p) ps" and "set qs \<subseteq> set ps" and "distinct (map (state_local \<circ> fst) qs)" and "ready_done ps (fst w)"
    and "\<forall>q\<in>set qs. ts_vars (fst w) (state_local (fst q)) = DONE_STATE \<or> shut p q"
  shows "ts_vars (fst (fold (take_turn (Some p)) qs w)) p =
      (if \<exists>q\<in>set qs. ts_vars (fst w) (state_local (fst q)) = DONE_STATE then 1 else ts_vars (fst w) p) \<and>
    snd (fold (take_turn (Some p)) qs w) = (snd w \<and> (\<forall>q\<in>set qs. ts_vars (fst w) (state_local (fst q)) = DONE_STATE))"
  using assms(2-5)
proof (induction qs arbitrary: w)
  case (Cons q qs)
  let ?w = "take_turn (Some p) q w" and ?done = "\<lambda>w q. ts_vars (fst w) (state_local (fst q)) = DONE_STATE"
  have q: "q \<in> set ps" "set qs \<subseteq> set ps" "distinct (map (state_local \<circ> fst) qs)" using Cons.prems(1,2) by (simp_all add: comp_def)
  have same: "?done ?w q' = ?done w q'" if "q' \<in> set qs" for q'
  proof -
    have "state_local (fst q') \<noteq> state_local (fst q)"
    proof
      assume "state_local (fst q') = state_local (fst q)"
      then have "(state_local \<circ> fst) q \<in> (state_local \<circ> fst) ` set qs" using that by (metis comp_apply image_eqI)
      then show False using Cons.prems(2) by (simp only: list.simps(9) distinct.simps(2) list.set_map) simp
    qed
    then show ?thesis using turn_others(1) [OF own q(1) subsetD [OF q(2) that]] by simp
  qed
  then have some: "(\<exists>q'\<in>set qs. ?done ?w q') = (\<exists>q'\<in>set qs. ?done w q')" "(\<forall>q'\<in>set qs. ?done ?w q') = (\<forall>q'\<in>set qs. ?done w q')"
    by blast+
  have "\<forall>q'\<in>set qs. ?done ?w q' \<or> shut p q'" using Cons.prems(4) same by auto
  note IH = Cons.IH [OF q(2,3) turn_own(1) [OF own q(1) Cons.prems(3)] this, unfolded some]
  show ?case
  proof (cases "?done w q")
    case True
    then have "ts_vars (fst w) (poll_result_local (fst q)) = 0" using Cons.prems(3) q(1) by (simp add: ready_done_def)
    from IH turn_done [OF own q(1) True this] True show ?thesis by simp
  next
    case False
    then have "shut p q" using Cons.prems(4) by simp
    from IH turn_shut [OF this False] False show ?thesis by simp
  qed
qed simp

text \<open>Such a pass leaves done just the machines that were done.\<close>

lemma turn_keeps_done:
  assumes own: "own_locals (Some p) ps" and q: "q \<in> set ps" "q' \<in> set ps" and ready: "ready_done ps (fst w)"
    and shut: "ts_vars (fst w) (state_local (fst q)) = DONE_STATE \<or> shut p q"
  shows "ts_vars (fst (take_turn (Some p) q w)) (state_local (fst q')) = DONE_STATE \<longleftrightarrow> ts_vars (fst w) (state_local (fst q')) = DONE_STATE"
proof (cases "state_local (fst q') = state_local (fst q)")
  case False
  then show ?thesis using turn_others(1) [OF own q] by simp
next
  case True
  obtain m f x flag where eq: "q = (m, f)" "w = (x, flag)" by (cases q; cases w)
  have "p \<noteq> state_local m" using own_localsD(3) [OF own q(1,1) refl] eq by simp
  moreover have "ts_vars x (state_local m) = DONE_STATE \<Longrightarrow> ts_vars x (poll_result_local m) = 0"
    using ready q(1) eq by (auto simp: ready_done_def)
  ultimately show ?thesis using True shut eq by (auto simp: take_turn_def shut_def set_var_def POLL_BLOCKED_def)
qed

lemma turns_keep_done:
  assumes own: "own_locals (Some p) ps" and "q' \<in> set ps" and "set qs \<subseteq> set ps" and "ready_done ps (fst w)"
    and "\<forall>q\<in>set ps. ts_vars (fst w) (state_local (fst q)) = DONE_STATE \<or> shut p q"
  shows "ts_vars (fst (fold (take_turn (Some p)) qs w)) (state_local (fst q')) = DONE_STATE \<longleftrightarrow>
    ts_vars (fst w) (state_local (fst q')) = DONE_STATE"
  using assms(3-5)
proof (induction qs arbitrary: w)
  case (Cons q qs)
  let ?w = "take_turn (Some p) q w" and ?done = "\<lambda>w q. ts_vars (fst w) (state_local (fst q)) = DONE_STATE"
  have q: "q \<in> set ps" "set qs \<subseteq> set ps" using Cons.prems(1) by simp_all
  have keep: "?done ?w r \<longleftrightarrow> ?done w r" if "r \<in> set ps" for r
    using turn_keeps_done [OF own q(1) that Cons.prems(2)] Cons.prems(3) q(1) by blast
  have "\<forall>r\<in>set ps. ?done ?w r \<or> shut p r" using Cons.prems(3) keep by simp
  from Cons.IH [OF q(2) turn_own(1) [OF own q(1) Cons.prems(2)] this] keep [OF assms(2)] show ?case by simp
qed simp

text \<open>When no machine can move, the pass ends where it does because of the machines that were done before.\<close>

lemma shut_pass:
  assumes own: "own_locals (Some p) ps" and ready: "ready_done ps x"
    and shut: "\<forall>q\<in>set ps. ts_vars x (state_local (fst q)) = DONE_STATE \<or> shut p q"
  shows "ts_vars (fst (run_pass (Some p) ps x)) p = (if \<exists>q\<in>set ps. ts_vars x (state_local (fst q)) = DONE_STATE then 1 else 0)"
    and "snd (run_pass (Some p) ps x) \<longleftrightarrow> (\<forall>q\<in>set ps. ts_vars x (state_local (fst q)) = DONE_STATE)"
    and "q \<in> set ps \<Longrightarrow> ts_vars (fst (run_pass (Some p) ps x)) (state_local (fst q)) = DONE_STATE \<longleftrightarrow>
      ts_vars x (state_local (fst q)) = DONE_STATE"
proof -
  let ?w = "(set_var p 0 x, True)"
  have same: "ts_vars (fst ?w) (state_local (fst q)) = ts_vars x (state_local (fst q))"
    "ts_vars (fst ?w) (poll_result_local (fst q)) = ts_vars x (poll_result_local (fst q))" if "q \<in> set ps" for q
    using own_localsD(3,4) [OF own that that refl] by (simp_all add: set_var_def)
  have dist: "distinct (map (state_local \<circ> fst) ps)" using own by (simp add: own_locals_def)
  have start: "ready_done ps (fst ?w)" using ready same by (simp add: ready_done_def)
  have moves: "\<forall>q\<in>set ps. ts_vars (fst ?w) (state_local (fst q)) = DONE_STATE \<or> shut p q" using shut same(1) by metis
  show "q \<in> set ps \<Longrightarrow> ts_vars (fst (run_pass (Some p) ps x)) (state_local (fst q)) = DONE_STATE \<longleftrightarrow>
      ts_vars x (state_local (fst q)) = DONE_STATE"
    using turns_keep_done [OF own _ subset_refl start moves] same(1) by (simp add: run_pass_def)
  note turns_shut [OF own subset_refl dist start moves]
  moreover have "(\<exists>q\<in>set ps. ts_vars (fst ?w) (state_local (fst q)) = DONE_STATE) = (\<exists>q\<in>set ps. ts_vars x (state_local (fst q)) = DONE_STATE)"
    "(\<forall>q\<in>set ps. ts_vars (fst ?w) (state_local (fst q)) = DONE_STATE) = (\<forall>q\<in>set ps. ts_vars x (state_local (fst q)) = DONE_STATE)"
    using same(1) by metis+
  moreover have "ts_vars (fst ?w) p = 0" by (simp add: set_var_def)
  ultimately show "ts_vars (fst (run_pass (Some p) ps x)) p = (if \<exists>q\<in>set ps. ts_vars x (state_local (fst q)) = DONE_STATE then 1 else 0)"
    "snd (run_pass (Some p) ps x) \<longleftrightarrow> (\<forall>q\<in>set ps. ts_vars x (state_local (fst q)) = DONE_STATE)"
    by (simp_all add: run_pass_def)
qed

lemma pass_runs:
  assumes "runs_passes c N pr ps entry target" and "own_locals pr ps" and "ready_done ps x" and "agree {l. N \<le> unat l} x y"
  shows "\<exists>k z. let x' = fst (run_pass pr ps x) in 0 < k \<and>
    toy_run c k (Some entry, y) = (Some (target (x', \<forall>q\<in>set ps. ts_vars x' (state_local (fst q)) = DONE_STATE)), z) \<and>
    agree {l. N \<le> unat l} x' z \<and> ready_done ps x'"
proof -
  let ?r = "run_pass pr ps x"
  obtain k z where 1: "0 < k" "toy_run c k (Some entry, y) = (Some (target ?r), z)" "agree {l. N \<le> unat l} (fst ?r) z"
    using assms(1,4) unfolding runs_passes_def by blast
  have "?r = (fst ?r, \<forall>q\<in>set ps. ts_vars (fst ?r) (state_local (fst q)) = DONE_STATE)"
    using pass_all_done [OF assms(2,3)] by (simp add: prod_eq_iff)
  with 1 pass_ready_done [OF assms(2,3)] show ?thesis
    unfolding Let_def by (intro exI [of _ k] exI [of _ z] conjI) simp_all
qed

text \<open>A pass that finds every machine done or blocked for good sets the progress local just when one was done.\<close>

lemma shut_pass_progress:
  assumes "own_locals (Some p) ps" and "ready_done ps x"
    and "\<forall>q\<in>set ps. ts_vars x (state_local (fst q)) = DONE_STATE \<or> shut p q"
  shows "let x' = fst (run_pass (Some p) ps x) in
    (ts_vars x' p = 1 \<longleftrightarrow> (\<exists>q\<in>set ps. ts_vars x (state_local (fst q)) = DONE_STATE)) \<and>
    (\<forall>q\<in>set ps. ts_vars x' (state_local (fst q)) = DONE_STATE \<longleftrightarrow> ts_vars x (state_local (fst q)) = DONE_STATE)"
  using shut_pass(1) [OF assms] shut_pass(3) [OF assms] unfolding Let_def by (intro conjI ballI) (simp_all split: if_splits)

section \<open>The executors\<close>

text \<open>
  C15: The cooperative loop that build_cooperative_loop emits schedules as documented, under the semantics of the toy
  IR that this development gives it. The region is entered with the states of all machines set to 0. From the top of
  the loop the code polls the machines that are not done once each, in order, marks those that report ready as done,
  and comes to what followed the region just when all of them are done; otherwise it goes round again if the progress
  local says that something ran, and to the block for the host's deadlock report if not (the toy host has none, so
  that block goes back to the top). The state is that of the pass, and machines that are done keep having reported
  ready, so this holds of the next pass too. The last part is about deadlocks: in a pass that finds every machine
  done or blocked for good, the progress local is set just when one was done before, since mark_done_bb, which such
  a machine passes too, sets it; and the pass changes no machine's state. So with one machine finished and the rest
  blocked for good the code goes round for ever and never comes to the block.\<close>

theorem cooperative_loop_runs_passes:
  assumes "build_cooperative_loop toy_cfg region (map fst ps) c = Some c'" and "executor_ready c region (map fst ps)"
    and "\<And>q. q \<in> set ps \<Longrightarrow> polls c' (local_count c) (toy_local c) q" and "unat p < local_count c"
    and "p = progress_local (fst (hd ps))" and "own_locals (Some p) ps"
  shows "\<exists>loop exit stuck post s. toy_block c' (fst (region_begin region)) = Some (s @ map (\<lambda>q. AssignI64 (state_local (fst q)) 0) ps, Goto loop) \<and>
    toy_block c' exit = Some ([], Goto post) \<and> toy_block c' post = Some ([], snd (the (toy_block c (fst (region_end region))))) \<and>
    toy_block c' stuck = Some ([], Goto loop) \<and> distinct [loop, exit, stuck] \<and>
    (\<forall>x y. ready_done ps x \<and> agree {l. local_count c \<le> unat l} x y \<longrightarrow>
      (\<exists>k z. let x' = fst (run_pass (Some p) ps x) in 0 < k \<and>
        toy_run c' k (Some loop, y) = (Some (if \<forall>q\<in>set ps. ts_vars x' (state_local (fst q)) = DONE_STATE then exit
          else if ts_vars x' p = 1 then loop else stuck), z) \<and>
        agree {l. local_count c \<le> unat l} x' z \<and> ready_done ps x')) \<and>
    (\<forall>x. ready_done ps x \<and> (\<forall>q\<in>set ps. ts_vars x (state_local (fst q)) = DONE_STATE \<or> shut p q) \<longrightarrow>
      (let x' = fst (run_pass (Some p) ps x) in
        (ts_vars x' p = 1 \<longleftrightarrow> (\<exists>q\<in>set ps. ts_vars x (state_local (fst q)) = DONE_STATE)) \<and>
        (\<forall>q\<in>set ps. ts_vars x' (state_local (fst q)) = DONE_STATE \<longleftrightarrow> ts_vars x (state_local (fst q)) = DONE_STATE)))"
proof -
  have prog: "unat (progress_local (fst (hd ps))) < local_count c" using assms(4,5) by simp
  obtain loop exit stuck post s where 1: "toy_block c' (fst (region_begin region)) = Some (s @ map (\<lambda>q. AssignI64 (state_local (fst q)) 0) ps, Goto loop)"
    "toy_block c' exit = Some ([], Goto post)" "toy_block c' post = Some ([], snd (the (toy_block c (fst (region_end region)))))"
    "toy_block c' stuck = Some ([], Goto loop)" "distinct [loop, exit, stuck]"
    "runs_passes c' (local_count c) (Some p) ps loop (pass_target p loop exit stuck)"
    using cooperative_runs [OF assms(1-3) prog] unfolding assms(5) [symmetric] map_map comp_def by blast
  show ?thesis
    by (rule exI [of _ loop], rule exI [of _ exit], rule exI [of _ stuck], rule exI [of _ post], rule exI [of _ s],
      intro conjI allI impI 1(1-5); elim conjE)
      (rule pass_runs [OF 1(6) assms(6), unfolded pass_target_def prod.sel] shut_pass_progress [OF assms(6)]; assumption)+
qed

text \<open>The one-shot poll that build_oneshot_poll emits polls the machines that are not done once each, in order,
  and leaves by the done exit, which goes on behind the region, if all are done then and by the pending exit if
  not.\<close>

theorem oneshot_poll_polls_each_once:
  assumes "build_oneshot_poll toy_cfg region (map fst ps) c = Some (re, c')" and "executor_ready c region (map fst ps)"
    and "ps \<noteq> []" and "\<And>q. q \<in> set ps \<Longrightarrow> polls c' (local_count c) (toy_local c) q" and "own_locals None ps"
  shows "\<exists>top post s. toy_block c' (fst (region_begin region)) = Some (s @ map (\<lambda>q. AssignI64 (state_local (fst q)) 0) ps, Goto top) \<and>
    toy_block c' (re_done re) = Some ([], Goto post) \<and> toy_block c' post = Some ([], snd (the (toy_block c (fst (region_end region))))) \<and> toy_block c' (re_pending re) = Some ([], Unreachable) \<and>
    re_done re \<noteq> re_pending re \<and>
    (\<forall>x y. ready_done ps x \<and> agree {l. local_count c \<le> unat l} x y \<longrightarrow>
      (\<exists>k z. let x' = fst (run_pass None ps x) in 0 < k \<and>
        toy_run c' k (Some top, y) = (Some (if \<forall>q\<in>set ps. ts_vars x' (state_local (fst q)) = DONE_STATE then re_done re
          else re_pending re), z) \<and>
        agree {l. local_count c \<le> unat l} x' z \<and> ready_done ps x'))"
proof -
  obtain top post s where 1: "toy_block c' (fst (region_begin region)) = Some (s @ map (\<lambda>q. AssignI64 (state_local (fst q)) 0) ps, Goto top)"
    "toy_block c' (re_done re) = Some ([], Goto post)" "toy_block c' post = Some ([], snd (the (toy_block c (fst (region_end region)))))" "toy_block c' (re_pending re) = Some ([], Unreachable)"
    "re_done re \<noteq> re_pending re" "runs_passes c' (local_count c) None ps top (\<lambda>p. if snd p then re_done re else re_pending re)"
    using oneshot_runs [OF assms(1-4)] unfolding map_map comp_def by blast
  have "\<exists>k z. let x' = fst (run_pass None ps x) in 0 < k \<and>
        toy_run c' k (Some top, y) = (Some (if \<forall>q\<in>set ps. ts_vars x' (state_local (fst q)) = DONE_STATE then re_done re
          else re_pending re), z) \<and>
        agree {l. local_count c \<le> unat l} x' z \<and> ready_done ps x'"
    if x: "ready_done ps x" "agree {l. local_count c \<le> unat l} x y" for x y
    using pass_runs [OF 1(6) assms(5) x] unfolding prod.sel .
  with 1 show ?thesis by blast
qed

section \<open>Witnesses\<close>

text \<open>Two machines: a poll of the first is ready at once, the second is blocked for good.\<close>

definition pair_body :: toy_body where
  "pair_body = \<lparr>tb_blocks = [([TMarker RegionBegin], Goto 1), ([TMarker RegionEnd], Return),
     ([TMarker CoroutineBegin, AssignI64 1 0, TMarker CoroutineEnd], Goto 3), ([], Unreachable), ([TMarker CoroutineBegin, AssignI64 3 POLL_BLOCKED, TMarker CoroutineEnd], Goto 5), ([], Unreachable)],
     tb_locals = [I64Mut, I64Mut, I64Mut, I64Mut, I64Mut]\<rparr>"

definition pair_region :: "toy_block_id region" where
  "pair_region = \<lparr>region_begin = (0, 0), region_end = (1, 0), coroutines = [\<lparr>co_begin = (2, 0), co_end = (2, 2), co_priority = None\<rparr>, \<lparr>co_begin = (4, 0), co_end = (4, 2), co_priority = None\<rparr>]\<rparr>"

definition pair_machines :: "((toy_block_id, toy_local_id) machine \<times> (toy_state \<Rightarrow> toy_state)) list" where
  "pair_machines =
    [(\<lparr>state_local = 0, poll_result_local = 1, progress_local = 4, dispatch_bb = 2, exit_bb = 3\<rparr>, set_var 1 0),
     (\<lparr>state_local = 2, poll_result_local = 3, progress_local = 4, dispatch_bb = 4, exit_bb = 5\<rparr>, set_var 3 POLL_BLOCKED)]"

definition pair_loop :: toy_body where
  "pair_loop = the (build_cooperative_loop toy_cfg pair_region (map fst pair_machines) pair_body)"

lemma pair_ready: "executor_ready pair_body pair_region (map fst pair_machines)"
  by (simp add: executor_ready_def pair_body_def pair_region_def pair_machines_def region_blocks_def toy_block_def get_nth_def domIff
      toy_room_def local_count_def)

lemma pair_built:
  "build_cooperative_loop toy_cfg pair_region (map fst pair_machines) pair_body = Some pair_loop"
  "toy_block pair_loop 2 = Some ([Nop, AssignI64 1 0, Nop], Goto 3)"
  "toy_block pair_loop 4 = Some ([Nop, AssignI64 3 POLL_BLOCKED, Nop], Goto 5)"
proof -
  have 1: "build_cooperative_loop toy_cfg pair_region (map fst pair_machines) pair_body \<noteq> None \<and>
    toy_block pair_loop 2 = Some ([Nop, AssignI64 1 0, Nop], Goto 3) \<and>
    toy_block pair_loop 4 = Some ([Nop, AssignI64 3 POLL_BLOCKED, Nop], Goto 5)"
    by code_simp
  from conjunct1 [OF 1] obtain c where c: "build_cooperative_loop toy_cfg pair_region (map fst pair_machines) pair_body = Some c" by blast
  show "build_cooperative_loop toy_cfg pair_region (map fst pair_machines) pair_body = Some pair_loop"
    by (simp only: pair_loop_def c option.sel)
  show "toy_block pair_loop 2 = Some ([Nop, AssignI64 1 0, Nop], Goto 3)"
    "toy_block pair_loop 4 = Some ([Nop, AssignI64 3 POLL_BLOCKED, Nop], Goto 5)"
    by (rule conjunct1 [OF conjunct2 [OF 1]], rule conjunct2 [OF conjunct2 [OF 1]])
qed

lemma one_block_polls:
  assumes "toy_block c (dispatch_bb m) = Some ([Nop, AssignI64 l v, Nop], Goto (exit_bb m))" and "unat (state_local m) < N" and "unat (poll_result_local m) < N"
    and "unat l < N" and "unat ad = N"
  shows "polls c N ad (m, set_var l v)"
proof -
  have "toy_run c 1 (Some (dispatch_bb m), y) = (Some (exit_bb m), set_var l v y)" for y
    by (simp add: toy_step_at [OF assms(1)] set_var_def)
  moreover have "agree {l. N \<le> unat l} (set_var l v x) (set_var l v y)" "ts_vars (set_var l v y) ad = ts_vars y ad"
    if "agree {l. N \<le> unat l} x y" for x y using that assms(4,5) by (auto simp: agree_def set_var_def)
  ultimately have "\<exists>k z. toy_run c k (Some (dispatch_bb m), y) = (Some (exit_bb m), z) \<and> agree {l. N \<le> unat l} (set_var l v x) z \<and>
      ts_vars z ad = ts_vars y ad" if "agree {l. N \<le> unat l} x y" for x y
    using that by (intro exI [of _ 1] exI [of _ "set_var l v y"] conjI)
  then show ?thesis unfolding polls_def prod.case using assms(2,3) by simp
qed

lemma pair_own: "own_locals pr pair_machines" if "pr = None \<or> pr = Some 4"
  using that by (auto simp: own_locals_def pair_machines_def set_var_def DONE_STATE_def)

lemma pair_polls:
  assumes "toy_block c 2 = Some ([Nop, AssignI64 1 0, Nop], Goto 3)" "toy_block c 4 = Some ([Nop, AssignI64 3 POLL_BLOCKED, Nop], Goto 5)"
    and "q \<in> set pair_machines"
  shows "polls c (local_count pair_body) (toy_local pair_body) q"
proof -
  have n: "local_count pair_body = 5" "toy_local pair_body = 5" by (simp_all add: local_count_def pair_body_def toy_local_def)
  have "q = pair_machines ! 0 \<or> q = pair_machines ! 1" using assms(3) by (auto simp: pair_machines_def)
  then show ?thesis unfolding n using assms(1,2) by (auto simp: pair_machines_def intro!: one_block_polls)
qed

lemma pair_zero: "ready_done pair_machines toy_zero" "agree L x x"
  by (simp_all add: ready_done_def pair_machines_def toy_zero_def agree_def DONE_STATE_def)

text \<open>The first machine done, the second blocked.\<close>

definition pair_stuck :: toy_state where
  "pair_stuck = set_var 0 DONE_STATE toy_zero"

text \<open>From the start the first machine finishes; then the loop, which comes round, comes round again.\<close>

theorem cooperative_loop_runs_passes_witness:
  "\<exists>loop s k z. toy_block pair_loop 0 = Some (s, Goto loop) \<and> 0 < k \<and> toy_run pair_loop k (Some loop, toy_zero) = (Some loop, z) \<and>
     ts_vars z 0 = DONE_STATE \<and> ts_vars z 2 = 0 \<and>
     (\<exists>k' z'. 0 < k' \<and> toy_run pair_loop k' (Some loop, pair_stuck) = (Some loop, z') \<and> ts_vars z' 0 = DONE_STATE \<and> ts_vars z' 2 = 0)"
proof -
  have p: "unat (4 :: toy_local_id) < local_count pair_body" "4 = progress_local (fst (hd pair_machines))"
    by (simp_all add: local_count_def pair_body_def pair_machines_def)
  note pass = cooperative_loop_runs_passes [OF pair_built(1) pair_ready pair_polls [OF pair_built(2,3)] p pair_own]
  let ?pass = "\<lambda>x. fst (run_pass (Some 4) pair_machines x)" and ?done = "\<lambda>x q. ts_vars x (state_local (fst q)) = DONE_STATE"
  from pass obtain loop exit stuck s where 1: "toy_block pair_loop 0 = Some (s, Goto loop)"
    and go: "\<forall>x y. ready_done pair_machines x \<and> agree {l. local_count pair_body \<le> unat l} x y \<longrightarrow>
      (\<exists>k z. let x' = ?pass x in 0 < k \<and> toy_run pair_loop k (Some loop, y) = (Some (if \<forall>q\<in>set pair_machines. ?done x' q then exit
          else if ts_vars x' 4 = 1 then loop else stuck), z) \<and>
        agree {l. local_count pair_body \<le> unat l} x' z \<and> ready_done pair_machines x')"
    and dead: "\<forall>x. ready_done pair_machines x \<and> (\<forall>q\<in>set pair_machines. ?done x q \<or> shut 4 q) \<longrightarrow>
      (let x' = ?pass x in (ts_vars x' 4 = 1 \<longleftrightarrow> (\<exists>q\<in>set pair_machines. ?done x q)) \<and> (\<forall>q\<in>set pair_machines. ?done x' q \<longleftrightarrow> ?done x q))"
    by (auto simp: pair_region_def)
  have round: "\<exists>k z. 0 < k \<and> toy_run pair_loop k (Some loop, x) = (Some loop, z) \<and> ts_vars z 0 = DONE_STATE \<and> ts_vars z 2 = 0"
    if "ready_done pair_machines x" "ts_vars (?pass x) 0 = DONE_STATE" "ts_vars (?pass x) 2 = 0" "ts_vars (?pass x) 4 = 1" for x
  proof -
    have "\<not> (\<forall>q\<in>set pair_machines. ?done (?pass x) q)" using that(3) by (simp add: pair_machines_def DONE_STATE_def)
    with mp [OF spec [OF spec [OF go]] conjI [OF that(1) pair_zero(2)]] that(4) obtain k z where "0 < k"
      "toy_run pair_loop k (Some loop, x) = (Some loop, z)" "agree {l. local_count pair_body \<le> unat l} (?pass x) z"
      by (auto simp: Let_def)
    moreover from this(3) that(2,3) have "ts_vars z 0 = DONE_STATE" "ts_vars z 2 = 0"
      by (simp_all add: agree_def local_count_def pair_body_def)
    ultimately show ?thesis by blast
  qed
  have "ts_vars (?pass toy_zero) 0 = DONE_STATE" "ts_vars (?pass toy_zero) 2 = 0" "ts_vars (?pass toy_zero) 4 = 1"
    by (simp_all add: run_pass_def pair_machines_def take_turn_def set_var_def toy_zero_def DONE_STATE_def POLL_BLOCKED_def)
  note first = round [OF pair_zero(1) this]
  have x: "ready_done pair_machines pair_stuck" "\<forall>q\<in>set pair_machines. ?done pair_stuck q \<or> shut 4 q" "\<exists>q\<in>set pair_machines. ?done pair_stuck q"
    by (simp_all add: ready_done_def pair_machines_def pair_stuck_def set_var_def toy_zero_def DONE_STATE_def shut_def)
  from mp [OF spec [OF dead] conjI [OF x(1,2)]] x(3) have "ts_vars (?pass pair_stuck) 4 = 1" by (simp add: Let_def)
  moreover have "ts_vars (?pass pair_stuck) 0 = DONE_STATE" "ts_vars (?pass pair_stuck) 2 = 0"
    by (simp_all add: run_pass_def pair_machines_def take_turn_def set_var_def pair_stuck_def toy_zero_def DONE_STATE_def POLL_BLOCKED_def)
  ultimately show ?thesis using round [OF x(1)] first 1 by blast
qed

definition pair_poll :: "toy_block_id region_exits \<times> toy_body" where
  "pair_poll = the (build_oneshot_poll toy_cfg pair_region (map fst pair_machines) pair_body)"

lemma pair_poll_built:
  "build_oneshot_poll toy_cfg pair_region (map fst pair_machines) pair_body = Some (fst pair_poll, snd pair_poll)"
  "toy_block (snd pair_poll) 2 = Some ([Nop, AssignI64 1 0, Nop], Goto 3)"
  "toy_block (snd pair_poll) 4 = Some ([Nop, AssignI64 3 POLL_BLOCKED, Nop], Goto 5)"
proof -
  have 1: "build_oneshot_poll toy_cfg pair_region (map fst pair_machines) pair_body \<noteq> None \<and>
    toy_block (snd pair_poll) 2 = Some ([Nop, AssignI64 1 0, Nop], Goto 3) \<and>
    toy_block (snd pair_poll) 4 = Some ([Nop, AssignI64 3 POLL_BLOCKED, Nop], Goto 5)"
    by code_simp
  from conjunct1 [OF 1] obtain c where c: "build_oneshot_poll toy_cfg pair_region (map fst pair_machines) pair_body = Some c" by blast
  show "build_oneshot_poll toy_cfg pair_region (map fst pair_machines) pair_body = Some (fst pair_poll, snd pair_poll)"
    by (simp only: pair_poll_def c option.sel prod.collapse)
  show "toy_block (snd pair_poll) 2 = Some ([Nop, AssignI64 1 0, Nop], Goto 3)"
    "toy_block (snd pair_poll) 4 = Some ([Nop, AssignI64 3 POLL_BLOCKED, Nop], Goto 5)"
    by (rule conjunct1 [OF conjunct2 [OF 1]], rule conjunct2 [OF conjunct2 [OF 1]])
qed

theorem pair_poll_pends:
  "\<exists>top s k z. toy_block (snd pair_poll) 0 = Some (s, Goto top) \<and> 0 < k \<and>
     toy_run (snd pair_poll) k (Some top, toy_zero) = (Some (re_pending (fst pair_poll)), z) \<and> ts_vars z 0 = DONE_STATE \<and> ts_vars z 2 = 0"
proof -
  have "pair_machines \<noteq> []" by (simp add: pair_machines_def)
  note pass = oneshot_poll_polls_each_once [OF pair_poll_built(1) pair_ready this pair_polls [OF pair_poll_built(2,3)] pair_own]
  let ?x = "fst (run_pass None pair_machines toy_zero)"
  have x: "ts_vars ?x 0 = DONE_STATE" "ts_vars ?x 2 = 0"
    by (simp_all add: run_pass_def pair_machines_def take_turn_def set_var_def toy_zero_def DONE_STATE_def POLL_BLOCKED_def)
  have more: "\<not> (\<forall>q\<in>set pair_machines. ts_vars ?x (state_local (fst q)) = DONE_STATE)"
    using x by (simp add: pair_machines_def DONE_STATE_def)
  from pass obtain top s where 1: "toy_block (snd pair_poll) 0 = Some (s, Goto top)"
    "\<forall>x y. ready_done pair_machines x \<and> agree {l. local_count pair_body \<le> unat l} x y \<longrightarrow>
      (\<exists>k z. let x' = fst (run_pass None pair_machines x) in 0 < k \<and>
        toy_run (snd pair_poll) k (Some top, y) = (Some (if \<forall>q\<in>set pair_machines. ts_vars x' (state_local (fst q)) = DONE_STATE
          then re_done (fst pair_poll) else re_pending (fst pair_poll)), z) \<and>
        agree {l. local_count pair_body \<le> unat l} x' z \<and> ready_done pair_machines x')"
    by (auto simp: pair_region_def)
  from mp [OF spec [OF spec [OF 1(2)]] conjI [OF pair_zero]] obtain k z where "0 < k"
    "toy_run (snd pair_poll) k (Some top, toy_zero) = (Some (re_pending (fst pair_poll)), z)"
    "agree {l. local_count pair_body \<le> unat l} ?x z"
    using more by (auto simp: Let_def)
  moreover from this(3) x have "ts_vars z 0 = DONE_STATE" "ts_vars z 2 = 0"
    by (simp_all add: agree_def local_count_def pair_body_def)
  ultimately show ?thesis using 1(1) by blast
qed

end
