(* ===== verification/Krio_Fiber.thy ===== *)
theory Krio_Fiber
  imports Krio_Core Complex_Main
begin

text \<open>
  \<open>crates/krio-fiber/src/fiber.rs\<close>: fibers on one thread. User code is a value of a type \<open>'p\<close> of program
  points together with a function that says what the code does next: return, panic, or call the
  library and go on with the reply. A saved stack pointer stands for the context it was saved in, the
  stack it lies on and the point it continues at; what the switch itself does is in \<open>Krio_Switch\<close>.

  \<open>Fiber\<close> values and the boxed \<open>TrampolineState\<close> values lie at addresses, so that the pointers the code
  keeps between the two, and in its two thread locals, are addresses of the model. \<open>None\<close> is the use of
  an address where nothing lies.
\<close>

section \<open>Values and time\<close>

text \<open>The comparison of \<open>f64\<close> that deadlines use.\<close>

datatype f64 = NaN | NegInf | Fin real | PosInf

fun f64_ge :: "f64 \<Rightarrow> f64 \<Rightarrow> bool" where
  "f64_ge NaN y = False"
| "f64_ge x NaN = False"
| "f64_ge PosInf y = True"
| "f64_ge x NegInf = True"
| "f64_ge (Fin x) (Fin y) = (y \<le> x)"
| "f64_ge x y = False"

text \<open>A \<open>Box<dyn Any>\<close>: a type and a value of it; \<open>downcast\<close> gives the value at its own type only.\<close>

type_synonym 'v boxed = "nat \<times> 'v"

definition downcast :: "nat \<Rightarrow> 'v boxed \<Rightarrow> 'v option" where
  "downcast ty b = (if fst b = ty then Some (snd b) else None)"

datatype 'v payload = Thrown "'v boxed" | Message string

datatype fiber_state = New | Suspended | Done | Errored

datatype fiber_step = FYielded | FDone | FErrored

section \<open>What a fiber records\<close>

record 'v fiber_core =
  f_done :: bool
  f_errored :: bool
  f_started :: bool
  error_payload :: "'v payload option"
  f_cancelled :: bool
  f_deadline :: "f64 option"
  input_slot :: "'v boxed option"
  output_slot :: "'v boxed option"
  input_u64 :: "u64 option"
  output_u64 :: "u64 option"
  f_id :: u64
  f_name :: "string option"

definition core_new :: "u64 \<Rightarrow> 'v fiber_core" where
  "core_new i = \<lparr>f_done = False, f_errored = False, f_started = False, error_payload = None, f_cancelled = False,
     f_deadline = None, input_slot = None, output_slot = None, input_u64 = None, output_u64 = None, f_id = i, f_name = None\<rparr>"

definition state_of :: "('v, 'z) fiber_core_scheme \<Rightarrow> fiber_state" where
  "state_of f = (if \<not> f_started f then New else if \<not> f_done f then Suspended else if \<not> f_errored f then Done else Errored)"

fun show_state :: "fiber_state \<Rightarrow> string" where
  "show_state New = ''New''"
| "show_state Suspended = ''Suspended''"
| "show_state Done = ''Done''"
| "show_state Errored = ''Errored''"

definition step_of :: "('v, 'z) fiber_core_scheme \<Rightarrow> fiber_step" where
  "step_of f = (if \<not> f_done f then FYielded else if \<not> f_errored f then FDone else FErrored)"

definition deadline_passed :: "f64 \<Rightarrow> ('v, 'z) fiber_core_scheme \<Rightarrow> bool" where
  "deadline_passed now f = (case f_deadline f of Some d \<Rightarrow> f64_ge now d | None \<Rightarrow> False)"

text \<open>What a call replies with.\<close>

datatype 'v reply =
    RUnit
  | RStep fiber_step
  | RBool bool
  | RId "u64 option"
  | RU64 "u64 option"
  | RValue "'v option"
  | RBoxed "'v boxed option"
  | RState fiber_state
  | RError "'v payload option"
  | RDeadline "f64 option"
  | RName "string option"

text \<open>The methods of a \<open>Fiber\<close> value that do not run it.\<close>

datatype fiber_method =
    SetDeadline f64
  | ClearDeadline
  | GetDeadline
  | Cancel
  | GetCancelled
  | GetDeadlinePassed
  | TakeYieldU64
  | TakeYieldValue nat
  | TakeYieldAny
  | HasYieldValue
  | GetState
  | GetDone
  | TakeError
  | GetId
  | GetName
  | SetName string

definition take_yield_value :: "nat \<Rightarrow> ('v, 'z) fiber_core_scheme \<Rightarrow> 'v option \<times> ('v, 'z) fiber_core_scheme" where
  "take_yield_value ty f = (case output_slot f of
      None \<Rightarrow> (None, f\<lparr>output_slot := None\<rparr>)
    | Some b \<Rightarrow>
        (case downcast ty b of
           Some v \<Rightarrow> (Some v, f\<lparr>output_slot := None\<rparr>)
         | None \<Rightarrow> (None, f\<lparr>output_slot := Some b\<rparr>)))"

definition has_yield_value :: "('v, 'z) fiber_core_scheme \<Rightarrow> bool \<times> ('v, 'z) fiber_core_scheme" where
  "has_yield_value f = (let v = output_slot f; f = f\<lparr>output_slot := None\<rparr> in (v \<noteq> None, f\<lparr>output_slot := v\<rparr>))"

fun run_method :: "f64 \<Rightarrow> fiber_method \<Rightarrow> ('v, 'z) fiber_core_scheme \<Rightarrow> 'v reply \<times> ('v, 'z) fiber_core_scheme" where
  "run_method now (SetDeadline d) f = (RUnit, f\<lparr>f_deadline := Some d\<rparr>)"
| "run_method now ClearDeadline f = (RUnit, f\<lparr>f_deadline := None\<rparr>)"
| "run_method now GetDeadline f = (RDeadline (f_deadline f), f)"
| "run_method now Cancel f = (RUnit, f\<lparr>f_cancelled := True\<rparr>)"
| "run_method now GetCancelled f = (RBool (f_cancelled f), f)"
| "run_method now GetDeadlinePassed f = (RBool (deadline_passed now f), f)"
| "run_method now TakeYieldU64 f = (RU64 (output_u64 f), f\<lparr>output_u64 := None\<rparr>)"
| "run_method now (TakeYieldValue ty) f = (let (v, f) = take_yield_value ty f in (RValue v, f))"
| "run_method now TakeYieldAny f = (RBoxed (output_slot f), f\<lparr>output_slot := None\<rparr>)"
| "run_method now HasYieldValue f = (let (b, f) = has_yield_value f in (RBool b, f))"
| "run_method now GetState f = (RState (state_of f), f)"
| "run_method now GetDone f = (RBool (f_done f), f)"
| "run_method now TakeError f = (RError (error_payload f), f\<lparr>error_payload := None\<rparr>)"
| "run_method now GetId f = (RId (Some (f_id f)), f)"
| "run_method now GetName f = (RName (f_name f), f)"
| "run_method now (SetName n) f = (RUnit, f\<lparr>f_name := Some n\<rparr>)"

section \<open>User code\<close>

text \<open>
  The library calls of user code, inside a fiber or not. \<open>NewFiber a t p\<close> makes a fiber that runs \<open>p\<close>,
  its value at \<open>a\<close> and its trampoline state at \<open>t\<close>; \<open>MoveFiber\<close> and \<open>DropFiber\<close> are what the language
  does with the value, which the library does not see.
\<close>

datatype ('p, 'v) call =
    YieldNow
  | YieldValue "'v boxed" nat
  | YieldU64 u64
  | TakeInput nat
  | TakeInputU64
  | CurrentFiberId
  | IsCancelled
  | IsDeadlinePassed
  | ShouldYieldEarly
  | Resume nat
  | ResumeWith nat "'v boxed"
  | ResumeWithU64 nat u64
  | Method nat fiber_method
  | NewFiber nat nat 'p
  | MoveFiber nat nat
  | DropFiber nat

datatype ('p, 'v) act =
    Return
  | Panic "'v boxed"
  | Call "('p, 'v) call" "'v reply \<Rightarrow> 'p"

section \<open>Contexts and the thread\<close>

text \<open>
  Where a context continues: in user code; at the start of \<open>fiber_run\<close> on a fresh stack; after the
  switch in \<open>resume\<close> of the fiber at an address, with the saved values of the thread locals; after the
  yield in \<open>yield_value\<close> or \<open>yield_u64\<close>, with the fiber's address in a local variable; in the last loop
  of \<open>fiber_run\<close>. \<open>Halted\<close> is host code that has returned or panicked.
\<close>

datatype ('p, 'v) point =
    Code 'p
  | Enter nat
  | AfterResume nat "nat option" "nat option" "'v reply \<Rightarrow> 'p"
  | AfterYieldValue nat nat "'v reply \<Rightarrow> 'p"
  | AfterYieldU64 nat "'v reply \<Rightarrow> 'p"
  | Finish nat
  | Halted "'v payload option"

text \<open>The stack a context lies on: the host's, or that of the fiber with the trampoline state \<open>t\<close>.\<close>

type_synonym ('p, 'v) ctx = "nat option \<times> ('p, 'v) point"

record ('v, 'p) fiber = "'v fiber_core" +
  fiber_sp :: "('p, 'v) ctx"
  caller_sp :: "('p, 'v) ctx option"
  trampoline :: nat

text \<open>The five back-pointers of a trampoline state all go to the same \<open>Fiber\<close>.\<close>

record 'p trampoline_state =
  closure :: "'p option"
  wired :: "nat option"

record ('v, 'p) thread =
  fibers :: "nat \<Rightarrow> ('v, 'p) fiber option"
  trampolines :: "nat \<Rightarrow> 'p trampoline_state option"
  active_trampoline :: "nat option"
  active_fiber :: "nat option"
  next_fiber_id :: u64
  current :: "('p, 'v) ctx"

definition thread_start :: "'p \<Rightarrow> ('v, 'p) thread" where
  "thread_start p = \<lparr>fibers = (\<lambda>_. None), trampolines = (\<lambda>_. None), active_trampoline = None, active_fiber = None,
     next_fiber_id = 1, current = (None, Code p)\<rparr>"

definition set_fiber :: "nat \<Rightarrow> ('v, 'p) fiber \<Rightarrow> ('v, 'p) thread \<Rightarrow> ('v, 'p) thread" where
  "set_fiber a f th = th\<lparr>fibers := (fibers th)(a \<mapsto> f)\<rparr>"

definition set_trampoline :: "nat \<Rightarrow> 'p trampoline_state \<Rightarrow> ('v, 'p) thread \<Rightarrow> ('v, 'p) thread" where
  "set_trampoline t s th = th\<lparr>trampolines := (trampolines th)(t \<mapsto> s)\<rparr>"

text \<open>User code goes on, on the stack it runs on.\<close>

definition goes_on :: "'p \<Rightarrow> ('v, 'p) thread \<Rightarrow> ('v, 'p) thread" where
  "goes_on p th = th\<lparr>current := (fst (current th), Code p)\<rparr>"

section \<open>Operations\<close>

text \<open>The end of \<open>fiber_run\<close>: the closure has returned, or panicked with a payload.\<close>

definition fiber_end :: "nat \<Rightarrow> 'v payload option \<Rightarrow> ('v, 'p) thread \<Rightarrow> ('v, 'p) thread option" where
  "fiber_end t err th = do {
     s \<leftarrow> trampolines th t;
     a \<leftarrow> wired s;
     f \<leftarrow> fibers th a;
     let f = (case err of None \<Rightarrow> f | Some e \<Rightarrow> f\<lparr>f_errored := True, error_payload := Some e\<rparr>);
     Some (set_fiber a (f\<lparr>f_done := True\<rparr>) th\<lparr>current := (Some t, Finish t)\<rparr>) }"

text \<open>A panic unwinds to \<open>catch_unwind\<close> in \<open>fiber_run\<close>, or out of the host's code.\<close>

definition throw :: "'v payload \<Rightarrow> ('v, 'p) thread \<Rightarrow> ('v, 'p) thread option" where
  "throw e th = (case fst (current th) of
      None \<Rightarrow> Some (th\<lparr>current := (None, Halted (Some e))\<rparr>)
    | Some t \<Rightarrow> fiber_end t (Some e) th)"

definition fiber_new :: "nat \<Rightarrow> nat \<Rightarrow> 'p \<Rightarrow> ('v, 'p) thread \<Rightarrow> ('v, 'p) thread" where
  "fiber_new a t p th = (let core = core_new (next_fiber_id th) in
     set_fiber a (fiber_core.extend core \<lparr>fiber_sp = (Some t, Enter t), caller_sp = None, trampoline = t\<rparr>)
       (set_trampoline t \<lparr>closure = Some p, wired = None\<rparr> (th\<lparr>next_fiber_id := next_fiber_id th + 1\<rparr>)))"

text \<open>\<open>resume\<close> up to the switch, and after it.\<close>

definition resume :: "nat \<Rightarrow> ('v reply \<Rightarrow> 'p) \<Rightarrow> ('v, 'p) thread \<Rightarrow> ('v, 'p) thread option" where
  "resume a k th = do {
     f \<leftarrow> fibers th a;
     if f_done f then throw (Message (''Fiber: cannot resume a fiber in '' @ show_state (state_of f) @ '' state'')) th
     else do {
       s \<leftarrow> trampolines th (trampoline f);
       let th = set_trampoline (trampoline f) (s\<lparr>wired := Some a\<rparr>) th;
       let pa = active_trampoline th;
       let pf = active_fiber th;
       let th = th\<lparr>active_trampoline := Some (trampoline f), active_fiber := Some a\<rparr>;
       let f = f\<lparr>f_started := True, caller_sp := Some (fst (current th), AfterResume a pa pf k)\<rparr>;
       Some (set_fiber a f th\<lparr>current := fiber_sp f\<rparr>) } }"

definition after_resume :: "nat \<Rightarrow> nat option \<Rightarrow> nat option \<Rightarrow> ('v reply \<Rightarrow> 'p) \<Rightarrow> ('v, 'p) thread \<Rightarrow> ('v, 'p) thread option" where
  "after_resume a pa pf k th = do {
     let th = th\<lparr>active_trampoline := pa, active_fiber := pf\<rparr>;
     f \<leftarrow> fibers th a;
     Some (goes_on (k (RStep (step_of f))) th) }"

definition resume_with :: "nat \<Rightarrow> 'v boxed \<Rightarrow> ('v reply \<Rightarrow> 'p) \<Rightarrow> ('v, 'p) thread \<Rightarrow> ('v, 'p) thread option" where
  "resume_with a v k th = do {
     f \<leftarrow> fibers th a;
     resume a k (set_fiber a (f\<lparr>input_slot := Some v\<rparr>) th) }"

definition resume_with_u64 :: "nat \<Rightarrow> u64 \<Rightarrow> ('v reply \<Rightarrow> 'p) \<Rightarrow> ('v, 'p) thread \<Rightarrow> ('v, 'p) thread option" where
  "resume_with_u64 a v k th = do {
     f \<leftarrow> fibers th a;
     resume a k (set_fiber a (f\<lparr>input_u64 := Some v\<rparr>) th) }"

text \<open>
  \<open>yield_now\<close>, saving the context that continues at \<open>q\<close> on the running stack: the switch through the
  slots that the active trampoline state points to.
\<close>

definition yield_now :: "('p, 'v) point \<Rightarrow> ('v, 'p) thread \<Rightarrow> ('v, 'p) thread option" where
  "yield_now q th = (case active_trampoline th of
      None \<Rightarrow> throw (Message ''yield_now: called outside of any active fiber'') th
    | Some t \<Rightarrow> do {
        s \<leftarrow> trampolines th t;
        a \<leftarrow> wired s;
        f \<leftarrow> fibers th a;
        c \<leftarrow> caller_sp f;
        Some (set_fiber a (f\<lparr>fiber_sp := (fst (current th), q)\<rparr>) th\<lparr>current := c\<rparr>) })"

definition yield_value :: "'v boxed \<Rightarrow> nat \<Rightarrow> ('v reply \<Rightarrow> 'p) \<Rightarrow> ('v, 'p) thread \<Rightarrow> ('v, 'p) thread option" where
  "yield_value v ty k th = (case active_fiber th of
      None \<Rightarrow> throw (Message ''yield_value: called outside of any active fiber'') th
    | Some a \<Rightarrow> do {
        f \<leftarrow> fibers th a;
        yield_now (AfterYieldValue a ty k) (set_fiber a (f\<lparr>output_slot := Some v\<rparr>) th) })"

text \<open>\<open>(*fiber_ptr).input_slot.take()\<close> and the downcast, in \<open>yield_value\<close> and in \<open>take_input\<close>.\<close>

definition take_input_of :: "nat \<Rightarrow> nat \<Rightarrow> ('v reply \<Rightarrow> 'p) \<Rightarrow> ('v, 'p) thread \<Rightarrow> ('v, 'p) thread option" where
  "take_input_of a ty k th = do {
     f \<leftarrow> fibers th a;
     Some (goes_on (k (RValue (Option.bind (input_slot f) (downcast ty)))) (set_fiber a (f\<lparr>input_slot := None\<rparr>) th)) }"

definition yield_u64 :: "u64 \<Rightarrow> ('v reply \<Rightarrow> 'p) \<Rightarrow> ('v, 'p) thread \<Rightarrow> ('v, 'p) thread option" where
  "yield_u64 v k th = (case active_fiber th of
      None \<Rightarrow> throw (Message ''yield_u64: called outside of any active fiber'') th
    | Some a \<Rightarrow> do {
        f \<leftarrow> fibers th a;
        yield_now (AfterYieldU64 a k) (set_fiber a (f\<lparr>output_u64 := Some v\<rparr>) th) })"

definition take_input_u64_of :: "nat \<Rightarrow> ('v reply \<Rightarrow> 'p) \<Rightarrow> ('v, 'p) thread \<Rightarrow> ('v, 'p) thread option" where
  "take_input_u64_of a k th = do {
     f \<leftarrow> fibers th a;
     Some (goes_on (k (RU64 (input_u64 f))) (set_fiber a (f\<lparr>input_u64 := None\<rparr>) th)) }"

definition take_input :: "nat \<Rightarrow> ('v reply \<Rightarrow> 'p) \<Rightarrow> ('v, 'p) thread \<Rightarrow> ('v, 'p) thread option" where
  "take_input ty k th = (case active_fiber th of
      None \<Rightarrow> throw (Message ''take_input: called outside of any active fiber'') th
    | Some a \<Rightarrow> take_input_of a ty k th)"

definition take_input_u64 :: "('v reply \<Rightarrow> 'p) \<Rightarrow> ('v, 'p) thread \<Rightarrow> ('v, 'p) thread option" where
  "take_input_u64 k th = (case active_fiber th of
      None \<Rightarrow> throw (Message ''take_input_u64: called outside of any active fiber'') th
    | Some a \<Rightarrow> take_input_u64_of a k th)"

definition current_fiber_id :: "('v, 'p) thread \<Rightarrow> u64 option option" where
  "current_fiber_id th = (case active_fiber th of None \<Rightarrow> Some None | Some a \<Rightarrow> map_option (\<lambda>f. Some (f_id f)) (fibers th a))"

definition is_cancelled :: "('v, 'p) thread \<Rightarrow> bool option" where
  "is_cancelled th = (case active_fiber th of None \<Rightarrow> Some False | Some a \<Rightarrow> map_option f_cancelled (fibers th a))"

definition is_deadline_passed :: "f64 \<Rightarrow> ('v, 'p) thread \<Rightarrow> bool option" where
  "is_deadline_passed now th =
     (case active_fiber th of None \<Rightarrow> Some False | Some a \<Rightarrow> map_option (deadline_passed now) (fibers th a))"

definition should_yield_early :: "f64 \<Rightarrow> ('v, 'p) thread \<Rightarrow> bool option" where
  "should_yield_early now th = do {
     c \<leftarrow> is_cancelled th;
     if c then Some True else is_deadline_passed now th }"

definition call_method :: "f64 \<Rightarrow> nat \<Rightarrow> fiber_method \<Rightarrow> ('v reply \<Rightarrow> 'p) \<Rightarrow> ('v, 'p) thread \<Rightarrow> ('v, 'p) thread option" where
  "call_method now a m k th = do {
     f \<leftarrow> fibers th a;
     let (r, f) = run_method now m f;
     Some (goes_on (k r) (set_fiber a f th)) }"

definition move_fiber :: "nat \<Rightarrow> nat \<Rightarrow> ('v, 'p) thread \<Rightarrow> ('v, 'p) thread option" where
  "move_fiber a b th = do {
     f \<leftarrow> fibers th a;
     Some (th\<lparr>fibers := (fibers th)(a := None, b \<mapsto> f)\<rparr>) }"

definition drop_fiber :: "nat \<Rightarrow> ('v, 'p) thread \<Rightarrow> ('v, 'p) thread option" where
  "drop_fiber a th = do {
     f \<leftarrow> fibers th a;
     Some (th\<lparr>fibers := (fibers th)(a := None), trampolines := (trampolines th)(trampoline f := None)\<rparr>) }"

fun do_call :: "f64 \<Rightarrow> ('p, 'v) call \<Rightarrow> ('v reply \<Rightarrow> 'p) \<Rightarrow> ('v, 'p) thread \<Rightarrow> ('v, 'p) thread option" where
  "do_call now YieldNow k th = yield_now (Code (k RUnit)) th"
| "do_call now (YieldValue v ty) k th = yield_value v ty k th"
| "do_call now (YieldU64 v) k th = yield_u64 v k th"
| "do_call now (TakeInput ty) k th = take_input ty k th"
| "do_call now TakeInputU64 k th = take_input_u64 k th"
| "do_call now CurrentFiberId k th = map_option (\<lambda>r. goes_on (k (RId r)) th) (current_fiber_id th)"
| "do_call now IsCancelled k th = map_option (\<lambda>r. goes_on (k (RBool r)) th) (is_cancelled th)"
| "do_call now IsDeadlinePassed k th = map_option (\<lambda>r. goes_on (k (RBool r)) th) (is_deadline_passed now th)"
| "do_call now ShouldYieldEarly k th = map_option (\<lambda>r. goes_on (k (RBool r)) th) (should_yield_early now th)"
| "do_call now (Resume a) k th = resume a k th"
| "do_call now (ResumeWith a v) k th = resume_with a v k th"
| "do_call now (ResumeWithU64 a v) k th = resume_with_u64 a v k th"
| "do_call now (Method a m) k th = call_method now a m k th"
| "do_call now (NewFiber a t p) k th = Some (goes_on (k RUnit) (fiber_new a t p th))"
| "do_call now (MoveFiber a b) k th = map_option (goes_on (k RUnit)) (move_fiber a b th)"
| "do_call now (DropFiber a) k th = map_option (goes_on (k RUnit)) (drop_fiber a th)"

text \<open>
  One step of the thread: user code, or the library code behind a switch. \<open>Enter\<close> is \<open>fiber_run\<close> up to
  the closure, \<open>Finish\<close> the switch of its loop.
\<close>

fun fiber_thread_step :: "('p \<Rightarrow> ('p, 'v) act) \<Rightarrow> f64 \<Rightarrow> ('v, 'p) thread \<Rightarrow> ('v, 'p) thread option" where
  "fiber_thread_step user now th = (case snd (current th) of
      Code p \<Rightarrow>
        (case user p of
           Return \<Rightarrow> (case fst (current th) of None \<Rightarrow> Some (th\<lparr>current := (None, Halted None)\<rparr>) | Some t \<Rightarrow> fiber_end t None th)
         | Panic e \<Rightarrow> throw (Thrown e) th
         | Call c k \<Rightarrow> do_call now c k th)
    | Enter t \<Rightarrow> do {
        s \<leftarrow> trampolines th t;
        case closure s of
          None \<Rightarrow> fiber_end t None th
        | Some p \<Rightarrow> Some (goes_on p (set_trampoline t (s\<lparr>closure := None\<rparr>) th)) }
    | AfterResume a pa pf k \<Rightarrow> after_resume a pa pf k th
    | AfterYieldValue a ty k \<Rightarrow> take_input_of a ty k th
    | AfterYieldU64 a k \<Rightarrow> take_input_u64_of a k th
    | Finish t \<Rightarrow> do {
        s \<leftarrow> trampolines th t;
        a \<leftarrow> wired s;
        f \<leftarrow> fibers th a;
        c \<leftarrow> caller_sp f;
        Some (set_fiber a (f\<lparr>fiber_sp := (fst (current th), Finish t)\<rparr>) th\<lparr>current := c\<rparr>) }
    | Halted e \<Rightarrow> Some th)"

end
