(* ===== verification/Krio_Coroutine.thy ===== *)
theory Krio_Coroutine
  imports Krio_Fiber
begin

text \<open>
  What fibers are for: coroutines. An abstract thread keeps, for every coroutine, its record and what
  it goes on with when it is resumed, and a stack of the coroutines that are running, each with the
  continuation of the code that resumed it. There are no pointers, no saved contexts and no thread
  locals. The thread of \<open>Krio_Fiber\<close> refines it, as long as no coroutine that waits in \<open>yield_value\<close> or
  \<open>yield_u64\<close> is moved.
\<close>

section \<open>Coroutines\<close>

datatype ('p, 'v) cont =
    CNew 'p
  | CYieldNow "'v reply \<Rightarrow> 'p"
  | CYieldValue nat "'v reply \<Rightarrow> 'p"
  | CYieldU64 "'v reply \<Rightarrow> 'p"
  | CRunning
  | CDone

record ('v, 'p) coro =
  core :: "'v fiber_core"
  cont :: "('p, 'v) cont"
  box :: nat

type_synonym ('p, 'v) frame = "nat \<times> nat \<times> ('v reply \<Rightarrow> 'p)"

datatype ('p, 'v) cur = ACode 'p | AHalt "'v payload option"

record ('v, 'p) cothread =
  coroutines :: "nat \<Rightarrow> ('v, 'p) coro option"
  boxes :: "nat \<Rightarrow> bool"
  frames :: "('p, 'v) frame list"
  next_id :: u64
  cur :: "('p, 'v) cur"

definition cothread_start :: "'p \<Rightarrow> ('v, 'p) cothread" where
  "cothread_start p = \<lparr>coroutines = (\<lambda>_. None), boxes = (\<lambda>_. False), frames = [], next_id = 1, cur = ACode p\<rparr>"

definition on_stack :: "nat \<Rightarrow> ('v, 'p) cothread \<Rightarrow> bool" where
  "on_stack a s \<longleftrightarrow> a \<in> fst ` set (frames s)"

definition set_co :: "nat \<Rightarrow> ('v, 'p) coro \<Rightarrow> ('v, 'p) cothread \<Rightarrow> ('v, 'p) cothread" where
  "set_co a x s = s\<lparr>coroutines := (coroutines s)(a \<mapsto> x)\<rparr>"

text \<open>The running coroutine leaves: its resumer goes on with the outcome.\<close>

definition leave :: "(('v, 'p) coro \<Rightarrow> ('v, 'p) coro) \<Rightarrow> ('v, 'p) cothread \<Rightarrow> ('v, 'p) cothread option" where
  "leave upd s = (case frames s of
      [] \<Rightarrow> None
    | (a, t, k) # fs \<Rightarrow> do {
        x \<leftarrow> coroutines s a;
        let x = upd x;
        Some (set_co a x s\<lparr>frames := fs, cur := ACode (k (RStep (step_of (core x))))\<rparr>) })"

definition finish :: "'v payload option \<Rightarrow> ('v, 'p) cothread \<Rightarrow> ('v, 'p) cothread option" where
  "finish err s = (if frames s = [] then Some (s\<lparr>cur := AHalt err\<rparr>)
     else leave (\<lambda>x. x\<lparr>core := (case err of None \<Rightarrow> core x | Some e \<Rightarrow> (core x)\<lparr>f_errored := True, error_payload := Some e\<rparr>)
                                \<lparr>f_done := True\<rparr>, cont := CDone\<rparr>) s)"

definition co_yield :: "string \<Rightarrow> (('v, 'p) coro \<Rightarrow> ('v, 'p) coro) \<Rightarrow> ('v, 'p) cothread \<Rightarrow> ('v, 'p) cothread option" where
  "co_yield msg upd s = (if frames s = [] then finish (Some (Message msg)) s else leave upd s)"

text \<open>The resumed coroutine goes on.\<close>

fun wake_up :: "('p, 'v) cont \<Rightarrow> 'v fiber_core \<Rightarrow> ('p \<times> 'v fiber_core) option" where
  "wake_up (CNew p) f = Some (p, f)"
| "wake_up (CYieldNow k) f = Some (k RUnit, f)"
| "wake_up (CYieldValue ty k) f = Some (k (RValue (Option.bind (input_slot f) (downcast ty))), f\<lparr>input_slot := None\<rparr>)"
| "wake_up (CYieldU64 k) f = Some (k (RU64 (input_u64 f)), f\<lparr>input_u64 := None\<rparr>)"
| "wake_up CRunning f = None"
| "wake_up CDone f = None"

definition co_resume :: "nat \<Rightarrow> ('v fiber_core \<Rightarrow> 'v fiber_core) \<Rightarrow> ('v reply \<Rightarrow> 'p) \<Rightarrow> ('v, 'p) cothread \<Rightarrow> ('v, 'p) cothread option" where
  "co_resume a inp k s = do {
     x \<leftarrow> coroutines s a;
     if on_stack a s then None
     else let f = inp (core x) in
       if f_done f
       then finish (Some (Message (''Fiber: cannot resume a fiber in '' @ show_state (state_of f) @ '' state'')))
              (set_co a (x\<lparr>core := f\<rparr>) s)
       else do {
         (p, f) \<leftarrow> wake_up (cont x) (f\<lparr>f_started := True\<rparr>);
         Some (set_co a (x\<lparr>core := f, cont := CRunning\<rparr>) s\<lparr>frames := (a, box x, k) # frames s, cur := ACode p\<rparr>) } }"

text \<open>The running coroutine's record, for the calls that read or empty a part of it.\<close>

definition co_self :: "('v fiber_core \<Rightarrow> 'v reply \<times> 'v fiber_core) \<Rightarrow> ('v reply \<Rightarrow> 'p) \<Rightarrow> nat \<Rightarrow> ('v, 'p) cothread \<Rightarrow> ('v, 'p) cothread option" where
  "co_self g k a s = do {
     x \<leftarrow> coroutines s a;
     let (r, f) = g (core x);
     Some (set_co a (x\<lparr>core := f\<rparr>) s\<lparr>cur := ACode (k r)\<rparr>) }"

definition co_input :: "string \<Rightarrow> ('v fiber_core \<Rightarrow> 'v reply \<times> 'v fiber_core) \<Rightarrow> ('v reply \<Rightarrow> 'p) \<Rightarrow> ('v, 'p) cothread \<Rightarrow> ('v, 'p) cothread option" where
  "co_input msg g k s = (case frames s of [] \<Rightarrow> finish (Some (Message msg)) s | (a, _) # _ \<Rightarrow> co_self g k a s)"

definition co_poll :: "'v reply \<Rightarrow> ('v fiber_core \<Rightarrow> 'v reply) \<Rightarrow> ('v reply \<Rightarrow> 'p) \<Rightarrow> ('v, 'p) cothread \<Rightarrow> ('v, 'p) cothread option" where
  "co_poll r g k s = (case frames s of
      [] \<Rightarrow> Some (s\<lparr>cur := ACode (k r)\<rparr>)
    | (a, _) # _ \<Rightarrow> do { x \<leftarrow> coroutines s a; Some (s\<lparr>cur := ACode (k (g (core x)))\<rparr>) })"

fun co_call :: "f64 \<Rightarrow> ('p, 'v) call \<Rightarrow> ('v reply \<Rightarrow> 'p) \<Rightarrow> ('v, 'p) cothread \<Rightarrow> ('v, 'p) cothread option" where
  "co_call now YieldNow k s = co_yield ''yield_now: called outside of any active fiber'' (\<lambda>x. x\<lparr>cont := CYieldNow k\<rparr>) s"
| "co_call now (YieldValue v ty) k s = co_yield ''yield_value: called outside of any active fiber''
     (\<lambda>x. x\<lparr>core := (core x)\<lparr>output_slot := Some v\<rparr>, cont := CYieldValue ty k\<rparr>) s"
| "co_call now (YieldU64 v) k s = co_yield ''yield_u64: called outside of any active fiber''
     (\<lambda>x. x\<lparr>core := (core x)\<lparr>output_u64 := Some v\<rparr>, cont := CYieldU64 k\<rparr>) s"
| "co_call now (TakeInput ty) k s = co_input ''take_input: called outside of any active fiber''
     (\<lambda>f. (RValue (Option.bind (input_slot f) (downcast ty)), f\<lparr>input_slot := None\<rparr>)) k s"
| "co_call now TakeInputU64 k s = co_input ''take_input_u64: called outside of any active fiber''
     (\<lambda>f. (RU64 (input_u64 f), f\<lparr>input_u64 := None\<rparr>)) k s"
| "co_call now CurrentFiberId k s = co_poll (RId None) (\<lambda>f. RId (Some (f_id f))) k s"
| "co_call now IsCancelled k s = co_poll (RBool False) (\<lambda>f. RBool (f_cancelled f)) k s"
| "co_call now IsDeadlinePassed k s = co_poll (RBool False) (\<lambda>f. RBool (deadline_passed now f)) k s"
| "co_call now ShouldYieldEarly k s = co_poll (RBool False) (\<lambda>f. RBool (f_cancelled f \<or> deadline_passed now f)) k s"
| "co_call now (Resume a) k s = co_resume a (\<lambda>f. f) k s"
| "co_call now (ResumeWith a v) k s = co_resume a (\<lambda>f. f\<lparr>input_slot := Some v\<rparr>) k s"
| "co_call now (ResumeWithU64 a v) k s = co_resume a (\<lambda>f. f\<lparr>input_u64 := Some v\<rparr>) k s"
| "co_call now (Method a m) k s = (if on_stack a s then None else co_self (run_method now m) k a s)"
| "co_call now (NewFiber a t p) k s = (if coroutines s a \<noteq> None \<or> boxes s t then None
     else Some (set_co a \<lparr>core = core_new (next_id s), cont = CNew p, box = t\<rparr> s
       \<lparr>boxes := (boxes s)(t := True), next_id := next_id s + 1, cur := ACode (k RUnit)\<rparr>))"
| "co_call now (MoveFiber a b) k s = (if on_stack a s \<or> coroutines s b \<noteq> None then None
     else do { x \<leftarrow> coroutines s a;
       Some (s\<lparr>coroutines := (coroutines s)(a := None, b \<mapsto> x), cur := ACode (k RUnit)\<rparr>) })"
| "co_call now (DropFiber a) k s = (if on_stack a s then None
     else do { x \<leftarrow> coroutines s a;
       Some (s\<lparr>coroutines := (coroutines s)(a := None), boxes := (boxes s)(box x := False), cur := ACode (k RUnit)\<rparr>) })"

fun co_step :: "('p \<Rightarrow> ('p, 'v) act) \<Rightarrow> f64 \<Rightarrow> ('v, 'p) cothread \<Rightarrow> ('v, 'p) cothread option" where
  "co_step user now s = (case cur s of
      AHalt e \<Rightarrow> Some s
    | ACode p \<Rightarrow> (case user p of
          Return \<Rightarrow> finish None s
        | Panic e \<Rightarrow> finish (Some (Thrown e)) s
        | Call c k \<Rightarrow> co_call now c k s))"

text \<open>
  The one thing user code must not do: move a fiber that waits in a yield that passes values.
\<close>

definition waits_for_value :: "('p, 'v) cont \<Rightarrow> bool" where
  "waits_for_value c = (case c of CYieldValue _ _ \<Rightarrow> True | CYieldU64 _ \<Rightarrow> True | _ \<Rightarrow> False)"

definition pins :: "('p \<Rightarrow> ('p, 'v) act) \<Rightarrow> ('v, 'p) cothread \<Rightarrow> bool" where
  "pins user s = (case cur s of
      ACode p \<Rightarrow> (case user p of
          Call (MoveFiber a b) k \<Rightarrow> (case coroutines s a of Some x \<Rightarrow> \<not> waits_for_value (cont x) | None \<Rightarrow> True)
        | _ \<Rightarrow> True)
    | AHalt e \<Rightarrow> True)"

section \<open>Refinement\<close>

fun box_of :: "('p, 'v) frame list \<Rightarrow> nat option" where
  "box_of [] = None"
| "box_of ((a, t, k) # fs) = Some t"

fun addr_of :: "('p, 'v) frame list \<Rightarrow> nat option" where
  "addr_of [] = None"
| "addr_of ((a, t, k) # fs) = Some a"

definition embed :: "('v, 'p) coro \<Rightarrow> ('p, 'v) ctx \<Rightarrow> ('p, 'v) ctx option \<Rightarrow> ('v, 'p) fiber" where
  "embed x sp c = fiber_core.extend (core x) \<lparr>fiber_sp = sp, caller_sp = c, trampoline = box x\<rparr>"

text \<open>The saved context of a coroutine that is not running, and its trampoline state.\<close>

fun parked_at :: "nat \<Rightarrow> nat \<Rightarrow> ('p, 'v) cont \<Rightarrow> ('p, 'v) ctx \<Rightarrow> 'p option \<Rightarrow> bool" where
  "parked_at a t (CNew p) sp cl = (sp = (Some t, Enter t) \<and> cl = Some p)"
| "parked_at a t (CYieldNow k) sp cl = (sp = (Some t, Code (k RUnit)) \<and> cl = None)"
| "parked_at a t (CYieldValue ty k) sp cl = (sp = (Some t, AfterYieldValue a ty k) \<and> cl = None)"
| "parked_at a t (CYieldU64 k) sp cl = (sp = (Some t, AfterYieldU64 a k) \<and> cl = None)"
| "parked_at a t CRunning sp cl = (cl = None)"
| "parked_at a t CDone sp cl = (cl = None)"

definition fiber_rel :: "(nat \<Rightarrow> 'p trampoline_state option) \<Rightarrow> nat \<Rightarrow> ('v, 'p) coro \<Rightarrow> ('v, 'p) fiber \<Rightarrow> bool" where
  "fiber_rel ts a x f \<longleftrightarrow> (\<exists>sp c s. f = embed x sp c \<and> ts (box x) = Some s \<and> parked_at a (box x) (cont x) sp (closure s) \<and>
     (cont x = CRunning \<longrightarrow> wired s = Some a) \<and> (cont x = CDone \<longleftrightarrow> f_done (core x)))"

fun chain :: "(nat \<Rightarrow> ('v, 'p) fiber option) \<Rightarrow> ('p, 'v) frame list \<Rightarrow> bool" where
  "chain fib [] = True"
| "chain fib ((a, t, k) # fs) = ((\<exists>f. fib a = Some f \<and> trampoline f = t \<and>
     caller_sp f = Some (box_of fs, AfterResume a (box_of fs) (addr_of fs) k)) \<and> a \<notin> fst ` set fs \<and> chain fib fs)"

definition cur_rel :: "('p, 'v) frame list \<Rightarrow> ('p, 'v) cur \<Rightarrow> ('p, 'v) ctx \<Rightarrow> bool" where
  "cur_rel fs c x = (case c of ACode p \<Rightarrow> x = (box_of fs, Code p) | AHalt e \<Rightarrow> fs = [] \<and> x = (None, Halted e))"

definition thread_rel :: "('v, 'p) cothread \<Rightarrow> ('v, 'p) thread \<Rightarrow> bool" where
  "thread_rel s th \<longleftrightarrow>
     (\<forall>a. rel_option (fiber_rel (trampolines th) a) (coroutines s a) (fibers th a)) \<and>
     (\<forall>a x. coroutines s a = Some x \<longrightarrow> (cont x = CRunning \<longleftrightarrow> on_stack a s)) \<and>
     (\<forall>a b x y. coroutines s a = Some x \<longrightarrow> coroutines s b = Some y \<longrightarrow> box x = box y \<longrightarrow> a = b) \<and>
     (\<forall>t. boxes s t \<longleftrightarrow> trampolines th t \<noteq> None) \<and>
     chain (fibers th) (frames s) \<and>
     active_trampoline th = box_of (frames s) \<and> active_fiber th = addr_of (frames s) \<and>
     next_fiber_id th = next_id s \<and> cur_rel (frames s) (cur s) (current th)"

subsection \<open>The relation\<close>

lemma thread_relD:
  assumes "thread_rel s th"
  shows "rel_option (fiber_rel (trampolines th) a) (coroutines s a) (fibers th a)"
    and "coroutines s a = Some x \<Longrightarrow> cont x = CRunning \<longleftrightarrow> on_stack a s"
    and "coroutines s a = Some x \<Longrightarrow> coroutines s b = Some y \<Longrightarrow> box x = box y \<Longrightarrow> a = b"
    and "boxes s t \<longleftrightarrow> trampolines th t \<noteq> None"
    and "chain (fibers th) (frames s)"
    and "active_trampoline th = box_of (frames s)" "active_fiber th = addr_of (frames s)"
    and "next_fiber_id th = next_id s" and "cur_rel (frames s) (cur s) (current th)"
  using assms unfolding thread_rel_def by blast+

lemma fiber_relD:
  assumes "thread_rel s th" "coroutines s a = Some x"
  obtains sp c r where "fibers th a = Some (embed x sp c)" "trampolines th (box x) = Some r"
    "parked_at a (box x) (cont x) sp (closure r)" "cont x = CRunning \<longrightarrow> wired r = Some a" "cont x = CDone \<longleftrightarrow> f_done (core x)"
  using thread_relD(1) [OF assms(1), of a] assms(2) by (auto simp: fiber_rel_def option_rel_Some1)

lemma chain_upd [simp]: "a \<notin> fst ` set fs \<Longrightarrow> chain (fib(a := y)) fs = chain fib fs"
  by (induction fs rule: chain.induct) auto

lemma chain_in: "chain fib fs \<Longrightarrow> a \<in> fst ` set fs \<Longrightarrow> \<exists>f. fib a = Some f"
  by (induction fs rule: chain.induct) auto

lemma chain_distinct: "chain fib ((a, t, k) # fs) \<Longrightarrow> a \<notin> fst ` set fs"
  by simp

lemma box_of_None [simp]: "box_of fs = None \<longleftrightarrow> fs = []"
  by (cases fs) auto

lemma addr_of_None [simp]: "addr_of fs = None \<longleftrightarrow> fs = []"
  by (cases fs) auto

lemma embed_simps [simp]:
  "trampoline (embed x sp c) = box x" "caller_sp (embed x sp c) = c" "fiber_sp (embed x sp c) = sp"
  "f_done (embed x sp c) = f_done (core x)" "f_errored (embed x sp c) = f_errored (core x)"
  "f_started (embed x sp c) = f_started (core x)" "f_id (embed x sp c) = f_id (core x)"
  "f_cancelled (embed x sp c) = f_cancelled (core x)" "f_deadline (embed x sp c) = f_deadline (core x)"
  "input_slot (embed x sp c) = input_slot (core x)" "input_u64 (embed x sp c) = input_u64 (core x)"
  "step_of (embed x sp c) = step_of (core x)" "deadline_passed now (embed x sp c) = deadline_passed now (core x)"
  "state_of (embed x sp c) = state_of (core x)"
  by (simp_all add: embed_def fiber_core.defs step_of_def deadline_passed_def state_of_def)

lemma embed_updates [simp]:
  "(embed x sp c)\<lparr>fiber_sp := sp'\<rparr> = embed x sp' c" "(embed x sp c)\<lparr>caller_sp := c'\<rparr> = embed x sp c'"
  "(embed x sp c)\<lparr>f_done := d\<rparr> = embed (x\<lparr>core := (core x)\<lparr>f_done := d\<rparr>\<rparr>) sp c"
  "(embed x sp c)\<lparr>f_started := d\<rparr> = embed (x\<lparr>core := (core x)\<lparr>f_started := d\<rparr>\<rparr>) sp c"
  "(embed x sp c)\<lparr>f_errored := d, error_payload := e\<rparr> = embed (x\<lparr>core := (core x)\<lparr>f_errored := d, error_payload := e\<rparr>\<rparr>) sp c"
  "(embed x sp c)\<lparr>input_slot := i\<rparr> = embed (x\<lparr>core := (core x)\<lparr>input_slot := i\<rparr>\<rparr>) sp c"
  "(embed x sp c)\<lparr>input_u64 := j\<rparr> = embed (x\<lparr>core := (core x)\<lparr>input_u64 := j\<rparr>\<rparr>) sp c"
  "(embed x sp c)\<lparr>output_slot := i\<rparr> = embed (x\<lparr>core := (core x)\<lparr>output_slot := i\<rparr>\<rparr>) sp c"
  "(embed x sp c)\<lparr>output_u64 := j\<rparr> = embed (x\<lparr>core := (core x)\<lparr>output_u64 := j\<rparr>\<rparr>) sp c"
  by (simp_all add: embed_def fiber_core.defs)

lemma embed_cont [simp]: "embed (x\<lparr>cont := q\<rparr>) sp c = embed x sp c"
  by (simp add: embed_def)

lemma run_method_embed:
  "run_method now m (embed x sp c) = (let (r, f) = run_method now m (core x) in (r, embed (x\<lparr>core := f\<rparr>) sp c))"
  by (cases m) (simp_all add: embed_def fiber_core.defs deadline_passed_def state_of_def take_yield_value_def has_yield_value_def
      Let_def split: option.splits)

lemma run_method_done [simp]: "f_done (snd (run_method now m f)) = f_done f"
  by (cases m) (simp_all add: take_yield_value_def has_yield_value_def Let_def split: option.splits)

text \<open>A change of one coroutine, of its trampoline state, of the stack and of what runs.\<close>

lemma thread_rel_put:
  assumes rel: "thread_rel s th" and x: "coroutines s a = Some x" and boxeq: "box x' = box x"
    and parked: "parked_at a (box x) (cont x') sp (closure r)" and wired: "cont x' = CRunning \<longrightarrow> wired r = Some a"
    and fin: "cont x' = CDone \<longleftrightarrow> f_done (core x')"
    and run: "cont x' = CRunning \<longleftrightarrow> a \<in> fst ` set fs" and others: "fst ` set fs - {a} = fst ` set (frames s) - {a}"
    and ch: "chain ((fibers th)(a \<mapsto> embed x' sp c)) fs" and cur: "cur_rel fs q z"
  shows "thread_rel (set_co a x' s\<lparr>frames := fs, cur := q\<rparr>)
    (set_fiber a (embed x' sp c) (set_trampoline (box x) r th)\<lparr>active_trampoline := box_of fs, active_fiber := addr_of fs, current := z\<rparr>)"
proof -
  let ?ts = "(trampolines th)(box x \<mapsto> r)"
  have "rel_option (fiber_rel ?ts b) (((coroutines s)(a \<mapsto> x')) b) (((fibers th)(a \<mapsto> embed x' sp c)) b)" for b
  proof (cases "b = a")
    case True
    have "fiber_rel ?ts a x' (embed x' sp c)"
      unfolding fiber_rel_def using parked wired fin boxeq by (intro exI [of _ sp] exI [of _ c] exI [of _ r]) simp
    with True show ?thesis by simp
  next
    case False
    have "box y \<noteq> box x" if "coroutines s b = Some y" for y using thread_relD(3) [OF rel that x] False by auto
    with thread_relD(1) [OF rel, of b] False show ?thesis by (auto simp: fiber_rel_def option_rel_Some1 elim!: option.rel_cases)
  qed
  moreover have "coroutines s b = Some y \<Longrightarrow> b \<noteq> a \<Longrightarrow> cont y = CRunning \<longleftrightarrow> b \<in> fst ` set fs" for b y
    using thread_relD(2) [OF rel, of b y] others unfolding on_stack_def by blast
  moreover have "boxes s (box x)" using fiber_relD [OF rel x] thread_relD(4) [OF rel] by (metis option.distinct(1))
  ultimately show ?thesis
    using run ch cur boxeq x thread_relD(3,4,8) [OF rel]
    by (auto simp: thread_rel_def set_co_def set_fiber_def set_trampoline_def on_stack_def)
qed

subsection \<open>The steps\<close>

primrec thread_run :: "('p \<Rightarrow> ('p, 'v) act) \<Rightarrow> f64 \<Rightarrow> nat \<Rightarrow> ('v, 'p) thread \<Rightarrow> ('v, 'p) thread option" where
  "thread_run user now 0 th = Some th"
| "thread_run user now (Suc n) th = Option.bind (fiber_thread_step user now th) (thread_run user now n)"

lemma thread_run_Some [simp]: "fiber_thread_step user now th = Some th' \<Longrightarrow> thread_run user now (Suc n) th = thread_run user now n th'"
  by simp

text \<open>What is known of the running coroutine.\<close>

lemma running_facts:
  assumes "thread_rel s th" "frames s = (a, t, k) # fs" "coroutines s a = Some x"
  obtains sp r where "fibers th a = Some (embed x sp (Some (box_of fs, AfterResume a (box_of fs) (addr_of fs) k)))"
    "trampolines th t = Some r" "box x = t" "closure r = None" "wired r = Some a" "\<not> f_done (core x)" "cont x = CRunning"
    "a \<notin> fst ` set fs" "chain (fibers th) fs"
proof -
  have run: "cont x = CRunning" using thread_relD(2) [OF assms(1,3)] assms(2) by (simp add: on_stack_def)
  obtain sp c r where f: "fibers th a = Some (embed x sp c)" "trampolines th (box x) = Some r"
    "parked_at a (box x) (cont x) sp (closure r)" "cont x = CRunning \<longrightarrow> wired r = Some a" "cont x = CDone \<longleftrightarrow> f_done (core x)"
    using fiber_relD [OF assms(1,3)] .
  have ch: "box x = t" "c = Some (box_of fs, AfterResume a (box_of fs) (addr_of fs) k)" "a \<notin> fst ` set fs" "chain (fibers th) fs"
    using thread_relD(5) [OF assms(1)] f(1) unfolding assms(2) by auto
  show ?thesis using f ch run by (intro that [of sp r]) auto
qed

text \<open>
  After the switch out of the running fiber, whatever the fiber recorded before it: the resumer runs.
\<close>

lemma leave_refines:
  assumes rel: "thread_rel s th" and fr: "frames s = (a, t, k) # fs" and x: "coroutines s a = Some x"
    and upd: "box (upd x) = t" "parked_at a t (cont (upd x)) sp None" "cont (upd x) \<noteq> CRunning" "cont (upd x) = CDone \<longleftrightarrow> f_done (core (upd x))"
  shows "\<exists>th'. fiber_thread_step user now
      (set_fiber a (embed (upd x) sp (Some (box_of fs, AfterResume a (box_of fs) (addr_of fs) k))) th
        \<lparr>current := (box_of fs, AfterResume a (box_of fs) (addr_of fs) k)\<rparr>) = Some th' \<and>
    (\<exists>s'. leave upd s = Some s' \<and> thread_rel s' th')"
proof -
  let ?c = "Some (box_of fs, AfterResume a (box_of fs) (addr_of fs) k)"
  obtain sp0 r where f: "fibers th a = Some (embed x sp0 ?c)" "trampolines th t = Some r" "box x = t" "closure r = None"
    "a \<notin> fst ` set fs" "chain (fibers th) fs"
    using running_facts [OF rel fr x] by metis
  have same: "set_trampoline t r th = th" using f(2) by (cases th) (simp add: set_trampoline_def fun_upd_idem)
  have "thread_rel (set_co a (upd x) s\<lparr>frames := fs, cur := ACode (k (RStep (step_of (core (upd x)))))\<rparr>)
      (set_fiber a (embed (upd x) sp ?c) (set_trampoline (box x) r th)
        \<lparr>active_trampoline := box_of fs, active_fiber := addr_of fs, current := (box_of fs, Code (k (RStep (step_of (core (upd x))))))\<rparr>)"
    using f upd by (intro thread_rel_put [OF rel x]) (auto simp: fr cur_rel_def)
  then show ?thesis
    by (simp add: leave_def fr x after_resume_def set_fiber_def goes_on_def f(3) same Let_def)
qed

text \<open>A step of the concrete thread that is the first of at most three after which the threads agree.\<close>

definition catches_up :: "('p \<Rightarrow> ('p, 'v) act) \<Rightarrow> f64 \<Rightarrow> ('v, 'p) thread option \<Rightarrow> ('v, 'p) cothread \<Rightarrow> bool" where
  "catches_up user now r s' \<longleftrightarrow> (\<exists>n\<le>2. \<exists>th'. Option.bind r (thread_run user now n) = Some th' \<and> thread_rel s' th')"

lemma catches_up_now: "thread_rel s' th' \<Longrightarrow> catches_up user now (Some th') s'"
  unfolding catches_up_def by (intro exI [of _ 0]) simp

lemma catches_up_next: "fiber_thread_step user now th1 = Some th' \<Longrightarrow> thread_rel s' th' \<Longrightarrow> catches_up user now (Some th1) s'"
  unfolding catches_up_def by (intro exI [of _ "Suc 0"]) simp

lemma catches_up_later:
  "fiber_thread_step user now th1 = Some th2 \<Longrightarrow> fiber_thread_step user now th2 = Some th' \<Longrightarrow> thread_rel s' th' \<Longrightarrow>
    catches_up user now (Some th1) s'"
  unfolding catches_up_def by (intro exI [of _ "Suc (Suc 0)"]) simp

lemma set_fiber_twice [simp]: "set_fiber a f (set_fiber a g th) = set_fiber a f th"
  by (simp add: set_fiber_def)

lemma set_fiber_upd [simp]:
  "fibers (set_fiber a f th) = (fibers th)(a \<mapsto> f)" "trampolines (set_fiber a f th) = trampolines th"
  "active_trampoline (set_fiber a f th) = active_trampoline th" "active_fiber (set_fiber a f th) = active_fiber th"
  "current (set_fiber a f th) = current th" "next_fiber_id (set_fiber a f th) = next_fiber_id th"
  by (simp_all add: set_fiber_def)

definition ends :: "'v payload option \<Rightarrow> ('v, 'p) thread \<Rightarrow> ('v, 'p) thread option" where
  "ends err th = (case fst (current th) of None \<Rightarrow> Some (th\<lparr>current := (None, Halted err)\<rparr>) | Some t \<Rightarrow> fiber_end t err th)"

lemma throw_ends: "throw e = ends (Some e)"
  by (rule ext) (simp add: throw_def ends_def split: option.split)

lemma frames_cases:
  assumes "thread_rel s th"
  obtains "frames s = []"
  | a t k fs x where "frames s = (a, t, k) # fs" "coroutines s a = Some x"
proof (cases "frames s")
  case Nil
  then show ?thesis using that by blast
next
  case (Cons y fs)
  obtain a t k where y: "y = (a, t, k)" by (cases y)
  have "fibers th a \<noteq> None" using chain_in [OF thread_relD(5) [OF assms], of a] Cons y by auto
  then obtain x where "coroutines s a = Some x" using thread_relD(1) [OF assms, of a] by (cases "coroutines s a") auto
  then show ?thesis using that(2) Cons y by blast
qed

lemma finish_refines:
  assumes rel: "thread_rel s th" and cur: "fst (current th) = box_of (frames s)" and fin: "finish err s = Some s'"
  shows "catches_up user now (ends err th) s'"
  using rel
proof (cases rule: frames_cases)
  case 1
  then show ?thesis
    using fin cur rel by (auto simp: finish_def ends_def thread_rel_def cur_rel_def on_stack_def intro!: catches_up_now)
next
  case (2 a t k fs x)
  let ?c = "Some (box_of fs, AfterResume a (box_of fs) (addr_of fs) k)"
  let ?u = "\<lambda>x. x\<lparr>core := (case err of None \<Rightarrow> core x | Some e \<Rightarrow> (core x)\<lparr>f_errored := True, error_payload := Some e\<rparr>)
                                \<lparr>f_done := True\<rparr>, cont := CDone\<rparr>"
  obtain sp r where f: "fibers th a = Some (embed x sp ?c)" "trampolines th t = Some r" "box x = t" "closure r = None" "wired r = Some a"
    using running_facts [OF rel 2] by metis
  obtain th' s1 where th': "fiber_thread_step user now (set_fiber a (embed (?u x) (Some t, Finish t) ?c) th
      \<lparr>current := (box_of fs, AfterResume a (box_of fs) (addr_of fs) k)\<rparr>) = Some th'" "leave ?u s = Some s1" "thread_rel s1 th'"
    using leave_refines [OF rel 2, of ?u "(Some t, Finish t)" user now] f(3) by auto
  have "s1 = s'" using fin th'(2) 2 by (simp add: finish_def)
  moreover have "ends err th = Some (set_fiber a (embed (?u x) sp ?c) th\<lparr>current := (Some t, Finish t)\<rparr>)"
    using f cur 2 by (auto simp: ends_def fiber_end_def embed_def fiber_core.defs split: option.split)
  ultimately show ?thesis
    using th' f by (auto intro!: catches_up_later simp: set_fiber_def)
qed

lemma current_running: "thread_rel s th \<Longrightarrow> cur s = ACode p \<Longrightarrow> current th = (box_of (frames s), Code p)"
  by (simp add: thread_rel_def cur_rel_def)

lemma set_cur_rel: "thread_rel s th \<Longrightarrow> cur_rel (frames s) q z \<Longrightarrow> thread_rel (s\<lparr>cur := q\<rparr>) (th\<lparr>current := z\<rparr>)"
  by (auto simp: thread_rel_def on_stack_def)

lemma set_trampoline_same: "trampolines th t = Some r \<Longrightarrow> set_trampoline t r th = th"
  by (cases th) (simp add: set_trampoline_def fun_upd_idem)

lemma set_fiber_same: "fibers th a = Some f \<Longrightarrow> set_fiber a f th = th"
  by (cases th) (simp add: set_fiber_def fun_upd_idem)

lemma yield_refines:
  assumes rel: "thread_rel s th" and cur: "cur s = ACode p" and yld: "co_yield msg upd s = Some s'"
    and core: "\<And>x sp c. g (embed x sp c) = embed (upd x) sp c" and upd: "\<And>x. box (upd x) = box x" "\<And>x. f_done (core (upd x)) = f_done (core x)"
    and cont: "\<And>a x. parked_at a (box x) (cont (upd x)) (Some (box x), q a) None" "\<And>x. cont (upd x) \<noteq> CRunning \<and> cont (upd x) \<noteq> CDone"
  shows "catches_up user now (case active_fiber th of None \<Rightarrow> throw (Message msg) th
    | Some a \<Rightarrow> do { f \<leftarrow> fibers th a; yield_now (q a) (set_fiber a (g f) th) }) s'"
  using rel
proof (cases rule: frames_cases)
  case 1
  then have "active_fiber th = None" using thread_relD(7) [OF rel] by simp
  moreover have "catches_up user now (ends (Some (Message msg)) th) s'"
    using yld 1 current_running [OF rel cur] by (intro finish_refines [OF rel]) (simp_all add: co_yield_def)
  ultimately show ?thesis by (simp add: throw_ends)
next
  case (2 a t k fs x)
  let ?c = "Some (box_of fs, AfterResume a (box_of fs) (addr_of fs) k)"
  obtain sp r where f: "fibers th a = Some (embed x sp ?c)" "trampolines th t = Some r" "box x = t" "wired r = Some a" "\<not> f_done (core x)"
    using running_facts [OF rel 2] by metis
  obtain th' s1 where th': "fiber_thread_step user now (set_fiber a (embed (upd x) (Some t, q a) ?c) th
      \<lparr>current := (box_of fs, AfterResume a (box_of fs) (addr_of fs) k)\<rparr>) = Some th'" "leave upd s = Some s1" "thread_rel s1 th'"
    using leave_refines [OF rel 2, of upd "(Some t, q a)" user now] f upd cont by metis
  have "s1 = s'" using yld th'(2) 2 by (simp add: co_yield_def)
  moreover have "yield_now (q a) (set_fiber a (g (embed x sp ?c)) th) =
      Some (set_fiber a (embed (upd x) (Some t, q a) ?c) th\<lparr>current := (box_of fs, AfterResume a (box_of fs) (addr_of fs) k)\<rparr>)"
    using f current_running [OF rel cur] 2(1) thread_relD(6) [OF rel] by (simp add: yield_now_def core)
  ultimately show ?thesis
    using th' f(1) thread_relD(7) [OF rel] 2(1) by (auto intro!: catches_up_next)
qed

lemma yield_now_refines:
  assumes rel: "thread_rel s th" and cur: "cur s = ACode p"
    and yld: "co_yield ''yield_now: called outside of any active fiber'' (\<lambda>x. x\<lparr>cont := CYieldNow k\<rparr>) s = Some s'"
  shows "catches_up user now (yield_now (Code (k RUnit)) th) s'"
proof -
  have act: "active_fiber th = None \<longleftrightarrow> active_trampoline th = None" using thread_relD(6,7) [OF rel] by simp
  have "(case active_fiber th of None \<Rightarrow> throw (Message ''yield_now: called outside of any active fiber'') th
    | Some a \<Rightarrow> do { f \<leftarrow> fibers th a; yield_now (Code (k RUnit)) (set_fiber a f th) }) = yield_now (Code (k RUnit)) th"
    (is "?l = _")
  proof (cases "active_fiber th")
    case None
    then show ?thesis using act by (simp add: yield_now_def)
  next
    case (Some a)
    then obtain t k fs where fr: "frames s = (a, t, k) # fs" using thread_relD(7) [OF rel] by (cases "frames s" rule: addr_of.cases) auto
    then obtain f where "fibers th a = Some f" using thread_relD(5) [OF rel] by auto
    then show ?thesis using Some by (simp add: set_fiber_same)
  qed
  moreover have "catches_up user now ?l s'"
    using rel cur yld by (rule yield_refines [where g = "\<lambda>f. f"]) simp_all
  ultimately show ?thesis by simp
qed

text \<open>A change of what a coroutine records.\<close>

lemma core_rel:
  assumes rel: "thread_rel s th" and x: "coroutines s a = Some x" and f: "fibers th a = Some (embed x sp c)" and d: "f_done g = f_done (core x)"
  shows "thread_rel (set_co a (x\<lparr>core := g\<rparr>) s) (set_fiber a (embed (x\<lparr>core := g\<rparr>) sp c) th)"
proof -
  obtain sp' c' q where q: "fibers th a = Some (embed x sp' c')" "trampolines th (box x) = Some q"
    "parked_at a (box x) (cont x) sp' (closure q)" "cont x = CRunning \<longrightarrow> wired q = Some a" "cont x = CDone \<longleftrightarrow> f_done (core x)"
    using fiber_relD [OF rel x] .
  have "fiber_sp (embed x sp' c') = fiber_sp (embed x sp c)" using q(1) f by simp
  then have sp: "sp' = sp" by simp
  have "chain (fibers th) fs \<Longrightarrow> chain ((fibers th)(a \<mapsto> embed (x\<lparr>core := g\<rparr>) sp c)) fs" for fs
    using f by (induction fs) auto
  then have chn: "chain ((fibers th)(a \<mapsto> embed (x\<lparr>core := g\<rparr>) sp c)) (frames s)"
    using thread_relD(5) [OF rel] by blast
  have "thread_rel (set_co a (x\<lparr>core := g\<rparr>) s\<lparr>frames := frames s, cur := cur s\<rparr>)
      (set_fiber a (embed (x\<lparr>core := g\<rparr>) sp c) (set_trampoline (box x) q th)
        \<lparr>active_trampoline := box_of (frames s), active_fiber := addr_of (frames s), current := current th\<rparr>)"
    using q thread_relD(2) [OF rel x] d sp thread_relD(9) [OF rel]
    by (intro thread_rel_put [OF rel x] chn) (auto simp: on_stack_def)
  moreover have "set_fiber a f th\<lparr>active_trampoline := box_of (frames s), active_fiber := addr_of (frames s), current := current th\<rparr> =
      set_fiber a f th" for f
    using thread_relD(6,7) [OF rel] by (cases th) (simp add: set_fiber_def)
  ultimately show ?thesis
    using q(2) by (simp add: set_trampoline_same set_co_def)
qed

lemma self_refines:
  assumes rel: "thread_rel s th" and cur: "cur s = ACode p" and self: "co_self g k a s = Some s'"
    and emb: "\<And>x sp c. h (embed x sp c) = (let (r, f) = g (core x) in (r, embed (x\<lparr>core := f\<rparr>) sp c))"
    and fin: "\<And>f. f_done (snd (g f)) = f_done f"
  shows "\<exists>f. fibers th a = Some f \<and> thread_rel s' (goes_on (k (fst (h f))) (set_fiber a (snd (h f)) th))"
proof -
  obtain x where x: "coroutines s a = Some x"
    "s' = set_co a (x\<lparr>core := snd (g (core x))\<rparr>) s\<lparr>cur := ACode (k (fst (g (core x))))\<rparr>"
    using self by (auto simp: co_self_def Option.bind_eq_Some_conv case_prod_beta Let_def)
  obtain sp c where f: "fibers th a = Some (embed x sp c)" using fiber_relD [OF rel x(1)] by metis
  have "thread_rel s' (goes_on (k (fst (g (core x)))) (set_fiber a (embed (x\<lparr>core := snd (g (core x))\<rparr>) sp c) th))"
    using set_cur_rel [OF core_rel [OF rel x(1) f fin]] current_running [OF rel cur]
    by (auto simp: x(2) goes_on_def set_co_def cur_rel_def)
  then show ?thesis using f by (simp add: emb case_prod_beta Let_def)
qed

lemma poll_refines:
  assumes rel: "thread_rel s th" and cur: "cur s = ACode p" and poll: "co_poll r0 g k s = Some s'"
    and emb: "\<And>x sp c. h (embed x sp c) = g (core x)"
  shows "\<exists>r. (case active_fiber th of None \<Rightarrow> Some r0 | Some a \<Rightarrow> map_option h (fibers th a)) = Some r \<and> thread_rel s' (goes_on (k r) th)"
  using rel
proof (cases rule: frames_cases)
  case 1
  then have "s' = s\<lparr>cur := ACode (k r0)\<rparr>" using poll by (simp add: co_poll_def)
  then show ?thesis using rel 1 current_running [OF rel cur]
    by (auto simp: thread_rel_def goes_on_def cur_rel_def on_stack_def)
next
  case (2 a t k' fs x)
  then have s': "s' = s\<lparr>cur := ACode (k (g (core x)))\<rparr>" using poll by (simp add: co_poll_def)
  obtain sp c where f: "fibers th a = Some (embed x sp c)" using fiber_relD [OF rel 2(2)] by metis
  have "thread_rel s' (goes_on (k (g (core x))) th)"
    using rel current_running [OF rel cur] unfolding s' by (auto simp: thread_rel_def goes_on_def cur_rel_def on_stack_def)
  then show ?thesis using f 2 thread_relD(7) [OF rel] by (simp add: emb)
qed

lemma resume_refines:
  assumes rel: "thread_rel s th" and cur: "cur s = ACode p" and res: "co_resume a inp k s = Some s'"
    and emb: "\<And>x sp c. h (embed x sp c) = embed (x\<lparr>core := inp (core x)\<rparr>) sp c"
    and fin: "\<And>f. f_done (inp f) = f_done f"
  shows "catches_up user now (do { f \<leftarrow> fibers th a; resume a k (set_fiber a (h f) th) }) s'"
proof -
  obtain x where x: "coroutines s a = Some x" and free: "\<not> on_stack a s"
    using res by (auto simp: co_resume_def Option.bind_eq_Some_conv split: if_splits)
  obtain sp c q where f: "fibers th a = Some (embed x sp c)" "trampolines th (box x) = Some q"
    "parked_at a (box x) (cont x) sp (closure q)" "cont x = CDone \<longleftrightarrow> f_done (core x)"
    using fiber_relD [OF rel x] by metis
  let ?x = "x\<lparr>core := inp (core x)\<rparr>"
  let ?th = "set_fiber a (embed ?x sp c) th"
  have rel1: "thread_rel (set_co a ?x s) ?th" by (rule core_rel [OF rel x f(1) fin])
  have fin1: "f_done (inp (core x)) = f_done (core x)" by (rule fin)
  show ?thesis
  proof (cases "f_done (core x)")
    case True
    let ?m = "Message (''Fiber: cannot resume a fiber in '' @ show_state (state_of (inp (core x))) @ '' state'')"
    have "catches_up user now (ends (Some ?m) ?th) s'"
      using res x free True fin1 current_running [OF rel cur]
      by (intro finish_refines [OF rel1]) (simp_all add: co_resume_def set_co_def Let_def)
    then show ?thesis using f(1) True fin1 by (simp add: emb resume_def throw_ends)
  next
    case False
    let ?g = "(inp (core x))\<lparr>f_started := True\<rparr>"
    let ?fs = "(a, box x, k) # frames s"
    let ?c = "Some (box_of (frames s), AfterResume a (box_of (frames s)) (addr_of (frames s)) k)"
    obtain p' g where w: "wake_up (cont x) ?g = Some (p', g)" and s': "s' = set_co a (x\<lparr>core := g, cont := CRunning\<rparr>) s\<lparr>frames := ?fs, cur := ACode p'\<rparr>"
      using res x free False fin1 by (auto simp: co_resume_def Let_def Option.bind_eq_Some_conv)
    let ?th1 = "set_fiber a (embed (x\<lparr>core := ?g\<rparr>) sp ?c) (set_trampoline (box x) (q\<lparr>wired := Some a\<rparr>) th)
      \<lparr>active_trampoline := Some (box x), active_fiber := Some a, current := sp\<rparr>"
    have step1: "resume a k ?th = Some ?th1"
      using f False fin1 current_running [OF rel cur] thread_relD(6,7) [OF rel]
      by (simp add: resume_def set_trampoline_def set_fiber_def)
    have notrun: "cont x \<noteq> CRunning" using thread_relD(2) [OF rel x] free by simp
    have gd: "\<not> f_done g" using w False fin1 by (cases "cont x") auto
    have rel2: "thread_rel s' (set_fiber a (embed (x\<lparr>core := g\<rparr>) sp' ?c) (set_trampoline (box x) (q\<lparr>wired := Some a, closure := None\<rparr>) th)
      \<lparr>active_trampoline := Some (box x), active_fiber := Some a, current := (Some (box x), Code p')\<rparr>)" for sp'
      using thread_rel_put [OF rel x, of "x\<lparr>core := g, cont := CRunning\<rparr>" sp' "q\<lparr>wired := Some a, closure := None\<rparr>" ?fs ?c "ACode p'" "(Some (box x), Code p')"]
        free gd thread_relD(5) [OF rel] f(2) by (auto simp: s' on_stack_def cur_rel_def)
    have "catches_up user now (Some ?th1) s'"
    proof (cases "cont x")
      case (CNew p0)
      show ?thesis
        using CNew f(3) w by (cases th, intro catches_up_next [OF _ rel2 [of sp]])
          (auto simp: set_fiber_def set_trampoline_def goes_on_def)
    next
      case (CYieldNow k0)
      then have "q\<lparr>wired := Some a, closure := None\<rparr> = q\<lparr>wired := Some a\<rparr>" using f(3) by (cases q) simp
      then show ?thesis
        using rel2 [of sp] CYieldNow f(3) w by (auto intro!: catches_up_now)
    next
      case (CYieldValue ty k0)
      then have "q\<lparr>wired := Some a, closure := None\<rparr> = q\<lparr>wired := Some a\<rparr>" using f(3) by (cases q) simp
      then show ?thesis
        using CYieldValue f(3) w by (cases th, intro catches_up_next [OF _ rel2 [of sp]])
          (auto simp: take_input_of_def set_fiber_def set_trampoline_def goes_on_def)
    next
      case (CYieldU64 k0)
      then have "q\<lparr>wired := Some a, closure := None\<rparr> = q\<lparr>wired := Some a\<rparr>" using f(3) by (cases q) simp
      then show ?thesis
        using CYieldU64 f(3) w by (cases th, intro catches_up_next [OF _ rel2 [of sp]])
          (auto simp: take_input_u64_of_def set_fiber_def set_trampoline_def goes_on_def)
    qed (use w notrun in auto)
    then show ?thesis using f(1) step1 by (simp add: emb)
  qed
qed

lemma new_refines:
  fixes s :: "('v, 'p) cothread" and th :: "('v, 'p) thread"
  assumes rel: "thread_rel s th" and cur: "cur s = ACode p" and new: "co_call now (NewFiber a t q) k s = Some s'"
  shows "thread_rel s' (goes_on (k RUnit) (fiber_new a t q th))"
proof -
  have fresh: "coroutines s a = None" "\<not> boxes s t"
    and s': "s' = set_co a \<lparr>core = core_new (next_id s), cont = CNew q, box = t\<rparr> s
       \<lparr>boxes := (boxes s)(t := True), next_id := next_id s + 1, cur := ACode (k RUnit)\<rparr>"
    using new by (auto split: if_splits)
  let ?x = "\<lparr>core = core_new (next_id s), cont = CNew q, box = t\<rparr> :: ('v, 'p) coro"
  let ?f = "fiber_core.extend (core_new (next_id s)) \<lparr>fiber_sp = (Some t, Enter t), caller_sp = None, trampoline = t\<rparr> :: ('v, 'p) fiber"
  let ?r = "\<lparr>closure = Some q, wired = None\<rparr>"
  have none: "fibers th a = None" using thread_relD(1) [OF rel, of a] fresh(1) by simp
  have tnone: "trampolines th t = None" using thread_relD(4) [OF rel, of t] fresh(2) by simp
  have boxes: "box y \<noteq> t" if "coroutines s b = Some y" for b y
    using fiber_relD [OF rel that] tnone by (metis option.distinct(1))
  have off: "a \<notin> fst ` set (frames s)" using chain_in [OF thread_relD(5) [OF rel], of a] none by auto
  have "rel_option (fiber_rel ((trampolines th)(t \<mapsto> ?r)) b) (((coroutines s)(a \<mapsto> ?x)) b) (((fibers th)(a \<mapsto> ?f)) b)" for b
  proof (cases "b = a")
    case True
    have "fiber_rel ((trampolines th)(t \<mapsto> ?r)) a ?x ?f"
      unfolding fiber_rel_def
      by (intro exI [of _ "(Some t, Enter t)"] exI [of _ None] exI [of _ ?r]) (simp add: embed_def core_new_def)
    with True show ?thesis by simp
  next
    case False
    with thread_relD(1) [OF rel, of b] show ?thesis by (auto simp: fiber_rel_def option_rel_Some1 dest: boxes elim!: option.rel_cases)
  qed
  moreover have "b = c" if "((coroutines s)(a \<mapsto> ?x)) b = Some y" "((coroutines s)(a \<mapsto> ?x)) c = Some z" "box y = box z" for b c y z
    using that thread_relD(3) [OF rel] boxes by (metis fun_upd_apply option.inject coro.select_convs(3))
  moreover have "cont y = CRunning \<longleftrightarrow> b \<in> fst ` set (frames s)" if "((coroutines s)(a \<mapsto> ?x)) b = Some y" for b y
    using that thread_relD(2) [OF rel] off by (auto simp: on_stack_def split: if_splits)
  moreover have "coroutines s' = (coroutines s)(a \<mapsto> ?x)" "frames s' = frames s" "boxes s' = (boxes s)(t := True)"
    "next_id s' = next_id s + 1" "cur s' = ACode (k RUnit)"
    by (simp_all add: s' set_co_def)
  moreover have "fibers (goes_on (k RUnit) (fiber_new a t q th)) = (fibers th)(a \<mapsto> ?f)"
    "trampolines (goes_on (k RUnit) (fiber_new a t q th)) = (trampolines th)(t \<mapsto> ?r)"
    "active_trampoline (goes_on (k RUnit) (fiber_new a t q th)) = box_of (frames s)"
    "active_fiber (goes_on (k RUnit) (fiber_new a t q th)) = addr_of (frames s)"
    "next_fiber_id (goes_on (k RUnit) (fiber_new a t q th)) = next_id s + 1"
    "current (goes_on (k RUnit) (fiber_new a t q th)) = (box_of (frames s), Code (k RUnit))"
    using thread_relD(6-8) [OF rel] current_running [OF rel cur]
    by (simp_all add: goes_on_def fiber_new_def set_fiber_def set_trampoline_def Let_def)
  moreover have "chain ((fibers th)(a \<mapsto> ?f)) (frames s)" using off thread_relD(5) [OF rel] by simp
  moreover have "((boxes s)(t := True)) u \<longleftrightarrow> ((trampolines th)(t \<mapsto> ?r)) u \<noteq> None" for u
    using thread_relD(4) [OF rel, of u] by simp
  ultimately show ?thesis
    unfolding thread_rel_def on_stack_def by (simp only: cur_rel_def cur.case simp_thms) blast
qed

lemma move_refines:
  assumes rel: "thread_rel s th" and cur: "cur s = ACode p" and mv: "co_call now (MoveFiber a b) k s = Some s'"
    and pin: "\<And>x. coroutines s a = Some x \<Longrightarrow> \<not> waits_for_value (cont x)"
  shows "\<exists>th'. move_fiber a b th = Some th' \<and> thread_rel s' (goes_on (k RUnit) th')"
proof -
  obtain x where x: "coroutines s a = Some x" and free: "\<not> on_stack a s" "coroutines s b = None"
    and s': "s' = s\<lparr>coroutines := (coroutines s)(a := None, b \<mapsto> x), cur := ACode (k RUnit)\<rparr>"
    using mv by (auto simp: Option.bind_eq_Some_conv split: if_splits)
  obtain sp c q where f: "fibers th a = Some (embed x sp c)" "trampolines th (box x) = Some q"
    "parked_at a (box x) (cont x) sp (closure q)" "cont x = CDone \<longleftrightarrow> f_done (core x)"
    using fiber_relD [OF rel x] by metis
  have nr: "cont x \<noteq> CRunning" using thread_relD(2) [OF rel x] free by simp
  have none: "fibers th b = None" using thread_relD(1) [OF rel, of b] free(2) by simp
  have off: "b \<notin> fst ` set (frames s)" "a \<notin> fst ` set (frames s)"
    using chain_in [OF thread_relD(5) [OF rel], of b] none free by (auto simp: on_stack_def)
  have ab: "a \<noteq> b" using x free by auto
  have "parked_at b (box x) (cont x) sp (closure q)" using f(3) pin [OF x] by (cases "cont x") (auto simp: waits_for_value_def)
  then have "fiber_rel (trampolines th) b x (embed x sp c)"
    unfolding fiber_rel_def using f nr by (intro exI [of _ sp] exI [of _ c] exI [of _ q]) simp
  then have "rel_option (fiber_rel (trampolines th) d) (((coroutines s)(a := None, b \<mapsto> x)) d)
      (((fibers th)(a := None, b \<mapsto> embed x sp c)) d)" for d
    using thread_relD(1) [OF rel, of d] by auto
  moreover have "chain ((fibers th)(a := None, b \<mapsto> embed x sp c)) (frames s)"
    using off thread_relD(5) [OF rel] by simp
  ultimately show ?thesis
    using thread_relD(2,3,4) [OF rel] x nr off ab f(1) thread_relD(6-8) [OF rel] current_running [OF rel cur]
    by (auto simp: thread_rel_def s' goes_on_def move_fiber_def on_stack_def cur_rel_def)
qed

lemma drop_refines:
  assumes rel: "thread_rel s th" and cur: "cur s = ACode p" and drp: "co_call now (DropFiber a) k s = Some s'"
  shows "\<exists>th'. drop_fiber a th = Some th' \<and> thread_rel s' (goes_on (k RUnit) th')"
proof -
  obtain x where x: "coroutines s a = Some x" and free: "\<not> on_stack a s"
    and s': "s' = s\<lparr>coroutines := (coroutines s)(a := None), boxes := (boxes s)(box x := False), cur := ACode (k RUnit)\<rparr>"
    using drp by (auto simp: Option.bind_eq_Some_conv split: if_splits)
  obtain sp c where f: "fibers th a = Some (embed x sp c)" using fiber_relD [OF rel x] by metis
  have boxes: "box y \<noteq> box x" if "coroutines s b = Some y" "b \<noteq> a" for b y using thread_relD(3) [OF rel that(1) x] that(2) by auto
  have "rel_option (fiber_rel ((trampolines th)(box x := None)) b) (((coroutines s)(a := None)) b) (((fibers th)(a := None)) b)" for b
    using thread_relD(1) [OF rel, of b] by (auto simp: fiber_rel_def option_rel_Some1 dest: boxes elim!: option.rel_cases)
  moreover have "chain ((fibers th)(a := None)) (frames s)"
    using free thread_relD(5) [OF rel] by (simp add: on_stack_def)
  ultimately show ?thesis
    using thread_relD(2,3,4) [OF rel] free f thread_relD(6-8) [OF rel] current_running [OF rel cur]
    by (auto simp: thread_rel_def s' goes_on_def drop_fiber_def on_stack_def cur_rel_def)
qed

lemma poll_reply: "map_option (\<lambda>r. goes_on (k (c r)) th) (case active_fiber th of None \<Rightarrow> Some r0 | Some a \<Rightarrow> map_option h (fibers th a)) =
    map_option (\<lambda>r. goes_on (k r) th) (case active_fiber th of None \<Rightarrow> Some (c r0) | Some a \<Rightarrow> map_option (\<lambda>f. c (h f)) (fibers th a))"
  by (simp add: option.map_comp comp_def split: option.split)

lemma should_yield_early_poll:
  "should_yield_early now th =
    (case active_fiber th of None \<Rightarrow> Some False | Some a \<Rightarrow> map_option (\<lambda>f. f_cancelled f \<or> deadline_passed now f) (fibers th a))"
  by (auto simp: should_yield_early_def is_cancelled_def is_deadline_passed_def map_option_case split: option.split)

lemma poll_catches_up:
  assumes "thread_rel s th" "cur s = ACode p" "co_poll (c r0) g k s = Some s'" "\<And>x sp d. c (h (embed x sp d)) = g (core x)"
  shows "catches_up user now (map_option (\<lambda>r. goes_on (k (c r)) th)
    (case active_fiber th of None \<Rightarrow> Some r0 | Some a \<Rightarrow> map_option h (fibers th a))) s'"
  unfolding poll_reply using poll_refines [OF assms(1-3), of "\<lambda>f. c (h f)"] assms(4) catches_up_now by fastforce

lemma input_catches_up:
  assumes rel: "thread_rel s th" and cur: "cur s = ACode p" and inp: "co_input msg g k s = Some s'"
    and emb: "\<And>x sp c. h (embed x sp c) = (let (r, f) = g (core x) in (r, embed (x\<lparr>core := f\<rparr>) sp c))"
    and fin: "\<And>f. f_done (snd (g f)) = f_done f"
  shows "catches_up user now (case active_fiber th of None \<Rightarrow> throw (Message msg) th
    | Some a \<Rightarrow> do { f \<leftarrow> fibers th a; Some (goes_on (k (fst (h f))) (set_fiber a (snd (h f)) th)) }) s'"
  using rel
proof (cases rule: frames_cases)
  case 1
  have "catches_up user now (ends (Some (Message msg)) th) s'"
    using inp 1 current_running [OF rel cur] by (intro finish_refines [OF rel]) (simp_all add: co_input_def)
  then show ?thesis using 1 thread_relD(7) [OF rel] by (simp add: throw_ends)
next
  case (2 a t k' fs x)
  then have "co_self g k a s = Some s'" using inp by (simp add: co_input_def)
  from self_refines [where h = h, OF rel cur this emb fin] show ?thesis
    using 2(1) thread_relD(7) [OF rel] by (auto intro: catches_up_now)
qed

lemma resume_plain: "do { f \<leftarrow> fibers th a; resume a k (set_fiber a f th) } = resume a k th"
  by (cases "fibers th a") (simp_all add: set_fiber_same, simp add: resume_def)

lemma call_refines:
  assumes rel: "thread_rel s th" and cur: "cur s = ACode p" and call: "co_call now c k s = Some s'"
    and pin: "\<And>a b x. c = MoveFiber a b \<Longrightarrow> coroutines s a = Some x \<Longrightarrow> \<not> waits_for_value (cont x)"
  shows "catches_up user now (do_call now c k th) s'"
proof (cases c)
  case YieldNow
  then show ?thesis using yield_now_refines [OF rel cur] call by simp
next
  case (YieldValue v ty)
  then show ?thesis
    unfolding YieldValue do_call.simps yield_value_def using call YieldValue
    by (intro yield_refines [OF rel cur, where upd = "\<lambda>x. x\<lparr>core := (core x)\<lparr>output_slot := Some v\<rparr>, cont := CYieldValue ty k\<rparr>"]) simp_all
next
  case (YieldU64 v)
  then show ?thesis
    unfolding YieldU64 do_call.simps yield_u64_def using call YieldU64
    by (intro yield_refines [OF rel cur, where upd = "\<lambda>x. x\<lparr>core := (core x)\<lparr>output_u64 := Some v\<rparr>, cont := CYieldU64 k\<rparr>"]) simp_all
next
  case (TakeInput ty)
  with call have "co_input ''take_input: called outside of any active fiber'' (\<lambda>f. (RValue (Option.bind (input_slot f) (downcast ty)), f\<lparr>input_slot := None\<rparr>)) k s = Some s'" by simp
  from input_catches_up [OF rel cur this, of "\<lambda>f. (RValue (Option.bind (input_slot f) (downcast ty)), f\<lparr>input_slot := None\<rparr>)" user now]
  show ?thesis unfolding TakeInput do_call.simps take_input_def take_input_of_def by (simp only: fst_conv snd_conv) simp
next
  case TakeInputU64
  with call have "co_input ''take_input_u64: called outside of any active fiber'' (\<lambda>f. (RU64 (input_u64 f), f\<lparr>input_u64 := None\<rparr>)) k s = Some s'" by simp
  from input_catches_up [OF rel cur this, of "\<lambda>f. (RU64 (input_u64 f), f\<lparr>input_u64 := None\<rparr>)" user now]
  show ?thesis unfolding TakeInputU64 do_call.simps take_input_u64_def take_input_u64_of_def by (simp only: fst_conv snd_conv) simp
next
  case CurrentFiberId
  then show ?thesis using call poll_catches_up [OF rel cur, of RId None _ k s' "\<lambda>f. Some (f_id f)"] by (simp add: current_fiber_id_def)
next
  case IsCancelled
  then show ?thesis using call poll_catches_up [OF rel cur, of RBool False _ k s' f_cancelled] by (simp add: is_cancelled_def)
next
  case IsDeadlinePassed
  then show ?thesis using call poll_catches_up [OF rel cur, of RBool False _ k s' "deadline_passed now"] by (simp add: is_deadline_passed_def)
next
  case ShouldYieldEarly
  then show ?thesis using call poll_catches_up [OF rel cur, of RBool False _ k s' "\<lambda>f. f_cancelled f \<or> deadline_passed now f"]
    by (simp add: should_yield_early_poll)
next
  case (Resume a)
  then show ?thesis using call resume_refines [OF rel cur, of a "\<lambda>f. f" k s' "\<lambda>f. f"] by (simp add: resume_plain)
next
  case (ResumeWith a v)
  then show ?thesis using call resume_refines [OF rel cur, of a "\<lambda>f. f\<lparr>input_slot := Some v\<rparr>" k s' "\<lambda>f. f\<lparr>input_slot := Some v\<rparr>"]
    by (simp add: resume_with_def)
next
  case (ResumeWithU64 a v)
  then show ?thesis using call resume_refines [OF rel cur, of a "\<lambda>f. f\<lparr>input_u64 := Some v\<rparr>" k s' "\<lambda>f. f\<lparr>input_u64 := Some v\<rparr>"]
    by (simp add: resume_with_u64_def)
next
  case (Method a m)
  then have "co_self (run_method now m) k a s = Some s'" using call by (simp split: if_splits)
  from self_refines [OF rel cur this run_method_embed run_method_done] show ?thesis
    using Method by (auto simp: call_method_def case_prod_beta Let_def intro: catches_up_now)
next
  case (NewFiber a t q)
  then have "co_call now (NewFiber a t q) k s = Some s'" using call by simp
  from new_refines [OF rel cur this] show ?thesis using NewFiber by (auto intro: catches_up_now)
next
  case (MoveFiber a b)
  then have mv: "co_call now (MoveFiber a b) k s = Some s'" using call by simp
  have "\<not> waits_for_value (cont x)" if "coroutines s a = Some x" for x by (rule pin [OF MoveFiber that])
  from move_refines [OF rel cur mv this] show ?thesis using MoveFiber by (auto intro: catches_up_now)
next
  case (DropFiber a)
  then have "co_call now (DropFiber a) k s = Some s'" using call by simp
  from drop_refines [OF rel cur this] show ?thesis using DropFiber by (auto intro: catches_up_now)
qed

lemma step_refines:
  assumes rel: "thread_rel s th" and step: "co_step user now s = Some s'" and pin: "pins user s"
  shows "\<exists>n\<le>2. \<exists>th'. thread_run user now (Suc n) th = Some th' \<and> thread_rel s' th'"
proof -
  have "catches_up user now (fiber_thread_step user now th) s'"
  proof (cases "cur s")
    case (ACode p)
    note cur = current_running [OF rel ACode]
    show ?thesis
    proof (cases "user p")
      case Return
      then show ?thesis using finish_refines [OF rel, of None s' user now] step ACode cur by (simp add: ends_def)
    next
      case (Panic e)
      then show ?thesis using finish_refines [OF rel, of "Some (Thrown e)" s' user now] step ACode cur by (simp add: throw_ends)
    next
      case (Call c k)
      have "\<not> waits_for_value (cont x)" if "c = MoveFiber a b" "coroutines s a = Some x" for a b x
        using pin that ACode Call by (simp add: pins_def)
      then show ?thesis using call_refines [OF rel ACode, of now c k s' user] step ACode Call cur by simp
    qed
  next
    case (AHalt e)
    then have "fiber_thread_step user now th = Some th" using thread_relD(9) [OF rel] by (simp add: cur_rel_def)
    then show ?thesis using AHalt step rel by (auto intro: catches_up_now)
  qed
  then show ?thesis by (simp add: catches_up_def)
qed

subsection \<open>Runs\<close>

text \<open>
  A run of the coroutines, one clock reading a step, in which nothing that waits for a value is moved; and
  a run of the thread in which the clock stands still over each group of steps.
\<close>

fun co_run :: "('p \<Rightarrow> ('p, 'v) act) \<Rightarrow> f64 list \<Rightarrow> ('v, 'p) cothread \<Rightarrow> ('v, 'p) cothread option" where
  "co_run user [] s = Some s"
| "co_run user (now # nows) s = (if pins user s then Option.bind (co_step user now s) (co_run user nows) else None)"

fun thread_runs :: "('p \<Rightarrow> ('p, 'v) act) \<Rightarrow> (f64 \<times> nat) list \<Rightarrow> ('v, 'p) thread \<Rightarrow> ('v, 'p) thread option" where
  "thread_runs user [] th = Some th"
| "thread_runs user ((now, n) # ts) th = Option.bind (thread_run user now (Suc n) th) (thread_runs user ts)"

lemma start_rel: "thread_rel (cothread_start p) (thread_start p)"
  by (simp add: thread_rel_def cothread_start_def thread_start_def on_stack_def cur_rel_def)

lemma run_refines:
  "thread_rel s th \<Longrightarrow> co_run user nows s = Some s' \<Longrightarrow>
    \<exists>ns th'. length ns = length nows \<and> set ns \<subseteq> {..2} \<and> thread_runs user (zip nows ns) th = Some th' \<and> thread_rel s' th'"
proof (induction nows arbitrary: s th)
  case Nil
  then show ?case by simp
next
  case (Cons now nows)
  obtain s1 where s1: "pins user s" "co_step user now s = Some s1" "co_run user nows s1 = Some s'"
    using Cons.prems(2) by (auto simp: Option.bind_eq_Some_conv split: if_splits)
  obtain n th1 where th1: "n \<le> 2" "thread_run user now (Suc n) th = Some th1" "thread_rel s1 th1"
    using step_refines [OF Cons.prems(1) s1(2,1)] by blast
  obtain ns th' where "length ns = length nows" "set ns \<subseteq> {..2}" "thread_runs user (zip nows ns) th1 = Some th'" "thread_rel s' th'"
    using Cons.IH [OF th1(3) s1(3)] by blast
  with th1 show ?case by (intro exI [of _ "n # ns"] exI [of _ th']) auto
qed

text \<open>
  C33: Fibers are coroutines. Take any user code and any run of it on the abstract coroutines, where
  a yield hands the running coroutine's outcome to the code that resumed it and a resume hands the input to
  the yield, as long as no fiber that waits in \<open>yield_value\<close> or \<open>yield_u64\<close> is moved. Then the thread with
  its stack pointers, back-pointers and thread locals runs through the same calls, at most three of its
  steps for each, never uses an address where nothing lies, and is in the related state.
\<close>

theorem fibers_are_coroutines:
  assumes "co_run user nows (cothread_start p) = Some s'"
  shows "\<exists>ns th'. length ns = length nows \<and> set ns \<subseteq> {..2} \<and>
    thread_runs user (zip nows ns) (thread_start p) = Some th' \<and> thread_rel s' th'"
  by (rule run_refines [OF start_rel assms])

text \<open>
  A host that makes a fiber, sends 5 into it, moves it between two resumes, and sees it end; the fiber
  takes its input, yields it doubled, and returns.
\<close>

datatype demo = DHost nat | DFiber | DTaken "u64 option" | DEnd

fun demo_u64 :: "u64 reply \<Rightarrow> u64 option" where
  "demo_u64 (RU64 v) = v"
| "demo_u64 _ = None"

fun demo_user :: "demo \<Rightarrow> (demo, u64) act" where
  "demo_user (DHost n) =
    (if n = 0 then Call (NewFiber 10 20 DFiber) (\<lambda>_. DHost 1)
     else if n = 1 then Call (ResumeWithU64 10 5) (\<lambda>_. DHost 2)
     else if n = 2 then Call (MoveFiber 10 11) (\<lambda>_. DHost 3)
     else if n = 3 then Call (Resume 11) (\<lambda>_. DHost 4)
     else if n = 4 then Call (Method 11 GetState) (\<lambda>_. DEnd)
     else Return)"
| "demo_user DFiber = Call TakeInputU64 (\<lambda>r. DTaken (demo_u64 r))"
| "demo_user (DTaken v) = Call YieldNow (\<lambda>_. DEnd)"
| "demo_user DEnd = Return"

theorem fibers_are_coroutines_witness:
  "\<exists>ns th' f. thread_runs demo_user (zip (replicate 8 NaN) ns) (thread_start (DHost 0)) = Some th' \<and>
    fibers th' 11 = Some f \<and> f_done f \<and> fibers th' 10 = None"
proof -
  have "\<exists>s'. co_run demo_user (replicate 8 NaN) (cothread_start (DHost 0)) = Some s' \<and> coroutines s' 10 = None \<and>
      (\<exists>x. coroutines s' 11 = Some x \<and> f_done (core x))"
    by (simp add: cothread_start_def pins_def co_resume_def co_self_def co_input_def co_yield_def leave_def finish_def set_co_def on_stack_def
        core_new_def waits_for_value_def Let_def numeral_eq_Suc)
  then obtain s' x where s': "co_run demo_user (replicate 8 NaN) (cothread_start (DHost 0)) = Some s'" "coroutines s' 10 = None"
    "coroutines s' 11 = Some x" "f_done (core x)" by blast
  obtain ns th' where th': "thread_runs demo_user (zip (replicate 8 NaN) ns) (thread_start (DHost 0)) = Some th'" "thread_rel s' th'"
    using fibers_are_coroutines [OF s'(1)] by blast
  obtain sp c where "fibers th' 11 = Some (embed x sp c)" using fiber_relD [OF th'(2) s'(3)] by metis
  moreover have "fibers th' 10 = None" using thread_relD(1) [OF th'(2), of 10] s'(2) by simp
  moreover have "f_done (embed x sp c)" using s'(4) by simp
  ultimately show ?thesis using th'(1) by blast
qed

end
