(* ===== verification/Krio_Fiber_Moves.thy ===== *)
theory Krio_Fiber_Moves
  imports Krio_Coroutine
begin

text \<open>
  Where fibers are not coroutines: what happens to a fiber that is moved while it waits in a yield that
  passes values, which \<open>Krio_Coroutine\<close> leaves out, and what a slot keeps that nobody reads.
\<close>

section \<open>Moved fibers\<close>

text \<open>
  C36: A fiber that was moved while it waited in \<open>yield_value\<close> takes its input from where it used to be.
  Let the fiber at \<open>b\<close> wait with the address \<open>a\<close> it had when it yielded. When it is resumed the code
  behind the yield uses the address \<open>a\<close>: if nothing lies there any more that is a dangling pointer;
  if another fiber lies there, the yield returns that fiber's input and empties its slot. The input
  sent to the fiber at \<open>b\<close> stays in its slot.
\<close>

theorem moved_fiber_takes_input_at_old_address:
  assumes "fibers th b = Some f" and "fiber_sp f = (st, AfterYieldValue a ty k)" and "a \<noteq> b"
    and "\<not> f_done f" and "trampolines th (trampoline f) = Some s"
  shows "\<exists>th1. resume b k' th = Some th1 \<and> map_option input_slot (fibers th1 b) = Some (input_slot f) \<and>
    fiber_thread_step user now th1 = (case fibers th a of
        None \<Rightarrow> None
      | Some g \<Rightarrow> Some (goes_on (k (RValue (Option.bind (input_slot g) (downcast ty)))) (set_fiber a (g\<lparr>input_slot := None\<rparr>) th1)))"
  using assms by (simp add: resume_def set_trampoline_def set_fiber_def take_input_of_def split: option.split)

text \<open>
  The host's calls are those of two rounds of \<open>TimeSliceScheduler::tick\<close> over two fibers in a \<open>Vec\<close>: the
  first fiber ends in the first round, so that \<open>swap_remove\<close> drops it and moves the second one from
  the slot 11 to the slot 10; resumed there, the second one looks for its input in the slot 11.
\<close>

definition two_rounds :: "nat \<Rightarrow> (nat, u64) act" where
  "two_rounds n =
    (if n = 0 then Call (NewFiber 10 20 100) (\<lambda>_. 1)
     else if n = 1 then Call (NewFiber 11 21 101) (\<lambda>_. 2)
     else if n = 2 then Call (Resume 10) (\<lambda>_. 3)
     else if n = 3 then Call (Resume 11) (\<lambda>_. 4)
     else if n = 4 then Call (DropFiber 10) (\<lambda>_. 5)
     else if n = 5 then Call (MoveFiber 11 10) (\<lambda>_. 6)
     else if n = 6 then Call (Resume 10) (\<lambda>_. 7)
     else if n = 101 then Call (YieldValue (0, 5) 0) (\<lambda>_. 102)
     else Return)"

theorem moved_fiber_takes_input_at_old_address_witness:
  "\<exists>th th1. thread_run two_rounds NaN 13 (thread_start 0) = Some th \<and> current th = (None, Code 6) \<and>
    fiber_thread_step two_rounds NaN th = Some th1 \<and> fiber_thread_step two_rounds NaN th1 = None"
proof -
  have "\<exists>th f s. thread_run two_rounds NaN 13 (thread_start 0) = Some th \<and> current th = (None, Code 6) \<and>
      fibers th 10 = Some f \<and> fiber_sp f = (Some 21, AfterYieldValue 11 0 (\<lambda>_. 102)) \<and> \<not> f_done f \<and>
      trampolines th (trampoline f) = Some s \<and> fibers th 11 = None"
    by (simp add: thread_start_def numeral_eq_Suc two_rounds_def fiber_new_def set_fiber_def set_trampoline_def goes_on_def
        resume_def after_resume_def yield_value_def yield_now_def fiber_end_def drop_fiber_def move_fiber_def core_new_def
        fiber_core.defs Let_def step_of_def)
  then obtain th f s where th: "thread_run two_rounds NaN 13 (thread_start 0) = Some th" "current th = (None, Code 6)"
    "fibers th 10 = Some f" "fiber_sp f = (Some 21, AfterYieldValue 11 0 (\<lambda>_. 102))" "\<not> f_done f"
    "trampolines th (trampoline f) = Some s" "fibers th 11 = None" by blast
  have "(11::nat) \<noteq> 10" by simp
  from moved_fiber_takes_input_at_old_address [OF th(3,4) this th(5,6), of "\<lambda>_. 7" two_rounds NaN]
  obtain th1 where "resume 10 (\<lambda>_. 7) th = Some th1" "fiber_thread_step two_rounds NaN th1 = None" using th(7) by auto
  moreover have "fiber_thread_step two_rounds NaN th = resume 10 (\<lambda>_. 7) th" using th(2) by (simp add: two_rounds_def)
  ultimately show ?thesis using th(1,2) by metis
qed

section \<open>Slots nobody reads\<close>

text \<open>
  \<open>resume\<close> leaves the slots alone: a value that \<open>resume_with\<close> sent and nobody took is what a later
  \<open>yield_value\<close> returns after a plain \<open>resume\<close>.
\<close>

lemma plain_resume_delivers_old_input:
  assumes "fibers th a = Some f" and "fiber_sp f = (st, AfterYieldValue a ty k)" and "\<not> f_done f"
    and "trampolines th (trampoline f) = Some s" and "input_slot f = Some (ty, v)"
  shows "\<exists>th1 th2. resume a k' th = Some th1 \<and> fiber_thread_step user now th1 = Some th2 \<and> current th2 = (st, Code (k (RValue (Some v))))"
  using assms by (simp add: resume_def set_trampoline_def set_fiber_def take_input_of_def goes_on_def downcast_def)

text \<open>
  In the same way \<open>take_yield_u64\<close> returns what an earlier \<open>yield_u64\<close> left, although the fiber has yielded
  again by \<open>yield_value\<close>: no other operation empties the slot.
\<close>

lemma yield_value_keeps_old_u64:
  assumes "yield_value v ty k th = Some th'" and "active_fiber th = Some a" and "fibers th a = Some f"
  shows "map_option output_u64 (fibers th' a) = Some (output_u64 f)"
proof (cases "active_trampoline th")
  case None
  show ?thesis
  proof (cases "fst (current th)")
    case None
    then show ?thesis using assms \<open>active_trampoline th = None\<close> by (auto simp: yield_value_def yield_now_def throw_def set_fiber_def)
  next
    case (Some t)
    then show ?thesis using assms \<open>active_trampoline th = None\<close>
      by (auto simp: yield_value_def yield_now_def throw_def fiber_end_def set_fiber_def Option.bind_eq_Some_conv)
  qed
qed (use assms in \<open>auto simp: yield_value_def yield_now_def set_fiber_def Option.bind_eq_Some_conv\<close>)

text \<open>\<open>caller_sp\<close> is not null again when the fiber is no longer running.\<close>

lemma yield_keeps_caller_sp:
  assumes "yield_now q th = Some th'" and "active_trampoline th = Some t"
  shows "\<exists>s a f. trampolines th t = Some s \<and> wired s = Some a \<and> fibers th' a = Some f \<and> caller_sp f = Some (current th')"
  using assms by (auto simp: yield_now_def set_fiber_def Option.bind_eq_Some_conv)

end
