(* ===== verification/Krio_Fiber_Types.thy ===== *)
theory Krio_Fiber_Types
  imports Krio_Coroutine
begin

text \<open>
  Type safety of the values that go through the untyped slots of a fiber. User code is typed when every
  value it boxes has the type it is boxed at, and when it goes on with typed code for every reply that its
  call may give. The slots and the saved contexts then hold typed values and code only, and stay so
  step by step; and where the code uses its fibers as coroutines, in the sense of \<open>Krio_Coroutine\<close>, there
  always is a next step.
\<close>

section \<open>Typed replies\<close>

definition value_ok :: "(nat \<Rightarrow> 'v \<Rightarrow> bool) \<Rightarrow> 'v boxed option \<Rightarrow> bool" where
  "value_ok typed b = (case b of None \<Rightarrow> True | Some (ty, v) \<Rightarrow> typed ty v)"

definition payload_ok :: "(nat \<Rightarrow> 'v \<Rightarrow> bool) \<Rightarrow> 'v payload option \<Rightarrow> bool" where
  "payload_ok typed e = (case e of Some (Thrown b) \<Rightarrow> value_ok typed (Some b) | _ \<Rightarrow> True)"

fun method_reply_ok :: "(nat \<Rightarrow> 'v \<Rightarrow> bool) \<Rightarrow> fiber_method \<Rightarrow> 'v reply \<Rightarrow> bool" where
  "method_reply_ok typed (SetDeadline d) r = (r = RUnit)"
| "method_reply_ok typed ClearDeadline r = (r = RUnit)"
| "method_reply_ok typed GetDeadline r = (\<exists>d. r = RDeadline d)"
| "method_reply_ok typed Cancel r = (r = RUnit)"
| "method_reply_ok typed GetCancelled r = (\<exists>b. r = RBool b)"
| "method_reply_ok typed GetDeadlinePassed r = (\<exists>b. r = RBool b)"
| "method_reply_ok typed TakeYieldU64 r = (\<exists>v. r = RU64 v)"
| "method_reply_ok typed (TakeYieldValue ty) r = (\<exists>v. r = RValue v \<and> (\<forall>x. v = Some x \<longrightarrow> typed ty x))"
| "method_reply_ok typed TakeYieldAny r = (\<exists>b. r = RBoxed b \<and> value_ok typed b)"
| "method_reply_ok typed HasYieldValue r = (\<exists>b. r = RBool b)"
| "method_reply_ok typed GetState r = (\<exists>s. r = RState s)"
| "method_reply_ok typed GetDone r = (\<exists>b. r = RBool b)"
| "method_reply_ok typed TakeError r = (\<exists>e. r = RError e \<and> payload_ok typed e)"
| "method_reply_ok typed GetId r = (\<exists>i. r = RId (Some i))"
| "method_reply_ok typed GetName r = (\<exists>n. r = RName n)"
| "method_reply_ok typed (SetName n) r = (r = RUnit)"

definition value_reply_ok :: "(nat \<Rightarrow> 'v \<Rightarrow> bool) \<Rightarrow> nat \<Rightarrow> 'v reply \<Rightarrow> bool" where
  "value_reply_ok typed ty r \<longleftrightarrow> (\<exists>v. r = RValue v \<and> (\<forall>x. v = Some x \<longrightarrow> typed ty x))"

text \<open>What a call may reply with.\<close>

fun reply_ok :: "(nat \<Rightarrow> 'v \<Rightarrow> bool) \<Rightarrow> ('p, 'v) call \<Rightarrow> 'v reply \<Rightarrow> bool" where
  "reply_ok typed YieldNow r = (r = RUnit)"
| "reply_ok typed (YieldValue v ty) r = value_reply_ok typed ty r"
| "reply_ok typed (YieldU64 v) r = (\<exists>i. r = RU64 i)"
| "reply_ok typed (TakeInput ty) r = value_reply_ok typed ty r"
| "reply_ok typed TakeInputU64 r = (\<exists>i. r = RU64 i)"
| "reply_ok typed CurrentFiberId r = (\<exists>i. r = RId i)"
| "reply_ok typed IsCancelled r = (\<exists>b. r = RBool b)"
| "reply_ok typed IsDeadlinePassed r = (\<exists>b. r = RBool b)"
| "reply_ok typed ShouldYieldEarly r = (\<exists>b. r = RBool b)"
| "reply_ok typed (Resume a) r = (\<exists>s. r = RStep s)"
| "reply_ok typed (ResumeWith a v) r = (\<exists>s. r = RStep s)"
| "reply_ok typed (ResumeWithU64 a v) r = (\<exists>s. r = RStep s)"
| "reply_ok typed (Method a m) r = method_reply_ok typed m r"
| "reply_ok typed (NewFiber a t p) r = (r = RUnit)"
| "reply_ok typed (MoveFiber a b) r = (r = RUnit)"
| "reply_ok typed (DropFiber a) r = (r = RUnit)"

text \<open>The values and the code that a call hands over.\<close>

fun call_ok :: "(nat \<Rightarrow> 'v \<Rightarrow> bool) \<Rightarrow> 'p set \<Rightarrow> ('p, 'v) call \<Rightarrow> bool" where
  "call_ok typed S (YieldValue b ty) = value_ok typed (Some b)"
| "call_ok typed S (ResumeWith a b) = value_ok typed (Some b)"
| "call_ok typed S (NewFiber a t p) = (p \<in> S)"
| "call_ok typed S _ = True"

text \<open>\<open>S\<close> is a set of program points at which user code is typed.\<close>

definition typed_code :: "(nat \<Rightarrow> 'v \<Rightarrow> bool) \<Rightarrow> ('p \<Rightarrow> ('p, 'v) act) \<Rightarrow> 'p set \<Rightarrow> bool" where
  "typed_code typed user S \<longleftrightarrow> (\<forall>p\<in>S. case user p of
      Return \<Rightarrow> True
    | Panic b \<Rightarrow> value_ok typed (Some b)
    | Call c k \<Rightarrow> call_ok typed S c \<and> (\<forall>r. reply_ok typed c r \<longrightarrow> k r \<in> S))"

section \<open>Typed threads\<close>

fun point_ok :: "(nat \<Rightarrow> 'v \<Rightarrow> bool) \<Rightarrow> 'p set \<Rightarrow> ('p, 'v) point \<Rightarrow> bool" where
  "point_ok typed S (Code p) = (p \<in> S)"
| "point_ok typed S (AfterResume a pa pf k) = (\<forall>s. k (RStep s) \<in> S)"
| "point_ok typed S (AfterYieldValue a ty k) = (\<forall>r. value_reply_ok typed ty r \<longrightarrow> k r \<in> S)"
| "point_ok typed S (AfterYieldU64 a k) = (\<forall>i. k (RU64 i) \<in> S)"
| "point_ok typed S (Halted e) = payload_ok typed e"
| "point_ok typed S _ = True"

definition core_ok :: "(nat \<Rightarrow> 'v \<Rightarrow> bool) \<Rightarrow> ('v, 'z) fiber_core_scheme \<Rightarrow> bool" where
  "core_ok typed f \<longleftrightarrow> value_ok typed (input_slot f) \<and> value_ok typed (output_slot f) \<and> payload_ok typed (error_payload f)"

definition fiber_ok :: "(nat \<Rightarrow> 'v \<Rightarrow> bool) \<Rightarrow> 'p set \<Rightarrow> ('v, 'p) fiber \<Rightarrow> bool" where
  "fiber_ok typed S f \<longleftrightarrow> core_ok typed f \<and> point_ok typed S (snd (fiber_sp f)) \<and>
     (\<forall>c. caller_sp f = Some c \<longrightarrow> point_ok typed S (snd c))"

definition thread_ok :: "(nat \<Rightarrow> 'v \<Rightarrow> bool) \<Rightarrow> 'p set \<Rightarrow> ('v, 'p) thread \<Rightarrow> bool" where
  "thread_ok typed S th \<longleftrightarrow> (\<forall>a f. fibers th a = Some f \<longrightarrow> fiber_ok typed S f) \<and>
     (\<forall>t s p. trampolines th t = Some s \<longrightarrow> closure s = Some p \<longrightarrow> p \<in> S) \<and> point_ok typed S (snd (current th))"

lemma downcast_ok: "value_ok typed b \<Longrightarrow> Option.bind b (downcast ty) = Some v \<Longrightarrow> typed ty v"
  by (cases b) (auto simp: value_ok_def downcast_def split: if_splits)

lemma run_method_ok:
  assumes "run_method now m f = (r, g)" and "core_ok typed f"
  shows "method_reply_ok typed m r" and "core_ok typed g"
  using assms by (cases m; auto simp: core_ok_def take_yield_value_def has_yield_value_def downcast_def value_ok_def payload_ok_def
      split: option.splits if_splits)+

lemma thread_ok_set:
  "thread_ok typed S th \<Longrightarrow> fiber_ok typed S f \<Longrightarrow> thread_ok typed S (set_fiber a f th)"
  by (auto simp: thread_ok_def set_fiber_def)

lemma thread_ok_fiber: "thread_ok typed S th \<Longrightarrow> fibers th a = Some f \<Longrightarrow> fiber_ok typed S f"
  by (auto simp: thread_ok_def)

lemma thread_ok_current: "thread_ok typed S th \<Longrightarrow> point_ok typed S (snd c) \<Longrightarrow> thread_ok typed S (th\<lparr>current := c\<rparr>)"
  by (auto simp: thread_ok_def)

lemma thread_ok_goes_on: "thread_ok typed S th \<Longrightarrow> p \<in> S \<Longrightarrow> thread_ok typed S (goes_on p th)"
  by (auto simp: goes_on_def intro: thread_ok_current)

section \<open>Every operation keeps a thread typed\<close>

named_theorems thread_keeps "operations that keep a thread typed"

lemma fiber_end_keeps [thread_keeps]:
  assumes "thread_ok typed S th" and "fiber_end t err th = Some th'" and "payload_ok typed err"
  shows "thread_ok typed S th'"
proof -
  obtain s a f where f: "trampolines th t = Some s" "wired s = Some a" "fibers th a = Some f"
    and th': "th' = set_fiber a ((case err of None \<Rightarrow> f | Some e \<Rightarrow> f\<lparr>f_errored := True, error_payload := Some e\<rparr>)\<lparr>f_done := True\<rparr>) th
      \<lparr>current := (Some t, Finish t)\<rparr>"
    using assms(2) by (auto simp: fiber_end_def Let_def)
  have "fiber_ok typed S ((case err of None \<Rightarrow> f | Some e \<Rightarrow> f\<lparr>f_errored := True, error_payload := Some e\<rparr>)\<lparr>f_done := True\<rparr>)"
    using thread_ok_fiber [OF assms(1) f(3)] assms(3) by (auto simp: fiber_ok_def core_ok_def split: option.split)
  with assms(1) show ?thesis unfolding th' by (intro thread_ok_current thread_ok_set) simp_all
qed

lemma throw_keeps [thread_keeps]:
  assumes "thread_ok typed S th" and "throw e th = Some th'" and "payload_ok typed (Some e)"
  shows "thread_ok typed S th'"
  using assms fiber_end_keeps [OF assms(1), of _ "Some e" th'] thread_ok_current [OF assms(1), of "(None, Halted (Some e))"]
  by (auto simp: throw_def split: option.splits)

lemma message_ok [simp]: "payload_ok typed (Some (Message m))" "payload_ok typed None"
  by (simp_all add: payload_ok_def)

lemma resume_keeps [thread_keeps]:
  assumes "thread_ok typed S th" and "resume a k th = Some th'" and "\<forall>s. k (RStep s) \<in> S"
  shows "thread_ok typed S th'"
proof -
  obtain f where f: "fibers th a = Some f" using assms(2) by (auto simp: resume_def)
  note ok = thread_ok_fiber [OF assms(1) f]
  show ?thesis
  proof (cases "f_done f")
    case True
    then show ?thesis using assms(2) f by (intro throw_keeps [OF assms(1)]) (auto simp: resume_def)
  next
    case False
    then obtain s where s: "trampolines th (trampoline f) = Some s" using assms(2) f by (auto simp: resume_def)
    let ?th = "set_trampoline (trampoline f) (s\<lparr>wired := Some a\<rparr>) th\<lparr>active_trampoline := Some (trampoline f), active_fiber := Some a\<rparr>"
    let ?f = "f\<lparr>f_started := True, caller_sp := Some (fst (current th), AfterResume a (active_trampoline th) (active_fiber th) k)\<rparr>"
    have th': "th' = set_fiber a ?f ?th\<lparr>current := fiber_sp f\<rparr>"
      using assms(2) f s False by (simp add: resume_def set_trampoline_def)
    have "thread_ok typed S ?th" using assms(1) s by (auto simp: thread_ok_def set_trampoline_def)
    moreover have "fiber_ok typed S ?f" using ok assms(3) by (simp add: fiber_ok_def core_ok_def)
    ultimately show ?thesis unfolding th' using ok by (intro thread_ok_current thread_ok_set) (simp_all add: fiber_ok_def)
  qed
qed

lemma yield_now_keeps [thread_keeps]:
  assumes "thread_ok typed S th" and "yield_now q th = Some th'" and "point_ok typed S q"
  shows "thread_ok typed S th'"
proof (cases "active_trampoline th")
  case None
  then show ?thesis using assms by (auto simp: yield_now_def intro: throw_keeps)
next
  case (Some t)
  then obtain a f c where f: "fibers th a = Some f" "caller_sp f = Some c"
    "th' = set_fiber a (f\<lparr>fiber_sp := (fst (current th), q)\<rparr>) th\<lparr>current := c\<rparr>"
    using assms(2) by (auto simp: yield_now_def)
  have "fiber_ok typed S (f\<lparr>fiber_sp := (fst (current th), q)\<rparr>)" "point_ok typed S (snd c)"
    using thread_ok_fiber [OF assms(1) f(1)] assms(3) f(2) by (auto simp: fiber_ok_def core_ok_def)
  with assms(1) show ?thesis unfolding f(3) by (intro thread_ok_current thread_ok_set)
qed

text \<open>A change of the slots of a fiber to typed values.\<close>

lemma slots_keep:
  assumes "thread_ok typed S th" and "fibers th a = Some f" and "core_ok typed g"
    and "fiber_sp g = fiber_sp f" "caller_sp g = caller_sp f"
  shows "thread_ok typed S (set_fiber a g th)"
  using thread_ok_fiber [OF assms(1,2)] assms(3-5) by (intro thread_ok_set [OF assms(1)]) (simp add: fiber_ok_def)

lemma core_okD: "thread_ok typed S th \<Longrightarrow> fibers th a = Some f \<Longrightarrow> core_ok typed f"
  using thread_ok_fiber [of typed S th a f] by (simp add: fiber_ok_def)

lemma take_input_keeps [thread_keeps]:
  assumes "thread_ok typed S th" and "take_input_of a ty k th = Some th'" and "\<forall>r. value_reply_ok typed ty r \<longrightarrow> k r \<in> S"
  shows "thread_ok typed S th'"
proof -
  obtain f where f: "fibers th a = Some f"
    and th': "th' = goes_on (k (RValue (Option.bind (input_slot f) (downcast ty)))) (set_fiber a (f\<lparr>input_slot := None\<rparr>) th)"
    using assms(2) by (auto simp: take_input_of_def)
  have ok: "core_ok typed f" by (rule core_okD [OF assms(1) f])
  have "value_reply_ok typed ty (RValue (Option.bind (input_slot f) (downcast ty)))"
    using ok downcast_ok [of typed "input_slot f" ty] by (simp add: core_ok_def value_reply_ok_def)
  moreover have "thread_ok typed S (set_fiber a (f\<lparr>input_slot := None\<rparr>) th)"
    using ok by (intro slots_keep [OF assms(1) f]) (simp_all add: core_ok_def value_ok_def)
  ultimately show ?thesis unfolding th' using assms(3) by (intro thread_ok_goes_on) simp_all
qed

lemma take_input_u64_keeps [thread_keeps]:
  assumes "thread_ok typed S th" and "take_input_u64_of a k th = Some th'" and "\<forall>i. k (RU64 i) \<in> S"
  shows "thread_ok typed S th'"
proof -
  obtain f where f: "fibers th a = Some f" and th': "th' = goes_on (k (RU64 (input_u64 f))) (set_fiber a (f\<lparr>input_u64 := None\<rparr>) th)"
    using assms(2) by (auto simp: take_input_u64_of_def)
  have "thread_ok typed S (set_fiber a (f\<lparr>input_u64 := None\<rparr>) th)"
    using core_okD [OF assms(1) f] by (intro slots_keep [OF assms(1) f]) (simp_all add: core_ok_def)
  then show ?thesis unfolding th' using assms(3) by (intro thread_ok_goes_on) simp_all
qed

lemma method_keeps [thread_keeps]:
  assumes "thread_ok typed S th" and "call_method now a m k th = Some th'" and "\<forall>r. method_reply_ok typed m r \<longrightarrow> k r \<in> S"
  shows "thread_ok typed S th'"
proof -
  obtain f r g where f: "fibers th a = Some f" "run_method now m f = (r, g)" and th': "th' = goes_on (k r) (set_fiber a g th)"
    using assms(2) by (auto simp: call_method_def case_prod_beta Let_def) (metis prod.collapse)
  have "fiber_sp g = fiber_sp f" "caller_sp g = caller_sp f"
    using f(2) by (cases m; auto simp: take_yield_value_def has_yield_value_def split: option.splits)+
  with run_method_ok [OF f(2) core_okD [OF assms(1) f(1)]] have "thread_ok typed S (set_fiber a g th)"
    by (intro slots_keep [OF assms(1) f(1)])
  then show ?thesis unfolding th' using run_method_ok(1) [OF f(2) core_okD [OF assms(1) f(1)]] assms(3)
    by (intro thread_ok_goes_on) simp_all
qed

lemma new_keeps [thread_keeps]: "thread_ok typed S th \<Longrightarrow> p \<in> S \<Longrightarrow> thread_ok typed S (fiber_new a t p th)"
  by (auto simp: thread_ok_def fiber_new_def set_fiber_def set_trampoline_def fiber_ok_def core_ok_def core_new_def
      fiber_core.defs value_ok_def Let_def)

lemma move_keeps [thread_keeps]: "thread_ok typed S th \<Longrightarrow> move_fiber a b th = Some th' \<Longrightarrow> thread_ok typed S th'"
  by (auto simp: thread_ok_def move_fiber_def split: if_splits)

lemma drop_keeps [thread_keeps]: "thread_ok typed S th \<Longrightarrow> drop_fiber a th = Some th' \<Longrightarrow> thread_ok typed S th'"
  by (auto simp: thread_ok_def drop_fiber_def split: if_splits)

lemma yield_value_keeps [thread_keeps]:
  assumes "thread_ok typed S th" and "yield_value v ty k th = Some th'" and "value_ok typed (Some v)" and "\<forall>r. value_reply_ok typed ty r \<longrightarrow> k r \<in> S"
  shows "thread_ok typed S th'"
proof (cases "active_fiber th")
  case None
  then show ?thesis using assms(2) by (auto simp: yield_value_def intro: throw_keeps [OF assms(1)])
next
  case (Some a)
  then obtain f where f: "fibers th a = Some f" "yield_now (AfterYieldValue a ty k) (set_fiber a (f\<lparr>output_slot := Some v\<rparr>) th) = Some th'"
    using assms(2) by (auto simp: yield_value_def)
  have "thread_ok typed S (set_fiber a (f\<lparr>output_slot := Some v\<rparr>) th)"
    using core_okD [OF assms(1) f(1)] assms(3) by (intro slots_keep [OF assms(1) f(1)]) (simp_all add: core_ok_def)
  then show ?thesis using f(2) assms(4) by (auto intro: yield_now_keeps)
qed

lemma yield_u64_keeps [thread_keeps]:
  assumes "thread_ok typed S th" and "yield_u64 v k th = Some th'" and "\<forall>i. k (RU64 i) \<in> S"
  shows "thread_ok typed S th'"
proof (cases "active_fiber th")
  case None
  then show ?thesis using assms(2) by (auto simp: yield_u64_def intro: throw_keeps [OF assms(1)])
next
  case (Some a)
  then obtain f where f: "fibers th a = Some f" "yield_now (AfterYieldU64 a k) (set_fiber a (f\<lparr>output_u64 := Some v\<rparr>) th) = Some th'"
    using assms(2) by (auto simp: yield_u64_def)
  have "thread_ok typed S (set_fiber a (f\<lparr>output_u64 := Some v\<rparr>) th)"
    using core_okD [OF assms(1) f(1)] by (intro slots_keep [OF assms(1) f(1)]) (simp_all add: core_ok_def)
  then show ?thesis using f(2) assms(3) by (auto intro: yield_now_keeps)
qed

lemma resume_with_keeps [thread_keeps]:
  assumes "thread_ok typed S th" and "resume_with a v k th = Some th'" and "value_ok typed (Some v)" and "\<forall>s. k (RStep s) \<in> S"
  shows "thread_ok typed S th'"
proof -
  obtain f where f: "fibers th a = Some f" "resume a k (set_fiber a (f\<lparr>input_slot := Some v\<rparr>) th) = Some th'"
    using assms(2) by (auto simp: resume_with_def)
  have "thread_ok typed S (set_fiber a (f\<lparr>input_slot := Some v\<rparr>) th)"
    using core_okD [OF assms(1) f(1)] assms(3) by (intro slots_keep [OF assms(1) f(1)]) (simp_all add: core_ok_def)
  then show ?thesis using f(2) assms(4) by (rule resume_keeps)
qed

lemma resume_with_u64_keeps [thread_keeps]:
  assumes "thread_ok typed S th" and "resume_with_u64 a v k th = Some th'" and "\<forall>s. k (RStep s) \<in> S"
  shows "thread_ok typed S th'"
proof -
  obtain f where f: "fibers th a = Some f" "resume a k (set_fiber a (f\<lparr>input_u64 := Some v\<rparr>) th) = Some th'"
    using assms(2) by (auto simp: resume_with_u64_def)
  have "thread_ok typed S (set_fiber a (f\<lparr>input_u64 := Some v\<rparr>) th)"
    using core_okD [OF assms(1) f(1)] by (intro slots_keep [OF assms(1) f(1)]) (simp_all add: core_ok_def)
  then show ?thesis using f(2) assms(3) by (rule resume_keeps)
qed

lemma call_keeps:
  assumes "thread_ok typed S th" and "do_call now c k th = Some th'" and "call_ok typed S c" and k: "\<forall>r. reply_ok typed c r \<longrightarrow> k r \<in> S"
  shows "thread_ok typed S th'"
proof (cases c)
  case (TakeInput ty)
  then show ?thesis using assms by (cases "active_fiber th") (auto simp: take_input_def intro: throw_keeps take_input_keeps)
next
  case TakeInputU64
  then show ?thesis using assms by (cases "active_fiber th") (auto simp: take_input_u64_def intro: throw_keeps take_input_u64_keeps)
next
  case YieldNow
  then show ?thesis using assms by (auto intro: yield_now_keeps)
next
  case (NewFiber a t p)
  then show ?thesis using assms by (auto intro: thread_ok_goes_on new_keeps)
next
  case (MoveFiber a b)
  then show ?thesis using assms by (auto intro: thread_ok_goes_on move_keeps)
next
  case (DropFiber a)
  then show ?thesis using assms by (auto intro: thread_ok_goes_on drop_keeps)
qed (use assms in \<open>auto intro: thread_ok_goes_on yield_value_keeps yield_u64_keeps resume_keeps resume_with_keeps resume_with_u64_keeps method_keeps\<close>)

lemma step_keeps:
  assumes code: "typed_code typed user S" and ok: "thread_ok typed S th" and step: "fiber_thread_step user now th = Some th'"
  shows "thread_ok typed S th'"
proof -
  have cur: "point_ok typed S (snd (current th))" using ok by (simp add: thread_ok_def)
  show ?thesis
  proof (cases "snd (current th)")
    case (Code p)
    then have "case user p of Return \<Rightarrow> True | Panic b \<Rightarrow> value_ok typed (Some b)
        | Call c k \<Rightarrow> call_ok typed S c \<and> (\<forall>r. reply_ok typed c r \<longrightarrow> k r \<in> S)"
      using code cur by (simp add: typed_code_def)
    then show ?thesis
      using step Code ok by (cases "user p") (auto simp: payload_ok_def value_ok_def split: option.splits
          intro: throw_keeps fiber_end_keeps call_keeps thread_ok_current)
  next
    case (Enter t)
    then obtain s where s: "trampolines th t = Some s" using step by auto
    show ?thesis
    proof (cases "closure s")
      case None
      then show ?thesis using step Enter s by (intro fiber_end_keeps [OF ok]) auto
    next
      case (Some p)
      then have "p \<in> S" using ok s by (auto simp: thread_ok_def)
      moreover have "thread_ok typed S (set_trampoline t (s\<lparr>closure := None\<rparr>) th)" using ok by (auto simp: thread_ok_def set_trampoline_def)
      ultimately show ?thesis using step Enter s Some by (auto intro: thread_ok_goes_on)
    qed
  next
    case (AfterResume a pa pf k)
    then obtain r where f: "th' = goes_on (k (RStep r)) (th\<lparr>active_trampoline := pa, active_fiber := pf\<rparr>)"
      using step by (auto simp: after_resume_def)
    have "thread_ok typed S (th\<lparr>active_trampoline := pa, active_fiber := pf\<rparr>)" using ok by (simp add: thread_ok_def)
    then show ?thesis unfolding f using cur AfterResume by (intro thread_ok_goes_on) simp_all
  next
    case (Finish t)
    then obtain s a f c where f: "fibers th a = Some f" "caller_sp f = Some c"
      "th' = set_fiber a (f\<lparr>fiber_sp := (fst (current th), Finish t)\<rparr>) th\<lparr>current := c\<rparr>"
      using step by auto
    have "fiber_ok typed S (f\<lparr>fiber_sp := (fst (current th), Finish t)\<rparr>)" "point_ok typed S (snd c)"
      using thread_ok_fiber [OF ok f(1)] f(2) by (auto simp: fiber_ok_def core_ok_def)
    with ok show ?thesis unfolding f(3) by (intro thread_ok_current thread_ok_set)
  qed (use step ok cur in \<open>auto intro: take_input_keeps take_input_u64_keeps\<close>)
qed

section \<open>Properties\<close>

fun thread_steps :: "('p \<Rightarrow> ('p, 'v) act) \<Rightarrow> f64 list \<Rightarrow> ('v, 'p) thread \<Rightarrow> ('v, 'p) thread option" where
  "thread_steps user [] th = Some th"
| "thread_steps user (now # nows) th = Option.bind (fiber_thread_step user now th) (thread_steps user nows)"

lemma steps_keep:
  "typed_code typed user S \<Longrightarrow> thread_ok typed S th \<Longrightarrow> thread_steps user nows th = Some th' \<Longrightarrow> thread_ok typed S th'"
proof (induction nows arbitrary: th)
  case (Cons now nows)
  then obtain th1 where "fiber_thread_step user now th = Some th1" "thread_steps user nows th1 = Some th'"
    by (auto simp del: fiber_thread_step.simps)
  then show ?case using Cons step_keeps by blast
qed simp

lemma run_keeps:
  "typed_code typed user S \<Longrightarrow> thread_ok typed S th \<Longrightarrow> thread_run user now n th = Some th' \<Longrightarrow> thread_ok typed S th'"
proof (induction n arbitrary: th)
  case (Suc n)
  then obtain th1 where "fiber_thread_step user now th = Some th1" "thread_run user now n th1 = Some th'"
    by (auto simp del: fiber_thread_step.simps)
  then show ?case using Suc step_keeps by blast
qed simp

lemma runs_keep:
  "typed_code typed user S \<Longrightarrow> thread_ok typed S th \<Longrightarrow> thread_runs user ts th = Some th' \<Longrightarrow> thread_ok typed S th'"
proof (induction ts arbitrary: th)
  case (Cons x ts)
  obtain now n where x: "x = (now, n)" by (cases x)
  with Cons.prems(3) obtain th1 where "thread_run user now (Suc n) th = Some th1" "thread_runs user ts th1 = Some th'"
    by (auto simp del: thread_run.simps)
  then show ?case using Cons run_keeps by blast
qed simp

text \<open>
  C34: Fibers are type safe. The values that \<open>resume_with\<close> and \<open>yield_value\<close> box lose their static type.
  Take user code that boxes values of the types it names and handles every reply its calls promise (a
  \<open>yield_value\<close>, a \<open>take_input\<close> or a \<open>take_yield_value\<close> at a type replies with no value or with one of that type).
  Whenever its run on the abstract coroutines is defined (it uses no address where nothing lies and moves no fiber
  that waits in a yield of values; other moves are free), the thread of saved stack pointers runs as far, and
  the slots and panic payloads of all fibers hold typed values only and every context, running or saved, goes on in
  code that handles its replies. Of user code without that discipline the same holds as long as its run is
  defined, that is up to the first use of an address where nothing lies.
\<close>

theorem fiber_values_are_typed:
  assumes "typed_code typed user S" and "p \<in> S"
  shows "(\<forall>nows s'. co_run user nows (cothread_start p) = Some s' \<longrightarrow>
      (\<exists>ns th. length ns = length nows \<and> set ns \<subseteq> {..2} \<and> thread_runs user (zip nows ns) (thread_start p) = Some th \<and>
        thread_rel s' th \<and> thread_ok typed S th)) \<and>
    (\<forall>nows th. thread_steps user nows (thread_start p) = Some th \<longrightarrow> thread_ok typed S th)"
proof (intro conjI allI impI)
  have start: "thread_ok typed S (thread_start p)" using assms(2) by (simp add: thread_ok_def thread_start_def)
  show "thread_ok typed S th" if "thread_steps user nows (thread_start p) = Some th" for nows th
    by (rule steps_keep [OF assms(1) start that])
  show "\<exists>ns th. length ns = length nows \<and> set ns \<subseteq> {..2} \<and> thread_runs user (zip nows ns) (thread_start p) = Some th \<and>
      thread_rel s' th \<and> thread_ok typed S th" if run: "co_run user nows (cothread_start p) = Some s'" for nows s'
  proof -
    obtain ns th where th: "length ns = length nows" "set ns \<subseteq> {..2}" "thread_runs user (zip nows ns) (thread_start p) = Some th"
      "thread_rel s' th"
      using run_refines [OF start_rel run] by blast
    then show ?thesis using runs_keep [OF assms(1) start th(3)] by blast
  qed
qed

text \<open>
  A host that makes a fiber, moves it, sends an even number in and takes a string length out, at the types 0 and 1.
\<close>

definition exchange :: "nat \<Rightarrow> (nat, nat) act" where
  "exchange n =
    (if n = 0 then Call (NewFiber 10 20 100) (\<lambda>_. 1)
     else if n = 1 then Call (MoveFiber 10 11) (\<lambda>_. 2)
     else if n = 2 then Call (ResumeWith 11 (0, 4)) (\<lambda>_. 3)
     else if n = 3 then Call (Method 11 (TakeYieldValue 1)) (\<lambda>r. if (case r of RValue v \<Rightarrow> pred_option (\<lambda>v. v < 10) v | _ \<Rightarrow> False) then 4 else 99)
     else if n = 100 then Call (TakeInput 0) (\<lambda>r. if (case r of RValue v \<Rightarrow> pred_option even v | _ \<Rightarrow> False) then 101 else 99)
     else if n = 101 then Call (YieldValue (1, 3) 0) (\<lambda>_. 4)
     else Return)"

definition exchange_typed :: "nat \<Rightarrow> nat \<Rightarrow> bool" where
  "exchange_typed ty v = (if ty = 0 then even v else v < 10)"

theorem fiber_values_are_typed_witness:
  "\<exists>ns th f. thread_runs exchange (zip [NaN, NaN, NaN, NaN, NaN] ns) (thread_start 0) = Some th \<and> fibers th 11 = Some f \<and>
    output_slot f = Some (1, 3) \<and> value_ok exchange_typed (output_slot f)"
proof -
  have S: "typed_code exchange_typed exchange {0, 1, 2, 3, 4, 100, 101}"
    by (auto simp: typed_code_def exchange_def exchange_typed_def value_ok_def value_reply_ok_def pred_option_def)
  have "\<exists>s' x. co_run exchange [NaN, NaN, NaN, NaN, NaN] (cothread_start 0) = Some s' \<and> coroutines s' 11 = Some x \<and> output_slot (core x) = Some (1, 3)"
    by (simp add: cothread_start_def exchange_def pins_def co_resume_def co_self_def co_input_def co_yield_def leave_def set_co_def on_stack_def
        core_new_def waits_for_value_def downcast_def Let_def)
  then obtain s' x where s': "co_run exchange [NaN, NaN, NaN, NaN, NaN] (cothread_start 0) = Some s'" "coroutines s' 11 = Some x"
    "output_slot (core x) = Some (1, 3)" by blast
  have "(0::nat) \<in> {0, 1, 2, 3, 4, 100, 101}" by simp
  from fiber_values_are_typed [OF S this] s'(1) obtain ns th where
    th: "thread_runs exchange (zip [NaN, NaN, NaN, NaN, NaN] ns) (thread_start 0) = Some th" "thread_rel s' th"
      "thread_ok exchange_typed {0, 1, 2, 3, 4, 100, 101} th" by blast
  obtain sp c where f: "fibers th 11 = Some (embed x sp c)" using fiber_relD [OF th(2) s'(2)] by metis
  moreover have "output_slot (embed x sp c) = Some (1, 3)" using s'(3) by (simp add: embed_def fiber_core.defs)
  moreover have "value_ok exchange_typed (output_slot (embed x sp c))" using core_okD [OF th(3) f] by (simp add: core_ok_def)
  ultimately show ?thesis using th(1) by blast
qed

end
