(* ===== verification/Krio_Fiber_Task.thy ===== *)
theory Krio_Fiber_Task
  imports Krio_Fiber Krio_Runtime
begin

text \<open>
  A \<open>Fiber\<close> is a \<open>Task\<close>: \<open>Task::step\<close> resumes it once. The scheduler of krio-runtime boxes its tasks, so that a
  fiber is the address it lies at; the world of a task step is the thread that all fibers share (their memory, the
  two thread locals, the counter of identities) and the clock they poll. The step is a partial function, since a
  fiber whose code neither yields nor ends never gives control back.
\<close>

section \<open>The step of a fiber\<close>

fun suspension_of :: "fiber_step \<Rightarrow> suspension" where
  "suspension_of FYielded = Yielded"
| "suspension_of FDone = Completed"
| "suspension_of FErrored = Completed"

text \<open>The thread runs until the code of the stack \<open>me\<close> goes on.\<close>

definition is_back :: "nat option \<Rightarrow> ('v, 'p) thread \<Rightarrow> bool" where
  "is_back me th = (fst (current th) = me \<and> (case snd (current th) of Code p \<Rightarrow> True | _ \<Rightarrow> False))"

partial_function (option) until_back ::
  "('p \<Rightarrow> ('p, 'v) act) \<Rightarrow> ('w \<Rightarrow> f64 \<times> 'w) \<Rightarrow> nat option \<Rightarrow> ('v, 'p) thread \<Rightarrow> 'w \<Rightarrow> (('v, 'p) thread \<times> 'w) option" where
  "until_back user clock me th w = (if is_back me th then Some (th, w)
     else (case clock w of (now, w) \<Rightarrow> (case fiber_thread_step user now th of
         None \<Rightarrow> None
       | Some th \<Rightarrow> until_back user clock me th w)))"

definition fiber_task_step :: "('p \<Rightarrow> ('p, 'v) act) \<Rightarrow> ('w \<Rightarrow> f64 \<times> 'w) \<Rightarrow> (nat, ('v, 'p) thread \<times> 'w) task_step" where
  "fiber_task_step user clock a = (\<lambda>(th, w). case current th of
       (me, Code p) \<Rightarrow> do {
         th1 \<leftarrow> resume a (\<lambda>_. p) th;
         (th, w) \<leftarrow> until_back user clock me th1 w;
         f \<leftarrow> fibers th a;
         Some (suspension_of (step_of f), a, th, w) }
     | _ \<Rightarrow> None)"

section \<open>Code that ends\<close>

text \<open>The calls that concern the running fiber alone.\<close>

fun own_call :: "('p, 'v) call \<Rightarrow> bool" where
  "own_call YieldNow = True"
| "own_call (YieldValue v ty) = True"
| "own_call (YieldU64 v) = True"
| "own_call (TakeInput ty) = True"
| "own_call TakeInputU64 = True"
| "own_call CurrentFiberId = True"
| "own_call IsCancelled = True"
| "own_call IsDeadlinePassed = True"
| "own_call ShouldYieldEarly = True"
| "own_call _ = False"

text \<open>A rank of the program points that every call decreases, whatever it replies.\<close>

definition ends_by :: "('p \<Rightarrow> nat) \<Rightarrow> ('p \<Rightarrow> ('p, 'v) act) \<Rightarrow> bool" where
  "ends_by m user \<longleftrightarrow> (\<forall>p c k. user p = Call c k \<longrightarrow> own_call c \<and> (\<forall>r. m (k r) < m p))"

lemma ends_byD: "ends_by m user \<Longrightarrow> user p = Call c k \<Longrightarrow> own_call c \<and> m (k r) < m p"
  by (simp add: ends_by_def)

text \<open>The fiber at \<open>a\<close> runs, resumed by the host at \<open>q\<close>.\<close>

definition fiber_runs :: "nat \<Rightarrow> 'p \<Rightarrow> ('v, 'p) thread \<Rightarrow> bool" where
  "fiber_runs a q th \<longleftrightarrow> (\<exists>f s. fibers th a = Some f \<and> trampolines th (trampoline f) = Some s \<and> closure s = None \<and> wired s = Some a \<and>
     active_trampoline th = Some (trampoline f) \<and> active_fiber th = Some a \<and> fst (current th) = Some (trampoline f) \<and>
     caller_sp f = Some (None, AfterResume a None None (\<lambda>_. q)) \<and> \<not> f_done f)"

text \<open>The fiber waits, and its code goes on below the rank \<open>n\<close>.\<close>

fun goes_on_below :: "('p \<Rightarrow> nat) \<Rightarrow> nat \<Rightarrow> nat \<Rightarrow> nat \<Rightarrow> 'p option \<Rightarrow> ('p, 'v) point \<Rightarrow> bool" where
  "goes_on_below m n a t cl (Code p) = (cl = None \<and> m p < n)"
| "goes_on_below m n a t cl (Enter t') = (t' = t \<and> (\<exists>p. cl = Some p \<and> m p < n))"
| "goes_on_below m n a t cl (AfterYieldValue a' ty k) = (cl = None \<and> a' = a \<and> (\<forall>r. m (k r) < n))"
| "goes_on_below m n a t cl (AfterYieldU64 a' k) = (cl = None \<and> a' = a \<and> (\<forall>r. m (k r) < n))"
| "goes_on_below m n a t cl _ = False"

definition fiber_waits :: "('p \<Rightarrow> nat) \<Rightarrow> nat \<Rightarrow> nat \<Rightarrow> ('v, 'p) thread \<Rightarrow> bool" where
  "fiber_waits m n a th \<longleftrightarrow> (\<exists>f s pt. fibers th a = Some f \<and> trampolines th (trampoline f) = Some s \<and> \<not> f_done f \<and>
     fiber_sp f = (Some (trampoline f), pt) \<and> goes_on_below m n a (trampoline f) (closure s) pt)"

definition fiber_ended :: "nat \<Rightarrow> ('v, 'p) thread \<Rightarrow> bool" where
  "fiber_ended a th \<longleftrightarrow> (\<exists>f. fibers th a = Some f \<and> f_done f)"

definition host_at :: "'p \<Rightarrow> ('v, 'p) thread \<Rightarrow> bool" where
  "host_at q th \<longleftrightarrow> current th = (None, Code q) \<and> active_trampoline th = None \<and> active_fiber th = None"

definition fiber_back :: "('p \<Rightarrow> nat) \<Rightarrow> nat \<Rightarrow> nat \<Rightarrow> 'p \<Rightarrow> ('v, 'p) thread \<Rightarrow> bool" where
  "fiber_back m n a q th \<longleftrightarrow> host_at q th \<and> (fiber_ended a th \<or> fiber_waits m n a th)"

text \<open>Between the two threads only the fiber at \<open>a\<close> and its trampoline state differ.\<close>

definition same_but :: "nat \<Rightarrow> ('v, 'p) thread \<Rightarrow> ('v, 'p) thread \<Rightarrow> bool" where
  "same_but a th0 th \<longleftrightarrow> (\<exists>f g. fibers th0 a = Some f \<and> fibers th a = Some g \<and> trampoline g = trampoline f \<and>
     (\<forall>b. b \<noteq> a \<longrightarrow> fibers th b = fibers th0 b) \<and> (\<forall>u. u \<noteq> trampoline f \<longrightarrow> trampolines th u = trampolines th0 u))"

lemma same_but_refl: "fibers th a = Some f \<Longrightarrow> same_but a th th"
  by (simp add: same_but_def)

lemma same_but_current [simp]:
  "same_but a th0 (th\<lparr>current := c\<rparr>) = same_but a th0 th"
  "same_but a th0 (th\<lparr>active_trampoline := x, active_fiber := y\<rparr>) = same_but a th0 th"
  "same_but a th0 (th\<lparr>active_trampoline := x, active_fiber := y, current := c\<rparr>) = same_but a th0 th"
  "same_but a th0 (goes_on p th) = same_but a th0 th"
  by (simp_all add: same_but_def goes_on_def)

lemma same_but_upd:
  assumes "same_but a th0 th" and "fibers th a = Some f" and "trampoline g = trampoline f"
    and "fibers th' = (fibers th)(a \<mapsto> g)" and "trampolines th' = trampolines th"
  shows "same_but a th0 th'"
  using assms by (auto simp: same_but_def)

lemma same_but_set:
  "same_but a th0 th \<Longrightarrow> fibers th a = Some f \<Longrightarrow> trampoline g = trampoline f \<Longrightarrow> same_but a th0 (set_fiber a g th)"
  by (auto simp: same_but_def set_fiber_def)

lemma same_but_trampoline:
  "same_but a th0 th \<Longrightarrow> fibers th a = Some f \<Longrightarrow> t = trampoline f \<Longrightarrow> same_but a th0 (set_trampoline t s th)"
  by (auto simp: same_but_def set_trampoline_def)

lemma same_but_waits:
  assumes "same_but a th0 th" and "fibers th0 a = Some f" and "b \<noteq> a" and "fibers th0 b = Some g" and "trampoline g \<noteq> trampoline f"
  shows "fiber_waits m n b th = fiber_waits m n b th0"
proof -
  have "fibers th b = fibers th0 b" "trampolines th (trampoline g) = trampolines th0 (trampoline g)"
    using assms by (auto simp: same_but_def)
  with assms(4) show ?thesis by (simp add: fiber_waits_def)
qed

text \<open>The host is back, and nothing but the fiber has changed since \<open>th0\<close>.\<close>

definition back_from :: "('v, 'p) thread \<Rightarrow> ('p \<Rightarrow> nat) \<Rightarrow> nat \<Rightarrow> nat \<Rightarrow> 'p \<Rightarrow> ('v, 'p) thread \<Rightarrow> bool" where
  "back_from th0 m n a q th \<longleftrightarrow> fiber_back m n a q th \<and> same_but a th0 th"

lemma until_back_step:
  "\<not> is_back me th \<Longrightarrow> fiber_thread_step user (fst (clock w)) th = Some th1 \<Longrightarrow>
    until_back user clock me th w = until_back user clock me th1 (snd (clock w))"
  by (subst until_back.simps) (simp add: case_prod_beta)

lemma until_back_here: "is_back me th \<Longrightarrow> until_back user clock me th w = Some (th, w)"
  by (subst until_back.simps) simp

definition gets_back :: "('p \<Rightarrow> ('p, 'v) act) \<Rightarrow> ('w \<Rightarrow> f64 \<times> 'w) \<Rightarrow> (('v, 'p) thread \<Rightarrow> bool) \<Rightarrow> ('v, 'p) thread \<Rightarrow> bool" where
  "gets_back user clock P th \<longleftrightarrow> (\<forall>w. \<exists>th' w'. until_back user clock None th w = Some (th', w') \<and> P th')"

lemma gets_back_step:
  "\<not> is_back None th \<Longrightarrow> (\<And>now. \<exists>th1. fiber_thread_step user now th = Some th1 \<and> gets_back user clock P th1) \<Longrightarrow> gets_back user clock P th"
  unfolding gets_back_def by (metis until_back_step)

lemma gets_back_here: "is_back None th \<Longrightarrow> P th \<Longrightarrow> gets_back user clock P th"
  by (simp add: gets_back_def until_back_here)

lemma switch_back:
  assumes "fibers th a = Some f" and "current th = (None, AfterResume a None None (\<lambda>_. q))"
    and "P (th\<lparr>active_trampoline := None, active_fiber := None, current := (None, Code q)\<rparr>)"
  shows "gets_back user clock P th"
proof (rule gets_back_step)
  show "\<not> is_back None th" using assms(2) by (simp add: is_back_def)
  show "\<exists>th1. fiber_thread_step user now th = Some th1 \<and> gets_back user clock P th1" for now
    using assms by (auto simp: after_resume_def goes_on_def is_back_def intro!: gets_back_here)
qed

lemma fiber_runsE:
  assumes "fiber_runs a q th"
  obtains f s where "fibers th a = Some f" "trampolines th (trampoline f) = Some s" "closure s = None" "wired s = Some a"
    "active_trampoline th = Some (trampoline f)" "active_fiber th = Some a" "fst (current th) = Some (trampoline f)"
    "caller_sp f = Some (None, AfterResume a None None (\<lambda>_. q))" "\<not> f_done f"
  using assms by (auto simp: fiber_runs_def)

lemma runs_end:
  assumes "fiber_runs a q th" and "fst (current th) = Some t" and same: "same_but a th0 th"
  shows "\<exists>th1. fiber_end t err th = Some th1 \<and> gets_back user clock (back_from th0 m n a q) th1"
proof -
  obtain f s where f: "fibers th a = Some f" "trampolines th (trampoline f) = Some s" "wired s = Some a" "fst (current th) = Some (trampoline f)"
    "caller_sp f = Some (None, AfterResume a None None (\<lambda>_. q))" "\<not> f_done f"
    using assms(1) by (rule fiber_runsE)
  have t: "t = trampoline f" using assms(2) f by simp
  let ?g = "(case err of None \<Rightarrow> f | Some e \<Rightarrow> f\<lparr>f_errored := True, error_payload := Some e\<rparr>)\<lparr>f_done := True\<rparr>"
  let ?th1 = "set_fiber a ?g th\<lparr>current := (Some t, Finish t)\<rparr>"
  have g: "caller_sp ?g = caller_sp f" "f_done ?g" "trampoline ?g = trampoline f" by (simp_all split: option.split)
  have "fiber_end t err th = Some ?th1" using f t by (simp add: fiber_end_def Let_def)
  moreover have "gets_back user clock (back_from th0 m n a q) ?th1"
  proof (rule gets_back_step)
    show "\<not> is_back None ?th1" by (simp add: is_back_def)
    fix now
    let ?h = "?g\<lparr>fiber_sp := (Some t, Finish t)\<rparr>"
    let ?th2 = "set_fiber a ?h ?th1\<lparr>current := (None, AfterResume a None None (\<lambda>_. q))\<rparr>"
    let ?th3 = "?th2\<lparr>active_trampoline := None, active_fiber := None, current := (None, Code q)\<rparr>"
    have "same_but a th0 ?th3" by (rule same_but_upd [OF same f(1), of ?h]) (simp_all add: set_fiber_def split: option.split)
    moreover have "host_at q ?th3" by (simp add: host_at_def)
    moreover have "fiber_ended a ?th3" using g(2) by (simp add: fiber_ended_def set_fiber_def)
    ultimately have "back_from th0 m n a q ?th3" by (simp only: back_from_def fiber_back_def simp_thms)
    then have "gets_back user clock (back_from th0 m n a q) ?th2"
      by (intro switch_back [of _ a ?h]) (simp_all add: set_fiber_def)
    moreover have "fiber_thread_step user now ?th1 = Some ?th2"
      using f t g by (simp add: set_fiber_def)
    ultimately show "\<exists>th2. fiber_thread_step user now ?th1 = Some th2 \<and> gets_back user clock (back_from th0 m n a q) th2" by blast
  qed
  ultimately show ?thesis by blast
qed

lemma runs_yield:
  assumes "fiber_runs a q th" and "goes_on_below m n a t None pt" and "fst (current th) = Some t" and same: "same_but a th0 th"
  shows "\<exists>th1. yield_now pt th = Some th1 \<and> gets_back user clock (back_from th0 m n a q) th1"
proof -
  obtain f s where f: "fibers th a = Some f" "trampolines th (trampoline f) = Some s" "closure s = None" "wired s = Some a"
    "active_trampoline th = Some (trampoline f)" "fst (current th) = Some (trampoline f)"
    "caller_sp f = Some (None, AfterResume a None None (\<lambda>_. q))" "\<not> f_done f"
    using assms(1) by (rule fiber_runsE)
  have t: "t = trampoline f" using assms(3) f by simp
  let ?th1 = "set_fiber a (f\<lparr>fiber_sp := (Some t, pt)\<rparr>) th\<lparr>current := (None, AfterResume a None None (\<lambda>_. q))\<rparr>"
  have "yield_now pt th = Some ?th1" using f t by (simp add: yield_now_def)
  moreover have "gets_back user clock (back_from th0 m n a q) ?th1"
  proof (rule switch_back)
    let ?th3 = "?th1\<lparr>active_trampoline := None, active_fiber := None, current := (None, Code q)\<rparr>"
    have "same_but a th0 ?th3" by (rule same_but_upd [OF same f(1), of "f\<lparr>fiber_sp := (Some t, pt)\<rparr>"]) (simp_all add: set_fiber_def)
    moreover have "host_at q ?th3" by (simp add: host_at_def)
    moreover have "fiber_waits m n a ?th3" using f t assms(2) by (simp add: fiber_waits_def set_fiber_def)
    ultimately show "back_from th0 m n a q ?th3" by (simp only: back_from_def fiber_back_def simp_thms)
  qed (simp_all add: set_fiber_def)
  ultimately show ?thesis by blast
qed

text \<open>A change of the record, and the code going on, leave the fiber running.\<close>

lemma runs_record:
  assumes "fiber_runs a q th" and "fibers th a = Some f" and "trampoline g = trampoline f" "caller_sp g = caller_sp f" "f_done g = f_done f"
  shows "fiber_runs a q (set_fiber a g th)"
  using assms by (auto simp: fiber_runs_def set_fiber_def)

lemma runs_goes_on: "fiber_runs a q th \<Longrightarrow> fiber_runs a q (goes_on p th)"
  by (auto simp: fiber_runs_def goes_on_def)

lemma runs_own_code:
  assumes ends: "ends_by m user" and "fiber_runs a q th" and "snd (current th) = Code p" and "same_but a th0 th"
  shows "gets_back user clock (back_from th0 m (m p) a q) th"
  using assms(2-4)
proof (induction "m p" arbitrary: p th rule: less_induct)
  case less
  obtain f s where f: "fibers th a = Some f" "active_fiber th = Some a" "fst (current th) = Some (trampoline f)"
    "active_trampoline th = Some (trampoline f)"
    using less.prems(1) by (rule fiber_runsE)
  have notback: "\<not> is_back None th" using f(3) by (simp add: is_back_def)
  have mono: "gets_back user clock (back_from th0 m (m p) a q) th'" if "gets_back user clock (back_from th0 m (m p') a q) th'" "m p' < m p" for p' th'
  proof -
    have w: "goes_on_below m (m p') a t cl pt \<Longrightarrow> goes_on_below m (m p) a t cl pt" for t cl and pt :: "('a, 'b) point"
      using that(2) by (cases pt) (auto intro: less_trans)
    have "back_from th0 m (m p') a q z \<Longrightarrow> back_from th0 m (m p) a q z" for z :: "('b, 'a) thread"
      using w unfolding back_from_def fiber_back_def fiber_waits_def by blast
    with that(1) show ?thesis unfolding gets_back_def by blast
  qed
  have on: "gets_back user clock (back_from th0 m (m p) a q) (goes_on p' th')" if "m p' < m p" "fiber_runs a q th'" "same_but a th0 th'" for p' th'
    using less.hyps [OF that(1) runs_goes_on [OF that(2)]] mono that(1,3) by (simp add: goes_on_def)
  show ?case
  proof (rule gets_back_step [OF notback])
    fix now
    show "\<exists>th1. fiber_thread_step user now th = Some th1 \<and> gets_back user clock (back_from th0 m (m p) a q) th1"
    proof (cases "user p")
      case Return
      then show ?thesis using runs_end [OF less.prems(1) f(3) less.prems(3)] less.prems(2) f(3) by simp
    next
      case (Panic e)
      then show ?thesis using runs_end [OF less.prems(1) f(3) less.prems(3)] less.prems(2) f(3) by (simp add: throw_def)
    next
      case (Call c k)
      have dec: "m (k r) < m p" for r using ends_byD [OF ends Call] by blast
      have rec: "fiber_runs a q (set_fiber a (f\<lparr>input_slot := i\<rparr>) th)" "fiber_runs a q (set_fiber a (f\<lparr>input_u64 := j\<rparr>) th)"
        "fiber_runs a q (set_fiber a (f\<lparr>output_slot := i\<rparr>) th)" "fiber_runs a q (set_fiber a (f\<lparr>output_u64 := j\<rparr>) th)" for i j
        by (rule runs_record [OF less.prems(1) f(1)]; simp)+
      have same: "same_but a th0 (set_fiber a (f\<lparr>input_slot := i\<rparr>) th)" "same_but a th0 (set_fiber a (f\<lparr>input_u64 := j\<rparr>) th)"
        "same_but a th0 (set_fiber a (f\<lparr>output_slot := i\<rparr>) th)" "same_but a th0 (set_fiber a (f\<lparr>output_u64 := j\<rparr>) th)" for i j
        by (rule same_but_set [OF less.prems(3) f(1)]; simp)+
      have "\<exists>th1. do_call now c k th = Some th1 \<and> gets_back user clock (back_from th0 m (m p) a q) th1"
      proof (cases c)
        case YieldNow
        then show ?thesis using runs_yield [OF less.prems(1) _ f(3) less.prems(3), of m "m p" "Code (k RUnit)"] dec by simp
      next
        case (YieldValue v ty)
        then show ?thesis using runs_yield [OF rec(3) _ _ same(3), of m "m p" "trampoline f" "AfterYieldValue a ty k"] dec f by (simp add: yield_value_def set_fiber_def)
      next
        case (YieldU64 v)
        then show ?thesis using runs_yield [OF rec(4) _ _ same(4), of m "m p" "trampoline f" "AfterYieldU64 a k"] dec f by (simp add: yield_u64_def set_fiber_def)
      next
        case (TakeInput ty)
        then show ?thesis using f dec rec same by (auto simp: take_input_def take_input_of_def intro!: on)
      next
        case TakeInputU64
        then show ?thesis using f dec rec same by (auto simp: take_input_u64_def take_input_u64_of_def intro!: on)
      qed (use ends_byD [OF ends Call] f dec less.prems(1,3) in \<open>auto simp: current_fiber_id_def is_cancelled_def is_deadline_passed_def
             should_yield_early_def intro!: on\<close>)
      then show ?thesis using Call less.prems(2) by simp
    qed
  qed
qed

text \<open>A step of a fiber that waits below a rank completes it or lowers the rank.\<close>

lemma waits_step:
  assumes ends: "ends_by m user" and waits: "fiber_waits m n a th" and host: "host_at q th"
  shows "\<exists>s th' w'. fiber_task_step user clock a (th, w) = Some (s, a, th', w') \<and> host_at q th' \<and> same_but a th th' \<and>
    (if s = Completed then fiber_ended a th' else \<exists>n'<n. fiber_waits m n' a th')"
proof -
  obtain f s pt where f: "fibers th a = Some f" "trampolines th (trampoline f) = Some s" "\<not> f_done f"
    "fiber_sp f = (Some (trampoline f), pt)" "goes_on_below m n a (trampoline f) (closure s) pt"
    using waits by (auto simp: fiber_waits_def)
  let ?f = "f\<lparr>f_started := True, caller_sp := Some (None, AfterResume a None None (\<lambda>_. q))\<rparr>"
  let ?th = "set_fiber a ?f (set_trampoline (trampoline f) (s\<lparr>wired := Some a\<rparr>) th
    \<lparr>active_trampoline := Some (trampoline f), active_fiber := Some a\<rparr>)\<lparr>current := (Some (trampoline f), pt)\<rparr>"
  have res: "resume a (\<lambda>_. q) th = Some ?th"
    using f host by (simp add: resume_def host_at_def set_trampoline_def set_fiber_def)
  have runs: "fiber_runs a q (goes_on p (set_fiber a g (set_trampoline (trampoline f) (s\<lparr>wired := Some a, closure := None\<rparr>) ?th)))"
    if "trampoline g = trampoline f" "caller_sp g = caller_sp ?f" "\<not> f_done g" for g p
    using that by (simp add: fiber_runs_def goes_on_def set_trampoline_def set_fiber_def)
  have comes: "\<exists>n'<n. gets_back user clock (back_from th m n' a q) (goes_on p th2)"
    if "th2 = set_fiber a g (set_trampoline (trampoline f) (s\<lparr>wired := Some a, closure := None\<rparr>) ?th)"
      "trampoline g = trampoline f" "caller_sp g = caller_sp ?f" "\<not> f_done g" "m p < n" for g p th2
  proof -
    have "same_but a th (goes_on p th2)" unfolding that(1) using f(1) that(2) by (simp add: same_but_def set_fiber_def set_trampoline_def goes_on_def)
    then show ?thesis
      using runs_own_code [where clock = clock and th = "goes_on p th2", OF ends, of a q p th] runs [OF that(2-4), of p] that(1,5)
      by (auto simp: goes_on_def)
  qed
  have first: "gets_back user clock P ?th" if "\<And>now. fiber_thread_step user now ?th = Some z" "gets_back user clock P z" for P z
    using that by (intro gets_back_step) (auto simp: is_back_def)
  have "\<exists>n'<n. gets_back user clock (back_from th m n' a q) ?th"
  proof (cases pt)
    case (Code p)
    then have p: "m p < n" and same: "s\<lparr>wired := Some a, closure := None\<rparr> = s\<lparr>wired := Some a\<rparr>" using f(5) by (cases s; simp)+
    have "?th = goes_on p ?th" using Code by (simp add: goes_on_def)
    moreover have "?th = set_fiber a ?f (set_trampoline (trampoline f) (s\<lparr>wired := Some a, closure := None\<rparr>) ?th)"
      by (cases th) (simp add: set_fiber_def set_trampoline_def same)
    ultimately show ?thesis using comes [of ?th ?f p] f(3) p by simp
  next
    case (Enter t)
    then obtain p where p: "m p < n" "closure s = Some p" "t = trampoline f" using f(5) by auto
    let ?th2 = "set_trampoline (trampoline f) (s\<lparr>wired := Some a, closure := None\<rparr>) ?th"
    have "fiber_thread_step user now ?th = Some (goes_on p ?th2)" for now
      using Enter p by (simp add: set_fiber_def set_trampoline_def)
    moreover have "?th2 = set_fiber a ?f ?th2" by (cases th) (simp add: set_fiber_def set_trampoline_def)
    ultimately show ?thesis using comes [of ?th2 ?f p] f(3) p(1) first by auto
  next
    case (AfterYieldValue a' ty k)
    let ?p = "k (RValue (Option.bind (input_slot f) (downcast ty)))" and ?th2 = "set_fiber a (?f\<lparr>input_slot := None\<rparr>) ?th"
    have p: "m ?p < n" and same: "s\<lparr>wired := Some a, closure := None\<rparr> = s\<lparr>wired := Some a\<rparr>"
      using AfterYieldValue f(5) by (cases s; simp)+
    have "fiber_thread_step user now ?th = Some (goes_on ?p ?th2)" for now
      using AfterYieldValue f(5) by (simp add: take_input_of_def set_fiber_def)
    moreover have "?th2 = set_fiber a (?f\<lparr>input_slot := None\<rparr>) (set_trampoline (trampoline f) (s\<lparr>wired := Some a, closure := None\<rparr>) ?th)"
      by (cases th) (simp add: set_fiber_def set_trampoline_def same)
    ultimately show ?thesis using comes [of ?th2 "?f\<lparr>input_slot := None\<rparr>" ?p] f(3) p first by auto
  next
    case (AfterYieldU64 a' k)
    let ?p = "k (RU64 (input_u64 f))" and ?th2 = "set_fiber a (?f\<lparr>input_u64 := None\<rparr>) ?th"
    have p: "m ?p < n" and same: "s\<lparr>wired := Some a, closure := None\<rparr> = s\<lparr>wired := Some a\<rparr>"
      using AfterYieldU64 f(5) by (cases s; simp)+
    have "fiber_thread_step user now ?th = Some (goes_on ?p ?th2)" for now
      using AfterYieldU64 f(5) by (simp add: take_input_u64_of_def set_fiber_def)
    moreover have "?th2 = set_fiber a (?f\<lparr>input_u64 := None\<rparr>) (set_trampoline (trampoline f) (s\<lparr>wired := Some a, closure := None\<rparr>) ?th)"
      by (cases th) (simp add: set_fiber_def set_trampoline_def same)
    ultimately show ?thesis using comes [of ?th2 "?f\<lparr>input_u64 := None\<rparr>" ?p] f(3) p first by auto
  qed (use f(5) in auto)
  then obtain n' th' w' where th': "n' < n" "until_back user clock None ?th w = Some (th', w')" "back_from th m n' a q th'"
    unfolding gets_back_def by blast
  have home: "host_at q th'" "same_but a th th'" "fiber_ended a th' \<or> fiber_waits m n' a th'"
    using th'(3) by (simp_all add: back_from_def fiber_back_def)
  obtain g where g: "fibers th' a = Some g" using home(2) by (auto simp: same_but_def)
  have step: "fiber_task_step user clock a (th, w) = Some (suspension_of (step_of g), a, th', w')"
    using host res th' g by (simp add: fiber_task_step_def host_at_def)
  have "suspension_of (step_of g) = Completed \<longleftrightarrow> f_done g" by (simp add: step_of_def)
  then show ?thesis using step home g th'(1) by (auto simp: fiber_ended_def fiber_waits_def)
qed

lemma waits_mono:
  assumes "fiber_waits m n a th" "n \<le> n'"
  shows "fiber_waits m n' a th"
proof -
  have le: "x < n \<Longrightarrow> x < n'" for x using assms(2) by simp
  have "goes_on_below m n a t cl pt \<Longrightarrow> goes_on_below m n' a t cl pt" for t cl and pt :: "('a, 'b) point"
    by (cases pt) (simp_all add: le, blast intro: le)
  with assms(1) show ?thesis unfolding fiber_waits_def by blast
qed

section \<open>Fibers as tasks that share a thread\<close>

text \<open>\<open>box a\<close> is the address of the trampoline state of the fiber at \<open>a\<close>.\<close>

definition fiber_live :: "('p \<Rightarrow> nat) \<Rightarrow> ('p \<Rightarrow> ('p, 'v) act) \<Rightarrow> (nat \<Rightarrow> nat) \<Rightarrow> 'p \<Rightarrow> nat \<Rightarrow> ('v, 'p) thread \<times> 'w \<Rightarrow> bool" where
  "fiber_live m user box q a x \<longleftrightarrow> ends_by m user \<and> host_at q (fst x) \<and> (\<exists>n. fiber_waits m n a (fst x)) \<and>
     map_option trampoline (fibers (fst x) a) = Some (box a)"

definition fiber_rank :: "('p \<Rightarrow> nat) \<Rightarrow> nat \<Rightarrow> ('v, 'p) thread \<times> 'w \<Rightarrow> nat" where
  "fiber_rank m a x = (LEAST n. fiber_waits m n a (fst x))"

interpretation fiber_tasks: shared_tasks "fiber_task_step user clock" "fiber_live m user box q" "\<lambda>a x. fiber_ended a (fst x)"
  "fiber_rank m" "\<lambda>a b. a \<noteq> b \<and> box a \<noteq> box b"
  for m :: "'p \<Rightarrow> nat" and user :: "'p \<Rightarrow> ('p, 'v) act" and clock :: "'w \<Rightarrow> f64 \<times> 'w" and box q
proof
  have step: "\<exists>s th' w'. fiber_task_step user clock a x = Some (s, a, th', w') \<and> host_at q th' \<and> same_but a (fst x) th' \<and>
      (if s = Completed then fiber_ended a th' else \<exists>n'<fiber_rank m a x. fiber_waits m n' a th')"
    if "fiber_live m user box q a x" for a and x :: "('v, 'p) thread \<times> 'w"
  proof -
    obtain th w where x: "x = (th, w)" by (cases x)
    from that obtain n where live: "ends_by m user" "host_at q th" "fiber_waits m n a th" by (auto simp: fiber_live_def x)
    have "fiber_waits m (fiber_rank m a x) a th"
      using LeastI [of "\<lambda>n. fiber_waits m n a th", OF live(3)] by (simp add: fiber_rank_def x)
    from waits_step [where clock = clock and w = w, OF live(1) this live(2)] show ?thesis by (simp add: x)
  qed
  show "\<exists>s x'. fiber_task_step user clock a x = Some (s, a, x') \<and>
      (if s = Completed then fiber_ended a (fst x') else fiber_live m user box q a x' \<and> fiber_rank m a x' < fiber_rank m a x)"
    if live: "fiber_live m user box q a x" for a and x :: "('v, 'p) thread \<times> 'w"
  proof -
    from step [OF live] obtain s th' w' where s: "fiber_task_step user clock a x = Some (s, a, th', w')" "host_at q th'"
      "same_but a (fst x) th'" "if s = Completed then fiber_ended a th' else \<exists>n'<fiber_rank m a x. fiber_waits m n' a th'" by blast
    have "fiber_live m user box q a (th', w') \<and> fiber_rank m a (th', w') < fiber_rank m a x" if "s \<noteq> Completed"
    proof -
      from s(4) that obtain n' where n': "n' < fiber_rank m a x" "fiber_waits m n' a th'" by auto
      have "fiber_rank m a (th', w') \<le> n'" using Least_le [of "\<lambda>n. fiber_waits m n a th'", OF n'(2)] by (simp add: fiber_rank_def)
      moreover have "map_option trampoline (fibers th' a) = Some (box a)" using live s(3) by (auto simp: fiber_live_def same_but_def)
      ultimately show ?thesis using live s(2) n' by (auto simp: fiber_live_def)
    qed
    with s(1,4) show ?thesis by (intro exI [of _ s] exI [of _ "(th', w')"]) simp
  qed
  show "(fiber_live m user box q b x \<longrightarrow> fiber_live m user box q b x' \<and> fiber_rank m b x' = fiber_rank m b x) \<and>
      (fiber_ended b (fst x) \<longrightarrow> fiber_ended b (fst x'))"
    if live: "fiber_live m user box q a x" and st: "fiber_task_step user clock a x = Some (s, a', x')" and apart: "a \<noteq> b \<and> box a \<noteq> box b"
    for a b s a' and x x' :: "('v, 'p) thread \<times> 'w"
  proof -
    from step [OF live] st have same: "host_at q (fst x')" "same_but a (fst x) (fst x')" by auto
    obtain f where f: "fibers (fst x) a = Some f" "trampoline f = box a" using live by (auto simp: fiber_live_def)
    have other: "fibers (fst x') b = fibers (fst x) b" using same(2) apart by (auto simp: same_but_def)
    have "fiber_live m user box q b x' \<and> fiber_rank m b x' = fiber_rank m b x" if liveb: "fiber_live m user box q b x"
    proof -
      obtain g where g: "fibers (fst x) b = Some g" "trampoline g = box b" using liveb by (auto simp: fiber_live_def)
      have "fiber_waits m n b (fst x') = fiber_waits m n b (fst x)" for n
        by (rule same_but_waits [OF same(2) f(1) _ g(1)]) (use apart f(2) g(2) in auto)
      with liveb same(1) other show ?thesis by (simp add: fiber_live_def fiber_rank_def)
    qed
    with other show ?thesis by (simp add: fiber_ended_def)
  qed
qed

section \<open>Fibers under the round-robin scheduler\<close>

text \<open>Fibers made one after the other on one thread: their addresses, their trampoline states and their code.\<close>

fun new_fibers :: "(nat \<times> nat \<times> 'p) list \<Rightarrow> ('v, 'p) thread \<Rightarrow> ('v, 'p) thread" where
  "new_fibers [] th = th"
| "new_fibers ((a, t, p) # xs) th = new_fibers xs (fiber_new a t p th)"

lemma new_fibers_other:
  "a \<notin> fst ` set xs \<Longrightarrow> fibers (new_fibers xs th) a = fibers th a"
  "t \<notin> (fst \<circ> snd) ` set xs \<Longrightarrow> trampolines (new_fibers xs th) t = trampolines th t"
  by (induction xs th rule: new_fibers.induct) (auto simp: fiber_new_def set_fiber_def set_trampoline_def Let_def)

lemma new_fibers_host: "host_at q th \<Longrightarrow> host_at q (new_fibers xs th)"
  by (induction xs th rule: new_fibers.induct) (auto simp: host_at_def fiber_new_def set_fiber_def set_trampoline_def Let_def)

lemma new_fibers_wait:
  assumes "distinct (map fst xs)" and "distinct (map (fst \<circ> snd) xs)" and "(a, t, p) \<in> set xs"
  shows "fiber_waits m (Suc (m p)) a (new_fibers xs th) \<and> map_option trampoline (fibers (new_fibers xs th) a) = Some t"
  using assms
proof (induction xs th rule: new_fibers.induct)
  case (2 b u r xs th)
  show ?case
  proof (cases "(a, t, p) \<in> set xs")
    case True
    with 2 show ?thesis by simp
  next
    case False
    with "2.prems" have eq: "b = a" "u = t" "r = p" and out: "a \<notin> fst ` set xs" "t \<notin> (fst \<circ> snd) ` set xs" by auto
    let ?th = "fiber_new a t p th"
    have "fibers (new_fibers xs ?th) a = fibers ?th a" "trampolines (new_fibers xs ?th) t = trampolines ?th t"
      using new_fibers_other(1) [OF out(1)] new_fibers_other(2) [OF out(2)] by blast+
    then show ?thesis
      by (simp add: eq fiber_waits_def fiber_new_def set_fiber_def set_trampoline_def fiber_core.defs core_new_def Let_def)
  qed
qed simp

text \<open>
  C35: Fibers under the round-robin scheduler all complete. Let one thread make any number of fibers, at distinct
  addresses, and hand them boxed to the scheduler of krio-runtime. The fibers share the thread locals
  \<open>ACTIVE_TRAMPOLINE\<close> and \<open>ACTIVE_FIBER\<close>, the counter of identities and the clock. When their code only makes the
  calls that concern the running fiber (yields, taking its input, the polls; no resume, no new fiber, no method of
  another fiber) and every call lowers a rank of the program points, whatever it replies and whatever the clock
  says, \<open>run_to_completion\<close> returns: no resume of a finished fiber panics, no address is used where nothing lies, no
  step keeps control forever, no task is left and every fiber has run to its end.
\<close>

theorem round_robin_completes_fibers:
  assumes "ends_by m user" and "distinct (map fst xs)" and "distinct (map (fst \<circ> snd) xs)"
  shows "\<exists>s' th w'. rr_run_to_completion (fiber_task_step user clock) \<lparr>rr_tasks = map fst xs\<rparr> (new_fibers xs (thread_start q), w) =
      Some (Some (s', th, w')) \<and> rr_tasks s' = [] \<and> (\<forall>a\<in>fst ` set xs. fiber_ended a th)"
proof -
  let ?box = "\<lambda>a. the (map_of (map (\<lambda>(a, t, p). (a, t)) xs) a)" and ?th = "new_fibers xs (thread_start q)"
  have fsts: "map fst (map (\<lambda>(a, t, p). (a, t)) xs) = map fst xs" by (induction xs) auto
  have box: "?box a = t" if "(a, t, p) \<in> set xs" for a t p
  proof -
    have "(a, t) \<in> set (map (\<lambda>(a, t, p). (a, t)) xs)" using that by force
    with assms(2) show ?thesis unfolding fsts [symmetric] by simp
  qed
  have box_inj: "?box a \<noteq> ?box b" if "a \<in> fst ` set xs" "b \<in> fst ` set xs" "a \<noteq> b" for a b
  proof -
    from that(1,2) obtain t p u r where x: "(a, t, p) \<in> set xs" "(b, u, r) \<in> set xs" by auto
    have "inj_on (fst \<circ> snd) (set xs)" using assms(3) by (simp add: distinct_map)
    from inj_onD [OF this _ x] that(3) have "t \<noteq> u" by auto
    with box [OF x(1)] box [OF x(2)] show ?thesis by simp
  qed
  have apart: "fiber_tasks.all_apart ?box (map fst xs)"
    unfolding fiber_tasks.all_apart_def using assms(2) box_inj by simp
  have host: "host_at q ?th" by (rule new_fibers_host) (simp add: host_at_def thread_start_def)
  have live: "\<forall>a\<in>set (map fst xs). fiber_live m user ?box q a (?th, w)"
  proof
    fix a assume "a \<in> set (map fst xs)"
    then obtain t p where x: "(a, t, p) \<in> set xs" by auto
    from new_fibers_wait [OF assms(2,3) x, of m "thread_start q"] host assms(1) box [OF x]
    show "fiber_live m user ?box q a (?th, w)" by (auto simp: fiber_live_def)
  qed
  from fiber_tasks.rr_run_terminates [where s = "\<lparr>rr_tasks = map fst xs\<rparr>" and box = ?box and clock = clock, simplified, OF apart live [simplified]]
  show ?thesis by fastforce
qed

text \<open>Two fibers that count down, yielding a number at each step, and poll for cancellation.\<close>

definition counting :: "nat \<Rightarrow> (nat, u64) act" where
  "counting n = (if n = 0 then Return
     else if even n then Call ShouldYieldEarly (\<lambda>r. if r = RBool True then 0 else n - 1)
     else Call (YieldU64 (of_nat n)) (\<lambda>_. n - 1))"

definition two_counters :: "(nat \<times> nat \<times> nat) list" where
  "two_counters = [(10, 20, 5), (11, 21, 2)]"

theorem round_robin_completes_fibers_witness:
  "\<exists>s' th w'. rr_run_to_completion (fiber_task_step counting (\<lambda>w. (Fin (real w), Suc w)))
      \<lparr>rr_tasks = map fst two_counters\<rparr> (new_fibers two_counters (thread_start 0), 0) = Some (Some (s', th, w')) \<and>
    rr_tasks s' = [] \<and> (\<forall>a\<in>fst ` set two_counters. fiber_ended a th)"
  by (rule round_robin_completes_fibers [where m = "\<lambda>n. n"]) (auto simp: ends_by_def counting_def two_counters_def split: if_splits)

end
