(* ===== verification/Krio_Memory.thy ===== *)
theory Krio_Memory
  imports Krio_Prelude
begin

text \<open>
  The memory the switches of \<open>crates/krio-fiber\<close> work on: bytes at machine addresses, little endian,
  read and written at the width of the value. Addresses wrap, as the instructions' arithmetic does;
  two ranges are \<open>apart\<close> when neither reaches the other from its start.
\<close>

unbundle bit_operations_syntax

type_synonym u16 = "16 word"
type_synonym u128 = "128 word"
type_synonym 'w memory = "'w word \<Rightarrow> 8 word"

definition byte_size :: "'v::len itself \<Rightarrow> nat" where
  "byte_size t = LENGTH('v) div 8"

definition le_bytes :: "'v::len word \<Rightarrow> 8 word list" where
  "le_bytes v = map (\<lambda>i. ucast (drop_bit (8 * i) v)) [0..<byte_size TYPE('v)]"

fun le_word :: "8 word list \<Rightarrow> 'v::len word" where
  "le_word [] = 0"
| "le_word (b # bs) = ucast b OR push_bit 8 (le_word bs)"

definition store :: "'w::len word \<Rightarrow> 'v::len word \<Rightarrow> 'w memory \<Rightarrow> 'w memory" where
  "store a v m = (\<lambda>x. if unat (x - a) < byte_size TYPE('v) then le_bytes v ! unat (x - a) else m x)"

definition load :: "'w::len word \<Rightarrow> 'w memory \<Rightarrow> 'v::len word" where
  "load a m = le_word (map (\<lambda>i. m (a + of_nat i)) [0..<byte_size TYPE('v)])"

text \<open>\<open>write_bytes(sp, 0, n)\<close>.\<close>

definition zero_bytes :: "'w::len word \<Rightarrow> nat \<Rightarrow> 'w memory \<Rightarrow> 'w memory" where
  "zero_bytes a n m = (\<lambda>x. if unat (x - a) < n then 0 else m x)"

definition apart :: "'w::len word \<Rightarrow> nat \<Rightarrow> 'w word \<Rightarrow> nat \<Rightarrow> bool" where
  "apart a n b m \<longleftrightarrow> n \<le> unat (b - a) \<and> m \<le> unat (a - b)"

text \<open>The memories agree on the \<open>n\<close> bytes from \<open>a\<close> on.\<close>

definition same_bytes :: "'w::len word \<Rightarrow> nat \<Rightarrow> 'w memory \<Rightarrow> 'w memory \<Rightarrow> bool" where
  "same_bytes a n m m' \<longleftrightarrow> (\<forall>x. unat (x - a) < n \<longrightarrow> m x = m' x)"

section \<open>Reading back what was written\<close>

lemma byte_size_simps [simp]:
  "byte_size TYPE(64) = 8" "byte_size TYPE(32) = 4" "byte_size TYPE(16) = 2" "byte_size TYPE(128) = 16"
  by (simp_all add: byte_size_def)

lemma length_le_bytes [simp]: "length (le_bytes (v :: 'v::len word)) = byte_size TYPE('v)"
  by (simp add: le_bytes_def)

lemma bit_le_word:
  "bit (le_word bs :: 'v::len word) n \<longleftrightarrow> n < LENGTH('v) \<and> n div 8 < length bs \<and> bit (bs ! (n div 8)) (n mod 8)"
proof (induction bs arbitrary: n)
  case (Cons b bs)
  show ?case
  proof (cases "n < 8")
    case True
    then show ?thesis by (simp add: bit_or_iff bit_push_bit_iff bit_ucast_iff)
  next
    case False
    then obtain k where k: "n = k + 8" by (metis add.commute le_Suc_ex not_less)
    have "\<not> bit b n" using False bit_imp_le_length [of b n] by auto
    moreover have "n div 8 = Suc (k div 8)" "n mod 8 = k mod 8" using k by simp_all
    ultimately show ?thesis using Cons.IH [of k] k by (auto simp: bit_or_iff bit_push_bit_iff bit_ucast_iff)
  qed
qed simp

lemma le_word_bytes:
  fixes v :: "'v::len word"
  assumes d: "8 dvd LENGTH('v)"
  shows "le_word (le_bytes v) = v"
proof (rule bit_word_eqI)
  fix n assume n: "n < LENGTH('v)"
  with d have "n div 8 < byte_size TYPE('v)" by (auto simp: byte_size_def elim!: dvdE)
  with n show "bit (le_word (le_bytes v) :: 'v word) n \<longleftrightarrow> bit v n"
    by (simp add: bit_le_word le_bytes_def bit_ucast_iff bit_drop_bit_eq)
qed

lemma byte_size_word: "byte_size TYPE('w::len) < LENGTH('w)" "byte_size TYPE('w::len) \<le> 2 ^ LENGTH('w)"
proof -
  show 1: "byte_size TYPE('w) < LENGTH('w)" by (simp add: byte_size_def)
  show "byte_size TYPE('w) \<le> 2 ^ LENGTH('w)" using 1 less_exp [of "LENGTH('w)"] by linarith
qed

lemma of_nat_offset: "i < n \<Longrightarrow> n \<le> 2 ^ LENGTH('w) \<Longrightarrow> unat (of_nat i :: 'w::len word) = i"
  by (simp add: unat_of_nat)

lemma load_store_same [simp]:
  fixes a :: "'w::len word" and v :: "'v::len word"
  assumes "byte_size TYPE('v) < LENGTH('w)" and "8 dvd LENGTH('v)"
  shows "load a (store a v m) = v"
proof -
  have "byte_size TYPE('v) \<le> 2 ^ LENGTH('w)" using assms(1) less_exp [of "LENGTH('w)"] by linarith
  then have "map (\<lambda>i. store a v m (a + of_nat i)) [0..<byte_size TYPE('v)] = le_bytes v"
    by (intro nth_equalityI) (simp_all add: store_def of_nat_offset)
  then show ?thesis using assms(2) by (simp add: load_def le_word_bytes)
qed

lemma apart_sym: "apart a n b m \<longleftrightarrow> apart b m a n"
  by (auto simp: apart_def)

lemma apart_not_both:
  fixes a :: "'w::len word"
  assumes "apart a n b m" and "unat (x - a) < n"
  shows "\<not> unat (x - b) < m"
proof
  assume y: "unat (x - b) < m"
  let ?D = "unat (b - a)" and ?E = "unat (a - b)"
  have DE: "n \<le> ?D" "m \<le> ?E" using assms(1) by (simp_all add: apart_def)
  have "unat ((a - b) + (b - a)) = (?E + ?D) mod 2 ^ LENGTH('w)" by (rule unat_word_ariths(1))
  then have "2 ^ LENGTH('w) dvd ?E + ?D" by (simp add: dvd_eq_mod_eq_0)
  then obtain q where q: "?E + ?D = 2 ^ LENGTH('w) * q" by (elim dvdE)
  have "?E + ?D < 2 ^ LENGTH('w) * 2" by (simp add: add_strict_mono mult_2_right)
  with q have "q \<le> 1" by simp
  with q have "?E + ?D \<le> 2 ^ LENGTH('w)" by (cases q) auto
  then have "unat (x - b) + ?D < 2 ^ LENGTH('w)" using y DE by linarith
  then have "unat ((x - b) + (b - a)) = unat (x - b) + ?D" by (subst (asm) unat_add_lem)
  then show False using assms(2) DE by simp
qed

lemma same_bytes_refl [simp]: "same_bytes a n m m"
  by (simp add: same_bytes_def)

lemma same_bytes_trans: "same_bytes a n m1 m2 \<Longrightarrow> same_bytes a n m2 m3 \<Longrightarrow> same_bytes a n m1 m3"
  by (simp add: same_bytes_def)

lemma same_bytes_store: "apart a n b (byte_size TYPE('v)) \<Longrightarrow> same_bytes a n (store b (v :: 'v::len word) m) m"
  using apart_not_both [of a n b] by (auto simp: same_bytes_def store_def)

lemma same_bytes_stored:
  "apart a n b (byte_size TYPE('v)) \<Longrightarrow> same_bytes a n m m' \<Longrightarrow> same_bytes a n (store b (v :: 'v::len word) m) m'"
  by (rule same_bytes_trans [OF same_bytes_store])

lemma load_same_bytes:
  fixes a :: "'w::len word"
  assumes "same_bytes b n m m'" and "unat (a - b) + byte_size TYPE('v) \<le> n" and "n \<le> 2 ^ LENGTH('w)"
  shows "(load a m :: 'v::len word) = load a m'"
proof -
  have "m (a + of_nat i) = m' (a + of_nat i)" if "i < byte_size TYPE('v)" for i
  proof -
    have u: "unat (of_nat i :: 'w word) = i" using that assms by (intro of_nat_offset) auto
    have "unat ((a - b) + of_nat i) = unat (a - b) + unat (of_nat i :: 'w word)"
      using that assms(2,3) u by (intro unat_add_lem [THEN iffD1]) simp
    moreover have "a + of_nat i - b = (a - b) + of_nat i" by simp
    ultimately have "unat (a + of_nat i - b) = unat (a - b) + i" using u by metis
    then have "unat (a + of_nat i - b) < n" using assms(2) that u by simp
    with assms(1) show ?thesis by (simp add: same_bytes_def)
  qed
  then show ?thesis unfolding load_def by (intro arg_cong [of _ _ le_word] map_cong) simp_all
qed

lemma load_store_apart [simp]:
  fixes a :: "'w::len word" and v :: "'v::len word"
  assumes "apart a (byte_size TYPE('u)) b (byte_size TYPE('v))" and "byte_size TYPE('u) < LENGTH('w)"
  shows "(load a (store b v m) :: 'u::len word) = load a m"
proof (rule load_same_bytes [OF same_bytes_store [OF assms(1)]])
  show "byte_size TYPE('u) \<le> 2 ^ LENGTH('w)" using assms(2) less_exp [of "LENGTH('w)"] by linarith
qed simp

lemma apart_offsets:
  fixes b :: "'w::len word"
  assumes o: "unat k < unat l \<and> unat k + n \<le> unat l \<and> unat l + m \<le> 65536 \<or>
    unat l < unat k \<and> unat l + m \<le> unat k \<and> unat k + n \<le> 65536" and w: "16 \<le> LENGTH('w)"
  shows "apart (b + k) n (b + l) m" "apart (k + b) n (b + l) m" "apart (b + k) n (l + b) m" "apart (k + b) n (l + b) m"
proof -
  have "2 ^ 16 \<le> (2 :: nat) ^ LENGTH('w)" using w by (intro power_increasing) simp_all
  then have "65536 \<le> (2 :: nat) ^ LENGTH('w)" by simp
  then have "n \<le> unat (l - k) \<and> m \<le> unat (k - l)"
    using o by (auto simp: unat_sub_if_size word_size)
  then show "apart (b + k) n (b + l) m" by (simp add: apart_def)
  then show "apart (k + b) n (b + l) m" "apart (b + k) n (l + b) m" "apart (k + b) n (l + b) m"
    by (simp_all add: add.commute)
qed

text \<open>The same at literal offsets, where the simplifier compares the literals.\<close>

lemma unat_literal:
  assumes "(numeral k :: nat) \<le> 65535" and "16 \<le> LENGTH('w)"
  shows "unat (numeral k :: 'w::len word) = numeral k"
proof -
  have "2 ^ 16 \<le> (2 :: nat) ^ LENGTH('w)" using assms(2) by (intro power_increasing) simp_all
  moreover have "(2 :: nat) ^ 16 = 65536" by simp
  ultimately have "numeral k < (2 :: nat) ^ LENGTH('w)" using assms(1) by linarith
  then show ?thesis by (metis of_nat_numeral unat_of_nat mod_less)
qed

lemma apart_literals [simp]:
  fixes b :: "'w::len word"
  assumes "(numeral k :: nat) + n \<le> numeral l" and "numeral l + m \<le> (65536 :: nat)" and "0 < n" "0 < m" "16 \<le> LENGTH('w)"
  shows "apart (b + numeral k) n (b + numeral l) m" "apart (numeral k + b) n (b + numeral l) m"
    "apart (b + numeral k) n (numeral l + b) m" "apart (numeral k + b) n (numeral l + b) m"
    "apart (b + numeral l) m (b + numeral k) n" "apart (numeral l + b) m (b + numeral k) n"
    "apart (b + numeral l) m (numeral k + b) n" "apart (numeral l + b) m (numeral k + b) n"
proof -
  have "(numeral k :: nat) \<le> 65535" "(numeral l :: nat) \<le> 65535" using assms(1-4) by linarith+
  then have u: "unat (numeral k :: 'w word) = numeral k" "unat (numeral l :: 'w word) = numeral l"
    using assms(5) by (simp_all only: unat_literal)
  have 1: "apart (b + numeral k) n (b + numeral l) m"
    by (rule apart_offsets(1), unfold u, use assms(1-4) in linarith, rule assms(5))
  then show "apart (b + numeral k) n (b + numeral l) m" "apart (numeral k + b) n (b + numeral l) m"
    "apart (b + numeral k) n (numeral l + b) m" "apart (numeral k + b) n (numeral l + b) m"
    by (simp_all add: add.commute)
  from 1 have 2: "apart (b + numeral l) m (b + numeral k) n" using apart_sym by blast
  then show "apart (b + numeral l) m (b + numeral k) n" "apart (numeral l + b) m (b + numeral k) n"
    "apart (b + numeral l) m (numeral k + b) n" "apart (numeral l + b) m (numeral k + b) n"
    by (simp_all add: add.commute)
qed

lemma apart_offset [simp]:
  fixes b :: "'w::len word"
  assumes "n \<le> unat l" and "unat l + m \<le> 65536" and "0 < unat l" and "16 \<le> LENGTH('w)"
  shows "apart b n (b + l) m" "apart b n (l + b) m" "apart (b + l) m b n" "apart (l + b) m b n"
proof -
  show "apart b n (b + l) m" "apart b n (l + b) m"
    using apart_offsets [where k = 0 and l = l and n = n and m = m and b = b] assms by (simp_all add: add.commute)
  then show "apart (b + l) m b n" "apart (l + b) m b n" using apart_sym by blast+
qed

lemma load_store_swap [simp]:
  fixes b :: "'w::len word" and v :: "'v::len word"
  assumes "byte_size TYPE('v) < LENGTH('w)" and "8 dvd LENGTH('v)"
  shows "load (b + k) (store (k + b) v m) = v" "load (k + b) (store (b + k) v m) = v"
  using load_store_same [OF assms, of "b + k"] by (simp_all add: add.commute)

lemma apart_iff: "0 < n \<Longrightarrow> 0 < m \<Longrightarrow> apart a n b m \<longleftrightarrow> (\<forall>x. unat (x - a) < n \<longrightarrow> \<not> unat (x - b) < m)"
  by (metis apart_def apart_not_both cancel_comm_monoid_add_class.diff_cancel not_less unat_0)

lemma apart_part:
  fixes a :: "'w::len word"
  assumes "apart a n b m" and "unat k + j \<le> m" and "0 < n" and "0 < j"
  shows "apart a n (b + k) j"
proof -
  have "unat (x - b) < m" if "unat (x - (b + k)) < j" for x
  proof -
    have "unat ((x - (b + k)) + k) = (unat (x - (b + k)) + unat k) mod 2 ^ LENGTH('w)" by (rule unat_word_ariths(1))
    also have "\<dots> \<le> unat (x - (b + k)) + unat k" by simp
    finally show ?thesis using that assms(2) by (simp add: algebra_simps)
  qed
  moreover have "\<forall>x. unat (x - a) < n \<longrightarrow> \<not> unat (x - b) < m" using apart_not_both [OF assms(1)] by blast
  ultimately show ?thesis using assms(3,4) by (subst apart_iff) auto
qed

text \<open>A store into a range leaves the bytes outside the range alone.\<close>

lemma store_within:
  fixes b :: "'w::len word" and v :: "'v::len word"
  assumes "n \<le> unat (x - b)" and "unat k + byte_size TYPE('v) \<le> n"
  shows "store (b + k) v m x = m x" "store (k + b) v m x = m x"
proof -
  have "unat ((x - (b + k)) + k) = (unat (x - (b + k)) + unat k) mod 2 ^ LENGTH('w)" by (rule unat_word_ariths(1))
  also have "\<dots> \<le> unat (x - (b + k)) + unat k" by simp
  finally have "unat (x - b) \<le> unat (x - (b + k)) + unat k" by (simp add: algebra_simps)
  with assms show "store (b + k) v m x = m x" by (simp add: store_def)
  then show "store (k + b) v m x = m x" by (simp add: add.commute)
qed

lemma store_other:
  fixes v :: "'v::len word"
  shows "byte_size TYPE('v) \<le> n \<Longrightarrow> n \<le> unat (x - a) \<Longrightarrow> store a v m x = m x"
  by (simp add: store_def)

lemma apart_within:
  fixes a :: "'w::len word"
  assumes "apart a n b m" and "0 < n"
  shows "0 < j \<Longrightarrow> unat k + j \<le> m \<Longrightarrow> apart a n (b + k) j" "0 < j \<Longrightarrow> unat k + j \<le> m \<Longrightarrow> apart a n (k + b) j"
    "0 < j \<Longrightarrow> unat k + j \<le> m \<Longrightarrow> apart (b + k) j a n" "0 < j \<Longrightarrow> unat k + j \<le> m \<Longrightarrow> apart (k + b) j a n"
    "0 < j \<Longrightarrow> j \<le> m \<Longrightarrow> apart a n b j" "0 < j \<Longrightarrow> j \<le> m \<Longrightarrow> apart b j a n"
proof -
  show 1: "0 < j \<Longrightarrow> unat k + j \<le> m \<Longrightarrow> apart a n (b + k) j" using apart_part [OF assms(1) _ assms(2)] by simp
  then show 2: "0 < j \<Longrightarrow> unat k + j \<le> m \<Longrightarrow> apart a n (k + b) j" by (simp add: add.commute)
  show "0 < j \<Longrightarrow> unat k + j \<le> m \<Longrightarrow> apart (b + k) j a n" using 1 apart_sym by blast
  show "0 < j \<Longrightarrow> unat k + j \<le> m \<Longrightarrow> apart (k + b) j a n" using 2 apart_sym by blast
  show 3: "0 < j \<Longrightarrow> j \<le> m \<Longrightarrow> apart a n b j" using assms by (simp add: apart_def)
  then show "0 < j \<Longrightarrow> j \<le> m \<Longrightarrow> apart b j a n" using apart_sym by blast
qed

lemma load_within:
  fixes b :: "'w::len word"
  assumes "same_bytes b n m m'" and "n \<le> 2 ^ LENGTH('w)" and "unat k + byte_size TYPE('v) \<le> n"
  shows "(load (b + k) m :: 'v::len word) = load (b + k) m'"
  using assms by (intro load_same_bytes [OF assms(1)]) simp_all

lemma load_start:
  fixes b :: "'w::len word"
  assumes "same_bytes b n m m'" and "n \<le> 2 ^ LENGTH('w)" and "byte_size TYPE('v) \<le> n"
  shows "(load b m :: 'v::len word) = load b m'"
  using assms by (intro load_same_bytes [OF assms(1)]) simp_all

lemma ucast_narrow [simp]: "LENGTH('a) \<le> LENGTH('b) \<Longrightarrow> ucast (ucast (x :: 'a::len word) :: 'b::len word) = x"
  by (rule bit_word_eqI) (simp add: bit_ucast_iff)

lemma le_word_zeros [simp]: "le_word (replicate n 0) = 0"
  by (induction n) simp_all

lemma load_zero_bytes [simp]:
  fixes b :: "'w::len word"
  assumes "unat k + byte_size TYPE('v) \<le> n" and "n \<le> 2 ^ LENGTH('w)"
  shows "load (b + k) (zero_bytes b n m) = (0 :: 'v::len word)" "load (k + b) (zero_bytes b n m) = (0 :: 'v::len word)"
proof -
  have "zero_bytes b n m (b + k + of_nat i) = 0" if "i < byte_size TYPE('v)" for i
  proof -
    have "unat (of_nat i :: 'w word) = i" using that assms by (intro of_nat_offset) auto
    then have "unat (k + of_nat i) \<le> unat k + i" by (metis unat_word_ariths(1) mod_less_eq_dividend)
    then show ?thesis using that assms(1) by (simp add: zero_bytes_def)
  qed
  then have "map (\<lambda>i. zero_bytes b n m (b + k + of_nat i)) [0..<byte_size TYPE('v)] = replicate (byte_size TYPE('v)) 0"
    by (intro nth_equalityI) simp_all
  then show "load (b + k) (zero_bytes b n m) = (0 :: 'v word)" by (simp add: load_def)
  then show "load (k + b) (zero_bytes b n m) = (0 :: 'v word)" by (simp add: add.commute)
qed

lemma ucast_scast [simp]: "LENGTH('a) \<le> LENGTH('b) \<Longrightarrow> ucast (scast (x :: 'a::len word) :: 'b::len word) = x"
  by (rule bit_word_eqI) (auto simp: bit_ucast_iff bit_signed_iff)

lemma load_flip: "load (numeral k + a) m = load (a + numeral k) m" for a :: "'w::len word"
  by (simp add: add.commute)

end
