(* ===== verification/Krio_Switch.thy ===== *)
theory Krio_Switch
  imports Krio_Memory
begin

text \<open>
  The contract of \<open>krio_fiber_switch\<close> in \<open>crates/krio-fiber/src/arch.rs\<close>, which every target's
  assembly keeps: what a run of it leaves in the slots and in the frame, and in which context it ends.
\<close>

section \<open>The contract\<close>

text \<open>
  \<open>running\<close> is the part of the processor's state that the calling convention makes the callee keep,
  with the address it continues at; \<open>leaving\<close> is that context as the caller of the switch expects it
  when its call returns. \<open>frame m sp\<close> reads a context out of a saved frame, \<open>size\<close> bytes from \<open>sp\<close> on.
  \<open>word\<close> is the size of a pointer.
\<close>

locale context_switch =
  fixes run :: "'s \<Rightarrow> 's"
    and memory :: "'s \<Rightarrow> 'w::len memory"
    and leaving running :: "'s \<Rightarrow> 'c"
    and frame :: "'w memory \<Rightarrow> 'w word \<Rightarrow> 'c"
    and saved_sp save_to load_from :: "'s \<Rightarrow> 'w word"
    and size :: nat
  assumes loads: "apart (save_to s) (byte_size TYPE('w)) (saved_sp s) size \<Longrightarrow> running (run s) = frame (memory (run s)) (load (load_from s) (memory (run s)))"
    and saves: "apart (save_to s) (byte_size TYPE('w)) (saved_sp s) size \<Longrightarrow> frame (memory (run s)) (saved_sp s) = leaving s"
    and saves_sp: "load (save_to s) (memory (run s)) = saved_sp s"
    and writes: "size \<le> unat (x - saved_sp s) \<Longrightarrow> byte_size TYPE('w) \<le> unat (x - save_to s) \<Longrightarrow> memory (run s) x = memory s x"
    and frame_bytes: "same_bytes a size m m' \<Longrightarrow> frame m a = frame m' a"
begin

text \<open>A range that a switch's own frame and slot do not touch.\<close>

lemma untouched:
  assumes "apart a n (saved_sp s) size" and "apart a n (save_to s) (byte_size TYPE('w))"
  shows "same_bytes a n (memory (run s)) (memory s)"
  unfolding same_bytes_def
proof (intro allI impI)
  fix x assume "unat (x - a) < n"
  then show "memory (run s) x = memory s x"
    using apart_not_both [OF assms(1)] apart_not_both [OF assms(2)] by (intro writes) (simp_all add: not_less)
qed

text \<open>
  Whoever loads the saved stack pointer, with the frame as it was left, continues the one that saved
  it where its call returns.
\<close>

lemma resumes:
  assumes "apart (save_to s) (byte_size TYPE('w)) (saved_sp s) size" and "apart (save_to t) (byte_size TYPE('w)) (saved_sp t) size"
    and "same_bytes (saved_sp s) size (memory (run s)) (memory t)"
    and "load (load_from t) (memory t) = saved_sp s"
    and "apart (saved_sp s) size (saved_sp t) size" "apart (saved_sp s) size (save_to t) (byte_size TYPE('w))"
    and "apart (load_from t) (byte_size TYPE('w)) (saved_sp t) size" "apart (load_from t) (byte_size TYPE('w)) (save_to t) (byte_size TYPE('w))"
  shows "running (run t) = leaving s"
proof -
  have "same_bytes (load_from t) (byte_size TYPE('w)) (memory (run t)) (memory t)" using assms(7,8) by (rule untouched)
  then have "(load (load_from t) (memory (run t)) :: 'w word) = load (load_from t) (memory t)"
    by (rule load_same_bytes) (simp_all add: byte_size_word)
  moreover have "same_bytes (saved_sp s) size (memory (run t)) (memory t)" using assms(5,6) by (rule untouched)
  ultimately have "running (run t) = frame (memory t) (saved_sp s)" using loads [OF assms(2)] assms(4) frame_bytes by metis
  then show ?thesis using frame_bytes [OF assms(3)] saves [OF assms(1)] by simp
qed

end

text \<open>The same as a property of the parts of a target.\<close>

definition resumes_caller :: "('s \<Rightarrow> 's) \<Rightarrow> ('s \<Rightarrow> 'w::len memory) \<Rightarrow> ('s \<Rightarrow> 'c) \<Rightarrow> ('s \<Rightarrow> 'c) \<Rightarrow>
    ('s \<Rightarrow> 'w word) \<Rightarrow> ('s \<Rightarrow> 'w word) \<Rightarrow> ('s \<Rightarrow> 'w word) \<Rightarrow> nat \<Rightarrow> bool" where
  "resumes_caller run memory leaving running saved_sp save_to load_from n \<longleftrightarrow> (\<forall>s t.
     apart (save_to s) (byte_size TYPE('w)) (saved_sp s) n \<and> apart (save_to t) (byte_size TYPE('w)) (saved_sp t) n \<and>
     same_bytes (saved_sp s) n (memory (run s)) (memory t) \<and> load (load_from t) (memory t) = saved_sp s \<and>
     apart (saved_sp s) n (saved_sp t) n \<and> apart (saved_sp s) n (save_to t) (byte_size TYPE('w)) \<and>
     apart (load_from t) (byte_size TYPE('w)) (saved_sp t) n \<and>
     apart (load_from t) (byte_size TYPE('w)) (save_to t) (byte_size TYPE('w)) \<longrightarrow>
     running (run t) = leaving s)"

context context_switch
begin

lemma resumes_caller: "resumes_caller run memory leaving running saved_sp save_to load_from size"
  unfolding resumes_caller_def by (intro allI impI, elim conjE) (rule resumes)

end

section \<open>Fresh stacks\<close>

text \<open>
  \<open>initial hi state trampoline m\<close> lays out the first frame below \<open>hi\<close> and gives the stack pointer to
  switch to; \<open>start hi state trampoline\<close> is the context it describes. \<open>enter f r\<close> runs the
  trampoline, whose call of \<open>f\<close> would return to \<open>r\<close> and which writes below \<open>hi\<close> only; \<open>entered f state hi\<close> says that it came to \<open>f\<close>
  with \<open>state\<close> as its argument, on a stack the calling convention accepts. \<open>span\<close> is how far below
  \<open>hi\<close> the frame reaches.
\<close>

locale fresh_context = context_switch +
  fixes initial :: "'w::len word \<Rightarrow> 'w word \<Rightarrow> 'w word \<Rightarrow> 'w memory \<Rightarrow> 'w word \<times> 'w memory"
    and start :: "'w word \<Rightarrow> 'w word \<Rightarrow> 'w word \<Rightarrow> 'c"
    and enter :: "'w word \<Rightarrow> 'w word \<Rightarrow> 's \<Rightarrow> 's"
    and entered :: "'w word \<Rightarrow> 'w word \<Rightarrow> 'w word \<Rightarrow> 's \<Rightarrow> bool"
    and span :: nat
  assumes initial_frame: "initial hi state trampoline m = (sp, m') \<Longrightarrow> frame m' sp = start hi state trampoline"
    and initial_sp: "initial hi state trampoline m = (sp, m') \<Longrightarrow> sp = hi - of_nat span"
    and initial_writes: "initial hi state trampoline m = (sp, m') \<Longrightarrow> span \<le> unat (x - sp) \<Longrightarrow> m' x = m x"
    and enters: "running s = start hi state trampoline \<Longrightarrow> entered f state hi (enter f r s)"
    and span: "size \<le> span" "span < 2 ^ LENGTH('w)"
    and enters_above: "running s = start hi state trampoline \<Longrightarrow> same_bytes hi 16 (memory (enter f r s)) (memory s)"
begin

text \<open>The first switch to a fresh stack comes to the function behind the trampoline.\<close>

lemma comes_to_start:
  assumes "initial hi state trampoline m = (sp, m')" and "same_bytes sp size m' (memory t)"
    and "load (load_from t) (memory t) = sp"
    and "apart (save_to t) (byte_size TYPE('w)) (saved_sp t) size"
    and "apart sp size (saved_sp t) size" "apart sp size (save_to t) (byte_size TYPE('w))"
    and "apart (load_from t) (byte_size TYPE('w)) (saved_sp t) size" "apart (load_from t) (byte_size TYPE('w)) (save_to t) (byte_size TYPE('w))"
  shows "running (run t) = start hi state trampoline"
proof -
  have "same_bytes (load_from t) (byte_size TYPE('w)) (memory (run t)) (memory t)" using assms(7,8) by (rule untouched)
  then have "(load (load_from t) (memory (run t)) :: 'w word) = load (load_from t) (memory t)"
    by (rule load_same_bytes) (simp_all add: byte_size_word)
  moreover have "same_bytes sp size (memory (run t)) (memory t)" using assms(5,6) by (rule untouched)
  ultimately have "running (run t) = frame (memory t) sp" using loads [OF assms(4)] assms(3) frame_bytes by metis
  then show "running (run t) = start hi state trampoline"
    using frame_bytes [OF assms(2)] initial_frame [OF assms(1)] by simp
qed

lemmas starts = enters [OF comes_to_start]

text \<open>The frame lies below \<open>hi\<close>, so what is stored from there on stays.\<close>

lemma initial_above:
  assumes "initial hi state trampoline m = (sp, m')" and "n + span \<le> 2 ^ LENGTH('w)"
  shows "same_bytes hi n m' m"
  unfolding same_bytes_def
proof (intro allI impI)
  fix x assume x: "unat (x - hi) < n"
  have "unat (of_nat span :: 'w word) = span" using span(2) by (simp add: unat_of_nat)
  then have "unat ((x - hi) + of_nat span) = unat (x - hi) + span"
    using x assms(2) unat_add_lem [of "x - hi" "of_nat span"] by simp
  moreover have "x - sp = (x - hi) + of_nat span" using initial_sp [OF assms(1)] by simp
  ultimately have "unat (x - sp) = unat (x - hi) + span" by metis
  then show "m' x = m x" using initial_writes [OF assms(1)] by simp
qed

end

definition starts_fresh :: "('s \<Rightarrow> 's) \<Rightarrow> ('s \<Rightarrow> 'w::len memory) \<Rightarrow> ('s \<Rightarrow> 'w word) \<Rightarrow> ('s \<Rightarrow> 'w word) \<Rightarrow> ('s \<Rightarrow> 'w word) \<Rightarrow>
    nat \<Rightarrow> ('w word \<Rightarrow> 'w word \<Rightarrow> 'w word \<Rightarrow> 'w memory \<Rightarrow> 'w word \<times> 'w memory) \<Rightarrow> ('w word \<Rightarrow> 'w word \<Rightarrow> 's \<Rightarrow> 's) \<Rightarrow>
    ('w word \<Rightarrow> 'w word \<Rightarrow> 'w word \<Rightarrow> 's \<Rightarrow> bool) \<Rightarrow> bool" where
  "starts_fresh run memory saved_sp save_to load_from n initial enter entered \<longleftrightarrow> (\<forall>hi state trampoline m sp m' t f r.
     initial hi state trampoline m = (sp, m') \<and> same_bytes sp n m' (memory t) \<and> load (load_from t) (memory t) = sp \<and>
     apart (save_to t) (byte_size TYPE('w)) (saved_sp t) n \<and>
     apart sp n (saved_sp t) n \<and> apart sp n (save_to t) (byte_size TYPE('w)) \<and>
     apart (load_from t) (byte_size TYPE('w)) (saved_sp t) n \<and>
     apart (load_from t) (byte_size TYPE('w)) (save_to t) (byte_size TYPE('w)) \<longrightarrow>
     entered f state hi (enter f r (run t)))"

context fresh_context
begin

lemma starts_fresh: "starts_fresh run memory saved_sp save_to load_from size initial enter entered"
  unfolding starts_fresh_def by (intro allI impI, elim conjE) (rule starts)

end

section \<open>Contexts of the allocation-free layer\<close>

text \<open>
  \<open>Context::new\<close> of \<open>raw.rs\<close>: the record of the entry function and its argument at the top of the
  stack, 16 bytes for both pointer sizes, and the first frame below it.
\<close>

definition context_new :: "('w::len word \<Rightarrow> 'w word \<Rightarrow> 'w word \<Rightarrow> 'w memory \<Rightarrow> 'w word \<times> 'w memory) \<Rightarrow>
    'w word \<Rightarrow> 'w word \<Rightarrow> 'w word \<Rightarrow> 'w word \<Rightarrow> 'w word \<Rightarrow> 'w memory \<Rightarrow> 'w word \<times> 'w memory" where
  "context_new initial base len entry arg trampoline m =
     (let hi = and (base + len) (not 15); start = hi - 16;
          m = store start entry m; m = store (start + of_nat (byte_size TYPE('w))) arg m
      in initial start start trampoline m)"

text \<open>\<open>Context::empty\<close> has a null stack pointer; \<open>start\<close> reads the record it is given.\<close>

definition context_empty :: "'w::len word" where
  "context_empty = 0"

definition start_record :: "'w::len word \<Rightarrow> 'w memory \<Rightarrow> 'w word \<times> 'w word" where
  "start_record p m = (load p m, load (p + of_nat (byte_size TYPE('w))) m)"

context fresh_context
begin

lemma context_new_record:
  assumes "context_new initial base len entry arg trampoline m = (sp, m')"
    and "8 dvd LENGTH('w)" "byte_size TYPE('w) \<le> 8" "4 \<le> byte_size TYPE('w)" "16 + span < 2 ^ LENGTH('w)" "16 \<le> LENGTH('w)"
  shows "start_record (and (base + len) (not 15) - 16) m' = (entry, arg)"
proof -
  let ?p = "and (base + len) (not 15) - 16"
  let ?m = "store (?p + of_nat (byte_size TYPE('w))) arg (store ?p entry m)"
  have i: "initial ?p ?p trampoline ?m = (sp, m')" using assms(1) by (simp add: context_new_def Let_def)
  have k: "unat (of_nat (byte_size TYPE('w)) :: 'w word) = byte_size TYPE('w)"
    using assms(3,5) by (intro of_nat_offset [of _ 17]) simp_all
  have same: "same_bytes ?p 16 m' ?m" by (rule initial_above [OF i]) (use assms(5) in simp)
  have "byte_size TYPE('w) + byte_size TYPE('w) \<le> 2 ^ LENGTH('w)" using assms(3,5) by linarith
  then have "load ?p ?m = entry" using assms(2-6) k by (simp add: byte_size_word)
  moreover have "load ?p m' = (load ?p ?m :: 'w word)" using assms(3,5) by (intro load_start [OF same]) simp_all
  moreover have "load (?p + of_nat (byte_size TYPE('w))) m' = (load (?p + of_nat (byte_size TYPE('w))) ?m :: 'w word)"
    using assms(3,5) k by (intro load_within [OF same]) simp_all
  ultimately show ?thesis using assms(2) by (simp add: start_record_def byte_size_word)
qed

text \<open>
  The record is still there when the function behind the trampoline is reached: neither the switch nor the
  trampoline writes to it.
\<close>

lemma context_starts:
  assumes "context_new initial base len entry arg trampoline m = (sp, m')" and p: "p = and (base + len) (not 15) - 16"
    and "same_bytes sp size m' (memory t)" and "same_bytes p 16 m' (memory t)" and "load (load_from t) (memory t) = sp"
    and "apart (save_to t) (byte_size TYPE('w)) (saved_sp t) size"
    and "apart sp size (saved_sp t) size" "apart sp size (save_to t) (byte_size TYPE('w))"
    and "apart (load_from t) (byte_size TYPE('w)) (saved_sp t) size" "apart (load_from t) (byte_size TYPE('w)) (save_to t) (byte_size TYPE('w))"
    and "apart p 16 (saved_sp t) size" "apart p 16 (save_to t) (byte_size TYPE('w))"
    and size: "8 dvd LENGTH('w)" "byte_size TYPE('w) \<le> 8" "4 \<le> byte_size TYPE('w)" "16 + span < 2 ^ LENGTH('w)" "16 \<le> LENGTH('w)"
  shows "entered f p p (enter f r (run t)) \<and> start_record p (memory (enter f r (run t))) = (entry, arg)"
proof -
  let ?m = "store (p + of_nat (byte_size TYPE('w))) arg (store p entry m)"
  have i: "initial p p trampoline ?m = (sp, m')" using assms(1) by (simp add: context_new_def Let_def p)
  note run = comes_to_start [OF i assms(3,5-10)]
  have "same_bytes p 16 (memory (run t)) (memory t)" using assms(11,12) by (rule untouched)
  with enters_above [OF run, of f r] assms(4) have same: "same_bytes p 16 (memory (enter f r (run t))) m'"
    by (simp add: same_bytes_def)
  have k: "unat (of_nat (byte_size TYPE('w)) :: 'w word) = byte_size TYPE('w)"
    using size by (intro of_nat_offset [of _ 17]) simp_all
  have "load p (memory (enter f r (run t))) = (load p m' :: 'w word)" using size by (intro load_start [OF same]) simp_all
  moreover have "load (p + of_nat (byte_size TYPE('w))) (memory (enter f r (run t))) =
      (load (p + of_nat (byte_size TYPE('w))) m' :: 'w word)"
    using size k by (intro load_within [OF same]) simp_all
  ultimately have "start_record p (memory (enter f r (run t))) = start_record p m'" by (simp add: start_record_def)
  also have "\<dots> = (entry, arg)" using context_new_record [OF assms(1) size] by (simp add: p)
  finally show ?thesis using enters [OF run] by simp
qed

end

text \<open>The same as a property of the parts of a target; the first frame may depend on the bottom of the stack.\<close>

definition starts_context :: "('s \<Rightarrow> 's) \<Rightarrow> ('s \<Rightarrow> 'w::len memory) \<Rightarrow> ('s \<Rightarrow> 'w word) \<Rightarrow> ('s \<Rightarrow> 'w word) \<Rightarrow> ('s \<Rightarrow> 'w word) \<Rightarrow>
    nat \<Rightarrow> ('w word \<Rightarrow> 'w word \<Rightarrow> 'w word \<Rightarrow> 'w word \<Rightarrow> 'w memory \<Rightarrow> 'w word \<times> 'w memory) \<Rightarrow> ('w word \<Rightarrow> 'w word \<Rightarrow> 's \<Rightarrow> 's) \<Rightarrow>
    ('w word \<Rightarrow> 'w word \<Rightarrow> 'w word \<Rightarrow> 'w word \<Rightarrow> 's \<Rightarrow> bool) \<Rightarrow> bool" where
  "starts_context run memory saved_sp save_to load_from n initial enter entered \<longleftrightarrow> (\<forall>base len entry arg trampoline m sp m' p t f r.
     context_new (initial base) base len entry arg trampoline m = (sp, m') \<and> p = and (base + len) (not 15) - 16 \<and>
     same_bytes sp n m' (memory t) \<and> same_bytes p 16 m' (memory t) \<and> load (load_from t) (memory t) = sp \<and>
     apart (save_to t) (byte_size TYPE('w)) (saved_sp t) n \<and>
     apart sp n (saved_sp t) n \<and> apart sp n (save_to t) (byte_size TYPE('w)) \<and>
     apart (load_from t) (byte_size TYPE('w)) (saved_sp t) n \<and>
     apart (load_from t) (byte_size TYPE('w)) (save_to t) (byte_size TYPE('w)) \<and>
     apart p 16 (saved_sp t) n \<and> apart p 16 (save_to t) (byte_size TYPE('w)) \<longrightarrow>
     entered base f p p (enter f r (run t)) \<and> start_record p (memory (enter f r (run t))) = (entry, arg))"

end
