(* ===== verification/Krio_X86.thy ===== *)
theory Krio_X86
  imports Krio_Switch
begin

text \<open>
  The x86 instructions that the switches and trampolines of \<open>crates/krio-fiber\<close> are written in, over
  the machine word \<open>'w\<close>. An instruction has its source operands first, as in the AT\&T text of
  \<open>arch.rs\<close>.
\<close>

section \<open>The processor\<close>

datatype x86_reg =
  RAX | RBX | RCX | RDX | RSI | RDI | RBP | RSP | R8 | R9 | R10 | R11 | R12 | R13 | R14 | R15

text \<open>\<open>x_gs\<close> is the thread's block reached through \<open>gs\<close>, \<open>x_eq\<close> the flag that \<open>je\<close> reads.\<close>

record 'i x86 =
  x_reg :: "x86_reg \<Rightarrow> 'i"
  x_xmm :: "nat \<Rightarrow> u128"
  x_mxcsr :: u32
  x_cw :: u16
  x_gs :: "nat \<Rightarrow> 'i"
  x_eq :: bool
  x_mem :: "'i \<Rightarrow> 8 word"
  x_pc :: 'i

text \<open>
  \<open>Mov32\<close> and \<open>Movzwl\<close> load 4 and 2 bytes and clear the rest of the register. \<open>Je k\<close> jumps forward over
  \<open>k\<close> instructions, to the local label. \<open>Call f r\<close> pushes \<open>r\<close>, the address of the instruction after it.
\<close>

datatype 'i x86_instr =
    Push x86_reg
  | Pop x86_reg
  | SubSp nat
  | AddSp nat
  | Stmxcsr nat
  | Fnstcw nat
  | Ldmxcsr nat
  | Fldcw nat
  | MovReg x86_reg x86_reg
  | MovLoad nat x86_reg x86_reg
  | MovStore x86_reg x86_reg
  | Mov32 nat x86_reg x86_reg
  | Movzwl nat x86_reg x86_reg
  | Cmp32 nat x86_reg
  | CmpW nat x86_reg
  | Je nat
  | MovdquStore nat nat
  | MovdquLoad nat nat
  | GsLoad nat x86_reg
  | GsStore x86_reg nat
  | JmpReg x86_reg
  | Ret
  | Call 'i 'i

definition set_reg :: "x86_reg \<Rightarrow> 'i \<Rightarrow> 'i x86 \<Rightarrow> 'i x86" where
  "set_reg r v s = s\<lparr>x_reg := (x_reg s)(r := v)\<rparr>"

definition set_mem :: "'w::len word \<Rightarrow> 'v::len word \<Rightarrow> 'w word x86 \<Rightarrow> 'w word x86" where
  "set_mem a v s = s\<lparr>x_mem := store a v (x_mem s)\<rparr>"

definition word_bytes :: "'w::len word \<Rightarrow> 'w word" where
  "word_bytes w = of_nat (byte_size TYPE('w))"

definition push_word :: "'w::len word \<Rightarrow> 'w word x86 \<Rightarrow> 'w word x86" where
  "push_word v s = (let sp = x_reg s RSP - word_bytes v in set_mem sp v (set_reg RSP sp s))"

definition pop_word :: "'w::len word x86 \<Rightarrow> 'w word \<times> 'w word x86" where
  "pop_word s = (let sp = x_reg s RSP in (load sp (x_mem s), set_reg RSP (sp + word_bytes sp) s))"

fun x86_do :: "'w::len word x86_instr \<Rightarrow> 'w word x86 \<Rightarrow> 'w word x86" where
  "x86_do (Push r) s = push_word (x_reg s r) s"
| "x86_do (Pop r) s = (let (v, s) = pop_word s in set_reg r v s)"
| "x86_do (SubSp n) s = (let sp = x_reg s RSP - of_nat n in (set_reg RSP sp s)\<lparr>x_eq := (sp = 0)\<rparr>)"
| "x86_do (AddSp n) s = (let sp = x_reg s RSP + of_nat n in (set_reg RSP sp s)\<lparr>x_eq := (sp = 0)\<rparr>)"
| "x86_do (Stmxcsr k) s = set_mem (x_reg s RSP + of_nat k) (x_mxcsr s) s"
| "x86_do (Fnstcw k) s = set_mem (x_reg s RSP + of_nat k) (x_cw s) s"
| "x86_do (Ldmxcsr k) s = s\<lparr>x_mxcsr := load (x_reg s RSP + of_nat k) (x_mem s)\<rparr>"
| "x86_do (Fldcw k) s = s\<lparr>x_cw := load (x_reg s RSP + of_nat k) (x_mem s)\<rparr>"
| "x86_do (MovReg r d) s = set_reg d (x_reg s r) s"
| "x86_do (MovLoad k r d) s = set_reg d (load (x_reg s r + of_nat k) (x_mem s)) s"
| "x86_do (MovStore r d) s = set_mem (x_reg s d) (x_reg s r) s"
| "x86_do (Mov32 k r d) s = set_reg d (ucast (load (x_reg s r + of_nat k) (x_mem s) :: u32)) s"
| "x86_do (Movzwl k r d) s = set_reg d (ucast (load (x_reg s r + of_nat k) (x_mem s) :: u16)) s"
| "x86_do (Cmp32 k r) s = s\<lparr>x_eq := ((ucast (x_reg s r) :: u32) = load (x_reg s RSP + of_nat k) (x_mem s))\<rparr>"
| "x86_do (CmpW k r) s = s\<lparr>x_eq := ((ucast (x_reg s r) :: u16) = load (x_reg s RSP + of_nat k) (x_mem s))\<rparr>"
| "x86_do (MovdquStore x k) s = set_mem (x_reg s RSP + of_nat k) (x_xmm s x) s"
| "x86_do (MovdquLoad k x) s = s\<lparr>x_xmm := (x_xmm s)(x := load (x_reg s RSP + of_nat k) (x_mem s))\<rparr>"
| "x86_do (GsLoad k r) s = set_reg r (x_gs s k) s"
| "x86_do (GsStore r k) s = s\<lparr>x_gs := (x_gs s)(k := x_reg s r)\<rparr>"
| "x86_do (JmpReg r) s = s\<lparr>x_pc := x_reg s r\<rparr>"
| "x86_do Ret s = (let (v, s) = pop_word s in s\<lparr>x_pc := v\<rparr>)"
| "x86_do (Call f r) s = (push_word r s)\<lparr>x_pc := f\<rparr>"
| "x86_do (Je k) s = s"

function x86_run :: "'w::len word x86_instr list \<Rightarrow> 'w word x86 \<Rightarrow> 'w word x86" where
  "x86_run [] s = s"
| "x86_run (i # is) s =
     (case i of
        Je k \<Rightarrow> x86_run (if x_eq s then drop k is else is) s
      | _ \<Rightarrow> x86_run is (x86_do i s))"
  by pat_completeness auto
termination by (relation "measure (\<lambda>(is, s). length is)") auto


lemma x86_run_append: "(\<forall>k. Je k \<notin> set xs) \<Longrightarrow> x86_run (xs @ ys) s = x86_run ys (x86_run xs s)"
proof (induction xs arbitrary: s)
  case (Cons i xs)
  then show ?case by (cases i) auto
qed simp

lemmas x86_simps = set_reg_def set_mem_def push_word_def pop_word_def word_bytes_def Let_def

text \<open>
  The control words are loaded only when they differ from the outgoing ones in registers \<open>r\<close> and \<open>q\<close>;
  afterwards they are those of the frame in any case.
\<close>

lemma x86_lazy_control:
  assumes "ucast (x_reg s r) = x_mxcsr s" and "ucast (x_reg s q) = x_cw s"
  shows "x86_run (Cmp32 0 r # Je 1 # Ldmxcsr 0 # CmpW 4 q # Je 1 # Fldcw 4 # is) s =
    x86_run is (s\<lparr>x_mxcsr := load (x_reg s RSP) (x_mem s), x_cw := load (x_reg s RSP + 4) (x_mem s),
      x_eq := (x_cw s = load (x_reg s RSP + 4) (x_mem s))\<rparr>)"
  using assms by (cases s) simp

section \<open>Contexts\<close>

record 'i x86_context =
  xc_pc :: 'i
  xc_regs :: "'i list"
  xc_xmm :: "u128 list"
  xc_mxcsr :: u32
  xc_cw :: u16
  xc_teb :: "'i list"

definition x86_running :: "x86_reg list \<Rightarrow> nat list \<Rightarrow> nat list \<Rightarrow> 'i x86 \<Rightarrow> 'i x86_context" where
  "x86_running regs xmms tebs s = \<lparr>xc_pc = x_pc s, xc_regs = map (x_reg s) regs, xc_xmm = map (x_xmm s) xmms,
     xc_mxcsr = x_mxcsr s, xc_cw = x_cw s, xc_teb = map (x_gs s) tebs\<rparr>"

definition DEFAULT_MXCSR :: u32 where
  "DEFAULT_MXCSR = 0x1F80"

definition DEFAULT_X87_CW :: u16 where
  "DEFAULT_X87_CW = 0x037F"

end
