(* ===== verification/Krio_Sysv64.thy ===== *)
theory Krio_Sysv64
  imports Krio_X86
begin

text \<open>
  The System V x86-64 switch of \<open>arch.rs\<close>, its first frame of \<open>frame.rs\<close> and the trampoline of
  \<open>fiber.rs\<close> and \<open>raw.rs\<close>.
\<close>

section \<open>System V x86-64\<close>

text \<open>The switch up to the load of the incoming stack pointer, and from there.\<close>

definition sysv64_save :: "u64 x86_instr list" where
  "sysv64_save = [
     Push RBP, Push RBX, Push R12, Push R13, Push R14, Push R15,
     SubSp 16, Stmxcsr 0, Fnstcw 4, Mov32 0 RSP RAX, Movzwl 4 RSP RCX,
     MovStore RSP RDI, MovLoad 0 RSI RSP]"

definition sysv64_restore :: "u64 x86_instr list" where
  "sysv64_restore = [
     Cmp32 0 RAX, Je 1, Ldmxcsr 0,
     CmpW 4 RCX, Je 1, Fldcw 4,
     AddSp 16, Pop R15, Pop R14, Pop R13, Pop R12, Pop RBX, Pop RBP, Pop RCX, JmpReg RCX]"

definition sysv64_switch :: "u64 x86_instr list" where
  "sysv64_switch = sysv64_save @ sysv64_restore"

definition sysv64_running :: "u64 x86 \<Rightarrow> u64 x86_context" where
  "sysv64_running = x86_running [RSP, RBP, RBX, R12, R13, R14, R15] [] []"

definition sysv64_frame :: "64 memory \<Rightarrow> u64 \<Rightarrow> u64 x86_context" where
  "sysv64_frame m sp = \<lparr>xc_pc = load (sp + 64) m,
     xc_regs = [sp + 72, load (sp + 56) m, load (sp + 48) m, load (sp + 40) m, load (sp + 32) m, load (sp + 24) m, load (sp + 16) m],
     xc_xmm = [], xc_mxcsr = load sp m, xc_cw = load (sp + 4) m, xc_teb = []\<rparr>"

lemma sysv64_saved:
  assumes "x_reg s RSP = b + 64"
  shows "ucast (x_reg (x86_run sysv64_save s) RAX) = x_mxcsr (x86_run sysv64_save s)"
    "ucast (x_reg (x86_run sysv64_save s) RCX) = x_cw (x86_run sysv64_save s)"
    "x_reg (x86_run sysv64_save s) RSP = load (x_reg s RSI) (x_mem (x86_run sysv64_save s))"
    "load (x_reg s RDI) (x_mem (x86_run sysv64_save s)) = b"
  by (simp_all add: sysv64_save_def x86_simps assms)

lemma sysv64_writes:
  assumes "x_reg s RSP = b + 64" and "72 \<le> unat (x - b)" and "8 \<le> unat (x - x_reg s RDI)"
  shows "x_mem (x86_run sysv64_save s) x = x_mem s x"
  by (simp add: sysv64_save_def x86_simps assms(1) store_within [OF assms(2)] store_other [OF _ assms(2)] store_other [OF _ assms(3)])

lemma sysv64_saves:
  assumes "x_reg s RSP = b + 64" and "apart (x_reg s RDI) 8 b 72"
  shows "sysv64_frame (x_mem (x86_run sysv64_save s)) b = sysv64_running (x86_run [Ret] s)"
  by (simp add: apart_within [OF assms(2)] sysv64_save_def x86_simps x86_running_def sysv64_running_def sysv64_frame_def assms(1))

lemma sysv64_restores:
  assumes "ucast (x_reg s RAX) = x_mxcsr s" and "ucast (x_reg s RCX) = x_cw s"
  shows "sysv64_running (x86_run sysv64_restore s) = sysv64_frame (x_mem s) (x_reg s RSP)"
    "x_mem (x86_run sysv64_restore s) = x_mem s"
  unfolding sysv64_restore_def x86_lazy_control [OF assms]
  by (simp_all add: x86_simps x86_running_def sysv64_running_def sysv64_frame_def load_flip)

lemma sysv64_run:
  assumes "x_reg s RSP = b + 64"
  shows "x_mem (x86_run sysv64_switch s) = x_mem (x86_run sysv64_save s)"
    "sysv64_running (x86_run sysv64_switch s) =
      sysv64_frame (x_mem (x86_run sysv64_save s)) (load (x_reg s RSI) (x_mem (x86_run sysv64_save s)))"
proof -
  have "x86_run sysv64_switch s = x86_run sysv64_restore (x86_run sysv64_save s)"
    unfolding sysv64_switch_def by (rule x86_run_append) (simp add: sysv64_save_def)
  then show "x_mem (x86_run sysv64_switch s) = x_mem (x86_run sysv64_save s)"
    "sysv64_running (x86_run sysv64_switch s) =
      sysv64_frame (x_mem (x86_run sysv64_save s)) (load (x_reg s RSI) (x_mem (x86_run sysv64_save s)))"
    using sysv64_restores [of "x86_run sysv64_save s"] sysv64_saved [OF assms] by simp_all
qed

interpretation sysv64: context_switch "x86_run sysv64_switch" x_mem "\<lambda>s. sysv64_running (x86_run [Ret] s)" sysv64_running
  sysv64_frame "\<lambda>s. x_reg s RSP - 64" "\<lambda>s. x_reg s RDI" "\<lambda>s. x_reg s RSI" 72
proof (unfold_locales, goal_cases)
  case (5 a m m')
  then show ?case by (simp add: sysv64_frame_def load_within [of a 72 m m'] load_start [of a 72 m m'])
qed (simp_all add: sysv64_run [of _ "x_reg _ RSP - 64"] sysv64_saves sysv64_saved sysv64_writes [of _ "x_reg _ RSP - 64"])

text \<open>The first frame of a stack, and what runs when it is switched to.\<close>

definition sysv64_initial_frame :: "u64 \<Rightarrow> u64 \<Rightarrow> u64 \<Rightarrow> 64 memory \<Rightarrow> u64 \<times> 64 memory" where
  "sysv64_initial_frame hi state trampoline m =
     (let sp = hi - 72; m = zero_bytes sp 64 m; m = store sp DEFAULT_MXCSR m; m = store (sp + 4) DEFAULT_X87_CW m;
          m = store (sp + 40) state m
      in (sp, store (sp + 64) trampoline m))"

definition sysv64_trampoline :: "u64 \<Rightarrow> u64 \<Rightarrow> u64 x86_instr list" where
  "sysv64_trampoline f r = [MovReg R12 RDI, Call f r]"

lemma sysv64_fresh:
  assumes "sysv64_initial_frame hi state trampoline m = (sp, m')"
  shows "sysv64_frame m' sp = \<lparr>xc_pc = trampoline, xc_regs = [hi, 0, 0, state, 0, 0, 0], xc_xmm = [],
    xc_mxcsr = DEFAULT_MXCSR, xc_cw = DEFAULT_X87_CW, xc_teb = []\<rparr>"
proof -
  obtain b where "hi = b + 72" by (metis diff_add_cancel)
  with assms show ?thesis by (auto simp: sysv64_initial_frame_def sysv64_frame_def Let_def)
qed

text \<open>What the trampoline comes to: the function, its argument, the stack its convention asks for.\<close>

definition sysv64_entered :: "u64 \<Rightarrow> u64 \<Rightarrow> u64 \<Rightarrow> u64 x86 \<Rightarrow> bool" where
  "sysv64_entered f state hi s \<longleftrightarrow> x_pc s = f \<and> x_reg s RDI = state \<and> x_reg s RSP = hi - 8 \<and>
     x_mxcsr s = DEFAULT_MXCSR \<and> x_cw s = DEFAULT_X87_CW"

definition sysv64_start :: "u64 \<Rightarrow> u64 \<Rightarrow> u64 \<Rightarrow> u64 x86_context" where
  "sysv64_start hi state trampoline = \<lparr>xc_pc = trampoline, xc_regs = [hi, 0, 0, state, 0, 0, 0], xc_xmm = [],
     xc_mxcsr = DEFAULT_MXCSR, xc_cw = DEFAULT_X87_CW, xc_teb = []\<rparr>"

interpretation sysv64: fresh_context "x86_run sysv64_switch" x_mem "\<lambda>s. sysv64_running (x86_run [Ret] s)" sysv64_running
  sysv64_frame "\<lambda>s. x_reg s RSP - 64" "\<lambda>s. x_reg s RDI" "\<lambda>s. x_reg s RSI" 72
  sysv64_initial_frame sysv64_start "\<lambda>f r. x86_run (sysv64_trampoline f r)" sysv64_entered 72
proof (unfold_locales, goal_cases)
  case (3 hi state trampoline m sp m' x)
  obtain b where "hi = b + 72" by (metis diff_add_cancel)
  with 3 show ?case
    by (auto simp: sysv64_initial_frame_def Let_def zero_bytes_def store_within [of 72 x sp] store_other [of 72 x sp])
next
  case (4 s hi state trampoline f r)
  then show ?case
    by (simp add: sysv64_running_def x86_running_def sysv64_start_def sysv64_entered_def sysv64_trampoline_def x86_simps)
next
  case (7 s hi state trampoline f r)
  then have "x_reg s RSP = hi" by (simp add: sysv64_running_def x86_running_def sysv64_start_def)
  then show ?case by (simp add: sysv64_trampoline_def x86_simps same_bytes_stored apart_def)
qed (auto simp: sysv64_fresh sysv64_start_def sysv64_initial_frame_def Let_def)

end
