(* ===== verification/Krio_Win64.thy ===== *)
theory Krio_Win64
  imports Krio_X86
begin

text \<open>
  The Microsoft x64 switch of \<open>arch.rs\<close>, its first frame of \<open>frame.rs\<close> and the trampoline of
  \<open>fiber.rs\<close> and \<open>raw.rs\<close>.
\<close>

section \<open>Microsoft x64\<close>

definition win64_save :: "u64 x86_instr list" where
  "win64_save = [
     GsLoad 0x08 RAX, Push RAX, GsLoad 0x10 RAX, Push RAX,
     Push RBP, Push RBX, Push RDI, Push RSI, Push R12, Push R13, Push R14, Push R15,
     SubSp 176, Stmxcsr 0, Fnstcw 4,
     MovdquStore 6 16, MovdquStore 7 32, MovdquStore 8 48, MovdquStore 9 64, MovdquStore 10 80,
     MovdquStore 11 96, MovdquStore 12 112, MovdquStore 13 128, MovdquStore 14 144, MovdquStore 15 160,
     Mov32 0 RSP R10, Movzwl 4 RSP R11,
     MovStore RSP RCX, MovLoad 0 RDX RSP]"

definition win64_restore :: "u64 x86_instr list" where
  "win64_restore = [
     Cmp32 0 R10, Je 1, Ldmxcsr 0,
     CmpW 4 R11, Je 1, Fldcw 4,
     MovdquLoad 16 6, MovdquLoad 32 7, MovdquLoad 48 8, MovdquLoad 64 9, MovdquLoad 80 10,
     MovdquLoad 96 11, MovdquLoad 112 12, MovdquLoad 128 13, MovdquLoad 144 14, MovdquLoad 160 15,
     AddSp 176, Pop R15, Pop R14, Pop R13, Pop R12, Pop RSI, Pop RDI, Pop RBX, Pop RBP,
     Pop RAX, GsStore RAX 0x10, Pop RAX, GsStore RAX 0x08, Ret]"

definition win64_switch :: "u64 x86_instr list" where
  "win64_switch = win64_save @ win64_restore"

definition win64_running :: "u64 x86 \<Rightarrow> u64 x86_context" where
  "win64_running = x86_running [RSP, RBP, RBX, RDI, RSI, R12, R13, R14, R15] [6..<16] [0x10, 0x08]"

definition win64_frame :: "64 memory \<Rightarrow> u64 \<Rightarrow> u64 x86_context" where
  "win64_frame m sp = \<lparr>xc_pc = load (sp + 256) m,
     xc_regs = [sp + 264, load (sp + 232) m, load (sp + 224) m, load (sp + 216) m, load (sp + 208) m, load (sp + 200) m,
       load (sp + 192) m, load (sp + 184) m, load (sp + 176) m],
     xc_xmm = [load (sp + 16) m, load (sp + 32) m, load (sp + 48) m, load (sp + 64) m, load (sp + 80) m,
       load (sp + 96) m, load (sp + 112) m, load (sp + 128) m, load (sp + 144) m, load (sp + 160) m],
     xc_mxcsr = load sp m, xc_cw = load (sp + 4) m, xc_teb = [load (sp + 240) m, load (sp + 248) m]\<rparr>"

lemma upt_6_16: "[6..<16] = [6, 7, 8, 9, 10, 11, 12, 13, 14, 15 :: nat]"
  by (simp add: upt_rec)

text \<open>The memory at the load of the incoming stack pointer, when the frame starts at \<open>b\<close>.\<close>

definition win64_mem :: "u64 x86 \<Rightarrow> u64 \<Rightarrow> 64 memory" where
  "win64_mem s b = store (x_reg s RCX) b (store (b + 160) (x_xmm s 15) (store (b + 144) (x_xmm s 14) (store (b + 128) (x_xmm s 13)
    (store (b + 112) (x_xmm s 12) (store (b + 96) (x_xmm s 11) (store (b + 80) (x_xmm s 10) (store (b + 64) (x_xmm s 9)
    (store (b + 48) (x_xmm s 8) (store (b + 32) (x_xmm s 7) (store (b + 16) (x_xmm s 6) (store (b + 4) (x_cw s) (store b (x_mxcsr s)
    (store (176 + b) (x_reg s R15) (store (184 + b) (x_reg s R14) (store (192 + b) (x_reg s R13) (store (200 + b) (x_reg s R12)
    (store (208 + b) (x_reg s RSI) (store (216 + b) (x_reg s RDI) (store (224 + b) (x_reg s RBX) (store (232 + b) (x_reg s RBP)
    (store (240 + b) (x_gs s 16) (store (248 + b) (x_gs s 8) (x_mem s)))))))))))))))))))))))"

lemma win64_mem:
  assumes "x_reg s RSP = b + 256"
  shows "x_mem (x86_run win64_save s) = win64_mem s b"
  by (simp add: win64_save_def x86_simps assms win64_mem_def)

lemma win64_saved:
  assumes "x_reg s RSP = b + 256"
  shows "ucast (x_reg (x86_run win64_save s) R10) = x_mxcsr (x86_run win64_save s)"
    "ucast (x_reg (x86_run win64_save s) R11) = x_cw (x86_run win64_save s)"
    "x_reg (x86_run win64_save s) RSP = load (x_reg s RDX) (x_mem (x86_run win64_save s))"
    "load (x_reg s RCX) (x_mem (x86_run win64_save s)) = b"
proof -
  show "load (x_reg s RCX) (x_mem (x86_run win64_save s)) = b"
    unfolding win64_mem [OF assms] by (simp add: win64_mem_def)
qed (simp_all add: win64_save_def x86_simps assms)

lemma win64_writes:
  assumes "x_reg s RSP = b + 256" and "264 \<le> unat (x - b)" and "8 \<le> unat (x - x_reg s RCX)"
  shows "x_mem (x86_run win64_save s) x = x_mem s x"
  unfolding win64_mem [OF assms(1)] by (simp add: win64_mem_def store_within [OF assms(2)] store_other [OF _ assms(2)] store_other [OF _ assms(3)])

lemma win64_saves:
  assumes "x_reg s RSP = b + 256" and "apart (x_reg s RCX) 8 b 264"
  shows "win64_frame (x_mem (x86_run win64_save s)) b = win64_running (x86_run [Ret] s)"
  unfolding win64_mem [OF assms(1)] by (simp add: apart_within [OF assms(2)] x86_simps x86_running_def win64_running_def win64_frame_def upt_6_16 assms(1) win64_mem_def)

lemma win64_restores:
  assumes "ucast (x_reg s R10) = x_mxcsr s" and "ucast (x_reg s R11) = x_cw s"
  shows "win64_running (x86_run win64_restore s) = win64_frame (x_mem s) (x_reg s RSP)"
    "x_mem (x86_run win64_restore s) = x_mem s"
  unfolding win64_restore_def x86_lazy_control [OF assms]
  by (simp_all add: x86_simps x86_running_def win64_running_def win64_frame_def upt_6_16 load_flip)

lemma win64_run:
  assumes "x_reg s RSP = b + 256"
  shows "x_mem (x86_run win64_switch s) = x_mem (x86_run win64_save s)"
    "win64_running (x86_run win64_switch s) =
      win64_frame (x_mem (x86_run win64_save s)) (load (x_reg s RDX) (x_mem (x86_run win64_save s)))"
proof -
  have "x86_run win64_switch s = x86_run win64_restore (x86_run win64_save s)"
    unfolding win64_switch_def by (rule x86_run_append) (simp add: win64_save_def)
  then show "x_mem (x86_run win64_switch s) = x_mem (x86_run win64_save s)"
    "win64_running (x86_run win64_switch s) =
      win64_frame (x_mem (x86_run win64_save s)) (load (x_reg s RDX) (x_mem (x86_run win64_save s)))"
    using win64_restores [of "x86_run win64_save s"] win64_saved [OF assms] by simp_all
qed

interpretation win64: context_switch "x86_run win64_switch" x_mem "\<lambda>s. win64_running (x86_run [Ret] s)" win64_running
  win64_frame "\<lambda>s. x_reg s RSP - 256" "\<lambda>s. x_reg s RCX" "\<lambda>s. x_reg s RDX" 264
proof (unfold_locales, goal_cases)
  case (5 a m m')
  then show ?case by (simp add: win64_frame_def load_within [of a 264 m m'] load_start [of a 264 m m'])
qed (simp_all add: win64_run [of _ "x_reg _ RSP - 256"] win64_saves win64_saved win64_writes [of _ "x_reg _ RSP - 256"])

definition win64_initial_frame :: "u64 \<Rightarrow> u64 \<Rightarrow> u64 \<Rightarrow> u64 \<Rightarrow> 64 memory \<Rightarrow> u64 \<times> 64 memory" where
  "win64_initial_frame hi stack_limit state trampoline m =
     (let sp = hi - 264; m = zero_bytes sp 256 m; m = store sp DEFAULT_MXCSR m; m = store (sp + 4) DEFAULT_X87_CW m;
          m = store (sp + 200) state m; m = store (sp + 240) stack_limit m; m = store (sp + 248) hi m
      in (sp, store (sp + 256) trampoline m))"

definition win64_trampoline :: "u64 \<Rightarrow> u64 \<Rightarrow> u64 x86_instr list" where
  "win64_trampoline f r = [MovReg R12 RCX, SubSp 32, Call f r]"

lemma win64_fresh:
  assumes "win64_initial_frame hi stack_limit state trampoline m = (sp, m')"
  shows "win64_frame m' sp = \<lparr>xc_pc = trampoline, xc_regs = [hi, 0, 0, 0, 0, state, 0, 0, 0], xc_xmm = [0, 0, 0, 0, 0, 0, 0, 0, 0, 0],
    xc_mxcsr = DEFAULT_MXCSR, xc_cw = DEFAULT_X87_CW, xc_teb = [stack_limit, hi]\<rparr>"
proof -
  obtain b where "hi = b + 264" by (metis diff_add_cancel)
  with assms show ?thesis by (auto simp: win64_initial_frame_def win64_frame_def Let_def)
qed

text \<open>What the trampoline comes to: the function, its argument, the stack its convention asks for.\<close>

definition win64_entered :: "u64 \<Rightarrow> u64 \<Rightarrow> u64 \<Rightarrow> u64 \<Rightarrow> u64 x86 \<Rightarrow> bool" where
  "win64_entered stack_limit f state hi s \<longleftrightarrow> x_pc s = f \<and> x_reg s RCX = state \<and> x_reg s RSP = hi - 40 \<and>
     x_mxcsr s = DEFAULT_MXCSR \<and> x_cw s = DEFAULT_X87_CW \<and> x_gs s 0x08 = hi \<and> x_gs s 0x10 = stack_limit"

definition win64_start :: "u64 \<Rightarrow> u64 \<Rightarrow> u64 \<Rightarrow> u64 \<Rightarrow> u64 x86_context" where
  "win64_start stack_limit hi state trampoline = \<lparr>xc_pc = trampoline, xc_regs = [hi, 0, 0, 0, 0, state, 0, 0, 0],
     xc_xmm = [0, 0, 0, 0, 0, 0, 0, 0, 0, 0], xc_mxcsr = DEFAULT_MXCSR, xc_cw = DEFAULT_X87_CW, xc_teb = [stack_limit, hi]\<rparr>"

interpretation win64: fresh_context "x86_run win64_switch" x_mem "\<lambda>s. win64_running (x86_run [Ret] s)" win64_running
  win64_frame "\<lambda>s. x_reg s RSP - 256" "\<lambda>s. x_reg s RCX" "\<lambda>s. x_reg s RDX" 264
  "\<lambda>hi. win64_initial_frame hi stack_limit" "win64_start stack_limit" "\<lambda>f r. x86_run (win64_trampoline f r)"
  "win64_entered stack_limit" 264 for stack_limit
proof (unfold_locales, goal_cases)
  case (3 hi state trampoline m sp m' x)
  obtain b where "hi = b + 264" by (metis diff_add_cancel)
  with 3 show ?case
    by (auto simp: win64_initial_frame_def Let_def zero_bytes_def store_within [of 264 x sp] store_other [of 264 x sp])
next
  case (4 s hi state trampoline f r)
  then show ?case
    by (simp add: win64_running_def x86_running_def win64_start_def win64_entered_def win64_trampoline_def x86_simps)
next
  case (7 s hi state trampoline f r)
  then have "x_reg s RSP = hi" by (simp add: win64_running_def x86_running_def win64_start_def)
  then show ?case by (simp add: win64_trampoline_def x86_simps same_bytes_stored apart_def)
qed (auto simp: win64_fresh win64_start_def win64_initial_frame_def Let_def)

end
