(* ===== verification/Krio_I386.thy ===== *)
theory Krio_I386
  imports Krio_X86
begin

text \<open>
  The System V i386 switch of \<open>arch.rs\<close>, its first frame of \<open>frame.rs\<close> and the trampoline of
  \<open>fiber.rs\<close> and \<open>raw.rs\<close>.
\<close>

section \<open>System V i386\<close>

definition i386_save :: "u32 x86_instr list" where
  "i386_save = [
     MovLoad 4 RSP RAX, MovLoad 8 RSP RDX,
     Push RBP, Push RBX, Push RSI, Push RDI,
     SubSp 8, Stmxcsr 0, Fnstcw 4, MovStore RSP RAX,
     Mov32 0 RSP RCX, Movzwl 4 RSP RAX, MovLoad 0 RDX RSP]"

definition i386_restore :: "u32 x86_instr list" where
  "i386_restore = [
     Cmp32 0 RCX, Je 1, Ldmxcsr 0,
     CmpW 4 RAX, Je 1, Fldcw 4,
     AddSp 8, Pop RDI, Pop RSI, Pop RBX, Pop RBP, Ret]"

definition i386_switch :: "u32 x86_instr list" where
  "i386_switch = i386_save @ i386_restore"

definition i386_running :: "u32 x86 \<Rightarrow> u32 x86_context" where
  "i386_running = x86_running [RSP, RBP, RBX, RSI, RDI] [] []"

definition i386_frame :: "32 memory \<Rightarrow> u32 \<Rightarrow> u32 x86_context" where
  "i386_frame m sp = \<lparr>xc_pc = load (sp + 24) m,
     xc_regs = [sp + 28, load (sp + 20) m, load (sp + 16) m, load (sp + 12) m, load (sp + 8) m],
     xc_xmm = [], xc_mxcsr = load sp m, xc_cw = load (sp + 4) m, xc_teb = []\<rparr>"

text \<open>The arguments, which the caller pushed.\<close>

definition i386_save_to :: "u32 x86 \<Rightarrow> u32" where
  "i386_save_to s = load (x_reg s RSP + 4) (x_mem s)"

definition i386_load_from :: "u32 x86 \<Rightarrow> u32" where
  "i386_load_from s = load (x_reg s RSP + 8) (x_mem s)"


lemma i386_saved:
  assumes "x_reg s RSP = b + 24" and "apart (i386_save_to s) 4 b 28"
  shows "ucast (x_reg (x86_run i386_save s) RCX) = x_mxcsr (x86_run i386_save s)"
    "ucast (x_reg (x86_run i386_save s) RAX) = x_cw (x86_run i386_save s)"
    "x_reg (x86_run i386_save s) RSP = load (i386_load_from s) (x_mem (x86_run i386_save s))"
    "i386_frame (x_mem (x86_run i386_save s)) b = i386_running (x86_run [Ret] s)"
  using apart_within [OF assms(2)]
  by (simp_all add: i386_save_def x86_simps x86_running_def i386_running_def i386_frame_def i386_save_to_def i386_load_from_def assms(1))

lemma i386_writes:
  assumes "x_reg s RSP = b + 24" and "28 \<le> unat (x - b)" and "4 \<le> unat (x - i386_save_to s)"
  shows "x_mem (x86_run i386_save s) x = x_mem s x"
proof -
  have slot: "4 \<le> unat (x - load (28 + b) (x_mem s))" using assms(1,3) by (simp add: i386_save_to_def)
  show ?thesis
  by (simp add: i386_save_def x86_simps i386_save_to_def assms(1) store_within [OF assms(2)]
      store_other [OF _ assms(2)] store_other [OF _ slot])
qed

lemma i386_saved_sp:
  assumes "x_reg s RSP = b + 24"
  shows "load (i386_save_to s) (x_mem (x86_run i386_save s)) = b"
  by (simp add: i386_save_def x86_simps i386_save_to_def assms)

lemma i386_restores:
  assumes "ucast (x_reg s RCX) = x_mxcsr s" and "ucast (x_reg s RAX) = x_cw s"
  shows "i386_running (x86_run i386_restore s) = i386_frame (x_mem s) (x_reg s RSP)"
  unfolding i386_restore_def x86_lazy_control [OF assms]
  by (simp add: x86_simps x86_running_def i386_running_def i386_frame_def load_flip)

lemma i386_mem: "x_mem (x86_run i386_restore s) = x_mem s"
  by (simp add: i386_restore_def x86_simps)

lemma i386_run: "x86_run i386_switch s = x86_run i386_restore (x86_run i386_save s)"
  unfolding i386_switch_def by (rule x86_run_append) (simp add: i386_save_def)

interpretation i386: context_switch "x86_run i386_switch" x_mem "\<lambda>s. i386_running (x86_run [Ret] s)" i386_running
  i386_frame "\<lambda>s. x_reg s RSP - 24" i386_save_to i386_load_from 28
proof (unfold_locales, goal_cases)
  case (1 s)
  then show ?case
    using i386_saved [of s "x_reg s RSP - 24"] i386_restores [of "x86_run i386_save s"] by (simp add: i386_run i386_mem)
next
  case (5 a m m')
  then show ?case by (simp add: i386_frame_def load_within [of a 28 m m'] load_start [of a 28 m m'])
qed (simp_all add: i386_run i386_mem i386_saved i386_saved_sp i386_writes [of _ "x_reg _ RSP - 24"])

definition i386_initial_frame :: "u32 \<Rightarrow> u32 \<Rightarrow> u32 \<Rightarrow> 32 memory \<Rightarrow> u32 \<times> 32 memory" where
  "i386_initial_frame hi state trampoline m =
     (let sp = hi - 32; m = zero_bytes sp 24 m; m = store sp DEFAULT_MXCSR m; m = store (sp + 4) DEFAULT_X87_CW m;
          m = store (sp + 16) state m
      in (sp, store (sp + 24) trampoline m))"

definition i386_trampoline :: "u32 \<Rightarrow> u32 \<Rightarrow> u32 x86_instr list" where
  "i386_trampoline f r = [SubSp 8, Push RBX, Call f r]"

lemma i386_fresh:
  assumes "i386_initial_frame hi state trampoline m = (sp, m')"
  shows "i386_frame m' sp = \<lparr>xc_pc = trampoline, xc_regs = [hi - 4, 0, state, 0, 0], xc_xmm = [],
    xc_mxcsr = DEFAULT_MXCSR, xc_cw = DEFAULT_X87_CW, xc_teb = []\<rparr>"
proof -
  obtain b where "hi = b + 32" by (metis diff_add_cancel)
  with assms show ?thesis by (auto simp: i386_initial_frame_def i386_frame_def Let_def)
qed

text \<open>What the trampoline comes to: the function, its argument, the stack its convention asks for.\<close>

definition i386_entered :: "u32 \<Rightarrow> u32 \<Rightarrow> u32 \<Rightarrow> u32 x86 \<Rightarrow> bool" where
  "i386_entered f state hi s \<longleftrightarrow> x_pc s = f \<and> load (x_reg s RSP + 4) (x_mem s) = state \<and> x_reg s RSP = hi - 20 \<and>
     x_mxcsr s = DEFAULT_MXCSR \<and> x_cw s = DEFAULT_X87_CW"

definition i386_start :: "u32 \<Rightarrow> u32 \<Rightarrow> u32 \<Rightarrow> u32 x86_context" where
  "i386_start hi state trampoline = \<lparr>xc_pc = trampoline, xc_regs = [hi - 4, 0, state, 0, 0], xc_xmm = [],
     xc_mxcsr = DEFAULT_MXCSR, xc_cw = DEFAULT_X87_CW, xc_teb = []\<rparr>"

interpretation i386: fresh_context "x86_run i386_switch" x_mem "\<lambda>s. i386_running (x86_run [Ret] s)" i386_running
  i386_frame "\<lambda>s. x_reg s RSP - 24" i386_save_to i386_load_from 28
  i386_initial_frame i386_start "\<lambda>f r. x86_run (i386_trampoline f r)" i386_entered 32
proof (unfold_locales, goal_cases)
  case (3 hi state trampoline m sp m' x)
  obtain b where "hi = b + 32" by (metis diff_add_cancel)
  with 3 show ?case
    by (auto simp: i386_initial_frame_def Let_def zero_bytes_def store_within [of 32 x sp] store_other [of 32 x sp])
next
  case (4 s hi state trampoline f r)
  obtain b where "hi = b + 20" by (metis diff_add_cancel)
  with 4 show ?case
    by (simp add: i386_running_def x86_running_def i386_start_def i386_entered_def i386_trampoline_def x86_simps)
next
  case (7 s hi state trampoline f r)
  then have "x_reg s RSP = hi - 4" by (simp add: i386_running_def x86_running_def i386_start_def)
  then show ?case by (simp add: i386_trampoline_def x86_simps same_bytes_stored apart_def)
qed (auto simp: i386_fresh i386_start_def i386_initial_frame_def Let_def)

end
