(* ===== verification/Krio_Rv64.thy ===== *)
theory Krio_Rv64
  imports Krio_Switch
begin

text \<open>
  The RV64 switch of \<open>arch.rs\<close>, its first frame of \<open>frame.rs\<close> and the trampoline of \<open>fiber.rs\<close> and
  \<open>raw.rs\<close>.
\<close>

section \<open>RV64\<close>

datatype rv_reg = RA | SP | T0 | A0 | A1 | S nat

record rv64 =
  v_reg :: "rv_reg \<Rightarrow> u64"
  v_fs :: "nat \<Rightarrow> u64"
  v_fcsr :: u32
  v_mem :: "u64 \<Rightarrow> 8 word"
  v_pc :: u64

text \<open>\<open>rv_call f r\<close> is the call of \<open>f\<close> from the instruction before address \<open>r\<close>.\<close>

datatype rv_instr =
    Addi rv_reg rv_reg int
  | Mv rv_reg rv_reg
  | Sd rv_reg nat rv_reg
  | Ld rv_reg nat rv_reg
  | Sw rv_reg nat rv_reg
  | Lw rv_reg nat rv_reg
  | Fsd nat nat
  | Fld nat nat
  | Frcsr rv_reg
  | Fscsr rv_reg
  | RvRet
  | RvCall u64 u64

fun rv_do :: "rv_instr \<Rightarrow> rv64 \<Rightarrow> rv64" where
  "rv_do (Addi d r n) s = s\<lparr>v_reg := (v_reg s)(d := v_reg s r + of_int n)\<rparr>"
| "rv_do (Mv d r) s = s\<lparr>v_reg := (v_reg s)(d := v_reg s r)\<rparr>"
| "rv_do (Sd r k a) s = s\<lparr>v_mem := store (v_reg s a + of_nat k) (v_reg s r) (v_mem s)\<rparr>"
| "rv_do (Ld r k a) s = s\<lparr>v_reg := (v_reg s)(r := load (v_reg s a + of_nat k) (v_mem s))\<rparr>"
| "rv_do (Sw r k a) s = s\<lparr>v_mem := store (v_reg s a + of_nat k) (ucast (v_reg s r) :: u32) (v_mem s)\<rparr>"
| "rv_do (Lw r k a) s = s\<lparr>v_reg := (v_reg s)(r := scast (load (v_reg s a + of_nat k) (v_mem s) :: u32))\<rparr>"
| "rv_do (Fsd f k) s = s\<lparr>v_mem := store (v_reg s SP + of_nat k) (v_fs s f) (v_mem s)\<rparr>"
| "rv_do (Fld f k) s = s\<lparr>v_fs := (v_fs s)(f := load (v_reg s SP + of_nat k) (v_mem s))\<rparr>"
| "rv_do (Frcsr r) s = s\<lparr>v_reg := (v_reg s)(r := ucast (v_fcsr s))\<rparr>"
| "rv_do (Fscsr r) s = s\<lparr>v_fcsr := ucast (v_reg s r)\<rparr>"
| "rv_do RvRet s = s\<lparr>v_pc := v_reg s RA\<rparr>"
| "rv_do (RvCall f r) s = s\<lparr>v_reg := (v_reg s)(RA := r), v_pc := f\<rparr>"

definition rv_run :: "rv_instr list \<Rightarrow> rv64 \<Rightarrow> rv64" where
  "rv_run is s = fold rv_do is s"

definition rv64_save :: "rv_instr list" where
  "rv64_save = [Addi SP SP (-208),
     Sd RA 0 SP, Sd (S 0) 8 SP, Sd (S 1) 16 SP, Sd (S 2) 24 SP, Sd (S 3) 32 SP, Sd (S 4) 40 SP, Sd (S 5) 48 SP,
     Sd (S 6) 56 SP, Sd (S 7) 64 SP, Sd (S 8) 72 SP, Sd (S 9) 80 SP, Sd (S 10) 88 SP, Sd (S 11) 96 SP,
     Fsd 0 104, Fsd 1 112, Fsd 2 120, Fsd 3 128, Fsd 4 136, Fsd 5 144, Fsd 6 152, Fsd 7 160, Fsd 8 168,
     Fsd 9 176, Fsd 10 184, Fsd 11 192, Frcsr T0, Sw T0 200 SP,
     Sd SP 0 A0, Ld SP 0 A1]"

definition rv64_restore :: "rv_instr list" where
  "rv64_restore = [
     Ld RA 0 SP, Ld (S 0) 8 SP, Ld (S 1) 16 SP, Ld (S 2) 24 SP, Ld (S 3) 32 SP, Ld (S 4) 40 SP, Ld (S 5) 48 SP,
     Ld (S 6) 56 SP, Ld (S 7) 64 SP, Ld (S 8) 72 SP, Ld (S 9) 80 SP, Ld (S 10) 88 SP, Ld (S 11) 96 SP,
     Fld 0 104, Fld 1 112, Fld 2 120, Fld 3 128, Fld 4 136, Fld 5 144, Fld 6 152, Fld 7 160, Fld 8 168,
     Fld 9 176, Fld 10 184, Fld 11 192, Lw T0 200 SP, Fscsr T0,
     Addi SP SP 208, RvRet]"

definition rv64_switch :: "rv_instr list" where
  "rv64_switch = rv64_save @ rv64_restore"

record rv_context =
  vc_pc :: u64
  vc_sp :: u64
  vc_regs :: "u64 list"
  vc_fs :: "u64 list"
  vc_fcsr :: u32

definition rv64_running :: "rv64 \<Rightarrow> rv_context" where
  "rv64_running s = \<lparr>vc_pc = v_pc s, vc_sp = v_reg s SP, vc_regs = map (\<lambda>i. v_reg s (S i)) [0..<12],
     vc_fs = map (v_fs s) [0..<12], vc_fcsr = v_fcsr s\<rparr>"

definition rv64_frame :: "64 memory \<Rightarrow> u64 \<Rightarrow> rv_context" where
  "rv64_frame m sp = \<lparr>vc_pc = load sp m, vc_sp = sp + 208, vc_regs = map (\<lambda>i. load (sp + (8 + 8 * of_nat i)) m) [0..<12],
     vc_fs = map (\<lambda>i. load (sp + (104 + 8 * of_nat i)) m) [0..<12], vc_fcsr = load (sp + 200) m\<rparr>"

lemma upt_0_12: "[0..<12] = [0, 1, 2, 3, 4, 5, 6, 7, 8, 9, 10, 11 :: nat]"
  by (simp add: upt_rec)

lemma rv64_saves:
  assumes "v_reg s SP = b + 208" and "apart (v_reg s A0) 8 b 208"
  shows "rv64_frame (v_mem (rv_run rv64_save s)) b = rv64_running (rv_run [RvRet] s)"
  by (simp add: apart_within [OF assms(2)] rv64_save_def rv_run_def rv64_running_def rv64_frame_def upt_0_12 assms(1))

lemma rv64_saved_sp:
  assumes "v_reg s SP = b + 208"
  shows "load (v_reg s A0) (v_mem (rv_run rv64_save s)) = b"
    "v_reg (rv_run rv64_save s) SP = load (v_reg s A1) (v_mem (rv_run rv64_save s))"
  by (simp_all add: rv64_save_def rv_run_def assms)

lemma rv64_writes:
  assumes "v_reg s SP = b + 208" and "208 \<le> unat (x - b)" and "8 \<le> unat (x - v_reg s A0)"
  shows "v_mem (rv_run rv64_save s) x = v_mem s x"
  by (simp add: rv64_save_def rv_run_def assms(1) store_within [OF assms(2)] store_other [OF _ assms(2)] store_other [OF _ assms(3)])

lemma rv64_restores:
  "rv64_running (rv_run rv64_restore s) = rv64_frame (v_mem s) (v_reg s SP)"
  "v_mem (rv_run rv64_restore s) = v_mem s"
  by (simp_all add: rv64_restore_def rv_run_def rv64_running_def rv64_frame_def upt_0_12)

lemma rv_run_ret: "rv_run [RvRet] s = s\<lparr>v_pc := v_reg s RA\<rparr>"
  by (simp add: rv_run_def)

lemma rv64_run: "rv_run rv64_switch s = rv_run rv64_restore (rv_run rv64_save s)"
  by (simp add: rv_run_def rv64_switch_def)

interpretation rv64: context_switch "rv_run rv64_switch" v_mem "\<lambda>s. rv64_running (rv_run [RvRet] s)" rv64_running
  rv64_frame "\<lambda>s. v_reg s SP - 208" "\<lambda>s. v_reg s A0" "\<lambda>s. v_reg s A1" 208
proof (unfold_locales, goal_cases)
  case (5 a m m')
  then show ?case by (simp add: rv64_frame_def upt_0_12 load_within [of a 208 m m'] load_start [of a 208 m m'])
qed (simp_all add: rv64_run rv64_restores rv64_saves rv64_saved_sp [of _ "v_reg _ SP - 208"] rv64_writes [of _ "v_reg _ SP - 208"])

definition rv64_initial_frame :: "u64 \<Rightarrow> u64 \<Rightarrow> u64 \<Rightarrow> 64 memory \<Rightarrow> u64 \<times> 64 memory" where
  "rv64_initial_frame hi state trampoline m =
     (let sp = hi - 208; m = zero_bytes sp 208 m; m = store (sp + 0) trampoline m in (sp, store (sp + 16) state m))"

definition rv64_trampoline :: "u64 \<Rightarrow> u64 \<Rightarrow> rv_instr list" where
  "rv64_trampoline f r = [Mv A0 (S 1), RvCall f r]"

lemma rv64_fresh:
  assumes "rv64_initial_frame hi state trampoline m = (sp, m')"
  shows "rv64_frame m' sp = \<lparr>vc_pc = trampoline, vc_sp = hi, vc_regs = [0, state, 0, 0, 0, 0, 0, 0, 0, 0, 0, 0],
    vc_fs = [0, 0, 0, 0, 0, 0, 0, 0, 0, 0, 0, 0], vc_fcsr = 0\<rparr>"
proof -
  obtain b where "hi = b + 208" by (metis diff_add_cancel)
  with assms show ?thesis by (auto simp: rv64_initial_frame_def rv64_frame_def upt_0_12 Let_def)
qed

text \<open>What the trampoline comes to: the function, its argument, the stack its convention asks for.\<close>

definition rv64_entered :: "u64 \<Rightarrow> u64 \<Rightarrow> u64 \<Rightarrow> rv64 \<Rightarrow> bool" where
  "rv64_entered f state hi s \<longleftrightarrow> v_pc s = f \<and> v_reg s A0 = state \<and> v_reg s SP = hi \<and> v_fcsr s = 0"

definition rv64_start :: "u64 \<Rightarrow> u64 \<Rightarrow> u64 \<Rightarrow> rv_context" where
  "rv64_start hi state trampoline = \<lparr>vc_pc = trampoline, vc_sp = hi, vc_regs = [0, state, 0, 0, 0, 0, 0, 0, 0, 0, 0, 0],
     vc_fs = [0, 0, 0, 0, 0, 0, 0, 0, 0, 0, 0, 0], vc_fcsr = 0\<rparr>"

interpretation rv64: fresh_context "rv_run rv64_switch" v_mem "\<lambda>s. rv64_running (rv_run [RvRet] s)" rv64_running
  rv64_frame "\<lambda>s. v_reg s SP - 208" "\<lambda>s. v_reg s A0" "\<lambda>s. v_reg s A1" 208
  rv64_initial_frame rv64_start "\<lambda>f r. rv_run (rv64_trampoline f r)" rv64_entered 208
proof (unfold_locales, goal_cases)
  case (3 hi state trampoline m sp m' x)
  obtain b where "hi = b + 208" by (metis diff_add_cancel)
  with 3 show ?case
    by (auto simp: rv64_initial_frame_def Let_def zero_bytes_def store_within [of 208 x sp] store_other [of 208 x sp])
next
  case (4 s hi state trampoline f r)
  then show ?case by (simp add: rv64_running_def rv64_start_def rv64_entered_def rv64_trampoline_def rv_run_def upt_0_12)
next
  case (7 s hi state trampoline f r)
  show ?case by (simp add: rv64_trampoline_def rv_run_def)
qed (auto simp: rv64_fresh rv64_start_def rv64_initial_frame_def Let_def)

end
