(* ===== verification/Krio_A64.thy ===== *)
theory Krio_A64
  imports Krio_Switch
begin

text \<open>
  AArch64: the instructions of both of its switches, the switch of \<open>arch.rs\<close> for targets that are not
  Windows, its first frame of \<open>frame.rs\<close> and the trampoline of \<open>fiber.rs\<close> and \<open>raw.rs\<close>.
\<close>

section \<open>AArch64\<close>

datatype a64_reg = X nat | XSP

record a64 =
  a_reg :: "a64_reg \<Rightarrow> u64"
  a_d :: "nat \<Rightarrow> u64"
  a_fpcr :: u64
  a_eq :: bool
  a_teb :: "nat \<Rightarrow> u64"
  a_mem :: "u64 \<Rightarrow> 8 word"
  a_pc :: u64

text \<open>
  \<open>BEq k\<close> jumps forward over \<open>k\<close> instructions; pairs are stored at the offset from \<open>sp\<close>. \<open>LdrTeb\<close> and
  \<open>StrTeb\<close> go through \<open>x18\<close>, in which Windows keeps the address of the thread block, a memory of its own here.
\<close>

datatype a64_instr =
    SubImm nat
  | AddImm nat
  | Stp nat nat nat
  | Ldp nat nat nat
  | StpD nat nat nat
  | LdpD nat nat nat
  | StrSp nat nat
  | LdrSp nat nat
  | MrsFpcr nat
  | MsrFpcr nat
  | MovA a64_reg a64_reg
  | StrAt nat nat
  | LdrAt nat nat
  | CmpA nat nat
  | BEq nat
  | ARet
  | Br nat
  | B u64
  | MovXzr nat
  | LdrTeb nat nat
  | StrTeb nat nat
  | Bl u64 u64

fun a64_do :: "a64_instr \<Rightarrow> a64 \<Rightarrow> a64" where
  "a64_do (SubImm n) s = s\<lparr>a_reg := (a_reg s)(XSP := a_reg s XSP - of_nat n)\<rparr>"
| "a64_do (AddImm n) s = s\<lparr>a_reg := (a_reg s)(XSP := a_reg s XSP + of_nat n)\<rparr>"
| "a64_do (Stp i j k) s = s\<lparr>a_mem := store (a_reg s XSP + of_nat (k + 8)) (a_reg s (X j)) (store (a_reg s XSP + of_nat k) (a_reg s (X i)) (a_mem s))\<rparr>"
| "a64_do (Ldp i j k) s = s\<lparr>a_reg := (a_reg s)(X i := load (a_reg s XSP + of_nat k) (a_mem s), X j := load (a_reg s XSP + of_nat (k + 8)) (a_mem s))\<rparr>"
| "a64_do (StpD i j k) s = s\<lparr>a_mem := store (a_reg s XSP + of_nat (k + 8)) (a_d s j) (store (a_reg s XSP + of_nat k) (a_d s i) (a_mem s))\<rparr>"
| "a64_do (LdpD i j k) s = s\<lparr>a_d := (a_d s)(i := load (a_reg s XSP + of_nat k) (a_mem s), j := load (a_reg s XSP + of_nat (k + 8)) (a_mem s))\<rparr>"
| "a64_do (StrSp i k) s = s\<lparr>a_mem := store (a_reg s XSP + of_nat k) (a_reg s (X i)) (a_mem s)\<rparr>"
| "a64_do (LdrSp i k) s = s\<lparr>a_reg := (a_reg s)(X i := load (a_reg s XSP + of_nat k) (a_mem s))\<rparr>"
| "a64_do (MrsFpcr i) s = s\<lparr>a_reg := (a_reg s)(X i := a_fpcr s)\<rparr>"
| "a64_do (MsrFpcr i) s = s\<lparr>a_fpcr := a_reg s (X i)\<rparr>"
| "a64_do (MovA d r) s = s\<lparr>a_reg := (a_reg s)(d := a_reg s r)\<rparr>"
| "a64_do (StrAt i a) s = s\<lparr>a_mem := store (a_reg s (X a)) (a_reg s (X i)) (a_mem s)\<rparr>"
| "a64_do (LdrAt i a) s = s\<lparr>a_reg := (a_reg s)(X i := load (a_reg s (X a)) (a_mem s))\<rparr>"
| "a64_do (CmpA i j) s = s\<lparr>a_eq := (a_reg s (X i) = a_reg s (X j))\<rparr>"
| "a64_do ARet s = s\<lparr>a_pc := a_reg s (X 30)\<rparr>"
| "a64_do (Br i) s = s\<lparr>a_pc := a_reg s (X i)\<rparr>"
| "a64_do (B f) s = s\<lparr>a_pc := f\<rparr>"
| "a64_do (MovXzr i) s = s\<lparr>a_reg := (a_reg s)(X i := 0)\<rparr>"
| "a64_do (LdrTeb i k) s = s\<lparr>a_reg := (a_reg s)(X i := a_teb s k)\<rparr>"
| "a64_do (StrTeb i k) s = s\<lparr>a_teb := (a_teb s)(k := a_reg s (X i))\<rparr>"
| "a64_do (Bl f r) s = s\<lparr>a_reg := (a_reg s)(X 30 := r), a_pc := f\<rparr>"
| "a64_do (BEq k) s = s"

function a64_run :: "a64_instr list \<Rightarrow> a64 \<Rightarrow> a64" where
  "a64_run [] s = s"
| "a64_run (i # is) s =
     (case i of
        BEq k \<Rightarrow> a64_run (if a_eq s then drop k is else is) s
      | _ \<Rightarrow> a64_run is (a64_do i s))"
  by pat_completeness auto
termination by (relation "measure (\<lambda>(is, s). length is)") auto

lemma a64_run_append: "(\<forall>k. BEq k \<notin> set xs) \<Longrightarrow> a64_run (xs @ ys) s = a64_run ys (a64_run xs s)"
proof (induction xs arbitrary: s)
  case (Cons i xs)
  then show ?case by (cases i) auto
qed simp

definition a64_save :: "a64_instr list" where
  "a64_save = [
     SubImm 192,
     Stp 19 20 0, Stp 21 22 16, Stp 23 24 32, Stp 25 26 48, Stp 27 28 64, Stp 29 30 80,
     StpD 8 9 96, StpD 10 11 112, StpD 12 13 128, StpD 14 15 144,
     MrsFpcr 10, StrSp 10 160,
     MovA (X 9) XSP, StrAt 9 0, LdrAt 9 1, MovA XSP (X 9)]"

text \<open>The last instruction is \<open>br x30\<close> on Apple's platforms and \<open>ret\<close> on the others.\<close>

definition a64_restore :: "bool \<Rightarrow> a64_instr list" where
  "a64_restore apple = [
     Ldp 19 20 0, Ldp 21 22 16, Ldp 23 24 32, Ldp 25 26 48, Ldp 27 28 64, Ldp 29 30 80,
     LdpD 8 9 96, LdpD 10 11 112, LdpD 12 13 128, LdpD 14 15 144,
     LdrSp 9 160, CmpA 9 10, BEq 1, MsrFpcr 9,
     AddImm 192, if apple then Br 30 else ARet]"

definition a64_switch :: "bool \<Rightarrow> a64_instr list" where
  "a64_switch apple = a64_save @ a64_restore apple"

record a64_context =
  ac_pc :: u64
  ac_sp :: u64
  ac_regs :: "u64 list"
  ac_d :: "u64 list"
  ac_fpcr :: u64
  ac_teb :: "u64 list"

definition a64_running :: "a64 \<Rightarrow> a64_context" where
  "a64_running s = \<lparr>ac_pc = a_pc s, ac_sp = a_reg s XSP, ac_regs = map (\<lambda>i. a_reg s (X i)) [19..<30],
     ac_d = map (a_d s) [8..<16], ac_fpcr = a_fpcr s, ac_teb = []\<rparr>"

definition a64_frame :: "64 memory \<Rightarrow> u64 \<Rightarrow> a64_context" where
  "a64_frame m sp = \<lparr>ac_pc = load (sp + 88) m, ac_sp = sp + 192,
     ac_regs = load sp m # map (\<lambda>i. load (sp + (8 + 8 * of_nat i)) m) [0..<10],
     ac_d = map (\<lambda>i. load (sp + (96 + 8 * of_nat i)) m) [0..<8], ac_fpcr = load (sp + 160) m, ac_teb = []\<rparr>"

lemma upt_a64:
  "[19..<30] = [19, 20, 21, 22, 23, 24, 25, 26, 27, 28, 29 :: nat]" "[8..<16] = [8, 9, 10, 11, 12, 13, 14, 15 :: nat]"
  "[0..<10] = [0, 1, 2, 3, 4, 5, 6, 7, 8, 9 :: nat]" "[0..<8] = [0, 1, 2, 3, 4, 5, 6, 7 :: nat]"
  by (simp_all add: upt_rec)

lemma a64_saves:
  assumes "a_reg s XSP = b + 192" and "apart (a_reg s (X 0)) 8 b 192"
  shows "a64_frame (a_mem (a64_run a64_save s)) b = a64_running (a64_run [ARet] s)"
  by (simp add: apart_within [OF assms(2)] a64_save_def a64_running_def a64_frame_def upt_a64 assms(1))

lemma a64_saved:
  assumes "a_reg s XSP = b + 192"
  shows "load (a_reg s (X 0)) (a_mem (a64_run a64_save s)) = b"
    "a_reg (a64_run a64_save s) XSP = load (a_reg s (X 1)) (a_mem (a64_run a64_save s))"
    "a_reg (a64_run a64_save s) (X 10) = a_fpcr (a64_run a64_save s)"
  by (simp_all add: a64_save_def assms)

lemma a64_writes:
  assumes "a_reg s XSP = b + 192" and "192 \<le> unat (x - b)" and "8 \<le> unat (x - a_reg s (X 0))"
  shows "a_mem (a64_run a64_save s) x = a_mem s x"
  by (simp add: a64_save_def assms(1) store_within [OF assms(2)] store_other [OF _ assms(2)] store_other [OF _ assms(3)])

lemma a64_restores:
  assumes "a_reg s (X 10) = a_fpcr s"
  shows "a64_running (a64_run (a64_restore apple) s) = a64_frame (a_mem s) (a_reg s XSP)"
    "a_mem (a64_run (a64_restore apple) s) = a_mem s"
  using assms by (simp_all add: a64_restore_def a64_running_def a64_frame_def upt_a64)

lemma a64_runs: "a64_run (a64_switch apple) s = a64_run (a64_restore apple) (a64_run a64_save s)"
  unfolding a64_switch_def by (rule a64_run_append) (simp add: a64_save_def)

interpretation a64: context_switch "a64_run (a64_switch apple)" a_mem "\<lambda>s. a64_running (a64_run [ARet] s)" a64_running
  a64_frame "\<lambda>s. a_reg s XSP - 192" "\<lambda>s. a_reg s (X 0)" "\<lambda>s. a_reg s (X 1)" 192 for apple
proof (unfold_locales, goal_cases)
  case (5 a m m')
  then show ?case by (simp add: a64_frame_def upt_a64 load_within [of a 192 m m'] load_start [of a 192 m m'])
qed (simp_all add: a64_runs a64_restores a64_saves a64_saved [of _ "a_reg _ XSP - 192"] a64_writes [of _ "a_reg _ XSP - 192"])

definition a64_initial_frame :: "u64 \<Rightarrow> u64 \<Rightarrow> u64 \<Rightarrow> 64 memory \<Rightarrow> u64 \<times> 64 memory" where
  "a64_initial_frame hi state trampoline m =
     (let sp = hi - 192; m = store sp state m; m = fold (\<lambda>i. store (sp + of_nat (i * 8)) (0 :: u64)) [1..<11] m;
          m = store (sp + 88) trampoline m
      in (sp, fold (\<lambda>i. store (sp + of_nat (i * 8)) (0 :: u64)) [12..<24] m))"

definition a64_trampoline :: "u64 \<Rightarrow> u64 \<Rightarrow> a64_instr list" where
  "a64_trampoline f r = [MovA (X 0) (X 19), Bl f r]"

lemma upt_a64_frame: "[Suc 0..<11] = [1, 2, 3, 4, 5, 6, 7, 8, 9, 10 :: nat]" "[12..<24] = [12, 13, 14, 15, 16, 17, 18, 19, 20, 21, 22, 23 :: nat]"
  by (simp_all add: upt_rec)

lemma a64_fresh:
  assumes "a64_initial_frame hi state trampoline m = (sp, m')"
  shows "a64_frame m' sp = \<lparr>ac_pc = trampoline, ac_sp = hi, ac_regs = [state, 0, 0, 0, 0, 0, 0, 0, 0, 0, 0],
    ac_d = [0, 0, 0, 0, 0, 0, 0, 0], ac_fpcr = 0, ac_teb = []\<rparr>"
proof -
  obtain b where "hi = b + 192" by (metis diff_add_cancel)
  moreover have "sp = fst (a64_initial_frame hi state trampoline m)" "m' = snd (a64_initial_frame hi state trampoline m)"
    using assms by simp_all
  ultimately show ?thesis by (simp add: a64_initial_frame_def a64_frame_def upt_a64 upt_a64_frame Let_def)
qed

text \<open>What the trampoline comes to: the function, its argument, the stack its convention asks for.\<close>

definition a64_entered :: "u64 \<Rightarrow> u64 \<Rightarrow> u64 \<Rightarrow> a64 \<Rightarrow> bool" where
  "a64_entered f state hi s \<longleftrightarrow> a_pc s = f \<and> a_reg s (X 0) = state \<and> a_reg s XSP = hi \<and> a_fpcr s = 0"

definition a64_start :: "u64 \<Rightarrow> u64 \<Rightarrow> u64 \<Rightarrow> a64_context" where
  "a64_start hi state trampoline = \<lparr>ac_pc = trampoline, ac_sp = hi, ac_regs = [state, 0, 0, 0, 0, 0, 0, 0, 0, 0, 0],
     ac_d = [0, 0, 0, 0, 0, 0, 0, 0], ac_fpcr = 0, ac_teb = []\<rparr>"

interpretation a64: fresh_context "a64_run (a64_switch apple)" a_mem "\<lambda>s. a64_running (a64_run [ARet] s)" a64_running
  a64_frame "\<lambda>s. a_reg s XSP - 192" "\<lambda>s. a_reg s (X 0)" "\<lambda>s. a_reg s (X 1)" 192
  a64_initial_frame a64_start "\<lambda>f r. a64_run (a64_trampoline f r)" a64_entered 192 for apple
proof (unfold_locales, goal_cases)
  case (3 hi state trampoline m sp m' x)
  obtain b where "hi = b + 192" by (metis diff_add_cancel)
  with 3 show ?case
    by (auto simp: a64_initial_frame_def Let_def upt_a64_frame store_within [of 192 x sp] store_other [of 192 x sp])
next
  case (4 s hi state trampoline f r)
  then show ?case by (simp add: a64_running_def a64_start_def a64_entered_def a64_trampoline_def upt_a64)
next
  case (7 s hi state trampoline f r)
  show ?case by (simp add: a64_trampoline_def)
qed (auto simp: a64_fresh a64_start_def a64_initial_frame_def Let_def)

end
