(* ===== verification/Krio_A64_Windows.thy ===== *)
theory Krio_A64_Windows
  imports Krio_A64
begin

text \<open>
  The AArch64 switch of \<open>arch.rs\<close> for Windows, its first frame of \<open>frame.rs\<close> and the trampoline of
  \<open>fiber.rs\<close> and \<open>raw.rs\<close>: as the others, with the bounds of the stack in the thread block swapped and the link
  register cleared before the first function.
\<close>

section \<open>AArch64 on Windows\<close>

definition a64_windows_save :: "a64_instr list" where
  "a64_windows_save = [
     SubImm 192,
     Stp 19 20 0, Stp 21 22 16, Stp 23 24 32, Stp 25 26 48, Stp 27 28 64, Stp 29 30 80,
     StpD 8 9 96, StpD 10 11 112, StpD 12 13 128, StpD 14 15 144,
     MrsFpcr 9, StrSp 9 160,
     LdrTeb 9 16, LdrTeb 10 8, Stp 9 10 168,
     MovA (X 9) XSP, StrAt 9 0, LdrAt 9 1, MovA XSP (X 9)]"

definition a64_windows_restore :: "a64_instr list" where
  "a64_windows_restore = [
     Ldp 19 20 0, Ldp 21 22 16, Ldp 23 24 32, Ldp 25 26 48, Ldp 27 28 64, Ldp 29 30 80,
     LdpD 8 9 96, LdpD 10 11 112, LdpD 12 13 128, LdpD 14 15 144,
     LdrSp 9 160, MsrFpcr 9,
     Ldp 9 10 168, StrTeb 9 16, StrTeb 10 8,
     AddImm 192, ARet]"

definition a64_windows_switch :: "a64_instr list" where
  "a64_windows_switch = a64_windows_save @ a64_windows_restore"

definition a64_windows_running :: "a64 \<Rightarrow> a64_context" where
  "a64_windows_running s = (a64_running s)\<lparr>ac_teb := [a_teb s 16, a_teb s 8]\<rparr>"

definition a64_windows_frame :: "64 memory \<Rightarrow> u64 \<Rightarrow> a64_context" where
  "a64_windows_frame m sp = (a64_frame m sp)\<lparr>ac_teb := [load (sp + 168) m, load (sp + 176) m]\<rparr>"

lemmas a64_windows_context = a64_windows_running_def a64_windows_frame_def a64_running_def a64_frame_def upt_a64

lemma a64_windows_saves:
  assumes "a_reg s XSP = b + 192" and "apart (a_reg s (X 0)) 8 b 192"
  shows "a64_windows_frame (a_mem (a64_run a64_windows_save s)) b = a64_windows_running (a64_run [ARet] s)"
  by (simp add: apart_within [OF assms(2)] a64_windows_save_def a64_windows_context assms(1))

lemma a64_windows_saved:
  assumes "a_reg s XSP = b + 192"
  shows "load (a_reg s (X 0)) (a_mem (a64_run a64_windows_save s)) = b"
    "a_reg (a64_run a64_windows_save s) XSP = load (a_reg s (X 1)) (a_mem (a64_run a64_windows_save s))"
  by (simp_all add: a64_windows_save_def assms)

lemma a64_windows_writes:
  assumes "a_reg s XSP = b + 192" and "192 \<le> unat (x - b)" and "8 \<le> unat (x - a_reg s (X 0))"
  shows "a_mem (a64_run a64_windows_save s) x = a_mem s x"
  by (simp add: a64_windows_save_def assms(1) store_within [OF assms(2)] store_other [OF _ assms(2)] store_other [OF _ assms(3)])

lemma a64_windows_restores:
  "a64_windows_running (a64_run a64_windows_restore s) = a64_windows_frame (a_mem s) (a_reg s XSP)"
  "a_mem (a64_run a64_windows_restore s) = a_mem s"
  by (simp_all add: a64_windows_restore_def a64_windows_context)

lemma a64_windows_runs: "a64_run a64_windows_switch s = a64_run a64_windows_restore (a64_run a64_windows_save s)"
  unfolding a64_windows_switch_def by (rule a64_run_append) (simp add: a64_windows_save_def)

interpretation a64_windows: context_switch "a64_run a64_windows_switch" a_mem "\<lambda>s. a64_windows_running (a64_run [ARet] s)"
  a64_windows_running a64_windows_frame "\<lambda>s. a_reg s XSP - 192" "\<lambda>s. a_reg s (X 0)" "\<lambda>s. a_reg s (X 1)" 192
proof (unfold_locales, goal_cases)
  case (5 a m m')
  then show ?case by (simp add: a64_windows_context load_within [of a 192 m m'] load_start [of a 192 m m'])
qed (simp_all add: a64_windows_runs a64_windows_restores a64_windows_saves a64_windows_saved [of _ "a_reg _ XSP - 192"]
    a64_windows_writes [of _ "a_reg _ XSP - 192"])

definition a64_windows_initial_frame :: "u64 \<Rightarrow> u64 \<Rightarrow> u64 \<Rightarrow> u64 \<Rightarrow> 64 memory \<Rightarrow> u64 \<times> 64 memory" where
  "a64_windows_initial_frame hi stack_limit state trampoline m =
     (let sp = hi - 192; m = zero_bytes sp 192 m; m = store sp state m; m = store (sp + 88) trampoline m;
          m = store (sp + 168) stack_limit m
      in (sp, store (sp + 176) hi m))"

text \<open>The trampoline branches to its function and leaves no return address.\<close>

definition a64_windows_trampoline :: "u64 \<Rightarrow> a64_instr list" where
  "a64_windows_trampoline f = [MovA (X 0) (X 19), MovXzr 30, B f]"

definition a64_windows_entered :: "u64 \<Rightarrow> u64 \<Rightarrow> u64 \<Rightarrow> u64 \<Rightarrow> a64 \<Rightarrow> bool" where
  "a64_windows_entered stack_limit f state hi s \<longleftrightarrow> a64_entered f state hi s \<and> a_reg s (X 30) = 0 \<and>
     a_teb s 8 = hi \<and> a_teb s 16 = stack_limit"

definition a64_windows_start :: "u64 \<Rightarrow> u64 \<Rightarrow> u64 \<Rightarrow> u64 \<Rightarrow> a64_context" where
  "a64_windows_start stack_limit hi state trampoline = (a64_start hi state trampoline)\<lparr>ac_teb := [stack_limit, hi]\<rparr>"

lemma a64_windows_fresh:
  assumes "a64_windows_initial_frame hi stack_limit state trampoline m = (sp, m')"
  shows "a64_windows_frame m' sp = a64_windows_start stack_limit hi state trampoline"
proof -
  obtain b where "hi = b + 192" by (metis diff_add_cancel)
  with assms show ?thesis
    by (auto simp: a64_windows_initial_frame_def a64_windows_context a64_windows_start_def a64_start_def Let_def)
qed

interpretation a64_windows: fresh_context "a64_run a64_windows_switch" a_mem "\<lambda>s. a64_windows_running (a64_run [ARet] s)"
  a64_windows_running a64_windows_frame "\<lambda>s. a_reg s XSP - 192" "\<lambda>s. a_reg s (X 0)" "\<lambda>s. a_reg s (X 1)" 192
  "\<lambda>hi. a64_windows_initial_frame hi stack_limit" "a64_windows_start stack_limit" "\<lambda>f r. a64_run (a64_windows_trampoline f)"
  "a64_windows_entered stack_limit" 192 for stack_limit
proof (unfold_locales, goal_cases)
  case (3 hi state trampoline m sp m' x)
  obtain b where "hi = b + 192" by (metis diff_add_cancel)
  with 3 show ?case
    by (auto simp: a64_windows_initial_frame_def Let_def zero_bytes_def store_within [of 192 x sp] store_other [of 192 x sp])
next
  case (4 s hi state trampoline f r)
  then show ?case
    by (simp add: a64_windows_context a64_windows_start_def a64_start_def a64_windows_entered_def a64_entered_def a64_windows_trampoline_def)
next
  case (7 s hi state trampoline f r)
  show ?case by (simp add: a64_windows_trampoline_def)
qed (auto simp: a64_windows_fresh a64_windows_initial_frame_def Let_def)

end
