(* ===== verification/Krio_Context.thy ===== *)
theory Krio_Context
  imports Krio_Sysv64 Krio_Win64 Krio_I386 Krio_Rv64 Krio_A64_Windows
begin

text \<open>
  What holds of the switches of all six targets, and the constants of \<open>crates/krio-fiber/src/arch.rs\<close>
  with which a collector reads the frame of a suspended fiber.
\<close>

section \<open>Frame constants\<close>

text \<open>\<open>AArch64\<close> stands for Windows too: the constants are the same.\<close>

datatype target = SysV64 | Win64 | I386 | AArch64 | RV64

fun SAVED_FRAME_BYTES :: "target \<Rightarrow> nat" where
  "SAVED_FRAME_BYTES SysV64 = 6 * 8 + 16"
| "SAVED_FRAME_BYTES Win64 = 8 * 8 + 10 * 16 + 16 + 16"
| "SAVED_FRAME_BYTES AArch64 = 192"
| "SAVED_FRAME_BYTES I386 = 4 * 4 + 8"
| "SAVED_FRAME_BYTES RV64 = 208"

fun SAVED_FP_OFFSET :: "target \<Rightarrow> nat" where
  "SAVED_FP_OFFSET SysV64 = 56"
| "SAVED_FP_OFFSET Win64 = 232"
| "SAVED_FP_OFFSET AArch64 = 80"
| "SAVED_FP_OFFSET I386 = 20"
| "SAVED_FP_OFFSET RV64 = 8"

fun SAVED_RET_OFFSET :: "target \<Rightarrow> nat" where
  "SAVED_RET_OFFSET SysV64 = 64"
| "SAVED_RET_OFFSET Win64 = 256"
| "SAVED_RET_OFFSET AArch64 = 88"
| "SAVED_RET_OFFSET I386 = 24"
| "SAVED_RET_OFFSET RV64 = 0"

text \<open>\<open>Fiber::saved_fp\<close> and \<open>Fiber::saved_ret\<close> of a suspended fiber: the words at the offsets.\<close>

definition saved_fp :: "target \<Rightarrow> 'w::len memory \<Rightarrow> 'w word \<Rightarrow> 'w word" where
  "saved_fp t m sp = load (sp + of_nat (SAVED_FP_OFFSET t)) m"

definition saved_ret :: "target \<Rightarrow> 'w::len memory \<Rightarrow> 'w word \<Rightarrow> 'w word" where
  "saved_ret t m sp = load (sp + of_nat (SAVED_RET_OFFSET t)) m"

lemma saved_words:
  "saved_fp SysV64 m sp = xc_regs (sysv64_frame m sp) ! 1" "saved_ret SysV64 m sp = xc_pc (sysv64_frame m sp)"
  "saved_fp Win64 m sp = xc_regs (win64_frame m sp) ! 1" "saved_ret Win64 m sp = xc_pc (win64_frame m sp)"
  "saved_fp I386 m' sp' = xc_regs (i386_frame m' sp') ! 1" "saved_ret I386 m' sp' = xc_pc (i386_frame m' sp')"
  "saved_fp AArch64 m sp = ac_regs (a64_frame m sp) ! 10" "saved_ret AArch64 m sp = ac_pc (a64_frame m sp)"
  "saved_fp AArch64 m sp = ac_regs (a64_windows_frame m sp) ! 10" "saved_ret AArch64 m sp = ac_pc (a64_windows_frame m sp)"
  "saved_fp RV64 m sp = vc_regs (rv64_frame m sp) ! 0" "saved_ret RV64 m sp = vc_pc (rv64_frame m sp)"
  by (simp_all add: saved_fp_def saved_ret_def sysv64_frame_def win64_frame_def i386_frame_def a64_frame_def a64_windows_frame_def rv64_frame_def
      upt_a64 upt_0_12)

section \<open>The trampolines of the allocation-free layer\<close>

definition sysv64_raw_trampoline :: "u64 \<Rightarrow> u64 \<Rightarrow> u64 x86_instr list" where
  "sysv64_raw_trampoline f r = [MovReg R12 RDI, Call f r]"

definition win64_raw_trampoline :: "u64 \<Rightarrow> u64 \<Rightarrow> u64 x86_instr list" where
  "win64_raw_trampoline f r = [MovReg R12 RCX, SubSp 32, Call f r]"

definition i386_raw_trampoline :: "u32 \<Rightarrow> u32 \<Rightarrow> u32 x86_instr list" where
  "i386_raw_trampoline f r = [SubSp 8, Push RBX, Call f r]"

definition rv64_raw_trampoline :: "u64 \<Rightarrow> u64 \<Rightarrow> rv_instr list" where
  "rv64_raw_trampoline f r = [Mv A0 (S 1), RvCall f r]"

definition a64_raw_trampoline :: "u64 \<Rightarrow> u64 \<Rightarrow> a64_instr list" where
  "a64_raw_trampoline f r = [MovA (X 0) (X 19), Bl f r]"

definition a64_windows_raw_trampoline :: "u64 \<Rightarrow> a64_instr list" where
  "a64_windows_raw_trampoline f = [MovA (X 0) (X 19), MovXzr 30, B f]"

lemma raw_trampolines:
  "sysv64_raw_trampoline = sysv64_trampoline" "win64_raw_trampoline = win64_trampoline"
  "i386_raw_trampoline = i386_trampoline" "rv64_raw_trampoline = rv64_trampoline" "a64_raw_trampoline = a64_trampoline"
  "a64_windows_raw_trampoline = a64_windows_trampoline"
  by (simp_all add: fun_eq_iff sysv64_raw_trampoline_def sysv64_trampoline_def win64_raw_trampoline_def win64_trampoline_def
      i386_raw_trampoline_def i386_trampoline_def rv64_raw_trampoline_def rv64_trampoline_def a64_raw_trampoline_def
      a64_trampoline_def a64_windows_raw_trampoline_def a64_windows_trampoline_def)

section \<open>Properties\<close>

text \<open>
  C29: The switch. On each of the six targets (AArch64 with both of its return instructions, and on Windows), when
  \<open>s\<close> switches away and \<open>t\<close> later loads the stack pointer that \<open>s\<close> saved, the frame of \<open>s\<close> being
  intact and the slots and the frame of \<open>t\<close> apart from it, execution continues where the call of \<open>s\<close>
  returns, with every callee-saved register, the stack pointer, the floating-point control words and,
  on Windows, the stack bounds of the thread block as \<open>s\<close> had them. Loading the control words only
  when they differ makes no difference to that.
\<close>

theorem switch_resumes_caller:
  "resumes_caller (x86_run sysv64_switch) x_mem (\<lambda>s. sysv64_running (x86_run [Ret] s)) sysv64_running
     (\<lambda>s. x_reg s RSP - 64) (\<lambda>s. x_reg s RDI) (\<lambda>s. x_reg s RSI) 72 \<and>
   resumes_caller (x86_run win64_switch) x_mem (\<lambda>s. win64_running (x86_run [Ret] s)) win64_running
     (\<lambda>s. x_reg s RSP - 256) (\<lambda>s. x_reg s RCX) (\<lambda>s. x_reg s RDX) 264 \<and>
   resumes_caller (x86_run i386_switch) x_mem (\<lambda>s. i386_running (x86_run [Ret] s)) i386_running
     (\<lambda>s. x_reg s RSP - 24) i386_save_to i386_load_from 28 \<and>
   resumes_caller (rv_run rv64_switch) v_mem (\<lambda>s. rv64_running (rv_run [RvRet] s)) rv64_running
     (\<lambda>s. v_reg s SP - 208) (\<lambda>s. v_reg s A0) (\<lambda>s. v_reg s A1) 208 \<and>
   resumes_caller (a64_run (a64_switch apple)) a_mem (\<lambda>s. a64_running (a64_run [ARet] s)) a64_running
     (\<lambda>s. a_reg s XSP - 192) (\<lambda>s. a_reg s (X 0)) (\<lambda>s. a_reg s (X 1)) 192 \<and>
   resumes_caller (a64_run a64_windows_switch) a_mem (\<lambda>s. a64_windows_running (a64_run [ARet] s)) a64_windows_running
     (\<lambda>s. a_reg s XSP - 192) (\<lambda>s. a_reg s (X 0)) (\<lambda>s. a_reg s (X 1)) 192"
  by (intro conjI sysv64.resumes_caller win64.resumes_caller i386.resumes_caller rv64.resumes_caller a64.resumes_caller
      a64_windows.resumes_caller)

text \<open>
  C30: Fresh stacks. On each target the first switch to a stack that \<open>initial_frame\<close> laid out runs the
  trampoline, which calls its function with \<open>state\<close> as the argument, in the register or on the stack
  where the convention puts it, at the stack alignment the convention asks for, and with the default
  floating-point control words. On Windows the thread block then has the bounds of the new stack, and on
  AArch64 there the link register is null, where an unwinder stops.
\<close>

theorem fresh_stack_enters_function:
  "starts_fresh (x86_run sysv64_switch) x_mem (\<lambda>s. x_reg s RSP - 64) (\<lambda>s. x_reg s RDI) (\<lambda>s. x_reg s RSI) 72
     sysv64_initial_frame (\<lambda>f r. x86_run (sysv64_trampoline f r)) sysv64_entered \<and>
   starts_fresh (x86_run win64_switch) x_mem (\<lambda>s. x_reg s RSP - 256) (\<lambda>s. x_reg s RCX) (\<lambda>s. x_reg s RDX) 264
     (\<lambda>hi. win64_initial_frame hi limit) (\<lambda>f r. x86_run (win64_trampoline f r)) (win64_entered limit) \<and>
   starts_fresh (x86_run i386_switch) x_mem (\<lambda>s. x_reg s RSP - 24) i386_save_to i386_load_from 28
     i386_initial_frame (\<lambda>f r. x86_run (i386_trampoline f r)) i386_entered \<and>
   starts_fresh (rv_run rv64_switch) v_mem (\<lambda>s. v_reg s SP - 208) (\<lambda>s. v_reg s A0) (\<lambda>s. v_reg s A1) 208
     rv64_initial_frame (\<lambda>f r. rv_run (rv64_trampoline f r)) rv64_entered \<and>
   starts_fresh (a64_run (a64_switch apple)) a_mem (\<lambda>s. a_reg s XSP - 192) (\<lambda>s. a_reg s (X 0)) (\<lambda>s. a_reg s (X 1)) 192
     a64_initial_frame (\<lambda>f r. a64_run (a64_trampoline f r)) a64_entered \<and>
   starts_fresh (a64_run a64_windows_switch) a_mem (\<lambda>s. a_reg s XSP - 192) (\<lambda>s. a_reg s (X 0)) (\<lambda>s. a_reg s (X 1)) 192
     (\<lambda>hi. a64_windows_initial_frame hi limit) (\<lambda>f r. a64_run (a64_windows_trampoline f)) (a64_windows_entered limit)"
  by (intro conjI sysv64.starts_fresh win64.starts_fresh i386.starts_fresh rv64.starts_fresh a64.starts_fresh
      a64_windows.starts_fresh)

text \<open>
  C31: Collectors. After a switch away, with the slot apart from the frame, \<open>saved_fp\<close> and \<open>saved_ret\<close>
  at the stack pointer the switch stored are the frame pointer and the return address of its caller.
\<close>

theorem saved_offsets:
  assumes "apart (x_reg s RDI) 8 (x_reg s RSP - 64) 72" and "apart (x_reg w RCX) 8 (x_reg w RSP - 256) 264"
    and "apart (i386_save_to i) 4 (x_reg i RSP - 24) 28" and "apart (a_reg a (X 0)) 8 (a_reg a XSP - 192) 192"
    and "apart (v_reg v A0) 8 (v_reg v SP - 208) 208" and "apart (a_reg b (X 0)) 8 (a_reg b XSP - 192) 192"
  shows "(let m = x_mem (x86_run sysv64_switch s); sp = load (x_reg s RDI) m
      in saved_fp SysV64 m sp = x_reg s RBP \<and> saved_ret SysV64 m sp = load (x_reg s RSP) (x_mem s)) \<and>
    (let m = x_mem (x86_run win64_switch w); sp = load (x_reg w RCX) m
      in saved_fp Win64 m sp = x_reg w RBP \<and> saved_ret Win64 m sp = load (x_reg w RSP) (x_mem w)) \<and>
    (let m = x_mem (x86_run i386_switch i); sp = load (i386_save_to i) m
      in saved_fp I386 m sp = x_reg i RBP \<and> saved_ret I386 m sp = load (x_reg i RSP) (x_mem i)) \<and>
    (let m = a_mem (a64_run (a64_switch apple) a); sp = load (a_reg a (X 0)) m
      in saved_fp AArch64 m sp = a_reg a (X 29) \<and> saved_ret AArch64 m sp = a_reg a (X 30)) \<and>
    (let m = v_mem (rv_run rv64_switch v); sp = load (v_reg v A0) m
      in saved_fp RV64 m sp = v_reg v (S 0) \<and> saved_ret RV64 m sp = v_reg v RA) \<and>
    (let m = a_mem (a64_run a64_windows_switch b); sp = load (a_reg b (X 0)) m
      in saved_fp AArch64 m sp = a_reg b (X 29) \<and> saved_ret AArch64 m sp = a_reg b (X 30))"
proof (intro conjI)
  show "let m = x_mem (x86_run sysv64_switch s); sp = load (x_reg s RDI) m
      in saved_fp SysV64 m sp = x_reg s RBP \<and> saved_ret SysV64 m sp = load (x_reg s RSP) (x_mem s)"
    using sysv64.saves [of s] assms(1)
    by (simp add: saved_words sysv64.saves_sp sysv64_running_def x86_running_def x86_simps)
  show "let m = x_mem (x86_run win64_switch w); sp = load (x_reg w RCX) m
      in saved_fp Win64 m sp = x_reg w RBP \<and> saved_ret Win64 m sp = load (x_reg w RSP) (x_mem w)"
    using win64.saves [of w] assms(2)
    by (simp add: saved_words win64.saves_sp win64_running_def x86_running_def x86_simps)
  show "let m = x_mem (x86_run i386_switch i); sp = load (i386_save_to i) m
      in saved_fp I386 m sp = x_reg i RBP \<and> saved_ret I386 m sp = load (x_reg i RSP) (x_mem i)"
    using i386.saves [of i] assms(3)
    by (simp add: saved_words i386.saves_sp i386_running_def x86_running_def x86_simps)
  show "let m = a_mem (a64_run (a64_switch apple) a); sp = load (a_reg a (X 0)) m
      in saved_fp AArch64 m sp = a_reg a (X 29) \<and> saved_ret AArch64 m sp = a_reg a (X 30)"
    using a64.saves [of a apple] assms(4)
    by (simp add: saved_words(7,8) a64.saves_sp a64_running_def upt_a64)
  show "let m = v_mem (rv_run rv64_switch v); sp = load (v_reg v A0) m
      in saved_fp RV64 m sp = v_reg v (S 0) \<and> saved_ret RV64 m sp = v_reg v RA"
    using rv64.saves [of v] assms(5)
    by (simp add: saved_words rv64.saves_sp rv64_running_def rv_run_ret upt_0_12)
  show "let m = a_mem (a64_run a64_windows_switch b); sp = load (a_reg b (X 0)) m
      in saved_fp AArch64 m sp = a_reg b (X 29) \<and> saved_ret AArch64 m sp = a_reg b (X 30)"
    using a64_windows.saves [of b] assms(6)
    by (simp add: saved_words(9,10) a64_windows.saves_sp a64_windows_running_def a64_running_def upt_a64)
qed

lemma raw_starts_context:
  shows sysv64_starts_context: "starts_context (x86_run sysv64_switch) x_mem (\<lambda>s. x_reg s RSP - 64) (\<lambda>s. x_reg s RDI) (\<lambda>s. x_reg s RSI) 72
     (\<lambda>base. sysv64_initial_frame) (\<lambda>f r. x86_run (sysv64_raw_trampoline f r)) (\<lambda>base. sysv64_entered)"
    and win64_starts_context: "starts_context (x86_run win64_switch) x_mem (\<lambda>s. x_reg s RSP - 256) (\<lambda>s. x_reg s RCX) (\<lambda>s. x_reg s RDX) 264
     (\<lambda>base hi. win64_initial_frame hi base) (\<lambda>f r. x86_run (win64_raw_trampoline f r)) win64_entered"
    and i386_starts_context: "starts_context (x86_run i386_switch) x_mem (\<lambda>s. x_reg s RSP - 24) i386_save_to i386_load_from 28
     (\<lambda>base. i386_initial_frame) (\<lambda>f r. x86_run (i386_raw_trampoline f r)) (\<lambda>base. i386_entered)"
    and rv64_starts_context: "starts_context (rv_run rv64_switch) v_mem (\<lambda>s. v_reg s SP - 208) (\<lambda>s. v_reg s A0) (\<lambda>s. v_reg s A1) 208
     (\<lambda>base. rv64_initial_frame) (\<lambda>f r. rv_run (rv64_raw_trampoline f r)) (\<lambda>base. rv64_entered)"
    and a64_starts_context: "starts_context (a64_run (a64_switch apple)) a_mem (\<lambda>s. a_reg s XSP - 192) (\<lambda>s. a_reg s (X 0)) (\<lambda>s. a_reg s (X 1)) 192
     (\<lambda>base. a64_initial_frame) (\<lambda>f r. a64_run (a64_raw_trampoline f r)) (\<lambda>base. a64_entered)"
    and a64_windows_starts_context: "starts_context (a64_run a64_windows_switch) a_mem (\<lambda>s. a_reg s XSP - 192) (\<lambda>s. a_reg s (X 0)) (\<lambda>s. a_reg s (X 1)) 192
     (\<lambda>base hi. a64_windows_initial_frame hi base) (\<lambda>f r. a64_run (a64_windows_raw_trampoline f)) a64_windows_entered"
  unfolding starts_context_def raw_trampolines
  by (intro allI impI, elim conjE, rule sysv64.context_starts win64.context_starts i386.context_starts rv64.context_starts
      a64.context_starts a64_windows.context_starts; simp)+

text \<open>
  C32: Raw contexts. On each of the six targets, with the first frame that \<open>Context::new\<close> lays out there (on
  Windows with the bottom of the stack as its limit) and the trampoline of \<open>raw.rs\<close>: the first switch to a context
  that \<open>Context::new\<close> made of a stack, an entry function and its argument, frame and record being intact and apart from
  what the switch writes, comes to \<open>start\<close> in the state its convention asks for, with the address of a record in which
  it then reads the entry function and the argument.
\<close>

theorem raw_context_starts_entry:
  "starts_context (x86_run sysv64_switch) x_mem (\<lambda>s. x_reg s RSP - 64) (\<lambda>s. x_reg s RDI) (\<lambda>s. x_reg s RSI) 72
     (\<lambda>base. sysv64_initial_frame) (\<lambda>f r. x86_run (sysv64_raw_trampoline f r)) (\<lambda>base. sysv64_entered) \<and>
   starts_context (x86_run win64_switch) x_mem (\<lambda>s. x_reg s RSP - 256) (\<lambda>s. x_reg s RCX) (\<lambda>s. x_reg s RDX) 264
     (\<lambda>base hi. win64_initial_frame hi base) (\<lambda>f r. x86_run (win64_raw_trampoline f r)) win64_entered \<and>
   starts_context (x86_run i386_switch) x_mem (\<lambda>s. x_reg s RSP - 24) i386_save_to i386_load_from 28
     (\<lambda>base. i386_initial_frame) (\<lambda>f r. x86_run (i386_raw_trampoline f r)) (\<lambda>base. i386_entered) \<and>
   starts_context (rv_run rv64_switch) v_mem (\<lambda>s. v_reg s SP - 208) (\<lambda>s. v_reg s A0) (\<lambda>s. v_reg s A1) 208
     (\<lambda>base. rv64_initial_frame) (\<lambda>f r. rv_run (rv64_raw_trampoline f r)) (\<lambda>base. rv64_entered) \<and>
   starts_context (a64_run (a64_switch apple)) a_mem (\<lambda>s. a_reg s XSP - 192) (\<lambda>s. a_reg s (X 0)) (\<lambda>s. a_reg s (X 1)) 192
     (\<lambda>base. a64_initial_frame) (\<lambda>f r. a64_run (a64_raw_trampoline f r)) (\<lambda>base. a64_entered) \<and>
   starts_context (a64_run a64_windows_switch) a_mem (\<lambda>s. a_reg s XSP - 192) (\<lambda>s. a_reg s (X 0)) (\<lambda>s. a_reg s (X 1)) 192
     (\<lambda>base hi. a64_windows_initial_frame hi base) (\<lambda>f r. a64_run (a64_windows_raw_trampoline f)) a64_windows_entered"
  by (intro conjI sysv64_starts_context win64_starts_context i386_starts_context rv64_starts_context a64_starts_context
      a64_windows_starts_context)

section \<open>Witnesses\<close>

definition ping :: "u64 x86" where
  "ping = \<lparr>x_reg = (\<lambda>_. 0)(RSP := 0x8000, RDI := 0x100, RSI := 0x108, RBX := 7), x_xmm = (\<lambda>_. 0), x_mxcsr = DEFAULT_MXCSR,
     x_cw = DEFAULT_X87_CW, x_gs = (\<lambda>_. 0), x_eq = False, x_mem = (\<lambda>_. 0), x_pc = 0\<rparr>"

text \<open>Another context, which runs after \<open>ping\<close> has switched away and switches back.\<close>

definition pong :: "u64 x86" where
  "pong = (x86_run sysv64_switch ping)\<lparr>x_reg := (\<lambda>_. 1)(RSP := 0x9000, RDI := 0x108, RSI := 0x100), x_mxcsr := 0\<rparr>"

theorem switch_resumes_caller_witness:
  "sysv64_running (x86_run sysv64_switch pong) = \<lparr>xc_pc = 0, xc_regs = [0x8008, 0, 7, 0, 0, 0, 0], xc_xmm = [],
     xc_mxcsr = DEFAULT_MXCSR, xc_cw = DEFAULT_X87_CW, xc_teb = []\<rparr>"
proof -
  have sp: "x_reg ping RSP = 0x8000" "x_reg ping RDI = 0x100" "x_reg ping RSI = 0x108" by (simp_all add: ping_def)
  have "load (0x100 :: u64) (x_mem (x86_run sysv64_switch ping)) = (0x8000 - 64 :: u64)"
    using sysv64.saves_sp [of ping] by (simp add: sp)
  moreover have "resumes_caller (x86_run sysv64_switch) x_mem (\<lambda>s. sysv64_running (x86_run [Ret] s)) sysv64_running
     (\<lambda>s. x_reg s RSP - 64) (\<lambda>s. x_reg s RDI) (\<lambda>s. x_reg s RSI) 72"
    using switch_resumes_caller by blast
  ultimately have "sysv64_running (x86_run sysv64_switch pong) = sysv64_running (x86_run [Ret] ping)"
    unfolding resumes_caller_def by (elim allE [of _ ping] allE [of _ pong]) (simp add: pong_def sp apart_def)
  also have "load (0x8000 :: u64) (\<lambda>_. 0) = (0 :: u64)" by (simp add: load_def map_replicate_const)
  then have "sysv64_running (x86_run [Ret] ping) = \<lparr>xc_pc = 0, xc_regs = [0x8008, 0, 7, 0, 0, 0, 0], xc_xmm = [],
     xc_mxcsr = DEFAULT_MXCSR, xc_cw = DEFAULT_X87_CW, xc_teb = []\<rparr>"
    by (simp add: sysv64_running_def x86_running_def x86_simps ping_def)
  finally show ?thesis .
qed

definition ping32 :: "u32 x86" where
  "ping32 = \<lparr>x_reg = (\<lambda>_. 0)(RSP := 0x8000, RBP := 5), x_xmm = (\<lambda>_. 0), x_mxcsr = DEFAULT_MXCSR,
     x_cw = DEFAULT_X87_CW, x_gs = (\<lambda>_. 0), x_eq = False, x_mem = (\<lambda>_. 0), x_pc = 0\<rparr>"

definition ping_a64 :: a64 where
  "ping_a64 = \<lparr>a_reg = (\<lambda>_. 0)(XSP := 0x8000, X 29 := 5), a_d = (\<lambda>_. 0), a_fpcr = 0, a_eq = False, a_teb = (\<lambda>_. 0), a_mem = (\<lambda>_. 0), a_pc = 0\<rparr>"

definition ping_rv64 :: rv64 where
  "ping_rv64 = \<lparr>v_reg = (\<lambda>_. 0)(SP := 0x8000, S 0 := 5), v_fs = (\<lambda>_. 0), v_fcsr = 0, v_mem = (\<lambda>_. 0), v_pc = 0\<rparr>"

theorem saved_offsets_witness:
  "saved_fp I386 (x_mem (x86_run i386_switch ping32)) (load (i386_save_to ping32) (x_mem (x86_run i386_switch ping32))) = 5 \<and>
   saved_fp AArch64 (a_mem (a64_run (a64_switch True) ping_a64)) (load 0 (a_mem (a64_run (a64_switch True) ping_a64))) = 5"
proof -
  have "i386_save_to ping32 = 0" by (simp add: i386_save_to_def ping32_def load_def map_replicate_const)
  then have "apart (x_reg ping RDI) 8 (x_reg ping RSP - 64) 72" "apart (x_reg ping RCX) 8 (x_reg ping RSP - 256) 264"
    "apart (i386_save_to ping32) 4 (x_reg ping32 RSP - 24) 28" "apart (a_reg ping_a64 (X 0)) 8 (a_reg ping_a64 XSP - 192) 192"
    "apart (v_reg ping_rv64 A0) 8 (v_reg ping_rv64 SP - 208) 208"
    by (simp_all add: apart_def ping_def ping32_def ping_a64_def ping_rv64_def)
  from saved_offsets [OF this this(4), of True] show ?thesis by (simp add: Let_def ping32_def ping_a64_def)
qed

text \<open>A context on a page at 0x10000 whose stack pointer is stored in the slot at 0x100.\<close>

theorem raw_context_starts_entry_witness:
  "\<exists>t. start_record (0x11000 - 16) (x_mem (x86_run (sysv64_raw_trampoline 44 55) (x86_run sysv64_switch t))) = (11, 22) \<and>
     x_pc (x86_run (sysv64_raw_trampoline 44 55) (x86_run sysv64_switch t)) = 44"
proof -
  have h: "and (0x10000 + 0x1000) (not 15) = (0x11000 :: u64)" by simp
  obtain sp m' where c: "context_new sysv64_initial_frame 0x10000 0x1000 11 22 33 (\<lambda>_. 0) = (sp, m')" by fastforce
  then have sp: "sp = 0x11000 - 16 - 72" by (auto simp: context_new_def Let_def h sysv64_initial_frame_def)
  let ?t = "ping\<lparr>x_reg := (x_reg ping)(RDI := 0x108, RSI := 0x100), x_mem := store 0x100 sp m'\<rparr>"
  have "same_bytes sp 72 m' (x_mem ?t)" "same_bytes (0x11000 - 16) 16 m' (x_mem ?t)"
    using same_bytes_store [of sp 72 "0x100" sp m'] same_bytes_store [of "0x11000 - 16" 16 "0x100" sp m']
    by (simp_all add: same_bytes_def sp apart_def)
  moreover have "starts_context (x86_run sysv64_switch) x_mem (\<lambda>s. x_reg s RSP - 64) (\<lambda>s. x_reg s RDI) (\<lambda>s. x_reg s RSI) 72
     (\<lambda>base. sysv64_initial_frame) (\<lambda>f r. x86_run (sysv64_raw_trampoline f r)) (\<lambda>base. sysv64_entered)"
    by (rule conjunct1 [OF raw_context_starts_entry])
  note this [unfolded starts_context_def, rule_format, of "0x10000" "0x1000" 11 22 33 "\<lambda>_. 0" sp m' "0x11000 - 16" ?t 44 55]
  moreover have "load (x_reg ?t RSI) (x_mem ?t) = sp" by simp
  moreover have "x_reg ?t RDI = 0x108" "x_reg ?t RSI = 0x100" "x_reg ?t RSP = 0x8000" by (simp_all add: ping_def)
  moreover have "apart 0x108 8 (0x8000 - 64 :: u64) 72" "apart sp 72 (0x8000 - 64) 72" "apart sp 72 0x108 8" "apart 0x100 8 (0x8000 - 64 :: u64) 72"
    "apart 0x100 8 (0x108 :: u64) 8" "apart (0x11000 - 16) 16 (0x8000 - 64 :: u64) 72" "apart (0x11000 - 16) 16 (0x108 :: u64) 8"
    by (simp_all add: sp apart_def)
  ultimately have "sysv64_entered 44 (0x11000 - 16) (0x11000 - 16) (x86_run (sysv64_raw_trampoline 44 55) (x86_run sysv64_switch ?t)) \<and>
      start_record (0x11000 - 16) (x_mem (x86_run (sysv64_raw_trampoline 44 55) (x86_run sysv64_switch ?t))) = (11, 22)"
    using c by (simp only: h byte_size_word) simp
  then show ?thesis by (intro exI [of _ ?t]) (simp add: sysv64_entered_def)
qed

end
