(* ===== verification/Krio_Stack.thy ===== *)
theory Krio_Stack
  imports Krio_Context Krio_Fiber
begin

text \<open>
  \<open>crates/krio-fiber/src/stack.rs\<close>, as it is built on Unix and elsewhere, and the part of
  \<open>Fiber::with_stack_size\<close> and \<open>prepare_initial_stack\<close> that lays out a fiber's first frame. The system
  calls are a parameter. Sizes and addresses are natural numbers below \<open>2 ^ w\<close>, with \<open>w\<close> the width of
  \<open>usize\<close>; \<open>None\<close> is a panic (a failed system call, or an overflow, which debug builds check).
\<close>

section \<open>Sizes\<close>

definition checked :: "nat \<Rightarrow> nat \<Rightarrow> nat option" where
  "checked w n = (if n < 2 ^ w then Some n else None)"

definition div_ceil :: "nat \<Rightarrow> nat \<Rightarrow> nat" where
  "div_ceil n d = n div d + (if n mod d = 0 then 0 else 1)"

definition next_multiple_of :: "nat \<Rightarrow> nat \<Rightarrow> nat \<Rightarrow> nat option" where
  "next_multiple_of w n d = checked w (if n mod d = 0 then n else n + (d - n mod d))"

lemma checked_Some [simp]: "checked w n = Some m \<longleftrightarrow> n < 2 ^ w \<and> m = n"
  by (auto simp: checked_def)

lemma div_ceil_ge:
  assumes "0 < d"
  shows "n \<le> div_ceil n d * d"
proof -
  have "n = n div d * d + n mod d" by simp
  moreover have "n mod d < d" using assms by simp
  ultimately have "n \<le> n div d * d + d" "n mod d = 0 \<Longrightarrow> n \<le> n div d * d" by linarith+
  then show ?thesis by (simp add: div_ceil_def add_mult_distrib add.commute)
qed

lemma next_multiple_ofD:
  assumes "next_multiple_of w n d = Some m" "0 < d"
  shows "n \<le> m" "m < 2 ^ w" "m mod d = 0"
proof -
  have eq: "n + (d - n mod d) = (n div d + 1) * d" if "n mod d \<noteq> 0"
  proof -
    have "n mod d < d" using assms(2) by simp
    then have "n + (d - n mod d) = n - n mod d + d" using mod_less_eq_dividend [of n d] by linarith
    then show ?thesis by (simp add: minus_mod_eq_div_mult algebra_simps)
  qed
  have m: "m = (if n mod d = 0 then n else n + (d - n mod d))" "m < 2 ^ w" using assms(1) by (simp_all add: next_multiple_of_def)
  show "n \<le> m" unfolding m(1) by (simp only: le_add1 order_refl if_split) simp
  show "m < 2 ^ w" by (rule m(2))
  show "m mod d = 0" using assms eq by (auto simp: next_multiple_of_def split: if_splits)
qed

section \<open>Stacks\<close>

record stack =
  stack_base :: nat
  total_bytes :: nat
  usable_start :: nat
  usable_len :: nat

record 'os system =
  page_size :: nat
  mmap :: "'os \<Rightarrow> nat \<Rightarrow> (nat \<times> 'os) option"
  mprotect :: "'os \<Rightarrow> nat \<Rightarrow> nat \<Rightarrow> 'os option"
  munmap :: "'os \<Rightarrow> nat \<Rightarrow> nat \<Rightarrow> 'os"

definition usable_size :: "nat \<Rightarrow> 'os system \<Rightarrow> nat \<Rightarrow> nat option" where
  "usable_size w sys req = checked w (div_ceil req (page_size sys) * page_size sys)"

definition mmap_stack :: "nat \<Rightarrow> 'os system \<Rightarrow> nat \<Rightarrow> 'os \<Rightarrow> (stack \<times> 'os) option" where
  "mmap_stack w sys req os = do {
     u \<leftarrow> usable_size w sys req;
     total \<leftarrow> checked w (u + page_size sys);
     (base, os) \<leftarrow> mmap sys os total;
     os \<leftarrow> mprotect sys os base (page_size sys);
     Some (\<lparr>stack_base = base, total_bytes = total, usable_start = base + page_size sys, usable_len = u\<rparr>, os) }"

text \<open>The stack of the other targets: its memory is the boxed slice.\<close>

definition heap_stack :: "nat \<Rightarrow> (nat \<Rightarrow> 'os \<Rightarrow> nat \<times> 'os) \<Rightarrow> nat \<Rightarrow> 'os \<Rightarrow> (stack \<times> 'os) option" where
  "heap_stack w alloc req os = do {
     n \<leftarrow> next_multiple_of w req 16;
     let aligned = max n 16;
     let (start, os) = alloc aligned os;
     Some (\<lparr>stack_base = start, total_bytes = aligned, usable_start = start, usable_len = aligned\<rparr>, os) }"

section \<open>The cache\<close>

text \<open>The stacks a thread keeps; \<open>None\<close> when the thread is past the destructor of its \<open>POOL\<close>.\<close>

type_synonym pool = "stack list option"

definition MAX_PARKED :: nat where
  "MAX_PARKED = 16"

fun rposition :: "('a \<Rightarrow> bool) \<Rightarrow> 'a list \<Rightarrow> nat option" where
  "rposition P [] = None"
| "rposition P (x # xs) = (case rposition P xs of Some i \<Rightarrow> Some (Suc i) | None \<Rightarrow> if P x then Some 0 else None)"

text \<open>The outer \<open>None\<close> is a panic.\<close>

definition cache_take :: "nat \<Rightarrow> pool \<Rightarrow> (stack option \<times> pool) option" where
  "cache_take u pool = (case pool of
      None \<Rightarrow> Some (None, None)
    | Some ps \<Rightarrow> (case rposition (\<lambda>p. usable_len p = u) ps of
          None \<Rightarrow> Some (None, Some ps)
        | Some i \<Rightarrow> do { p \<leftarrow> get_nth i ps; ps \<leftarrow> swap_remove i ps; Some (Some p, Some ps) }))"

definition cache_park :: "stack \<Rightarrow> pool \<Rightarrow> bool \<times> pool" where
  "cache_park s pool = (case pool of
      None \<Rightarrow> (False, None)
    | Some ps \<Rightarrow> if MAX_PARKED \<le> length ps then (False, Some ps) else (True, Some (ps @ [s])))"

text \<open>The destructor of the pool.\<close>

definition pool_drop :: "'os system \<Rightarrow> pool \<Rightarrow> 'os \<Rightarrow> pool \<times> 'os" where
  "pool_drop sys pool os = (case pool of
      None \<Rightarrow> (None, os)
    | Some ps \<Rightarrow> (None, fold (\<lambda>p os. munmap sys os (stack_base p) (total_bytes p)) ps os))"

definition stack_new :: "nat \<Rightarrow> 'os system \<Rightarrow> nat \<Rightarrow> pool \<Rightarrow> 'os \<Rightarrow> (stack \<times> pool \<times> 'os) option" where
  "stack_new w sys req pool os = do {
     u \<leftarrow> usable_size w sys req;
     (found, pool) \<leftarrow> cache_take u pool;
     case found of
       Some s \<Rightarrow> Some (s, pool, os)
     | None \<Rightarrow> do { (s, os) \<leftarrow> mmap_stack w sys req os; Some (s, pool, os) } }"

definition stack_drop :: "'os system \<Rightarrow> stack \<Rightarrow> pool \<Rightarrow> 'os \<Rightarrow> pool \<times> 'os" where
  "stack_drop sys s pool os = (case cache_park s pool of
      (True, pool) \<Rightarrow> (pool, os)
    | (False, pool) \<Rightarrow> (pool, munmap sys os (stack_base s) (total_bytes s)))"

section \<open>A thread's stacks\<close>

record 'os stacks =
  s_live :: "stack list"
  s_pool :: pool
  s_os :: 'os

datatype stack_op = NewStack nat | DropStack nat | ThreadExit

fun stacks_do :: "nat \<Rightarrow> 'os system \<Rightarrow> stack_op \<Rightarrow> 'os stacks \<Rightarrow> 'os stacks option" where
  "stacks_do w sys (NewStack req) st = do {
     (s, p, o') \<leftarrow> stack_new w sys req (s_pool st) (s_os st);
     Some (st\<lparr>s_live := s_live st @ [s], s_pool := p, s_os := o'\<rparr>) }"
| "stacks_do w sys (DropStack i) st = do {
     s \<leftarrow> get_nth i (s_live st);
     let (p, o') = stack_drop sys s (s_pool st) (s_os st);
     Some (st\<lparr>s_live := take i (s_live st) @ drop (Suc i) (s_live st), s_pool := p, s_os := o'\<rparr>) }"
| "stacks_do w sys ThreadExit st = (let (p, o') = pool_drop sys (s_pool st) (s_os st) in Some (st\<lparr>s_pool := p, s_os := o'\<rparr>))"

fun stacks_run :: "nat \<Rightarrow> 'os system \<Rightarrow> stack_op list \<Rightarrow> 'os stacks \<Rightarrow> 'os stacks option" where
  "stacks_run w sys [] st = Some st"
| "stacks_run w sys (c # cs) st = do { st \<leftarrow> stacks_do w sys c st; stacks_run w sys cs st }"

text \<open>What the system calls promise: \<open>mapped\<close> is the set of regions, a base and a length each.\<close>

definition clear_of :: "nat \<times> nat \<Rightarrow> nat \<times> nat \<Rightarrow> bool" where
  "clear_of r q \<longleftrightarrow> fst r + snd r \<le> fst q \<or> fst q + snd q \<le> fst r"

definition system_ok :: "('os \<Rightarrow> (nat \<times> nat) set) \<Rightarrow> 'os system \<Rightarrow> bool" where
  "system_ok mapped sys \<longleftrightarrow> 0 < page_size sys \<and>
     (\<forall>os n b os'. mmap sys os n = Some (b, os') \<longrightarrow> mapped os' = insert (b, n) (mapped os) \<and> (\<forall>r\<in>mapped os. clear_of (b, n) r)) \<and>
     (\<forall>os b n os'. mprotect sys os b n = Some os' \<longrightarrow> mapped os' = mapped os) \<and>
     (\<forall>os b n. mapped (munmap sys os b n) = mapped os - {(b, n)})"

section \<open>What a thread's stacks keep\<close>

definition held_stacks :: "'os stacks \<Rightarrow> stack multiset" where
  "held_stacks st = mset (s_live st) + mset (case s_pool st of None \<Rightarrow> [] | Some ps \<Rightarrow> ps)"

definition mapping :: "stack \<Rightarrow> nat \<times> nat" where
  "mapping s = (stack_base s, total_bytes s)"

text \<open>A stack and the guard page below it make up its mapping.\<close>

definition shaped :: "'os system \<Rightarrow> stack \<Rightarrow> bool" where
  "shaped sys s \<longleftrightarrow> usable_start s = stack_base s + page_size sys \<and> usable_len s + page_size sys = total_bytes s \<and>
     usable_len s mod page_size sys = 0"

definition stacks_ok :: "('os \<Rightarrow> (nat \<times> nat) set) \<Rightarrow> 'os system \<Rightarrow> 'os stacks \<Rightarrow> bool" where
  "stacks_ok mapped sys st \<longleftrightarrow>
     (\<forall>r. count (image_mset mapping (held_stacks st)) r \<le> (if r \<in> mapped (s_os st) then 1 else 0)) \<and>
     (\<forall>s\<in>#held_stacks st. shaped sys s) \<and>
     (\<forall>r\<in>mapped (s_os st). \<forall>q\<in>mapped (s_os st). r \<noteq> q \<longrightarrow> clear_of r q) \<and>
     (case s_pool st of None \<Rightarrow> True | Some ps \<Rightarrow> length ps \<le> MAX_PARKED)"

lemma stacks_okD:
  assumes "stacks_ok mapped sys st"
  shows "count (image_mset mapping (held_stacks st)) r \<le> (if r \<in> mapped (s_os st) then 1 else 0)"
    and "s \<in># held_stacks st \<Longrightarrow> shaped sys s"
    and "r \<in> mapped (s_os st) \<Longrightarrow> q \<in> mapped (s_os st) \<Longrightarrow> r \<noteq> q \<Longrightarrow> clear_of r q"
  using assms unfolding stacks_ok_def by blast+

lemma rposition_Some: "rposition P xs = Some i \<Longrightarrow> i < length xs \<and> P (xs ! i)"
  by (induction xs arbitrary: i) (auto split: option.splits if_splits)

text \<open>A stack that was held and no longer is may be unmapped; one that is new must be.\<close>

lemma stacks_ok_moves:
  assumes "stacks_ok mapped sys st" and "held_stacks st' = held_stacks st" and "s_os st' = s_os st"
    and "case s_pool st' of None \<Rightarrow> True | Some ps \<Rightarrow> length ps \<le> MAX_PARKED"
  shows "stacks_ok mapped sys st'"
  using assms by (simp add: stacks_ok_def)

lemma stacks_ok_unmap:
  assumes ok: "stacks_ok mapped sys st" and sys: "system_ok mapped sys" and held_stacks: "held_stacks st = add_mset s (held_stacks st')"
    and os: "s_os st' = munmap sys (s_os st) (stack_base s) (total_bytes s)"
    and pool: "case s_pool st' of None \<Rightarrow> True | Some ps \<Rightarrow> length ps \<le> MAX_PARKED"
  shows "stacks_ok mapped sys st'"
proof -
  have m: "mapped (s_os st') = mapped (s_os st) - {mapping s}" using sys unfolding os system_ok_def mapping_def by blast
  have "count (image_mset mapping (held_stacks st')) r \<le> (if r \<in> mapped (s_os st') then 1 else 0)" for r
    using stacks_okD(1) [OF ok, of r] unfolding held_stacks m by (auto split: if_splits)
  moreover have "\<forall>t\<in>#held_stacks st'. shaped sys t" using stacks_okD(2) [OF ok] held_stacks by simp
  ultimately show ?thesis
    using stacks_okD(3) [OF ok] pool m by (simp add: stacks_ok_def)
qed

lemma stacks_ok_map:
  assumes ok: "stacks_ok mapped sys st" and sys: "system_ok mapped sys" and held_stacks: "held_stacks st' = add_mset s (held_stacks st)"
    and os: "mapped (s_os st') = insert (mapping s) (mapped (s_os st))" "\<forall>r\<in>mapped (s_os st). clear_of (mapping s) r"
    and shape: "shaped sys s" and pool: "s_pool st' = s_pool st"
  shows "stacks_ok mapped sys st'"
proof -
  have "0 < page_size sys" using sys by (simp add: system_ok_def)
  then have "\<not> clear_of (mapping s) (mapping s)" using shape by (auto simp: clear_of_def mapping_def shaped_def)
  then have fresh: "mapping s \<notin> mapped (s_os st)" using os(2) by blast
  have "count (image_mset mapping (held_stacks st')) r \<le> (if r \<in> mapped (s_os st') then 1 else 0)" for r
    using stacks_okD(1) [OF ok, of r] fresh unfolding held_stacks os(1) by (auto split: if_splits)
  moreover have "\<forall>t\<in>#held_stacks st'. shaped sys t" using stacks_okD(2) [OF ok] held_stacks shape by auto
  moreover have "clear_of q r \<longleftrightarrow> clear_of r q" for q r by (auto simp: clear_of_def)
  ultimately show ?thesis
    using stacks_okD(3) [OF ok] os(2) ok unfolding stacks_ok_def pool os(1) by auto
qed

lemma usable_sizeD:
  assumes "usable_size w sys req = Some u" "0 < page_size sys"
  shows "req \<le> u" "u mod page_size sys = 0" "u < 2 ^ w"
  using assms div_ceil_ge [of "page_size sys" req] by (auto simp: usable_size_def)

lemma new_ok:
  assumes ok: "stacks_ok mapped sys st" and sys: "system_ok mapped sys"
    and new: "stacks_do w sys (NewStack req) st = Some st'"
  shows "stacks_ok mapped sys st' \<and> (\<exists>s. s_live st' = s_live st @ [s] \<and> req \<le> usable_len s \<and> usable_size w sys req = Some (usable_len s))"
proof -
  have page: "0 < page_size sys" using sys by (simp add: system_ok_def)
  obtain s p o' where n: "stack_new w sys req (s_pool st) (s_os st) = Some (s, p, o')"
    and st': "st' = st\<lparr>s_live := s_live st @ [s], s_pool := p, s_os := o'\<rparr>"
    using new by auto
  obtain u found p1 where u: "usable_size w sys req = Some u" "cache_take u (s_pool st) = Some (found, p1)"
    and r: "(case found of Some s \<Rightarrow> Some (s, p1, s_os st)
      | None \<Rightarrow> do { (s, os) \<leftarrow> mmap_stack w sys req (s_os st); Some (s, p1, os) }) = Some (s, p, o')"
    using n by (auto simp: stack_new_def)
  have bound: "case s_pool st of None \<Rightarrow> True | Some ps \<Rightarrow> length ps \<le> MAX_PARKED" using ok by (simp add: stacks_ok_def)
  show ?thesis
  proof (cases found)
    case (Some t)
    then have eq: "t = s" "p1 = p" "o' = s_os st" using r by auto
    obtain ps i qs where c: "s_pool st = Some ps" "rposition (\<lambda>p. usable_len p = u) ps = Some i" "ps ! i = s" "swap_remove i ps = Some qs" "p = Some qs"
      using u(2) Some eq by (auto simp: cache_take_def split: option.splits)
    have len: "length qs \<le> length ps" using length_swap_remove [OF c(4)] by simp
    have "held_stacks st' = held_stacks st" using mset_swap_remove [OF c(4)] c by (simp add: held_stacks_def st')
    moreover have "usable_len s = u" using rposition_Some [OF c(2)] c(3) by simp
    ultimately show ?thesis
      using stacks_ok_moves [OF ok, of st'] bound c len usable_sizeD(1) [OF u(1) page] u(1) by (simp add: st' eq)
  next
    case None
    then have p: "p = p1" and mm: "mmap_stack w sys req (s_os st) = Some (s, o')" using r by auto
    have pool: "p1 = s_pool st" using u(2) None by (auto simp: cache_take_def split: option.splits)
    obtain b o1 where b: "mmap sys (s_os st) (u + page_size sys) = Some (b, o1)" "mprotect sys o1 b (page_size sys) = Some o'"
      and s: "s = \<lparr>stack_base = b, total_bytes = u + page_size sys, usable_start = b + page_size sys, usable_len = u\<rparr>"
      using mm u(1) by (auto simp: mmap_stack_def)
    have "mapped o1 = insert (mapping s) (mapped (s_os st))" "\<forall>r\<in>mapped (s_os st). clear_of (mapping s) r" "mapped o' = mapped o1"
      using sys b unfolding system_ok_def mapping_def s by simp_all
    then have "stacks_ok mapped sys st'"
      using usable_sizeD(2) [OF u(1) page]
      by (intro stacks_ok_map [OF ok sys, of _ s]) (simp_all add: st' held_stacks_def p pool shaped_def s)
    then show ?thesis using usable_sizeD(1) [OF u(1) page] u(1) by (simp add: st' s)
  qed
qed

lemma take_drop_mset: "i < length xs \<Longrightarrow> add_mset (xs ! i) (mset (take i xs @ drop (Suc i) xs)) = mset xs"
  by (metis add_mset_add_single append_take_drop_id id_take_nth_drop mset.simps(2) mset_append union_mset_add_mset_right)

lemma drop_ok:
  assumes ok: "stacks_ok mapped sys st" and sys: "system_ok mapped sys"
    and drp: "stacks_do w sys (DropStack i) st = Some st'"
  shows "stacks_ok mapped sys st'"
proof -
  obtain p o' where i: "i < length (s_live st)" and d: "stack_drop sys (s_live st ! i) (s_pool st) (s_os st) = (p, o')"
    and st': "st' = st\<lparr>s_live := take i (s_live st) @ drop (Suc i) (s_live st), s_pool := p, s_os := o'\<rparr>"
    using drp by (cases "stack_drop sys (s_live st ! i) (s_pool st) (s_os st)") auto
  have live: "mset (s_live st) = add_mset (s_live st ! i) (mset (s_live st'))" using take_drop_mset [OF i] by (simp add: st')
  have bound: "case s_pool st of None \<Rightarrow> True | Some ps \<Rightarrow> length ps \<le> MAX_PARKED" using ok by (simp add: stacks_ok_def)
  show ?thesis
  proof (cases "fst (cache_park (s_live st ! i) (s_pool st))")
    case True
    then obtain ps where "s_pool st = Some ps" "\<not> MAX_PARKED \<le> length ps" "p = Some (ps @ [s_live st ! i])" "o' = s_os st"
      using d by (auto simp: stack_drop_def cache_park_def split: option.splits if_splits)
    then show ?thesis using live by (intro stacks_ok_moves [OF ok]) (simp_all add: held_stacks_def st')
  next
    case False
    then have "p = s_pool st" "o' = munmap sys (s_os st) (stack_base (s_live st ! i)) (total_bytes (s_live st ! i))"
      using d by (auto simp: stack_drop_def cache_park_def split: option.splits if_splits)
    then show ?thesis
      using live bound by (intro stacks_ok_unmap [OF ok sys, of "s_live st ! i"]) (simp_all add: held_stacks_def st')
  qed
qed

lemma exit_ok:
  assumes "stacks_ok mapped sys st" and sys: "system_ok mapped sys"
    and "stacks_do w sys ThreadExit st = Some st'"
  shows "stacks_ok mapped sys st'"
proof (cases "s_pool st")
  case None
  then have "st' = st\<lparr>s_pool := None\<rparr>" using assms(3) by (simp add: pool_drop_def)
  then have "st' = st" using None by (cases st) simp
  then show ?thesis using assms(1) by simp
next
  case (Some ps)
  have len: "length ps \<le> MAX_PARKED" using assms(1) Some by (simp add: stacks_ok_def)
  have "stacks_ok mapped sys (st\<lparr>s_pool := Some ps\<rparr>) \<Longrightarrow> length ps \<le> MAX_PARKED \<Longrightarrow>
      stacks_ok mapped sys (st\<lparr>s_pool := None, s_os := fold (\<lambda>p os. munmap sys os (stack_base p) (total_bytes p)) ps (s_os st)\<rparr>)"
    for ps and st :: "'a stacks"
  proof (induction ps arbitrary: st)
    case Nil
    then show ?case by (simp add: stacks_ok_def held_stacks_def)
  next
    case (Cons q qs)
    have "stacks_ok mapped sys (st\<lparr>s_os := munmap sys (s_os st) (stack_base q) (total_bytes q), s_pool := Some qs\<rparr>)"
      using Cons.prems(2) by (intro stacks_ok_unmap [OF Cons.prems(1) sys, of q]) (simp_all add: held_stacks_def)
    then show ?case using Cons.IH [of "st\<lparr>s_os := munmap sys (s_os st) (stack_base q) (total_bytes q)\<rparr>"] Cons.prems(2) by simp
  qed
  note gone = this
  have "st\<lparr>s_pool := Some ps\<rparr> = st" using Some by (cases st) simp
  with gone [of ps st] show ?thesis using assms(1,3) Some len by (simp add: pool_drop_def)
qed

lemma run_ok:
  "stacks_ok mapped sys st \<Longrightarrow> system_ok mapped sys \<Longrightarrow> stacks_run w sys cs st = Some st' \<Longrightarrow> stacks_ok mapped sys st'"
proof (induction cs arbitrary: st)
  case Nil
  then show ?case by simp
next
  case (Cons c cs)
  then obtain st1 where st1: "stacks_do w sys c st = Some st1" "stacks_run w sys cs st1 = Some st'" by auto
  have "stacks_ok mapped sys st1"
    using st1(1) new_ok [OF Cons.prems(1,2)] drop_ok [OF Cons.prems(1,2)] exit_ok [OF Cons.prems(1,2)] by (cases c) blast+
  then show ?case using Cons.IH Cons.prems(2) st1(2) by blast
qed

lemma held_apart:
  assumes "stacks_ok mapped sys st" and "{#s, t#} \<subseteq># held_stacks st"
  shows "clear_of (mapping s) (mapping t)" "mapping s \<in> mapped (s_os st)"
proof -
  define N where "N = count (image_mset mapping (held_stacks st))"
  have c: "N r \<le> (if r \<in> mapped (s_os st) then 1 else 0)" for r unfolding N_def by (rule stacks_okD(1) [OF assms(1)])
  have "{#mapping s, mapping t#} \<subseteq># image_mset mapping (held_stacks st)"
    using image_mset_subseteq_mono [OF assms(2), of mapping] by simp
  then have "count {#mapping s, mapping t#} r \<le> N r" for r unfolding N_def by (rule mset_subset_eq_count)
  from this [of "mapping s"] this [of "mapping t"] c [of "mapping s"] c [of "mapping t"]
  have r: "mapping s \<noteq> mapping t" "mapping s \<in> mapped (s_os st)" "mapping t \<in> mapped (s_os st)"
    by (auto split: if_splits)
  then show "clear_of (mapping s) (mapping t)" "mapping s \<in> mapped (s_os st)"
    using stacks_okD(3) [OF assms(1)] by blast+
qed

lemma two_of_list: "i < j \<Longrightarrow> j < length xs \<Longrightarrow> {#xs ! i, xs ! j#} \<subseteq># mset xs"
proof -
  assume ij: "i < j" "j < length xs"
  then have "xs = take j xs @ xs ! j # drop (Suc j) xs" by (simp add: id_take_nth_drop)
  moreover have "xs ! i \<in> set (take j xs)" using ij by (auto simp: in_set_conv_nth intro!: exI [of _ i])
  moreover have "mset (ys @ z # zs) = add_mset z (mset ys + mset zs)" for ys zs and z :: 'a by simp
  ultimately have "mset xs = add_mset (xs ! j) (mset (take j xs) + mset (drop (Suc j) xs))" "xs ! i \<in># mset (take j xs) + mset (drop (Suc j) xs)"
    by (metis, simp)
  then show ?thesis by (simp add: add_mset_commute [of "xs ! i"])
qed

section \<open>The first frame of a fiber\<close>

text \<open>\<open>Fiber::with_stack_size\<close> asks for a stack with room for a frame and a little more.\<close>

definition DEFAULT_STACK_SIZE :: nat where
  "DEFAULT_STACK_SIZE = 64 * 1024"

definition fiber_stack_size :: "nat \<Rightarrow> target \<Rightarrow> nat \<Rightarrow> nat option" where
  "fiber_stack_size w t sz = next_multiple_of w (max sz (SAVED_FRAME_BYTES t + 64)) 16"

text \<open>\<open>prepare_initial_stack\<close>, with the \<open>initial_frame\<close> of the target and the stack as a slice.\<close>

definition prepare_initial_stack :: "('w::len word \<Rightarrow> 'w word \<Rightarrow> 'w word \<Rightarrow> 'w memory \<Rightarrow> 'w word \<times> 'w memory) \<Rightarrow>
    'w word \<Rightarrow> 'w word \<Rightarrow> 'w word \<Rightarrow> 'w word \<Rightarrow> 'w memory \<Rightarrow> 'w word \<times> 'w memory" where
  "prepare_initial_stack initial start len state tramp m = initial (and (start + len) (not 15)) state tramp m"

text \<open>The bytes \<open>initial_frame\<close> takes, from the stack pointer it returns to the address it is given.\<close>

fun frame_bytes :: "target \<Rightarrow> nat" where
  "frame_bytes SysV64 = 72"
| "frame_bytes Win64 = 264"
| "frame_bytes AArch64 = 192"
| "frame_bytes I386 = 32"
| "frame_bytes RV64 = 208"

lemma initial_frame_bytes:
  "fst (sysv64_initial_frame hi state f m) = hi - of_nat (frame_bytes SysV64)"
  "fst (win64_initial_frame hi limit state f m) = hi - of_nat (frame_bytes Win64)"
  "fst (a64_initial_frame hi state f m) = hi - of_nat (frame_bytes AArch64)"
  "fst (a64_windows_initial_frame hi limit state f m) = hi - of_nat (frame_bytes AArch64)"
  "fst (rv64_initial_frame hi state f m) = hi - of_nat (frame_bytes RV64)"
  "fst (i386_initial_frame hi' state' f' m') = hi' - of_nat (frame_bytes I386)"
  by (simp_all add: sysv64_initial_frame_def win64_initial_frame_def a64_initial_frame_def
      a64_windows_initial_frame_def rv64_initial_frame_def i386_initial_frame_def Let_def)

lemma unat_align:
  fixes x :: "'w::len word"
  assumes "5 \<le> LENGTH('w)"
  shows "unat (and x (not 15)) = unat x - unat x mod 16"
proof -
  have "bit (15 :: 'w word) n \<longleftrightarrow> n < 4 \<and> n < LENGTH('w)" for n
    using bit_mask_iff [of 4 n, where 'a = "'w word"] by (auto simp: mask_eq_exp_minus_1 possible_bit_word)
  then have "and x (not 15) = and x (not (take_bit 4 x))" by (intro bit_eqI) (auto simp: bit_simps)
  also have "\<dots> = x - take_bit 4 x"
    by (rule disjunctive_diff_eq_and_not [symmetric]) (rule bit_eqI, auto simp: bit_simps)
  finally have eq: "and x (not 15) = x - take_bit 4 x" .
  have t: "unat (take_bit 4 x) = unat x mod 16"
    unfolding unsigned_take_bit_eq by (simp only: take_bit_eq_mod) simp
  have "take_bit 4 x \<le> x" unfolding word_le_nat_alt t by simp
  then show ?thesis unfolding eq t [symmetric] by (rule unat_sub)
qed

lemma frame_fits:
  fixes start len :: "'w::len word"
  assumes "5 \<le> LENGTH('w)" "16 \<le> LENGTH('w)" and fits: "unat start + unat len < 2 ^ LENGTH('w)" and room: "n + 15 \<le> unat len" and n: "n \<le> 300"
  shows "unat start \<le> unat (and (start + len) (not 15) - of_nat n)"
    and "unat (and (start + len) (not 15) - of_nat n) + n \<le> unat start + unat len"
proof -
  have s: "unat (start + len) = unat start + unat len" using fits by (simp add: unat_plus_if')
  have "unat start + unat len - 15 \<le> unat (and (start + len) (not 15))" "unat (and (start + len) (not 15)) \<le> unat start + unat len"
    using unat_align [OF assms(1), of "start + len"] s mod_less_divisor [of 16 "unat (start + len)"] by linarith+
  moreover have "(2::nat) ^ 16 \<le> 2 ^ LENGTH('w)" using assms(2) by (intro power_increasing) simp_all
  then have "unat (of_nat n :: 'w word) = n" using n by (simp add: unat_of_nat take_bit_eq_mod)
  moreover from calculation have "(of_nat n :: 'w word) \<le> and (start + len) (not 15)"
    using room by (simp add: word_le_nat_alt)
  then have "unat (and (start + len) (not 15) - of_nat n) = unat (and (start + len) (not 15)) - unat (of_nat n :: 'w word)"
    by (rule unat_sub)
  ultimately show "unat start \<le> unat (and (start + len) (not 15) - of_nat n)"
    "unat (and (start + len) (not 15) - of_nat n) + n \<le> unat start + unat len"
    using room by linarith+
qed


text \<open>A collector reads a fiber's frame only while the fiber is suspended.\<close>

definition fiber_saved_fp :: "target \<Rightarrow> 'w::len memory \<Rightarrow> 'w word \<Rightarrow> ('v, 'z) fiber_core_scheme \<Rightarrow> 'w word option" where
  "fiber_saved_fp t m sp f = (if state_of f \<noteq> Suspended then None else Some (saved_fp t m sp))"

definition fiber_saved_ret :: "target \<Rightarrow> 'w::len memory \<Rightarrow> 'w word \<Rightarrow> ('v, 'z) fiber_core_scheme \<Rightarrow> 'w word option" where
  "fiber_saved_ret t m sp f = (if state_of f \<noteq> Suspended then None else Some (saved_ret t m sp))"

definition frame_in_stack :: "target \<Rightarrow> ('w::len word \<Rightarrow> 'w word \<Rightarrow> 'w word \<Rightarrow> 'w word \<Rightarrow> 'w memory \<Rightarrow> 'w word \<times> 'w memory) \<Rightarrow> bool" where
  "frame_in_stack t initial \<longleftrightarrow> (\<forall>sz asked start len state f m.
     fiber_stack_size LENGTH('w) t sz = Some asked \<longrightarrow> asked \<le> unat len \<longrightarrow> unat start + unat len < 2 ^ LENGTH('w) \<longrightarrow>
     (let sp = fst (prepare_initial_stack (initial start) start len state f m)
      in unat start \<le> unat sp \<and> unat sp + frame_bytes t \<le> unat start + unat len))"

lemma frame_in_stackI:
  fixes initial :: "'w::len word \<Rightarrow> 'w word \<Rightarrow> 'w word \<Rightarrow> 'w word \<Rightarrow> 'w memory \<Rightarrow> 'w word \<times> 'w memory"
  assumes sp: "\<And>start hi state f m. fst (initial start hi state f m) = hi - of_nat (frame_bytes t)" and w: "16 \<le> LENGTH('w)"
  shows "frame_in_stack t initial"
  unfolding frame_in_stack_def Let_def
proof (intro allI impI)
  fix sz asked and start len state f :: "'w word" and m
  assume "fiber_stack_size LENGTH('w) t sz = Some asked" "asked \<le> unat len" and fits: "unat start + unat len < 2 ^ LENGTH('w)"
  then have "SAVED_FRAME_BYTES t + 64 \<le> unat len"
    using next_multiple_ofD(1) [of "LENGTH('w)" "max sz (SAVED_FRAME_BYTES t + 64)" 16 asked] by (simp add: fiber_stack_size_def)
  moreover have "frame_bytes t + 15 \<le> SAVED_FRAME_BYTES t + 64" "frame_bytes t \<le> 300" by (cases t; simp)+
  ultimately have "frame_bytes t + 15 \<le> unat len" "frame_bytes t \<le> 300" by linarith+
  then show "unat start \<le> unat (fst (prepare_initial_stack (initial start) start len state f m)) \<and>
      unat (fst (prepare_initial_stack (initial start) start len state f m)) + frame_bytes t \<le> unat start + unat len"
    using frame_fits [OF _ w fits] w by (simp add: prepare_initial_stack_def sp)
qed

section \<open>Properties\<close>

text \<open>
  C37: The stacks of a thread never share memory. Whatever a thread allocates and drops, and when its
  cache is gone, the mappings of its live stacks, guard pages included, stay mapped and apart from each
  other and from the cached ones; each stack lies in its mapping above one guard page; the cache
  holds at most 16. The system calls are assumed to give regions apart from those mapped before and
  to unmap nothing else.
\<close>

theorem stacks_stay_apart:
  assumes "system_ok mapped sys" and "\<forall>r\<in>mapped o0. \<forall>q\<in>mapped o0. r \<noteq> q \<longrightarrow> clear_of r q"
    and "stacks_run w sys cs \<lparr>s_live = [], s_pool = Some [], s_os = o0\<rparr> = Some st"
  shows "(\<forall>i j. i < j \<and> j < length (s_live st) \<longrightarrow> clear_of (mapping (s_live st ! i)) (mapping (s_live st ! j))) \<and>
    (\<forall>s\<in>set (s_live st). mapping s \<in> mapped (s_os st) \<and> shaped sys s) \<and>
    (\<forall>ps. s_pool st = Some ps \<longrightarrow> length ps \<le> MAX_PARKED \<and> (\<forall>p\<in>set ps. \<forall>s\<in>set (s_live st). clear_of (mapping p) (mapping s)))"
proof -
  have "stacks_ok mapped sys \<lparr>s_live = [], s_pool = Some [], s_os = o0\<rparr>"
    using assms(2) by (simp add: stacks_ok_def held_stacks_def)
  then have ok: "stacks_ok mapped sys st" using assms(1,3) by (rule run_ok)
  have live: "mset (s_live st) \<subseteq># held_stacks st" by (simp add: held_stacks_def)
  have "clear_of (mapping (s_live st ! i)) (mapping (s_live st ! j))" if "i < j" "j < length (s_live st)" for i j
    by (rule held_apart(1) [OF ok subset_mset.trans [OF two_of_list [OF that] live]])
  moreover have "mapping s \<in> mapped (s_os st) \<and> shaped sys s" if "s \<in> set (s_live st)" for s
  proof
    have s: "s \<in># held_stacks st" using that by (simp add: held_stacks_def)
    then have "mapping s \<in># image_mset mapping (held_stacks st)" by simp
    then have "count (image_mset mapping (held_stacks st)) (mapping s) \<noteq> 0" by (simp only: count_eq_zero_iff) simp
    then show "mapping s \<in> mapped (s_os st)" using stacks_okD(1) [OF ok, of "mapping s"] by (metis le_zero_eq)
    show "shaped sys s" by (rule stacks_okD(2) [OF ok s])
  qed
  moreover have "clear_of (mapping p) (mapping s)" if "s_pool st = Some ps" "p \<in> set ps" "s \<in> set (s_live st)" for ps p s
  proof -
    have "{#p#} + {#s#} \<subseteq># mset ps + mset (s_live st)" using that by (intro subset_mset.add_mono) simp_all
    moreover have "{#p, s#} = {#p#} + {#s#}" by (simp add: add_mset_commute)
    ultimately have "{#p, s#} \<subseteq># held_stacks st" using that(1) by (simp only: held_stacks_def option.case add.commute)
    then show ?thesis by (rule held_apart(1) [OF ok])
  qed
  ultimately show ?thesis using ok by (auto simp: stacks_ok_def)
qed

text \<open>
  C38: A fiber's first frame lies in its stack. The size \<open>Fiber::with_stack_size\<close> asks for, whatever the
  caller's, leaves room on every target: the bytes that \<open>initial_frame\<close> fills, from the saved stack pointer
  up, lie in the stack's slice even after its end is rounded down to 16 bytes.
\<close>

theorem first_frame_in_stack:
  "frame_in_stack SysV64 (\<lambda>_. sysv64_initial_frame) \<and> frame_in_stack Win64 (\<lambda>lo hi. win64_initial_frame hi lo) \<and>
   frame_in_stack AArch64 (\<lambda>_. a64_initial_frame) \<and> frame_in_stack AArch64 (\<lambda>lo hi. a64_windows_initial_frame hi lo) \<and>
   frame_in_stack RV64 (\<lambda>_. rv64_initial_frame) \<and>
   frame_in_stack I386 (\<lambda>_. i386_initial_frame)"
  by (intro conjI frame_in_stackI) (simp_all add: initial_frame_bytes)

section \<open>Witnesses\<close>

text \<open>System calls that hand out ever higher addresses and reuse none.\<close>

definition bump :: "(nat \<times> (nat \<times> nat) set) system" where
  "bump = \<lparr>page_size = 4096, mmap = (\<lambda>(next, rs) n. Some (next, next + n, insert (next, n) {r \<in> rs. fst r + snd r \<le> next})),
     mprotect = (\<lambda>os b n. Some os), munmap = (\<lambda>(next, rs) b n. (next, rs - {(b, n)}))\<rparr>"

theorem stacks_stay_apart_witness:
  "\<exists>st. stacks_run 64 bump [NewStack 100, NewStack 70000, DropStack 0, NewStack 4096] \<lparr>s_live = [], s_pool = Some [], s_os = (0, {})\<rparr> = Some st \<and>
     clear_of (mapping (s_live st ! 0)) (mapping (s_live st ! 1)) \<and> s_pool st = Some []"
proof -
  have "\<exists>st. stacks_run 64 bump [NewStack 100, NewStack 70000, DropStack 0, NewStack 4096] \<lparr>s_live = [], s_pool = Some [], s_os = (0, {})\<rparr> = Some st \<and>
      length (s_live st) = 2 \<and> s_pool st = Some []"
    by (simp add: stack_new_def stack_drop_def usable_size_def div_ceil_def checked_def cache_take_def cache_park_def mmap_stack_def
        bump_def get_nth_def swap_remove_def MAX_PARKED_def)
  then obtain st where st: "stacks_run 64 bump [NewStack 100, NewStack 70000, DropStack 0, NewStack 4096]
      \<lparr>s_live = [], s_pool = Some [], s_os = (0, {})\<rparr> = Some st" "length (s_live st) = 2" "s_pool st = Some []" by blast
  have sys: "system_ok (\<lambda>os. {r \<in> snd os. fst r + snd r \<le> fst os}) bump"
    by (auto simp: system_ok_def bump_def clear_of_def)
  have "clear_of (mapping (s_live st ! 0)) (mapping (s_live st ! 1))"
    using stacks_stay_apart [OF sys _ st(1), THEN conjunct1, THEN spec, THEN spec, of 0 1] st(2) by simp
  then show ?thesis using st(1,3) by blast
qed

end
