(* ===== verification/Krio_Preempt.thy ===== *)
theory Krio_Preempt
  imports Krio_Fiber Krio_Runtime
begin

text \<open>
  \<open>crates/krio-preempt/src/lib.rs\<close>: the time-slicing scheduler over fibers, and the process-wide hooks of
  \<open>crates/krio-fiber/src/fiber.rs\<close> it reads the time through. A fiber is what it records, in a record type
  that may hold more (\<open>'z\<close>); \<open>Task::step\<close> of a fiber is a parameter, a step of the kind that
  \<open>Krio_Fiber_Task\<close> defines. The scheduler passes fibers by value; that the vector moves them is
  \<open>Krio_Fiber_Moves\<close>.
\<close>

section \<open>The hooks\<close>

record 'w fiber_hooks =
  clock_hook :: "('w \<Rightarrow> f64 \<times> 'w) option"
  suspender :: "('w \<Rightarrow> 'w) option"

definition no_hooks :: "'w fiber_hooks" where
  "no_hooks = \<lparr>clock_hook = None, suspender = None\<rparr>"

definition set_clock :: "('w \<Rightarrow> f64 \<times> 'w) \<Rightarrow> 'w fiber_hooks \<Rightarrow> 'w fiber_hooks" where
  "set_clock c h = h\<lparr>clock_hook := Some c\<rparr>"

text \<open>
  \<open>SystemTime::now().duration_since(UNIX_EPOCH)\<close> in milliseconds, or no time when the clock is before
  the epoch; on \<open>wasm32-unknown-unknown\<close> there is no clock and the reading is frozen.
\<close>

definition default_now_ms :: "bool \<Rightarrow> ('w \<Rightarrow> f64 option \<times> 'w) \<Rightarrow> 'w \<Rightarrow> f64 \<times> 'w" where
  "default_now_ms wasm since_epoch w = (if wasm then (Fin 0, w)
     else (case since_epoch w of (Some t, w) \<Rightarrow> (t, w) | (None, w) \<Rightarrow> (Fin 0, w)))"

definition now_ms :: "bool \<Rightarrow> ('w \<Rightarrow> f64 option \<times> 'w) \<Rightarrow> 'w fiber_hooks \<Rightarrow> 'w \<Rightarrow> f64 \<times> 'w" where
  "now_ms wasm since_epoch h w = (case clock_hook h of Some c \<Rightarrow> c w | None \<Rightarrow> default_now_ms wasm since_epoch w)"

text \<open>On a target without a context switch \<open>yield_now\<close> calls the host, and panics without one.\<close>

definition set_suspender :: "('w \<Rightarrow> 'w) \<Rightarrow> 'w fiber_hooks \<Rightarrow> 'w fiber_hooks" where
  "set_suspender f h = h\<lparr>suspender := Some f\<rparr>"

definition has_suspender :: "'w fiber_hooks \<Rightarrow> bool" where
  "has_suspender h = (suspender h \<noteq> None)"

definition hosted_yield_now :: "'w fiber_hooks \<Rightarrow> 'w \<Rightarrow> 'w option" where
  "hosted_yield_now h w = (case suspender h of None \<Rightarrow> None | Some f \<Rightarrow> Some (f w))"

lemma hosted_yield_panics_iff: "hosted_yield_now h w = None \<longleftrightarrow> \<not> has_suspender h"
  by (simp add: hosted_yield_now_def has_suspender_def split: option.split)

section \<open>The scheduler\<close>

text \<open>The sum of \<open>f64\<close> values, with the rounding as a parameter.\<close>

fun f64_add :: "(real \<Rightarrow> f64) \<Rightarrow> f64 \<Rightarrow> f64 \<Rightarrow> f64" where
  "f64_add rnd NaN y = NaN"
| "f64_add rnd x NaN = NaN"
| "f64_add rnd (Fin x) (Fin y) = rnd (x + y)"
| "f64_add rnd PosInf NegInf = NaN"
| "f64_add rnd NegInf PosInf = NaN"
| "f64_add rnd PosInf y = PosInf"
| "f64_add rnd NegInf y = NegInf"
| "f64_add rnd x y = y"

text \<open>The slice is kept in milliseconds, as \<open>tick\<close> uses it.\<close>

record 'f time_slice =
  ts_fibers :: "'f list"
  ts_slice :: f64

definition ts_new :: "f64 \<Rightarrow> 'f time_slice" where
  "ts_new sl = \<lparr>ts_fibers = [], ts_slice = sl\<rparr>"

definition ts_spawn :: "'f \<Rightarrow> 'f time_slice \<Rightarrow> 'f time_slice" where
  "ts_spawn f s = s\<lparr>ts_fibers := ts_fibers s @ [f]\<rparr>"

definition fiber_count :: "'f time_slice \<Rightarrow> nat" where
  "fiber_count s = length (ts_fibers s)"

text \<open>The loop of \<open>tick\<close>: the fibers afterwards, the positions to remove, and the world.\<close>

fun ts_resume_from :: "(('v, 'z) fiber_core_scheme, 'w) task_step \<Rightarrow> ('w \<Rightarrow> f64 \<times> 'w) \<Rightarrow> (real \<Rightarrow> f64) \<Rightarrow> f64 \<Rightarrow> nat \<Rightarrow>
    ('v, 'z) fiber_core_scheme list \<Rightarrow> 'w \<Rightarrow> (('v, 'z) fiber_core_scheme list \<times> nat list \<times> 'w) option" where
  "ts_resume_from step now rnd sl i [] w = Some ([], [], w)"
| "ts_resume_from step now rnd sl i (f # fs) w =
     (if f_done f then do {
        (fs, rm, w) \<leftarrow> ts_resume_from step now rnd sl (Suc i) fs w;
        Some (f # fs, i # rm, w) }
      else do {
        let (t, w) = now w;
        let deadline = f64_add rnd t sl;
        let f = f\<lparr>f_deadline := Some deadline\<rparr>;
        (s, f, w) \<leftarrow> step f w;
        if s = Completed then do {
          (fs, rm, w) \<leftarrow> ts_resume_from step now rnd sl (Suc i) fs w;
          Some (f # fs, i # rm, w) }
        else do {
          (fs, rm, w) \<leftarrow> ts_resume_from step now rnd sl (Suc i) fs w;
          Some (f\<lparr>f_deadline := None\<rparr> # fs, rm, w) } })"

definition ts_tick :: "(('v, 'z) fiber_core_scheme, 'w) task_step \<Rightarrow> ('w \<Rightarrow> f64 \<times> 'w) \<Rightarrow> (real \<Rightarrow> f64) \<Rightarrow>
    ('v, 'z) fiber_core_scheme time_slice \<Rightarrow> 'w \<Rightarrow> (bool \<times> ('v, 'z) fiber_core_scheme time_slice \<times> 'w) option" where
  "ts_tick step now rnd s w =
     (if ts_fibers s = [] then Some (False, s, w)
      else do {
        (fs, rm, w) \<leftarrow> ts_resume_from step now rnd (ts_slice s) 0 (ts_fibers s) w;
        fs \<leftarrow> swap_remove_all (rev rm) fs;
        Some (fs \<noteq> [], s\<lparr>ts_fibers := fs\<rparr>, w) })"

text \<open>The outer \<open>None\<close> is a loop that does not end, the inner one a panic.\<close>

partial_function (option) ts_run_from :: "(('v, 'z) fiber_core_scheme, 'w) task_step \<Rightarrow> ('w \<Rightarrow> f64 \<times> 'w) \<Rightarrow> (real \<Rightarrow> f64) \<Rightarrow>
    nat \<Rightarrow> ('v, 'z) fiber_core_scheme time_slice \<Rightarrow> 'w \<Rightarrow> (nat \<times> ('v, 'z) fiber_core_scheme time_slice \<times> 'w) option option" where
  "ts_run_from step now rnd rounds s w =
     (case ts_tick step now rnd s w of
        None \<Rightarrow> Some None
      | Some (alive, s', w') \<Rightarrow> if alive then ts_run_from step now rnd (rounds + 1) s' w' else Some (Some (rounds, s', w')))"

definition ts_run_to_completion :: "(('v, 'z) fiber_core_scheme, 'w) task_step \<Rightarrow> ('w \<Rightarrow> f64 \<times> 'w) \<Rightarrow> (real \<Rightarrow> f64) \<Rightarrow>
    ('v, 'z) fiber_core_scheme time_slice \<Rightarrow> 'w \<Rightarrow> (nat \<times> ('v, 'z) fiber_core_scheme time_slice \<times> 'w) option option" where
  "ts_run_to_completion step now rnd = ts_run_from step now rnd 0"

section \<open>Slices\<close>

text \<open>
  One slice of a fiber, as a task step: a fiber that is done is not resumed; another one is resumed
  with its deadline a slice from now, and loses the deadline if it yields.
\<close>

definition slice_step :: "(('v, 'z) fiber_core_scheme, 'w) task_step \<Rightarrow> ('w \<Rightarrow> f64 \<times> 'w) \<Rightarrow> (real \<Rightarrow> f64) \<Rightarrow> f64 \<Rightarrow>
    (('v, 'z) fiber_core_scheme, 'w) task_step" where
  "slice_step step now rnd sl f w =
     (if f_done f then Some (Completed, f, w)
      else case step (f\<lparr>f_deadline := Some (f64_add rnd (fst (now w)) sl)\<rparr>) (snd (now w)) of
        None \<Rightarrow> None
      | Some (s, f, w) \<Rightarrow> Some (s, if s = Completed then f else f\<lparr>f_deadline := None\<rparr>, w))"

lemma ts_resume_eq:
  "ts_resume_from step now rnd sl i fs w = rr_step_from (slice_step step now rnd sl) i fs w"
proof (induction fs arbitrary: i w)
  case (Cons f fs)
  obtain t w1 where now: "now w = (t, w1)" by fastforce
  show ?case
  proof (cases "step (f\<lparr>f_deadline := Some (f64_add rnd t sl)\<rparr>) w1")
    case None
    then show ?thesis by (simp add: slice_step_def now Cons.IH)
  next
    case (Some r)
    then obtain s g w2 where "step (f\<lparr>f_deadline := Some (f64_add rnd t sl)\<rparr>) w1 = Some (s, g, w2)" by (cases r) auto
    then show ?thesis by (simp add: slice_step_def now Cons.IH)
  qed
qed simp

lemma ts_tick_eq:
  "ts_tick step now rnd s w = map_option (\<lambda>(alive, r, w). (alive, s\<lparr>ts_fibers := rr_tasks r\<rparr>, w))
    (rr_tick (slice_step step now rnd (ts_slice s)) \<lparr>rr_tasks = ts_fibers s\<rparr> w)"
proof (cases "rr_step_from (slice_step step now rnd (ts_slice s)) 0 (ts_fibers s) w")
  case None
  then show ?thesis by (simp add: ts_tick_def rr_tick_def ts_resume_eq)
next
  case (Some r)
  then obtain fs rm w1 where r: "rr_step_from (slice_step step now rnd (ts_slice s)) 0 (ts_fibers s) w = Some (fs, rm, w1)" by (cases r) auto
  then show ?thesis by (cases "swap_remove_all (rev rm) fs") (simp_all add: ts_tick_def rr_tick_def ts_resume_eq)
qed

lemma slices_clear_deadlines:
  "step_each (slice_step step now rnd sl) fs w = Some (rs, w') \<Longrightarrow> list_all (\<lambda>f. f_deadline f = None) (survivors rs)"
proof (induction fs arbitrary: w rs w')
  case (Cons f fs)
  then obtain s g w1 rs1 where c: "slice_step step now rnd sl f w = Some (s, g, w1)" "rs = (s, g) # rs1"
    "step_each (slice_step step now rnd sl) fs w1 = Some (rs1, w')" by auto
  have "s \<noteq> Completed \<Longrightarrow> f_deadline g = None" using c(1) by (auto simp: slice_step_def split: if_splits option.splits)
  then show ?case using Cons.IH [OF c(3)] c(2) by (simp add: survivors_def)
qed (simp add: survivors_def)

section \<open>Properties\<close>

text \<open>
  C39: Time slicing. One tick gives every fiber one slice, in vector order: a fiber that is done is not
  resumed, which would panic; any other is resumed once, with a deadline a slice after the clock's
  reading just before. Afterwards the scheduler holds, as a multiset, exactly the fibers that yielded,
  their deadlines cleared, and the flag says whether there is one. A tick panics exactly when a resume does.
\<close>

theorem time_slice_tick:
  "case step_each (slice_step step now rnd (ts_slice s)) (ts_fibers s) w of
     None \<Rightarrow> ts_tick step now rnd s w = None
   | Some (rs, w') \<Rightarrow> \<exists>s'. ts_tick step now rnd s w = Some (survivors rs \<noteq> [], s', w') \<and> ts_slice s' = ts_slice s \<and>
       mset (ts_fibers s') = mset (survivors rs) \<and> list_all (\<lambda>f. f_deadline f = None) (ts_fibers s')"
proof (cases "step_each (slice_step step now rnd (ts_slice s)) (ts_fibers s) w")
  case None
  with rr_tick_step_each [of "slice_step step now rnd (ts_slice s)" "\<lparr>rr_tasks = ts_fibers s\<rparr>" w] show ?thesis
    by (simp add: ts_tick_eq)
next
  case (Some r)
  then obtain rs w' where r: "step_each (slice_step step now rnd (ts_slice s)) (ts_fibers s) w = Some (rs, w')" by (cases r) auto
  with rr_tick_step_each [of "slice_step step now rnd (ts_slice s)" "\<lparr>rr_tasks = ts_fibers s\<rparr>" w] obtain q where
    q: "rr_tick (slice_step step now rnd (ts_slice s)) \<lparr>rr_tasks = ts_fibers s\<rparr> w = Some (survivors rs \<noteq> [], q, w')"
      "mset (rr_tasks q) = mset (survivors rs)" by auto
  have "set (rr_tasks q) = set (survivors rs)" using q(2) by (metis set_mset_mset)
  then have "list_all (\<lambda>f. f_deadline f = None) (rr_tasks q)" using slices_clear_deadlines [OF r] by (simp add: list_all_iff)
  with r q show ?thesis by (simp add: ts_tick_eq)
qed

text \<open>
  \<open>run_to_completion\<close> does not count its last round: a scheduler whose fibers all end in their first
  slice reports none.
\<close>

lemma last_round_not_counted:
  assumes "ts_tick step now rnd s w = Some (False, s', w')"
  shows "ts_run_to_completion step now rnd s w = Some (Some (0, s', w'))"
  by (simp add: ts_run_to_completion_def ts_run_from.simps [of step now rnd 0 s w] assms)

end
