(* ===== verification/Krio_Wasm.thy ===== *)
theory Krio_Wasm
  imports Krio_Preempt
begin

text \<open>
  \<open>crates/krio-wasm\<close>: the clock in shared memory (\<open>clock.rs\<close>), the hook that starts agents (\<open>agent.rs\<close>), the
  parking backend (\<open>park.rs\<close>) and what a build supports (\<open>lib.rs\<close>). The wait and notify instructions are
  the machine's; the model records what they are given.
\<close>

section \<open>The epoch clock\<close>

definition EPOCH_MS_init :: u64 where
  "EPOCH_MS_init = 0"

definition epoch_ms :: "u64 \<Rightarrow> u64" where
  "epoch_ms e = e"

text \<open>\<open>as f64\<close>, with the rounding as a parameter.\<close>

definition epoch_now_ms :: "(real \<Rightarrow> real) \<Rightarrow> u64 \<Rightarrow> f64" where
  "epoch_now_ms rnd e = Fin (rnd (real (unat (epoch_ms e))))"

text \<open>Each operation is one atomic access: what it returns, and the epoch afterwards.\<close>

definition publish_epoch_ms :: "u64 \<Rightarrow> u64 \<Rightarrow> u64 \<times> u64" where
  "publish_epoch_ms ms e = (let previous = e; e = max e ms in (max previous ms, e))"

text \<open>The sum that is returned is checked in debug builds (\<open>None\<close>); the one that is stored wraps.\<close>

definition advance_epoch_ms :: "u64 \<Rightarrow> u64 \<Rightarrow> u64 option \<times> u64" where
  "advance_epoch_ms delta e = (if unat e + unat delta < 2 ^ 64 then Some (e + delta) else None, e + delta)"

definition install_fiber_clock :: "(real \<Rightarrow> real) \<Rightarrow> u64 fiber_hooks \<Rightarrow> u64 fiber_hooks" where
  "install_fiber_clock rnd h = set_clock (\<lambda>e. (epoch_now_ms rnd e, e)) h"

datatype tick_op = Publish u64 | Advance u64

text \<open>The tickers' operations in the order of the epoch's modifications; \<open>None\<close> when a sum overflows.\<close>

fun epoch_run :: "tick_op list \<Rightarrow> u64 \<Rightarrow> u64 option" where
  "epoch_run [] e = Some e"
| "epoch_run (Publish ms # ts) e = epoch_run ts (snd (publish_epoch_ms ms e))"
| "epoch_run (Advance delta # ts) e = (case advance_epoch_ms delta e of (Some r, e) \<Rightarrow> epoch_run ts e | (None, e) \<Rightarrow> None)"

lemma publish_returns: "fst (publish_epoch_ms ms e) = snd (publish_epoch_ms ms e)"
  by (simp add: publish_epoch_ms_def Let_def)

lemma advance_returns: "fst (advance_epoch_ms delta e) = Some r \<Longrightarrow> r = snd (advance_epoch_ms delta e) \<and> e \<le> r"
  by (auto simp: advance_epoch_ms_def word_le_nat_alt unat_word_ariths split: if_splits)

lemma epoch_run_mono: "epoch_run ts e = Some e' \<Longrightarrow> e \<le> e'"
proof (induction ts e rule: epoch_run.induct)
  case (2 ms ts e)
  then show ?case by (auto simp: publish_epoch_ms_def Let_def intro: order_trans [OF max.cobounded1])
next
  case (3 delta ts e)
  then show ?case using advance_returns [of delta e]
    by (auto simp: advance_epoch_ms_def split: if_splits intro: order_trans)
qed simp

text \<open>Past the last millisecond \<open>advance_epoch_ms\<close> sets the clock back, in debug builds too.\<close>

lemma advance_sets_clock_back: "advance_epoch_ms 1 (- 1) = (None, 0)"
proof -
  have "unat (- 1 :: u64) = 2 ^ 64 - 1" by (simp add: unsigned_minus_1_eq_mask mask_eq_exp_minus_1)
  then show ?thesis by (simp add: advance_epoch_ms_def)
qed

section \<open>Starting agents\<close>

datatype spawn_error = NoHost | Refused

type_synonym 'h spawn_hook = "(agent_id \<Rightarrow> 'h \<Rightarrow> (spawn_error + unit) \<times> 'h) option"

definition set_spawn :: "(agent_id \<Rightarrow> 'h \<Rightarrow> (spawn_error + unit) \<times> 'h) \<Rightarrow> 'h spawn_hook \<Rightarrow> 'h spawn_hook" where
  "set_spawn f hook = Some f"

definition spawn_agent :: "'h spawn_hook \<Rightarrow> agent_id \<Rightarrow> 'h \<Rightarrow> (spawn_error + unit) \<times> 'h" where
  "spawn_agent hook agent h = (case hook of None \<Rightarrow> (Inl NoHost, h) | Some f \<Rightarrow> f agent h)"

definition can_spawn :: "'h spawn_hook \<Rightarrow> bool" where
  "can_spawn hook = (hook \<noteq> None)"

section \<open>Parking\<close>

record wasm_park =
  timeout_ns :: "64 word"

definition wasm_park_new :: wasm_park where
  "wasm_park_new = \<lparr>timeout_ns = - 1\<rparr>"

definition with_timeout_ms :: "u32 \<Rightarrow> wasm_park" where
  "with_timeout_ms ms = \<lparr>timeout_ns = ucast ms * 1000000\<rparr>"

text \<open>The arguments of \<open>memory_atomic_wait32\<close> and \<open>memory_atomic_notify\<close>.\<close>

datatype wasm_call = AtomicWait32 nat "32 word" "64 word" | AtomicNotify nat u32

definition wasm_park_park :: "wasm_park \<Rightarrow> nat \<Rightarrow> u32 \<Rightarrow> wasm_call" where
  "wasm_park_park p slot expected = AtomicWait32 slot expected (timeout_ns p)"

definition wasm_unpark :: "wasm_park \<Rightarrow> nat \<Rightarrow> wasm_call" where
  "wasm_unpark p slot = AtomicNotify slot 1"

definition wasm_unpark_all :: "wasm_park \<Rightarrow> nat \<Rightarrow> wasm_call" where
  "wasm_unpark_all p slot = AtomicNotify slot (- 1)"

text \<open>The product does not overflow: a timeout is never the negative number that means none.\<close>

lemma timeouts_finite:
  "sint (timeout_ns (with_timeout_ms ms)) = uint ms * 1000000" "sint (timeout_ns wasm_park_new) = - 1"
proof -
  have "uint ms < 2 ^ 32" "0 \<le> uint ms" using unsigned_less [of ms, where 'a = int] by simp_all
  then have hi: "uint ms * 1000000 < 2 ^ (LENGTH(64) - 1)" by simp
  have "- (2 ^ (LENGTH(64) - 1)) \<le> (0 :: int)" by simp
  also have "0 \<le> uint ms * 1000000" by simp
  finally have "sint (of_int (uint ms * 1000000) :: 64 word) = uint ms * 1000000"
    using hi by (rule sint_of_int_small)
  moreover have "timeout_ns (with_timeout_ms ms) = of_int (uint ms * 1000000)"
    by (simp add: with_timeout_ms_def)
  ultimately show "sint (timeout_ns (with_timeout_ms ms)) = uint ms * 1000000" by simp
qed (simp add: wasm_park_new_def)

section \<open>What a build supports\<close>

record cluster_support_info =
  cs_wasm :: bool
  cs_atomics :: bool

definition cluster_support :: "bool \<Rightarrow> bool \<Rightarrow> cluster_support_info option" where
  "cluster_support wasm32 atomics = (let support = \<lparr>cs_wasm = wasm32, cs_atomics = atomics\<rparr>
     in if cs_atomics support then Some support else None)"

section \<open>Properties\<close>

text \<open>
  C40: The shared clock does not run backwards. However many tickers publish readings, late ones too,
  and advance the epoch, in whatever order their accesses take effect, the epoch only grows as long as no
  sum overflows, reaches every reading that was published, and a fiber deadline that has passed by it
  stays passed, whatever the rounding to \<open>f64\<close>, if it is monotone.
\<close>

theorem epoch_never_runs_backwards:
  assumes "epoch_run ts e = Some e'" and "mono rnd"
  shows "e \<le> e' \<and> (\<forall>ms. Publish ms \<in> set ts \<longrightarrow> ms \<le> e') \<and>
    (deadline_passed (epoch_now_ms rnd e) f \<longrightarrow> deadline_passed (epoch_now_ms rnd e') f)"
proof (intro conjI allI impI)
  show le: "e \<le> e'" by (rule epoch_run_mono [OF assms(1)])
  show "ms \<le> e'" if "Publish ms \<in> set ts" for ms
    using assms(1) that
  proof (induction ts e rule: epoch_run.induct)
    case (2 ms' ts e)
    then show ?case using epoch_run_mono [of ts "max e ms'" e']
      by (auto simp: publish_epoch_ms_def Let_def)
  next
    case (3 delta ts e)
    then show ?case by (auto simp: advance_epoch_ms_def split: if_splits)
  qed simp
  have "rnd (real (unat e)) \<le> rnd (real (unat e'))"
    using le by (intro monoD [OF assms(2)]) (simp only: word_le_nat_alt of_nat_le_iff)
  moreover assume "deadline_passed (epoch_now_ms rnd e) f"
  ultimately show "deadline_passed (epoch_now_ms rnd e') f"
    by (cases "f_deadline f"; cases "the (f_deadline f)") (auto simp: deadline_passed_def epoch_now_ms_def epoch_ms_def)
qed

theorem epoch_never_runs_backwards_witness:
  "epoch_run [Publish 40, Advance 5, Publish 20] 0 = Some 45 \<and>
    deadline_passed (epoch_now_ms (\<lambda>x. x) 45) ((core_new 1 :: nat fiber_core)\<lparr>f_deadline := Some (Fin 0)\<rparr>)"
proof -
  have r: "epoch_run [Publish 40, Advance 5, Publish 20] 0 = Some 45"
    by (simp add: publish_epoch_ms_def advance_epoch_ms_def Let_def)
  have "mono (\<lambda>x :: real. x)" by (simp add: mono_def)
  from epoch_never_runs_backwards [OF r this, of "(core_new 1 :: nat fiber_core)\<lparr>f_deadline := Some (Fin 0)\<rparr>"] r show ?thesis
    by (simp add: deadline_passed_def epoch_now_ms_def epoch_ms_def)
qed

end
