(* ===== verification/Spec2Isabelle.thy ===== *)
theory Spec2Isabelle
  imports Krio_Cluster Krio_Deque_Conc Krio_Run Krio_Async Krio_Schedule Krio_Coroutine Krio_Fiber_Moves Krio_Fiber_Types
    Krio_Fiber_Task Krio_Stack Krio_Preempt Krio_Wasm
begin

text \<open>
  Verification development of the krio coroutine family: the crates under \<open>crates/\<close>, each of them an
  execution model of its own over the vocabulary of \<open>krio-core\<close>. All machine integers that can wrap or overflow are
  words of their width (of any width where the code is generic over targets); a panic is \<open>None\<close>; effects are passed
  explicitly; what the host supplies (task bodies, user code, clocks, parking backends, graph adapters, system calls)
  is an argument.

  \<^bold>\<open>Vocabulary and sequential scheduling.\<close>
  \<^item> \<open>Krio_Prelude\<close>: integers of the crates, \<open>Vec::swap_remove\<close>, \<open>next_power_of_two\<close>, the lemmas the components share.
  \<^item> \<open>Krio_Core\<close> (\<open>krio-core\<close>): \<open>Suspension\<close>, \<open>Marker\<close>, \<open>TaskId\<close>; a task is a state with its \<open>Task::step\<close>. The
    locale \<open>shared_tasks\<close> is the contract of tasks that share a world: a live task steps, lowers its rank or
    completes, and leaves the others alone.
  \<^item> \<open>Krio_Runtime\<close> (\<open>krio-runtime\<close>): \<open>RoundRobin\<close>. One tick steps every task once and keeps exactly the others than the
    completed; under the contract of \<open>shared_tasks\<close> \<open>run_to_completion\<close>, a partial function, is defined and leaves
    no task.

  \<^bold>\<open>Parallel scheduling\<close> (\<open>krio-parallel\<close>). Agents own deques, overflow goes to an injector, tasks that wait are in a map,
  and a barrier word stops the world.
  \<^item> \<open>Krio_Deque\<close> (\<open>deque.rs\<close>): each operation as a whole refines a bounded list, for every index width; locale
    \<open>work_deque\<close>, interpreted on the ring buffer. \<open>Krio_Deque_Conc\<close>: the same operations one atomic access a step, one
    owner and any number of thieves; every step acts on the list of live values as the sequential operation does, and
    a thief that sleeps once round the index space breaks this.
  \<^item> \<open>Krio_Lock\<close>, \<open>Krio_Injector\<close>, \<open>Krio_Parked\<close> (\<open>injector.rs\<close>, \<open>parked.rs\<close>): the spin lock over any guarded object
    (locale \<open>guarded_object\<close>), interpreted on the queue, whose callers get the answers of a first-in-first-out queue,
    and on the map of parked tasks, which loses no wake.
  \<^item> \<open>Krio_Park\<close> (\<open>park.rs\<close>): the values of a parking slot and the bounded spin.
  \<^item> \<open>Krio_Safepoint\<close> (\<open>safepoint.rs\<close> and its callers in \<open>lib.rs\<close>): the barrier access by access. While the agents'
    own \<open>stop_the_world\<close> is the only source of stops a collection excludes all steps; a shutdown, a late arrival and
    two stops in turn each break a guarantee.
  \<^item> \<open>Krio_Cluster\<close> (\<open>lib.rs\<close>, \<open>observer.rs\<close>): the cluster, its operations run one after the other. What \<open>next_job\<close>,
    \<open>settle\<close>, \<open>wake\<close> do with jobs, that a worker's pass ends and finishes the work, and that a main agent's pass keeps
    its budget; \<open>drive_loop\<close> is a partial function and the two passes are proved to return.
  \<^item> \<open>Krio_Run\<close>: \<open>Cluster::run\<close> with \<open>notify_one\<close>, \<open>stop_the_world\<close> and \<open>shutdown\<close>, one access to a parking slot a step,
    queues as numbers of jobs. No submission is slept through; a stop can be.

  \<^bold>\<open>Stackless transforms\<close> (\<open>krio-stackless\<close>). A host's control-flow graph is a record of functions, one per method of the
  trait \<open>CoroCfg\<close>.
  \<^item> \<open>Krio_Cfg\<close> (\<open>cfg.rs\<close>, \<open>tests/toy_adapter.rs\<close>): the traits, the locale \<open>split_cfg\<close> of what the transforms rely on,
    and the repository's own adapter, the toy body, on which it is interpreted.
  \<^item> \<open>Krio_Stackless\<close> (\<open>lib.rs\<close>): discovery of regions and suspension points, exact on every graph; the state machines.
  \<^item> \<open>Krio_Executor\<close> (\<open>executor.rs\<close>): the cooperative, priority and one-shot executors, and how the priority loop groups
    coroutines into bands.
  \<^item> \<open>Krio_Lowering\<close>: what the emitted machines do. The adapter of the tests records a graph and has no engine that runs
    it; the execution semantics \<open>toy_run\<close> is this development's own, and what is said of runs is relative to it. A
    lowered coroutine with at most one point in a block and no guarded receive follows the original; a guarded
    receive, under the documented contract of the host's peek (\<open>peeks\<close>), waits at its guard; a second point in a block
    panics.
  \<^item> \<open>Krio_Chain\<close>, \<open>Krio_Schedule\<close>: what the emitted executors do under the same semantics, over machines whose code does
    what a function on states says (\<open>polls\<close>): the cooperative loop runs passes, and where it misses a deadlock; the
    one-shot poll.

  \<^bold>\<open>Cross-function transform\<close> (\<open>krio-async\<close>). \<open>Krio_Async\<close> (\<open>lib.rs\<close>, \<open>validate.rs\<close>): the transform keeps the statements of
  every block over the polls, numbers states, gives every live value a slot, saves and loads exactly what is live, and
  its layouts are those \<open>validate_layout\<close> accepts. The general lemmas are in \<open>split_cfg\<close>.

  \<^bold>\<open>Context switch\<close> (\<open>krio-fiber\<close>: \<open>arch.rs\<close>, \<open>frame.rs\<close>, \<open>raw.rs\<close>).
  \<^item> \<open>Krio_Memory\<close>: bytes at machine addresses. \<open>Krio_Switch\<close>: the locales \<open>context_switch\<close> and, extending it,
    \<open>fresh_context\<close>, the contract of \<open>krio_fiber_switch\<close> and of a frame laid out for a first switch.
  \<^item> \<open>Krio_X86\<close> with \<open>Krio_Sysv64\<close>, \<open>Krio_Win64\<close>, \<open>Krio_I386\<close>; \<open>Krio_Rv64\<close>; \<open>Krio_A64\<close> with \<open>Krio_A64_Windows\<close>: the assembly of
    the six targets instruction by instruction, each an interpretation of both locales. \<open>Krio_Context\<close> states what holds
    on all six.

  \<^bold>\<open>Fibers\<close> (\<open>fiber.rs\<close>, \<open>stack.rs\<close>).
  \<^item> \<open>Krio_Fiber\<close>: fibers, trampoline states and thread locals as addresses of a thread, user code as a function from
    program points to calls. \<open>Krio_Coroutine\<close>: it refines coroutines without pointers, in at most three steps a call.
    \<open>Krio_Fiber_Types\<close>: the untyped slots are used at their types. \<open>Krio_Fiber_Moves\<close>: what goes wrong when a fiber moves
    while it waits in a yield of values. \<open>Krio_Fiber_Task\<close>: fibers of one thread as tasks of \<open>RoundRobin\<close>, an
    interpretation of \<open>shared_tasks\<close>; a step (\<open>until_back\<close>) is partial, since a fiber may never give control back.
  \<^item> \<open>Krio_Stack\<close>: stacks, the per-thread cache, and the place of the first frame; the system calls are a parameter with
    the documented behaviour of \<open>mmap\<close>.

  \<^bold>\<open>Time slices and wasm.\<close> \<open>Krio_Preempt\<close> (\<open>krio-preempt\<close>, and the clock and suspender hooks of \<open>fiber.rs\<close>): one tick of
  the scheduler, and its partial loop \<open>ts_run_from\<close>; the rounding of sums of floats is a parameter. \<open>Krio_Wasm\<close>
  (\<open>krio-wasm\<close>): the shared epoch, the spawn hook, the arguments of the wait instructions.

  \<^bold>\<open>Loops and bounds.\<close> Loops that need not end are \<open>partial_function (option)\<close>; where the code promises that they end, that
  is a theorem. There is no fuel in a model of code; the numbers of steps in runs of the toy body and of threads are
  existentially quantified. The rotor of \<open>next_job\<close> and the word counters carry their bounds as hypotheses.

  \<^bold>\<open>What is not modelled.\<close> Weak memory: accesses are sequentially consistent, which is what the fences are placed for.
  Spurious wakes in \<open>Krio_Run\<close> (they only make a loop look again). The functions that panic on targets without a switch,
  the unwinder information of Windows, the texts of errors, the address \<open>park_slot_addr\<close> hands to the host, the drop of
  boxed tasks that a scheduler does after they completed, and the examples and the browser demo. The slot counter of the
  asynchronous transform wraps in the model where a build with overflow checks panics, after \<open>2 ^ 32\<close> slots.
\<close>

end
